(* ===== verification/Prelude.thy ===== *)
theory Prelude
  imports Main "HOL-Library.Code_Target_Numeral" "HOL-Library.Word" "HOL-Library.Sublist" "HOL-Library.Multiset"
begin

unbundle bit_operations_syntax

text \<open>
  Shared vocabulary of the development: the machine integers of the Rust code as words of the
  same width, UTF-8 strings as lists of bytes (a \<^typ>\<open>char\<close> is one byte, so \<^term>\<open>length\<close> is
  Rust's \<open>str::len\<close>), the \<open>Result\<close> type as a sum whose left side is the error, and the parts of
  the standard library's \<open>str\<close>, \<open>slice\<close> and integer interfaces the components use.  Each group of
  functions comes with the lemmas the component proofs share; the collection \<open>str_simps\<close>
  holds those the simplifier should know.
\<close>

named_theorems str_simps \<open>rewrite rules on the string operations\<close>

type_synonym u8 = "8 word"
type_synonym u16 = "16 word"
type_synonym u32 = "32 word"
type_synonym u64 = "64 word"
type_synonym u128 = "128 word"
type_synonym bytes = "u8 list"
type_synonym str = string
type_synonym ('e, 'a) result = "'e + 'a"

section \<open>Results\<close>

text \<open>\<open>and_then\<close> is the \<open>?\<close> operator: an error returns early, a value continues.\<close>

fun and_then :: "('e, 'a) result \<Rightarrow> ('a \<Rightarrow> ('e, 'b) result) \<Rightarrow> ('e, 'b) result" where
  "and_then (Inl e) f = Inl e"
| "and_then (Inr x) f = f x"

definition ok_or :: "'e \<Rightarrow> 'a option \<Rightarrow> ('e, 'a) result" where
  "ok_or e v = (case v of None \<Rightarrow> Inl e | Some x \<Rightarrow> Inr x)"

fun ok :: "('e, 'a) result \<Rightarrow> 'a option" where
  "ok (Inl e) = None"
| "ok (Inr x) = Some x"

text \<open>\<open>iter().map(f).collect::<Result<Vec<_>, _>>()\<close>: the first error wins.\<close>

fun try_map :: "('a \<Rightarrow> ('e, 'b) result) \<Rightarrow> 'a list \<Rightarrow> ('e, 'b list) result" where
  "try_map f [] = Inr []"
| "try_map f (x # xs) = and_then (f x) (\<lambda>y. and_then (try_map f xs) (\<lambda>ys. Inr (y # ys)))"

lemma and_then_Inr_iff [simp]:
  "and_then r f = Inr y \<longleftrightarrow> (\<exists>x. r = Inr x \<and> f x = Inr y)"
  by (cases r) auto

lemma and_then_Inl_iff:
  "and_then r f = Inl e \<longleftrightarrow> r = Inl e \<or> (\<exists>x. r = Inr x \<and> f x = Inl e)"
  by (cases r) auto

lemma ok_or_Inr_iff [simp]: "ok_or e v = Inr x \<longleftrightarrow> v = Some x"
  by (auto simp: ok_or_def split: option.splits)

lemma ok_or_Inl_iff [simp]: "ok_or e v = Inl e' \<longleftrightarrow> v = None \<and> e' = e"
  by (auto simp: ok_or_def split: option.splits)

lemma ok_Some_iff [simp]: "ok r = Some x \<longleftrightarrow> r = Inr x"
  by (cases r) auto

lemma ok_None_iff [simp]: "ok r = None \<longleftrightarrow> (\<exists>e. r = Inl e)"
  by (cases r) auto

lemma try_map_Inr_iff: "try_map f xs = Inr ys \<longleftrightarrow> list_all2 (\<lambda>x y. f x = Inr y) xs ys"
  by (induction xs arbitrary: ys) (auto simp: list_all2_Cons1)

lemma try_map_length: "try_map f xs = Inr ys \<Longrightarrow> length ys = length xs"
  by (auto simp: try_map_Inr_iff dest: list_all2_lengthD)

lemma try_map_InlD: "try_map f xs = Inl e \<Longrightarrow> \<exists>x \<in> set xs. f x = Inl e"
  by (induction xs) (auto simp: and_then_Inl_iff)

lemma try_map_fails_iff: "(\<exists>e. try_map f xs = Inl e) \<longleftrightarrow> (\<exists>x \<in> set xs. \<exists>e. f x = Inl e)"
proof (induction xs)
  case Nil
  then show ?case by simp
next
  case (Cons a xs)
  then show ?case by (cases "f a") (auto simp: and_then_Inl_iff)
qed

section \<open>Splitting and trimming\<close>

text \<open>\<open>str::split(c)\<close>: the pieces between the separators, never an empty list.\<close>

fun split_on :: "'a \<Rightarrow> 'a list \<Rightarrow> 'a list list" where
  "split_on c [] = [[]]"
| "split_on c (x # xs) =
     (if x = c then [] # split_on c xs
      else case split_on c xs of [] \<Rightarrow> [[x]] | p # ps \<Rightarrow> (x # p) # ps)"

text \<open>\<open>str::split_once(c)\<close> and \<open>str::rsplit_once(c)\<close>: at the first and the last separator.\<close>

fun split_once :: "'a \<Rightarrow> 'a list \<Rightarrow> ('a list \<times> 'a list) option" where
  "split_once c [] = None"
| "split_once c (x # xs) =
     (if x = c then Some ([], xs) else map_option (\<lambda>(l, r). (x # l, r)) (split_once c xs))"

definition rsplit_once :: "'a \<Rightarrow> 'a list \<Rightarrow> ('a list \<times> 'a list) option" where
  "rsplit_once c xs = map_option (\<lambda>(l, r). (rev r, rev l)) (split_once c (rev xs))"

fun strip_prefix :: "'a list \<Rightarrow> 'a list \<Rightarrow> 'a list option" where
  "strip_prefix [] ys = Some ys"
| "strip_prefix (x # xs) [] = None"
| "strip_prefix (x # xs) (y # ys) = (if x = y then strip_prefix xs ys else None)"

definition strip_suffix :: "'a list \<Rightarrow> 'a list \<Rightarrow> 'a list option" where
  "strip_suffix sfx ys = map_option rev (strip_prefix (rev sfx) (rev ys))"

definition starts_with :: "'a list \<Rightarrow> 'a list \<Rightarrow> bool" where
  "starts_with p ys \<longleftrightarrow> strip_prefix p ys \<noteq> None"

definition ends_with :: "'a list \<Rightarrow> 'a list \<Rightarrow> bool" where
  "ends_with s ys \<longleftrightarrow> strip_suffix s ys \<noteq> None"

text \<open>\<open>str::contains(pat)\<close> and \<open>str::split_once(pat)\<close> for a string pattern.\<close>

fun contains_str :: "'a list \<Rightarrow> 'a list \<Rightarrow> bool" where
  "contains_str p [] \<longleftrightarrow> p = []"
| "contains_str p (x # xs) \<longleftrightarrow> starts_with p (x # xs) \<or> contains_str p xs"

fun split_once_str :: "'a list \<Rightarrow> 'a list \<Rightarrow> ('a list \<times> 'a list) option" where
  "split_once_str p [] = (if p = [] then Some ([], []) else None)"
| "split_once_str p (x # xs) =
     (case strip_prefix p (x # xs) of
        Some r \<Rightarrow> Some ([], r)
      | None \<Rightarrow> map_option (\<lambda>(l, r). (x # l, r)) (split_once_str p xs))"

text \<open>\<open>trim_end_matches(c)\<close> and \<open>trim_start_matches(c)\<close> for a single character.\<close>

definition trim_end_matches :: "'a \<Rightarrow> 'a list \<Rightarrow> 'a list" where
  "trim_end_matches c xs = rev (dropWhile (\<lambda>x. x = c) (rev xs))"

definition trim_start_matches :: "'a \<Rightarrow> 'a list \<Rightarrow> 'a list" where
  "trim_start_matches c xs = dropWhile (\<lambda>x. x = c) xs"

lemma split_on_not_Nil [simp]: "split_on c xs \<noteq> []"
  by (cases xs) (auto split: list.splits)

lemma split_on_free: "c \<notin> set xs \<Longrightarrow> split_on c xs = [xs]"
  by (induction xs) auto

lemma split_on_append:
  "c \<notin> set xs \<Longrightarrow> split_on c (xs @ c # ys) = xs # split_on c ys"
  by (induction xs) auto

lemma split_on_pieces_free: "p \<in> set (split_on c xs) \<Longrightarrow> c \<notin> set p"
  by (induction xs arbitrary: p) (auto split: if_splits list.splits)

fun join :: "'a list \<Rightarrow> 'a list list \<Rightarrow> 'a list" where
  "join sep [] = []"
| "join sep [x] = x"
| "join sep (x # y # xs) = x @ sep @ join sep (y # xs)"

lemma split_on_join:
  "ps \<noteq> [] \<Longrightarrow> (\<forall>p \<in> set ps. c \<notin> set p) \<Longrightarrow> split_on c (join [c] ps) = ps"
  by (induction "[c]" ps rule: join.induct) (auto simp: split_on_append split_on_free)

lemma join_split_on: "join [c] (split_on c xs) = xs"
proof (induction xs)
  case Nil
  then show ?case by simp
next
  case (Cons x xs)
  then show ?case
    by (cases "split_on c xs"; cases "tl (split_on c xs)") (auto split: list.splits)
qed

lemma split_once_Some_iff:
  "split_once c xs = Some (l, r) \<longleftrightarrow> xs = l @ c # r \<and> c \<notin> set l"
proof (induction xs arbitrary: l)
  case Nil
  then show ?case by simp
next
  case (Cons x xs)
  then show ?case by (cases l) auto
qed

lemma split_once_None_iff: "split_once c xs = None \<longleftrightarrow> c \<notin> set xs"
  by (induction xs) auto

lemma rsplit_once_Some_iff:
  "rsplit_once c xs = Some (l, r) \<longleftrightarrow> xs = l @ c # r \<and> c \<notin> set r"
proof -
  have "rsplit_once c xs = Some (l, r) \<longleftrightarrow> split_once c (rev xs) = Some (rev r, rev l)"
    by (auto simp: rsplit_once_def)
  also have "\<dots> \<longleftrightarrow> rev xs = rev (l @ c # r) \<and> c \<notin> set r"
    by (simp add: split_once_Some_iff)
  finally show ?thesis by (simp only: rev_is_rev_conv)
qed

lemma rsplit_once_None_iff: "rsplit_once c xs = None \<longleftrightarrow> c \<notin> set xs"
  by (simp add: rsplit_once_def split_once_None_iff)

lemma strip_prefix_Some_iff: "strip_prefix p ys = Some r \<longleftrightarrow> ys = p @ r"
  by (induction p ys rule: strip_prefix.induct) auto

lemma strip_prefix_append [str_simps, simp]: "strip_prefix p (p @ r) = Some r"
  by (simp add: strip_prefix_Some_iff)

lemma strip_suffix_Some_iff: "strip_suffix s ys = Some r \<longleftrightarrow> ys = r @ s"
proof -
  have "strip_suffix s ys = Some r \<longleftrightarrow> strip_prefix (rev s) (rev ys) = Some (rev r)"
    by (auto simp: strip_suffix_def)
  also have "\<dots> \<longleftrightarrow> rev ys = rev (r @ s)"
    by (simp add: strip_prefix_Some_iff)
  finally show ?thesis by (simp only: rev_is_rev_conv)
qed

lemma starts_with_iff: "starts_with p ys \<longleftrightarrow> (\<exists>r. ys = p @ r)"
  by (auto simp: starts_with_def strip_prefix_Some_iff)

lemma ends_with_iff: "ends_with s ys \<longleftrightarrow> (\<exists>r. ys = r @ s)"
  by (auto simp: ends_with_def strip_suffix_Some_iff)

lemma split_once_str_SomeD: "split_once_str p xs = Some (l, r) \<Longrightarrow> xs = l @ p @ r"
proof (induction xs arbitrary: l)
  case Nil
  then show ?case by (simp split: if_splits)
next
  case (Cons x xs)
  then show ?case by (auto simp: strip_prefix_Some_iff split: option.splits)
qed

lemma trim_end_matches_decomp:
  "\<exists>n. xs = trim_end_matches c xs @ replicate n c"
proof -
  have "rev xs = takeWhile (\<lambda>x. x = c) (rev xs) @ dropWhile (\<lambda>x. x = c) (rev xs)"
    by simp
  moreover have "takeWhile (\<lambda>x. x = c) (rev xs) = replicate (length (takeWhile (\<lambda>x. x = c) (rev xs))) c"
    by (rule replicate_eqI) (auto dest: set_takeWhileD)
  ultimately have "xs = trim_end_matches c xs @ replicate (length (takeWhile (\<lambda>x. x = c) (rev xs))) c"
    unfolding trim_end_matches_def
    by (metis rev_append rev_replicate rev_rev_ident)
  then show ?thesis by blast
qed

lemma trim_end_matches_last: "trim_end_matches c xs \<noteq> [] \<Longrightarrow> last (trim_end_matches c xs) \<noteq> c"
  unfolding trim_end_matches_def
  by (metis (mono_tags) dropWhile_eq_Nil_conv hd_dropWhile last_rev rev_is_Nil_conv)

end
