(* ===== verification/Text_Num.thy ===== *)
theory Text_Num
  imports Prelude
begin

text \<open>
  Characters and numerals of the standard library: \<open>char::to_digit\<close>, \<open>from_str_radix\<close> and
  \<open>FromStr\<close> for the unsigned integers, decimal \<open>Display\<close>, ASCII case folding, and the Unicode
  white space that \<open>trim\<close> and \<open>split_whitespace\<close> remove.  Strings are UTF-8 bytes, so a white
  space character is one of the byte sequences of \<open>ws_chars\<close>.
\<close>

section \<open>Digits and numerals\<close>

definition to_digit :: "nat \<Rightarrow> char \<Rightarrow> nat option" where
  "to_digit radix c =
     (let n = (of_char c :: nat);
          d = (if 48 \<le> n \<and> n \<le> 57 then Some (n - 48)
               else if 97 \<le> n \<and> n \<le> 122 then Some (n - 87)
               else if 65 \<le> n \<and> n \<le> 90 then Some (n - 55)
               else None)
      in case d of None \<Rightarrow> None | Some v \<Rightarrow> if v < radix then Some v else None)"

definition is_digit :: "nat \<Rightarrow> char \<Rightarrow> bool" where
  "is_digit radix c \<longleftrightarrow> to_digit radix c \<noteq> None"

definition digits_value :: "nat \<Rightarrow> str \<Rightarrow> nat" where
  "digits_value radix s = foldl (\<lambda>a c. a * radix + the (to_digit radix c)) 0 s"

text \<open>
  \<open>parse_uint radix bound\<close> is \<open>uN::from_str_radix(s, radix).ok()\<close> for \<open>bound = 2^N\<close>: one leading
  \<open>+\<close> is accepted, every other character must be a digit, and overflow is an error.
\<close>

definition parse_uint :: "nat \<Rightarrow> nat \<Rightarrow> str \<Rightarrow> nat option" where
  "parse_uint radix bound s =
     (let ds = (case s of c # r \<Rightarrow> if c = CHR ''+'' then r else s | [] \<Rightarrow> [])
      in if ds = [] \<or> \<not> list_all (is_digit radix) ds then None
         else let v = digits_value radix ds in if v < bound then Some v else None)"

definition digit_char :: "nat \<Rightarrow> char" where
  "digit_char d = char_of (if d < 10 then d + 48 else d + 55)"

fun show_nat :: "nat \<Rightarrow> str" where
  "show_nat n = (if n < 10 then [digit_char n] else show_nat (n div 10) @ [digit_char (n mod 10)])"

declare show_nat.simps [simp del]

lemma of_char_digit_char: "d < 16 \<Longrightarrow> (of_char (digit_char d) :: nat) = (if d < 10 then d + 48 else d + 55)"
  by (simp add: digit_char_def)

lemma to_digit_digit_char:
  assumes "d < radix" and "radix \<le> 16"
  shows "to_digit radix (digit_char d) = Some d"
  using assms of_char_digit_char [of d] by (auto simp: to_digit_def Let_def)

lemma to_digit_lt: "to_digit radix c = Some d \<Longrightarrow> d < radix"
  by (auto simp: to_digit_def Let_def split: option.splits if_splits)

lemma digits_value_snoc: "digits_value radix (s @ [c]) = digits_value radix s * radix + the (to_digit radix c)"
  by (simp add: digits_value_def)

lemma show_nat_not_Nil [simp]: "show_nat n \<noteq> []"
  by (subst show_nat.simps) simp

lemma show_nat_digits: "list_all (is_digit 10) (show_nat n)"
proof (induction n rule: show_nat.induct)
  case (1 n)
  have "is_digit 10 (digit_char d)" if "d < 10" for d
    using that by (simp add: is_digit_def to_digit_digit_char)
  with 1 show ?case
    by (subst show_nat.simps) simp
qed

lemma digits_value_show_nat: "digits_value 10 (show_nat n) = n"
proof (induction n rule: show_nat.induct)
  case (1 n)
  then show ?case
    by (subst show_nat.simps) (auto simp: digits_value_snoc digits_value_def [of 10 "[_]"] to_digit_digit_char)
qed

lemma is_digit_not_plus: "radix \<le> 16 \<Longrightarrow> \<not> is_digit radix CHR ''+''"
  by (simp add: is_digit_def to_digit_def)

lemma parse_uint_digits:
  assumes "s \<noteq> []" and "list_all (is_digit radix) s" and "radix \<le> 16"
  shows "parse_uint radix bound s =
    (if digits_value radix s < bound then Some (digits_value radix s) else None)"
proof -
  have "hd s \<noteq> CHR ''+''"
    using assms is_digit_not_plus [of radix] by (cases s) auto
  with assms show ?thesis
    by (auto simp: parse_uint_def Let_def split: list.splits)
qed

lemma parse_uint_show_nat [str_simps]:
  "parse_uint 10 bound (show_nat n) = (if n < bound then Some n else None)"
  by (simp add: parse_uint_digits show_nat_digits digits_value_show_nat)

lemma parse_uint_lt: "parse_uint radix bound s = Some v \<Longrightarrow> v < bound"
  by (auto simp: parse_uint_def Let_def split: if_splits)

lemma show_nat_char_range: "c \<in> set (show_nat n) \<Longrightarrow> 48 \<le> (of_char c :: nat) \<and> (of_char c :: nat) \<le> 57"
proof (induction n rule: show_nat.induct)
  case (1 n)
  from "1.prems" show ?case
    by (subst (asm) show_nat.simps)
       (auto simp: of_char_digit_char split: if_splits dest: "1.IH")
qed

lemma show_nat_free:
  "(of_char c :: nat) < 48 \<or> 57 < (of_char c :: nat) \<Longrightarrow> c \<notin> set (show_nat n)"
  using show_nat_char_range [of c n] by auto

section \<open>ASCII case\<close>

definition to_ascii_lower :: "char \<Rightarrow> char" where
  "to_ascii_lower c = (let n = (of_char c :: nat) in if 65 \<le> n \<and> n \<le> 90 then char_of (n + 32) else c)"

definition ascii_lowercase :: "str \<Rightarrow> str" where
  "ascii_lowercase s = map to_ascii_lower s"

definition eq_ignore_ascii_case :: "str \<Rightarrow> str \<Rightarrow> bool" where
  "eq_ignore_ascii_case a b \<longleftrightarrow> ascii_lowercase a = ascii_lowercase b"

lemma to_ascii_lower_idem [simp]: "to_ascii_lower (to_ascii_lower c) = to_ascii_lower c"
  by (simp add: to_ascii_lower_def Let_def)

lemma ascii_lowercase_idem [simp]: "ascii_lowercase (ascii_lowercase s) = ascii_lowercase s"
  by (simp add: ascii_lowercase_def)

lemma length_ascii_lowercase [simp]: "length (ascii_lowercase s) = length s"
  by (simp add: ascii_lowercase_def)

lemma to_ascii_lower_fixed_iff:
  "\<not> (65 \<le> (of_char d :: nat) \<and> (of_char d :: nat) \<le> 90) \<Longrightarrow>
   \<not> (97 \<le> (of_char d :: nat) \<and> (of_char d :: nat) \<le> 122) \<Longrightarrow> to_ascii_lower c = d \<longleftrightarrow> c = d"
  by (auto simp: to_ascii_lower_def Let_def)

section \<open>White space\<close>

text \<open>The UTF-8 encodings of the characters with the Unicode property \<open>White_Space\<close>.\<close>

definition ws_chars :: "str list" where
  "ws_chars = map (map char_of)
     [[9::nat], [10], [11], [12], [13], [32], [194, 133], [194, 160], [225, 154, 128],
      [226, 128, 128], [226, 128, 129], [226, 128, 130], [226, 128, 131], [226, 128, 132],
      [226, 128, 133], [226, 128, 134], [226, 128, 135], [226, 128, 136], [226, 128, 137],
      [226, 128, 138], [226, 128, 168], [226, 128, 169], [226, 128, 175], [226, 129, 159],
      [227, 128, 128]]"

definition ws_prefix :: "str \<Rightarrow> str option" where
  "ws_prefix s = find (\<lambda>w. starts_with w s) ws_chars"

definition ws_suffix :: "str \<Rightarrow> str option" where
  "ws_suffix s = find (\<lambda>w. ends_with w s) ws_chars"

lemma ws_chars_nonempty: "w \<in> set ws_chars \<Longrightarrow> w \<noteq> []"
  by (auto simp: ws_chars_def)

lemma ws_prefix_SomeD: "ws_prefix s = Some w \<Longrightarrow> w \<in> set ws_chars \<and> w \<noteq> [] \<and> (\<exists>r. s = w @ r)"
  unfolding ws_prefix_def
  by (auto simp: find_Some_iff starts_with_iff dest!: nth_mem dest: ws_chars_nonempty)

lemma ws_suffix_SomeD: "ws_suffix s = Some w \<Longrightarrow> w \<in> set ws_chars \<and> w \<noteq> [] \<and> (\<exists>r. s = r @ w)"
  unfolding ws_suffix_def
  by (auto simp: find_Some_iff ends_with_iff dest!: nth_mem dest: ws_chars_nonempty)

function trim_start :: "str \<Rightarrow> str" where
  "trim_start s = (case ws_prefix s of None \<Rightarrow> s | Some w \<Rightarrow> trim_start (drop (length w) s))"
  by pat_completeness auto
termination
  by (relation "measure length") (auto dest!: ws_prefix_SomeD)

function trim_end :: "str \<Rightarrow> str" where
  "trim_end s = (case ws_suffix s of None \<Rightarrow> s | Some w \<Rightarrow> trim_end (take (length s - length w) s))"
  by pat_completeness auto
termination
  by (relation "measure length") (auto dest!: ws_suffix_SomeD)

declare trim_start.simps [simp del] trim_end.simps [simp del]

definition trim :: "str \<Rightarrow> str" where
  "trim s = trim_end (trim_start s)"

text \<open>
  \<open>split_whitespace\<close>: the maximal runs without white space; \<open>acc\<close> is the current run, reversed.
\<close>

function split_ws_from :: "str \<Rightarrow> str \<Rightarrow> str list" where
  "split_ws_from acc s =
     (case s of [] \<Rightarrow> (if acc = [] then [] else [rev acc])
      | c # r \<Rightarrow>
          (case ws_prefix s of
             Some w \<Rightarrow> (if acc = [] then [] else [rev acc]) @ split_ws_from [] (drop (length w) s)
           | None \<Rightarrow> split_ws_from (c # acc) r))"
  by pat_completeness auto
termination
  by (relation "measure (\<lambda>(acc, s). length s)") (auto dest!: ws_prefix_SomeD)

declare split_ws_from.simps [simp del]

definition split_whitespace :: "str \<Rightarrow> str list" where
  "split_whitespace s = split_ws_from [] s"

end
