(* ===== verification/Bytes.thy ===== *)
theory Bytes
  imports Text_Num
begin

text \<open>
  Big-endian integers (\<open>to_be_bytes\<close>, \<open>from_be_bytes\<close>) and the interface every length-delimited
  wire format of the program offers: an encoder, and a decoder that consumes exactly the encoder's
  bytes and hands back the rest.  The locale \<open>codec\<close> states that law once; what follows from it
  (a sequence of frames decodes to itself, encodings are never ambiguous) is proved inside and
  reaches the components through their interpretations.
\<close>

fun to_be :: "nat \<Rightarrow> nat \<Rightarrow> bytes" where
  "to_be 0 n = []"
| "to_be (Suc k) n = to_be k (n div 256) @ [of_nat (n mod 256)]"

definition from_be :: "bytes \<Rightarrow> nat" where
  "from_be bs = foldl (\<lambda>a b. a * 256 + unat b) 0 bs"

lemma length_to_be [simp]: "length (to_be k n) = k"
  by (induction k arbitrary: n) auto

lemma from_be_snoc: "from_be (bs @ [b]) = from_be bs * 256 + unat b"
  by (simp add: from_be_def)

lemma from_be_Nil [simp]: "from_be [] = 0"
  by (simp add: from_be_def)

lemma from_be_to_be: "from_be (to_be k n) = n mod 256 ^ k"
proof (induction k arbitrary: n)
  case 0
  then show ?case by simp
next
  case (Suc k)
  have "from_be (to_be (Suc k) n) = (n div 256) mod 256 ^ k * 256 + n mod 256"
    using Suc by (simp add: from_be_snoc unat_of_nat)
  also have "\<dots> = n mod (256 * 256 ^ k)"
    by (simp add: mod_mult2_eq)
  finally show ?case by simp
qed

lemma from_be_to_be_id [simp]: "n < 256 ^ k \<Longrightarrow> from_be (to_be k n) = n"
  by (simp add: from_be_to_be)

lemma from_be_lt: "from_be bs < 256 ^ length bs"
proof (induction bs rule: rev_induct)
  case Nil
  then show ?case by simp
next
  case (snoc b bs)
  have "unat b < 256" using unsigned_less [of b] by simp
  with snoc show ?case by (simp add: from_be_snoc)
qed

lemma to_be_from_be [simp]: "to_be (length bs) (from_be bs) = bs"
proof (induction bs rule: rev_induct)
  case Nil
  then show ?case by simp
next
  case (snoc b bs)
  have b: "unat b < 256" using unsigned_less [of b] by simp
  then have "(from_be bs * 256 + unat b) div 256 = from_be bs"
    and "(from_be bs * 256 + unat b) mod 256 = unat b" by simp_all
  with snoc show ?case by (simp add: from_be_snoc)
qed

lemma to_be_inject:
  "n < 256 ^ k \<Longrightarrow> m < 256 ^ k \<Longrightarrow> to_be k n = to_be k m \<longleftrightarrow> n = m"
  by (metis from_be_to_be_id)

text \<open>\<open>slice.get(..n)\<close> followed by dropping those bytes: \<open>None\<close> when fewer than \<open>n\<close> remain.\<close>

definition take_bytes :: "nat \<Rightarrow> 'a list \<Rightarrow> ('a list \<times> 'a list) option" where
  "take_bytes n bs = (if n \<le> length bs then Some (take n bs, drop n bs) else None)"

lemma take_bytes_append [simp]: "length xs = n \<Longrightarrow> take_bytes n (xs @ ys) = Some (xs, ys)"
  by (simp add: take_bytes_def)

lemma take_bytes_Some_iff:
  "take_bytes n bs = Some (xs, ys) \<longleftrightarrow> bs = xs @ ys \<and> length xs = n"
  by (auto simp: take_bytes_def append_eq_conv_conj)

section \<open>Codecs\<close>

locale codec =
  fixes enc :: "'a \<Rightarrow> 'b list"
    and dec :: "'b list \<Rightarrow> ('a \<times> 'b list) option"
    and valid :: "'a \<Rightarrow> bool"
  assumes dec_enc: "valid x \<Longrightarrow> dec (enc x @ rest) = Some (x, rest)"
begin

text \<open>No two valid values share a prefix of the wire: framing is unambiguous.\<close>

lemma enc_prefix_free:
  assumes "valid x" and "valid y" and "enc x @ r = enc y @ s"
  shows "x = y \<and> r = s"
proof -
  have "Some (x, r) = dec (enc x @ r)" using assms(1) by (rule dec_enc [symmetric])
  also have "\<dots> = dec (enc y @ s)" by (simp only: assms(3))
  also have "\<dots> = Some (y, s)" using assms(2) by (rule dec_enc)
  finally show ?thesis by simp
qed

lemma enc_inj: "valid x \<Longrightarrow> valid y \<Longrightarrow> enc x = enc y \<Longrightarrow> x = y"
  using enc_prefix_free [of x y "[]" "[]"] by simp

end

text \<open>Decoding at most \<open>n\<close> frames off a buffer; a frame that does not decode ends the run.\<close>

fun decode_frames :: "('b list \<Rightarrow> ('a \<times> 'b list) option) \<Rightarrow> nat \<Rightarrow> 'b list \<Rightarrow> 'a list" where
  "decode_frames dec 0 bs = []"
| "decode_frames dec (Suc n) bs =
     (case dec bs of None \<Rightarrow> [] | Some (x, rest) \<Rightarrow> x # decode_frames dec n rest)"

context codec
begin

lemma decode_frames_concat:
  assumes "list_all valid xs" and "dec [] = None" and "length xs \<le> n"
  shows "decode_frames dec n (concat (map enc xs)) = xs"
  using assms
proof (induction xs arbitrary: n)
  case Nil
  then show ?case by (cases n) auto
next
  case (Cons x xs)
  then obtain m where "n = Suc m" by (cases n) auto
  with Cons show ?case by (simp add: dec_enc)
qed

end

text \<open>The fixed-width big-endian integers are codecs.\<close>

definition enc_uint :: "nat \<Rightarrow> nat \<Rightarrow> bytes" where
  "enc_uint k n = to_be k n"

definition dec_uint :: "nat \<Rightarrow> bytes \<Rightarrow> (nat \<times> bytes) option" where
  "dec_uint k bs = map_option (\<lambda>(x, r). (from_be x, r)) (take_bytes k bs)"

interpretation uint: codec "enc_uint k" "dec_uint k" "\<lambda>n. n < 256 ^ k" for k
  by unfold_locales (simp add: enc_uint_def dec_uint_def)

end
