(* ===== verification/NetAddr.thy ===== *)
theory NetAddr
  imports Bytes "HOL-Library.Monad_Syntax"
begin

text \<open>
  The part of \<open>std::net\<close> the program uses.  An \<open>Ipv4Addr\<close> is its 32 bits and an \<open>Ipv6Addr\<close> its
  128 bits in network order (\<open>u32::from\<close>, \<open>u128::from\<close>); octets and hextets are read off
  them.  The parsers follow the standard library's recursive descent parser: at most three decimal
  digits without a leading zero per octet, at most four hexadecimal digits per group, one \<open>::\<close>
  standing for at least one group, and an embedded IPv4 tail where two groups are left.
\<close>

datatype ip_addr = V4 u32 | V6 u128

record socket_addr =
  sa_ip :: ip_addr
  sa_port :: u16
  sa_scope :: u32

section \<open>Octets, hextets and address classes\<close>

definition v4_octet :: "u32 \<Rightarrow> nat \<Rightarrow> u8" where
  "v4_octet a i = ucast (drop_bit (8 * (3 - i)) a)"

definition v4_octets :: "u32 \<Rightarrow> u8 list" where
  "v4_octets a = map (v4_octet a) [0, 1, 2, 3]"

definition v6_segment :: "u128 \<Rightarrow> nat \<Rightarrow> u16" where
  "v6_segment a i = ucast (drop_bit (16 * (7 - i)) a)"

definition v6_segments :: "u128 \<Rightarrow> u16 list" where
  "v6_segments a = map (v6_segment a) [0, 1, 2, 3, 4, 5, 6, 7]"

definition v6_octets :: "u128 \<Rightarrow> u8 list" where
  "v6_octets a = map (\<lambda>i. ucast (drop_bit (8 * (15 - i)) a)) [0..<16]"

definition v4_of_octets :: "nat list \<Rightarrow> u32" where
  "v4_of_octets os = of_nat (foldl (\<lambda>a b. a * 256 + b) 0 os)"

definition v6_of_segments :: "nat list \<Rightarrow> u128" where
  "v6_of_segments gs = of_nat (foldl (\<lambda>a b. a * 65536 + b) 0 gs)"

definition to_ipv4_mapped :: "u128 \<Rightarrow> u32 option" where
  "to_ipv4_mapped a = (if drop_bit 32 a = 0xffff then Some (ucast a) else None)"

definition mapped_v6 :: "u32 \<Rightarrow> u128" where
  "mapped_v6 a = push_bit 32 0xffff OR ucast a"

fun is_loopback :: "ip_addr \<Rightarrow> bool" where
  "is_loopback (V4 a) \<longleftrightarrow> v4_octet a 0 = 127"
| "is_loopback (V6 a) \<longleftrightarrow> a = 1"

fun is_unspecified :: "ip_addr \<Rightarrow> bool" where
  "is_unspecified (V4 a) \<longleftrightarrow> a = 0"
| "is_unspecified (V6 a) \<longleftrightarrow> a = 0"

fun is_ipv4 :: "ip_addr \<Rightarrow> bool" where
  "is_ipv4 (V4 a) = True"
| "is_ipv4 (V6 a) = False"

text \<open>An IPv4-mapped IPv6 address stands for the IPv4 address it carries.\<close>

fun to_canonical :: "ip_addr \<Rightarrow> ip_addr" where
  "to_canonical (V4 a) = V4 a"
| "to_canonical (V6 a) = (case to_ipv4_mapped a of Some v4 \<Rightarrow> V4 v4 | None \<Rightarrow> V6 a)"

lemma bit_ffff: "bit (0xffff :: u128) j \<longleftrightarrow> j < 16"
proof -
  have "(0xffff :: u128) = mask 16" by (simp add: mask_eq_exp_minus_1)
  then have "bit (0xffff :: u128) j \<longleftrightarrow> bit (mask 16 :: u128) j" by (simp only:)
  then show ?thesis by (auto simp: bit_mask_iff)
qed

lemma bit_mapped_v6:
  "bit (mapped_v6 a) k \<longleftrightarrow> (k < 32 \<and> bit a k) \<or> (32 \<le> k \<and> k < 48)"
  using bit_imp_le_length [of a k]
  unfolding mapped_v6_def bit_or_iff bit_push_bit_iff bit_ucast_iff bit_ffff by auto

lemma drop_bit_mapped_v6: "drop_bit 32 (mapped_v6 a) = 0xffff"
  by (rule bit_eqI, unfold bit_drop_bit_eq o_apply bit_mapped_v6 bit_ffff) auto

lemma to_ipv4_mapped_mapped [simp]: "to_ipv4_mapped (mapped_v6 a) = Some a"
proof -
  have "(ucast (mapped_v6 a) :: u32) = a"
    by (rule bit_eqI) (auto simp: bit_ucast_iff bit_mapped_v6)
  then show ?thesis by (simp add: to_ipv4_mapped_def drop_bit_mapped_v6)
qed

lemma to_ipv4_mapped_Some_iff: "to_ipv4_mapped b = Some a \<longleftrightarrow> b = mapped_v6 a"
proof
  assume "to_ipv4_mapped b = Some a"
  then have d: "drop_bit 32 b = 0xffff" and a: "a = ucast b"
    by (auto simp: to_ipv4_mapped_def split: if_splits)
  show "b = mapped_v6 a"
  proof (rule bit_eqI)
    fix k
    assume "possible_bit TYPE(128 word) k"
    then have k: "k < 128" by simp
    show "bit b k \<longleftrightarrow> bit (mapped_v6 a) k"
    proof (cases "k < 32")
      case True
      then show ?thesis by (simp add: a bit_mapped_v6 bit_ucast_iff)
    next
      case False
      then have "bit b k \<longleftrightarrow> bit (drop_bit 32 b) (k - 32)" by (simp add: bit_drop_bit_eq)
      also have "\<dots> \<longleftrightarrow> bit (drop_bit 32 (mapped_v6 a)) (k - 32)"
        by (simp only: d drop_bit_mapped_v6)
      also have "\<dots> \<longleftrightarrow> bit (mapped_v6 a) k" using False by (simp add: bit_drop_bit_eq)
      finally show ?thesis .
    qed
  qed
qed simp

lemma mapped_v6_inject [simp]: "mapped_v6 a = mapped_v6 b \<longleftrightarrow> a = b"
  by (metis option.inject to_ipv4_mapped_mapped)

lemma to_canonical_mapped [simp]: "to_canonical (V6 (mapped_v6 a)) = V4 a"
  by simp

lemma to_canonical_idem [simp]: "to_canonical (to_canonical ip) = to_canonical ip"
  by (cases ip) (auto split: option.splits)

section \<open>Parsers\<close>

definition read_number :: "nat \<Rightarrow> nat option \<Rightarrow> bool \<Rightarrow> nat \<Rightarrow> str \<Rightarrow> (nat \<times> str) option" where
  "read_number radix max_digits zero_ok bound s =
     (let ds = takeWhile (is_digit radix) s; r = dropWhile (is_digit radix) s
      in if ds = [] then None
         else if (case max_digits of None \<Rightarrow> False | Some m \<Rightarrow> m < length ds) then None
         else if \<not> zero_ok \<and> hd ds = CHR ''0'' \<and> 1 < length ds then None
         else if digits_value radix ds < bound then Some (digits_value radix ds, r) else None)"

fun read_char :: "char \<Rightarrow> str \<Rightarrow> str option" where
  "read_char c [] = None"
| "read_char c (x # r) = (if x = c then Some r else None)"

definition read_octet :: "str \<Rightarrow> (nat \<times> str) option" where
  "read_octet = read_number 10 (Some 3) False 256"

definition read_ipv4_addr :: "str \<Rightarrow> (u32 \<times> str) option" where
  "read_ipv4_addr s = do {
     (a, s) \<leftarrow> read_octet s; s \<leftarrow> read_char CHR ''.'' s;
     (b, s) \<leftarrow> read_octet s; s \<leftarrow> read_char CHR ''.'' s;
     (c, s) \<leftarrow> read_octet s; s \<leftarrow> read_char CHR ''.'' s;
     (d, s) \<leftarrow> read_octet s;
     Some (v4_of_octets [a, b, c, d], s) }"

definition read_sep :: "nat \<Rightarrow> (str \<Rightarrow> 'a option) \<Rightarrow> str \<Rightarrow> 'a option" where
  "read_sep i p s = (if i = 0 then p s else do { r \<leftarrow> read_char CHR '':'' s; p r })"

text \<open>\<open>read_groups k i\<close>: up to \<open>k\<close> more groups, \<open>i\<close> already read; the flag reports an IPv4 tail.\<close>

fun read_groups :: "nat \<Rightarrow> nat \<Rightarrow> str \<Rightarrow> nat list \<times> bool \<times> str" where
  "read_groups 0 i s = ([], False, s)"
| "read_groups (Suc k) i s =
     (case (if k = 0 then None else read_sep i read_ipv4_addr s) of
        Some (a, r) \<Rightarrow> ([unat (drop_bit 16 a), unat (take_bit 16 a)], True, r)
      | None \<Rightarrow>
          (case read_sep i (read_number 16 (Some 4) True 65536) s of
             None \<Rightarrow> ([], False, s)
           | Some (g, r) \<Rightarrow> (let (gs, v4, r') = read_groups k (Suc i) r in (g # gs, v4, r'))))"

definition read_ipv6_addr :: "str \<Rightarrow> (u128 \<times> str) option" where
  "read_ipv6_addr s =
     (let (h, v4, r) = read_groups 8 0 s
      in if length h = 8 then Some (v6_of_segments h, r)
         else if v4 then None
         else do {
           r \<leftarrow> read_char CHR '':'' r; r \<leftarrow> read_char CHR '':'' r;
           (let (t, _, r') = read_groups (8 - (length h + 1)) 0 r
            in Some (v6_of_segments (h @ replicate (8 - (length h + length t)) 0 @ t), r')) })"

definition finish :: "('a \<times> str) option \<Rightarrow> 'a option" where
  "finish p = (case p of Some (x, r) \<Rightarrow> if r = [] then Some x else None | None \<Rightarrow> None)"

definition ipv6_from_str :: "str \<Rightarrow> u128 option" where
  "ipv6_from_str s = finish (read_ipv6_addr s)"

definition ip_from_str :: "str \<Rightarrow> ip_addr option" where
  "ip_from_str s =
     (case read_ipv4_addr s of
        Some (a, r) \<Rightarrow> if r = [] then Some (V4 a) else None
      | None \<Rightarrow> map_option V6 (ipv6_from_str s))"

definition read_port :: "str \<Rightarrow> (u16 \<times> str) option" where
  "read_port s = do { (n, r) \<leftarrow> read_number 10 None True 65536 s; Some (of_nat n, r) }"

definition read_scope :: "str \<Rightarrow> u32 \<times> str" where
  "read_scope s =
     (case (do { r \<leftarrow> read_char CHR ''%'' s; read_number 10 None True (2 ^ 32) r }) of
        Some (n, r) \<Rightarrow> (of_nat n, r) | None \<Rightarrow> (0, s))"

definition socket_from_str :: "str \<Rightarrow> socket_addr option" where
  "socket_from_str s =
     (case (do { (a, s) \<leftarrow> read_ipv4_addr s; s \<leftarrow> read_char CHR '':'' s; (p, s) \<leftarrow> read_port s;
                 Some (\<lparr>sa_ip = V4 a, sa_port = p, sa_scope = 0\<rparr>, s) }) of
        Some (x, r) \<Rightarrow> if r = [] then Some x else None
      | None \<Rightarrow> finish (do {
          s \<leftarrow> read_char CHR ''['' s; (a, s) \<leftarrow> read_ipv6_addr s;
          (let (sc, s) = read_scope s in do {
             s \<leftarrow> read_char CHR '']'' s; s \<leftarrow> read_char CHR '':'' s; (p, s) \<leftarrow> read_port s;
             Some (\<lparr>sa_ip = V6 a, sa_port = p, sa_scope = sc\<rparr>, s) }) }))"

section \<open>Printing\<close>

definition show_v4 :: "u32 \<Rightarrow> str" where
  "show_v4 a = join ''.'' (map (\<lambda>o'. show_nat (unat o')) (v4_octets a))"

definition hex_lower :: "nat \<Rightarrow> char" where
  "hex_lower d = char_of (if d < 10 then d + 48 else d + 87)"

fun show_hex :: "nat \<Rightarrow> str" where
  "show_hex n = (if n < 16 then [hex_lower n] else show_hex (n div 16) @ [hex_lower (n mod 16)])"

declare show_hex.simps [simp del]

text \<open>The first longest run of zero segments, as start and length.\<close>

definition zero_run_step :: "nat \<times> u16 \<Rightarrow> (nat \<times> nat) \<times> (nat \<times> nat) \<Rightarrow> (nat \<times> nat) \<times> (nat \<times> nat)" where
  "zero_run_step = (\<lambda>(i, segment) (longest, current).
     if segment = 0 then
       (let current = (if snd current = 0 then i else fst current, snd current + 1) in
        (if snd longest < snd current then current else longest, current))
     else (longest, (0, 0)))"

definition longest_zero_run :: "u16 list \<Rightarrow> nat \<times> nat" where
  "longest_zero_run segments =
     fst (fold zero_run_step (List.enumerate 0 segments) ((0, 0), (0, 0)))"

definition show_segments :: "u16 list \<Rightarrow> str" where
  "show_segments gs = join '':'' (map (\<lambda>g. show_hex (unat g)) gs)"

definition show_v6 :: "u128 \<Rightarrow> str" where
  "show_v6 a =
     (case to_ipv4_mapped a of
        Some v4 \<Rightarrow> ''::ffff:'' @ show_v4 v4
      | None \<Rightarrow>
          (let segments = v6_segments a; (start, len) = longest_zero_run segments in
           if 1 < len
           then show_segments (take start segments) @ ''::'' @ show_segments (drop (start + len) segments)
           else show_segments segments))"

fun show_ip :: "ip_addr \<Rightarrow> str" where
  "show_ip (V4 a) = show_v4 a"
| "show_ip (V6 a) = show_v6 a"

definition show_socket :: "socket_addr \<Rightarrow> str" where
  "show_socket sa =
     (case sa_ip sa of
        V4 a \<Rightarrow> show_v4 a @ '':'' @ show_nat (unat (sa_port sa))
      | V6 a \<Rightarrow> ''['' @ show_v6 a
                @ (if sa_scope sa = 0 then [] else ''%'' @ show_nat (unat (sa_scope sa)))
                @ '']:'' @ show_nat (unat (sa_port sa)))"

section \<open>Printed IPv4 addresses parse back\<close>

lemma show_nat_small: "n < 10 \<Longrightarrow> show_nat n = [digit_char n]"
  by (subst show_nat.simps) simp

lemma show_nat_step: "\<not> n < 10 \<Longrightarrow> show_nat n = show_nat (n div 10) @ [digit_char (n mod 10)]"
  by (subst show_nat.simps) simp

lemma length_show_nat_le: "length (show_nat n) \<le> Suc (length (show_nat (n div 10)))"
  by (subst show_nat.simps) simp

lemma length_show_nat_octet: "n < 256 \<Longrightarrow> length (show_nat n) \<le> 3"
proof -
  assume "n < 256"
  then have "n div 10 div 10 < 10" by (simp add: div_mult2_eq [symmetric])
  then have "length (show_nat (n div 10 div 10)) = 1" by (simp only: show_nat_small) simp
  with length_show_nat_le [of n] length_show_nat_le [of "n div 10"] show ?thesis by linarith
qed

lemma hd_digit_char_zero:
  assumes "d < 10" and "digit_char d = CHR ''0''"
  shows "d = 0"
proof -
  have "(of_char (digit_char d) :: nat) = 48" by (simp only: assms(2) of_char_Char) simp
  with of_char_digit_char [of d] assms(1) show ?thesis by simp
qed

lemma show_nat_leading_zero: "hd (show_nat n) = CHR ''0'' \<Longrightarrow> n = 0"
proof (induction n rule: show_nat.induct)
  case (1 n)
  show ?case
  proof (cases "n < 10")
    case True
    with "1.prems" show ?thesis by (simp only: show_nat_small list.sel hd_digit_char_zero)
  next
    case False
    with "1.prems" have "hd (show_nat (n div 10)) = CHR ''0''"
      by (subst (asm) show_nat_step) simp_all
    with "1.IH" False show ?thesis by simp
  qed
qed

lemma takeWhile_digits:
  assumes "list_all P s" and "r = [] \<or> \<not> P (hd r)"
  shows "takeWhile P (s @ r) = s" and "dropWhile P (s @ r) = r"
  using assms by (cases r; induction s; auto)+

lemma read_number_show_nat:
  assumes "n < bound" and "r = [] \<or> \<not> is_digit 10 (hd r)"
    and "\<And>m. md = Some m \<Longrightarrow> length (show_nat n) \<le> m"
  shows "read_number 10 md z bound (show_nat n @ r) = Some (n, r)"
  using assms takeWhile_digits [OF show_nat_digits assms(2), of n] show_nat_leading_zero [of n]
  by (auto simp: read_number_def digits_value_show_nat show_nat_small not_less Let_def split: option.splits)

lemma not_digit_sep: "\<not> is_digit 10 CHR ''.''" "\<not> is_digit 10 CHR '':''"
  by code_simp+

lemma read_octet_show:
  fixes b :: u8
  assumes "r = [] \<or> \<not> is_digit 10 (hd r)"
  shows "read_octet (show_nat (unat b) @ r) = Some (unat b, r)"
  unfolding read_octet_def
  by (rule read_number_show_nat)
    (use assms unsigned_less [of b, where ?'a = nat] length_show_nat_octet [of "unat b"] in auto)

lemma v4_of_octets_octets: "v4_of_octets (map unat (v4_octets a)) = a"
proof -
  have oct: "unat (v4_octet a i) = unat a div 2 ^ (8 * (3 - i)) mod 256" for i
    unfolding v4_octet_def unsigned_ucast_eq unsigned_drop_bit_eq
    using unsigned_less [of a, where ?'a = nat] by (simp add: drop_bit_eq_div take_bit_eq_mod)
  let ?n = "unat a"
  have div: "?n div 65536 = ?n div 256 div 256" "?n div 16777216 = ?n div 256 div 256 div 256"
    by (simp_all add: div_mult2_eq [symmetric])
  have "?n < 4294967296" using unsigned_less [of a, where ?'a = nat] by simp
  then have top: "?n div 256 div 256 div 256 mod 256 = ?n div 256 div 256 div 256"
    by (simp add: div_mult2_eq [symmetric])
  have "foldl (\<lambda>a b. a * 256 + b) 0 (map unat (v4_octets a)) = ?n"
    by (simp add: v4_octets_def oct div top del: div_mult2_eq)
  then show ?thesis by (simp add: v4_of_octets_def)
qed

lemma read_ipv4_addr_show:
  assumes "r = [] \<or> \<not> is_digit 10 (hd r)"
  shows "read_ipv4_addr (show_v4 a @ r) = Some (a, r)"
proof -
  have "v4_of_octets [unat (v4_octet a 0), unat (v4_octet a 1), unat (v4_octet a 2), unat (v4_octet a 3)] = a"
    using v4_of_octets_octets [of a] by (simp add: v4_octets_def)
  then show ?thesis using assms
    by (simp add: show_v4_def v4_octets_def read_ipv4_addr_def read_octet_show not_digit_sep)
qed

lemma socket_from_str_show_v4:
  "socket_from_str (show_socket \<lparr>sa_ip = V4 a, sa_port = p, sa_scope = 0\<rparr>)
   = Some \<lparr>sa_ip = V4 a, sa_port = p, sa_scope = 0\<rparr>"
proof -
  have p: "read_port (show_nat (unat p)) = Some (p, [])"
    using read_number_show_nat [of "unat p" 65536 "[]" None True] unsigned_less [of p, where ?'a = nat]
    by (simp add: read_port_def)
  have a: "read_ipv4_addr (show_v4 a @ CHR '':'' # s) = Some (a, CHR '':'' # s)" for s
    by (rule read_ipv4_addr_show) (simp add: not_digit_sep)
  show ?thesis by (simp add: socket_from_str_def show_socket_def a p)
qed

end
