(* ===== verification/ClientAcl.thy ===== *)
theory ClientAcl
  imports NetAddr
begin

text \<open>
  Client access lists (\<open>packages/proxy-config/client-acl\<close>): the compiled rules and their matching
  (\<open>matcher.rs\<close>), the grammar of \<open>allowed_clients\<close> (\<open>parser.rs\<close>) and the validated list
  (\<open>lib.rs\<close>).  A wildcard mask is a list of slots, \<open>None\<close> for \<open>*\<close>; compiled to a network and a
  mask it is proved to match exactly the addresses that agree with every fixed slot.
\<close>

section \<open>Compiled rules (matcher.rs)\<close>

datatype rule =
    Any
  | Loopback
  | RuleV4 (rule_net4: u32) (rule_mask4: u32)
  | RuleV6 (rule_net6: u128) (rule_mask6: u128)

fun normalize_peer :: "ip_addr \<Rightarrow> ip_addr" where
  "normalize_peer (V4 a) = V4 a"
| "normalize_peer (V6 v6) =
     (case to_ipv4_mapped v6 of Some v4 \<Rightarrow> V4 v4 | None \<Rightarrow> V6 v6)"

fun matches_rule :: "rule \<Rightarrow> ip_addr \<Rightarrow> bool" where
  "matches_rule Any _ \<longleftrightarrow> True"
| "matches_rule Loopback ip \<longleftrightarrow> is_loopback ip"
| "matches_rule (RuleV4 network m) (V4 bits) \<longleftrightarrow> bits AND m = network AND m"
| "matches_rule (RuleV4 _ _) (V6 _) \<longleftrightarrow> False"
| "matches_rule (RuleV6 network m) (V6 bits) \<longleftrightarrow> bits AND m = network AND m"
| "matches_rule (RuleV6 _ _) (V4 _) \<longleftrightarrow> False"

definition allows :: "rule list \<Rightarrow> ip_addr \<Rightarrow> bool" where
  "allows rules ip = (let peer = normalize_peer ip in list_ex (\<lambda>rule. matches_rule rule peer) rules)"

text \<open>
  One round of the slot loop: slot \<open>i\<close> of \<open>width\<close> bits is placed at shift \<open>hi - width * i\<close>; a
  wildcard leaves network and mask alone.
\<close>

definition slot_step ::
  "nat \<Rightarrow> nat \<Rightarrow> nat \<times> 'b::len word option \<Rightarrow> 'a::len word \<times> 'a word \<Rightarrow> 'a word \<times> 'a word" where
  "slot_step hi width = (\<lambda>(i, slot) (network, m).
     case slot of
       None \<Rightarrow> (network, m)
     | Some v \<Rightarrow> (network OR push_bit (hi - width * i) (ucast v),
                  m OR push_bit (hi - width * i) (mask width)))"

definition rule_from_v4_slots :: "u8 option list \<Rightarrow> rule" where
  "rule_from_v4_slots slots =
     (let (network, m) = fold (slot_step 24 8) (List.enumerate 0 slots) (0, 0) in RuleV4 network m)"

definition rule_from_v6_slots :: "u16 option list \<Rightarrow> rule" where
  "rule_from_v6_slots slots =
     (let (network, m) = fold (slot_step 112 16) (List.enumerate 0 slots) (0, 0) in RuleV6 network m)"

fun to_octets :: "u16 option \<Rightarrow> u8 option list" where
  "to_octets None = [None, None]"
| "to_octets (Some v) = [Some (ucast (drop_bit 8 v)), Some (ucast v)]"

definition split_mapped_v4 :: "u16 option list \<Rightarrow> u8 option list option" where
  "split_mapped_v4 slots =
     (if take 6 slots \<noteq> [Some 0, Some 0, Some 0, Some 0, Some 0, Some 0xffff] then None
      else Some (to_octets (slots ! 6) @ to_octets (slots ! 7)))"

section \<open>The grammar (parser.rs)\<close>

text \<open>The operator-facing reasons of the source, one constructor per message.\<close>

datatype acl_reason =
    ListEmpty | EmptyToken | NotARule
  | TooManyComponents | ShortWithoutStar4 | NotAnOctet
  | TripleColon | BadV6Prefix | TailNotMapped
  | TooManyHextets | ShortWithoutStar6 | NotAHextet | BadCompression

record acl_error =
  err_token :: str
  err_reason :: acl_reason

definition bad :: "str \<Rightarrow> acl_reason \<Rightarrow> acl_error" where
  "bad token reason = \<lparr>err_token = token, err_reason = reason\<rparr>"

definition parse_v4_octet :: "str \<Rightarrow> u8 option" where
  "parse_v4_octet component =
     (if component = [] \<or> 3 < length component then None
      else if 1 < length component \<and> hd component = CHR ''0'' then None
      else if \<not> list_all (is_digit 10) component then None
      else map_option of_nat (parse_uint 10 256 component))"

definition v4_slot :: "str \<Rightarrow> str \<Rightarrow> (acl_error, u8 option) result" where
  "v4_slot token component =
     (if component = ''*'' then Inr None
      else ok_or (bad token NotAnOctet) (map_option Some (parse_v4_octet component)))"

definition parse_ipv4_wildcard :: "str \<Rightarrow> (acl_error, rule) result" where
  "parse_ipv4_wildcard token =
     (let components = split_on CHR ''.'' token in
      if 4 < length components then Inl (bad token TooManyComponents)
      else if length components < 4 \<and> last components \<noteq> ''*'' then Inl (bad token ShortWithoutStar4)
      else and_then (try_map (v4_slot token) components)
             (\<lambda>slots. Inr (rule_from_v4_slots (slots @ replicate (4 - length slots) None))))"

definition parse_v6_hextet :: "str \<Rightarrow> u16 option option" where
  "parse_v6_hextet grp =
     (if grp = ''*'' then Some None
      else if grp = [] \<or> 4 < length grp \<or> \<not> list_all (is_digit 16) grp then None
      else map_option (\<lambda>v. Some (of_nat v)) (parse_uint 16 65536 grp))"

definition v6_slot :: "str \<Rightarrow> str \<Rightarrow> (acl_error, u16 option) result" where
  "v6_slot token grp = ok_or (bad token NotAHextet) (parse_v6_hextet grp)"

definition groups_of :: "str \<Rightarrow> str list" where
  "groups_of s = (if s = [] then [] else split_on CHR '':'' s)"

text \<open>The eight slots of a mask: written out, or with one \<open>::\<close> expanded to exact zeros.\<close>

definition v6_slots :: "str \<Rightarrow> (acl_error, u16 option list) result" where
  "v6_slots token =
     (case split_once_str ''::'' token of
        None \<Rightarrow>
          (let groups = split_on CHR '':'' token in
           if 8 < length groups then Inl (bad token TooManyHextets)
           else if length groups < 8 \<and> last groups \<noteq> ''*'' then Inl (bad token ShortWithoutStar6)
           else and_then (try_map (v6_slot token) groups)
                  (\<lambda>slots. Inr (slots @ replicate (8 - length slots) None)))
      | Some (left, right) \<Rightarrow>
          (let left_groups = groups_of left; right_groups = groups_of right in
           if 8 \<le> length left_groups + length right_groups then Inl (bad token BadCompression)
           else and_then (try_map (v6_slot token) (left_groups @ right_groups))
                  (\<lambda>slots. let fixed_end = length slots - length right_groups in
                     Inr (take fixed_end slots @ replicate (8 - length slots) (Some 0)
                          @ drop fixed_end slots))))"

text \<open>The last step of \<open>parse_ipv6_wildcard\<close>: an exact \<open>::ffff:\<close> prefix becomes an IPv4 rule.\<close>

definition slots_rule :: "u16 option list \<Rightarrow> rule" where
  "slots_rule slots =
     (case split_mapped_v4 slots of
        Some v4_slots \<Rightarrow> rule_from_v4_slots v4_slots
      | None \<Rightarrow> rule_from_v6_slots slots)"

definition dotted_tail :: "str \<Rightarrow> (str \<times> str) option" where
  "dotted_tail token =
     (case rsplit_once CHR '':'' token of
        Some (before, tail) \<Rightarrow>
          (if CHR ''.'' \<in> set tail then Some (before @ '':'', tail) else None)
      | None \<Rightarrow> None)"

definition parse_ipv6_wildcard :: "str \<Rightarrow> (acl_error, rule) result" where
  "parse_ipv6_wildcard token =
     (if contains_str '':::'' token then Inl (bad token TripleColon)
      else case dotted_tail token of
        Some (prefix_part, tail) \<Rightarrow>
          (case ipv6_from_str (prefix_part @ ''0:0'') of
             None \<Rightarrow> Inl (bad token BadV6Prefix)
           | Some v6 \<Rightarrow>
               (if v6_segments v6 \<noteq> [0, 0, 0, 0, 0, 0xffff, 0, 0]
                then Inl (bad token TailNotMapped)
                else parse_ipv4_wildcard tail))
      | None \<Rightarrow> and_then (v6_slots token) (\<lambda>slots. Inr (slots_rule slots)))"

definition parse_token :: "str \<Rightarrow> (acl_error, rule) result" where
  "parse_token token =
     (if token = [] then Inl (bad token EmptyToken)
      else if token = ''*'' then Inr Any
      else if token = ''loopback'' then Inr Loopback
      else case ip_from_str token of
        Some (V4 v4) \<Rightarrow> Inr (RuleV4 v4 (-1))
      | Some (V6 v6) \<Rightarrow>
          (case to_ipv4_mapped v6 of
             Some v4 \<Rightarrow> Inr (RuleV4 v4 (-1))
           | None \<Rightarrow> Inr (RuleV6 v6 (-1)))
      | None \<Rightarrow>
          (if CHR '':'' \<in> set token then parse_ipv6_wildcard token
           else if CHR ''.'' \<in> set token then parse_ipv4_wildcard token
           else Inl (bad token NotARule)))"

definition parse :: "str \<Rightarrow> (acl_error, rule list) result" where
  "parse source =
     (let tokens = map trim (split_on CHR '','' source) in
      if tokens = [[]] then Inl (bad (trim source) ListEmpty) else try_map parse_token tokens)"

section \<open>The validated list (lib.rs)\<close>

record allowed_clients =
  ac_source :: str
  ac_rules :: "rule list"

definition default_allowed :: allowed_clients where
  "default_allowed = \<lparr>ac_source = ''*'', ac_rules = [Any]\<rparr>"

definition ac_allows :: "allowed_clients \<Rightarrow> ip_addr \<Rightarrow> bool" where
  "ac_allows ac ip = allows (ac_rules ac) ip"

definition as_str :: "allowed_clients \<Rightarrow> str" where
  "as_str ac = ac_source ac"

definition from_str :: "str \<Rightarrow> (acl_error, allowed_clients) result" where
  "from_str source =
     and_then (parse source) (\<lambda>rules. Inr \<lparr>ac_source = source, ac_rules = rules\<rparr>)"

text \<open>The serde contract: one scalar string in, the operator's spelling out.\<close>

definition deserialize_allowed :: "str \<Rightarrow> (acl_error, allowed_clients) result" where
  "deserialize_allowed value = from_str value"

definition serialize_allowed :: "allowed_clients \<Rightarrow> str" where
  "serialize_allowed ac = as_str ac"

section \<open>Masks match part by part\<close>

lemma and_eq_iff:
  fixes b :: "'a::len word"
  shows "b AND m = n AND m \<longleftrightarrow> (\<forall>p. bit m p \<longrightarrow> bit b p = bit n p)"
  by (auto simp: bit_eq_iff bit_and_iff dest: bit_imp_le_length)

lemma take_bit_zero_iff:
  fixes m :: "'a::len word"
  shows "take_bit k m = 0 \<longleftrightarrow> (\<forall>p<k. \<not> bit m p)"
  by (auto simp: bit_eq_iff bit_take_bit_iff dest: bit_imp_le_length)

lemma ucast_drop_bit_eq_iff:
  fixes v :: "'b::len word" and b :: "'a::len word"
  assumes "s + LENGTH('b) \<le> LENGTH('a)"
  shows "ucast (drop_bit s b) = v \<longleftrightarrow> (\<forall>p. s \<le> p \<and> p < s + LENGTH('b) \<longrightarrow> bit b p = bit v (p - s))"
    (is "?l \<longleftrightarrow> ?r")
proof
  assume ?l
  then show ?r by (auto simp: bit_ucast_iff bit_drop_bit_eq)
next
  assume r: ?r
  show ?l
  proof (rule bit_word_eqI)
    fix q assume "q < LENGTH('b)"
    with r [THEN spec, of "s + q"] show "bit (ucast (drop_bit s b) :: 'b word) q = bit v q"
      by (simp add: bit_ucast_iff bit_drop_bit_eq)
  qed
qed

lemma slot_fixed:
  fixes v :: "'b::len word" and b m n :: "'a::len word"
  assumes len: "s + LENGTH('b) \<le> LENGTH('a)"
    and m: "take_bit (s + LENGTH('b)) m = 0" and n: "take_bit (s + LENGTH('b)) n = 0"
    and n1: "n1 = n OR push_bit s (ucast v)" and m1: "m1 = m OR push_bit s (mask LENGTH('b))"
  shows "b AND m1 = n1 AND m1 \<longleftrightarrow> b AND m = n AND m \<and> ucast (drop_bit s b) = v" (is ?A)
    and "take_bit s m1 = 0" (is ?B) and "take_bit s n1 = 0" (is ?C)
proof -
  let ?w = "LENGTH('b)"
  have bm: "bit m1 p \<longleftrightarrow> bit m p \<or> s \<le> p \<and> p < s + ?w" for p
    using len by (auto simp: m1 bit_or_iff bit_push_bit_iff bit_mask_iff)
  have bn: "bit n1 p \<longleftrightarrow> bit n p \<or> s \<le> p \<and> p < s + ?w \<and> bit v (p - s)" for p
    using len bit_imp_le_length [of v "p - s"]
    by (auto simp: n1 bit_or_iff bit_push_bit_iff bit_ucast_iff)
  from m n have low: "\<not> bit m p" "\<not> bit n p" if "p < s + ?w" for p
    using that by (simp_all add: take_bit_zero_iff)
  show ?A
    unfolding and_eq_iff ucast_drop_bit_eq_iff [OF len] bm bn using low by blast
  show ?B ?C using low by (auto simp: take_bit_zero_iff bm bn)
qed

text \<open>A slot pattern and an address agree when every fixed slot is that part of the address.\<close>

definition slots_agree :: "'b::len word option list \<Rightarrow> 'b word list \<Rightarrow> bool" where
  "slots_agree slots parts = list_all2 (\<lambda>slot part. slot = None \<or> slot = Some part) slots parts"

definition parts :: "nat \<Rightarrow> 'a::len word \<Rightarrow> 'b::len word list" where
  "parts n b = map (\<lambda>i. ucast (drop_bit (LENGTH('b) * i) b)) (rev [0..<n])"

lemma slots_agree_Cons:
  "slots_agree (slot # slots) (part # ps) \<longleftrightarrow>
     (\<forall>v. slot = Some v \<longrightarrow> part = v) \<and> slots_agree slots ps"
  by (cases slot) (auto simp: slots_agree_def)

lemma parts_Suc: "parts (Suc n) (b :: 'a::len word) =
    (ucast (drop_bit (LENGTH('b) * n) b) :: 'b::len word) # parts n b"
  by (simp add: parts_def)

lemma slot_step_simps:
  "slot_step hi w (i, None) nm = nm"
  "slot_step hi w (i, Some v) (n, m) =
     (n OR push_bit (hi - w * i) (ucast v), m OR push_bit (hi - w * i) (mask w))"
  by (auto simp: slot_step_def split: prod.splits)

lemma fold_slot_step:
  fixes slots :: "'b::len word option list" and b m n :: "'a::len word"
  assumes "fold (slot_step hi LENGTH('b)) (List.enumerate k slots) (n, m) = (n', m')"
    and "hi + LENGTH('b) = LENGTH('b) * (k + length slots)"
    and "LENGTH('b) * length slots \<le> LENGTH('a)"
    and "take_bit (LENGTH('b) * length slots) m = 0" "take_bit (LENGTH('b) * length slots) n = 0"
  shows "b AND m' = n' AND m' \<longleftrightarrow>
         b AND m = n AND m \<and> slots_agree slots (parts (length slots) b)"
  using assms
proof (induction slots arbitrary: k m n)
  case Nil
  then show ?case by (simp add: slots_agree_def parts_def)
next
  case (Cons slot slots)
  let ?w = "LENGTH('b)" and ?s = "LENGTH('b) * length slots"
  have shift: "hi - ?w * k = ?s" using Cons.prems(2) by (simp add: algebra_simps)
  have zero: "take_bit ?s x = 0" if "take_bit (?w * length (slot # slots)) x = 0" for x :: "'a word"
    using that by (simp add: take_bit_zero_iff)
  show ?case
  proof (cases slot)
    case None
    have "b AND m' = n' AND m' \<longleftrightarrow> b AND m = n AND m \<and> slots_agree slots (parts (length slots) b)"
      by (rule Cons.IH [of "Suc k" n m])
        (use Cons.prems zero None in \<open>simp_all add: slot_step_simps algebra_simps\<close>)
    with None show ?thesis by (simp add: slots_agree_Cons parts_Suc)
  next
    case (Some v)
    let ?n = "n OR push_bit ?s (ucast v)" and ?m = "m OR push_bit ?s (mask ?w) :: 'a word"
    have len: "?s + ?w \<le> LENGTH('a)" "take_bit (?s + ?w) m = 0" "take_bit (?s + ?w) n = 0"
      using Cons.prems(3-5) by (simp_all add: algebra_simps)
    note fixed = slot_fixed [where v = v, OF len refl refl]
    have "b AND m' = n' AND m' \<longleftrightarrow> b AND ?m = ?n AND ?m \<and> slots_agree slots (parts (length slots) b)"
      by (rule Cons.IH [of "Suc k" ?n ?m])
        (use Cons.prems len fixed(2,3) Some shift in \<open>simp_all add: slot_step_simps algebra_simps\<close>)
    then show ?thesis unfolding fixed(1) Some by (auto simp: slots_agree_Cons parts_Suc)
  qed
qed

lemma v4_octets_parts: "v4_octets a = parts 4 a"
  by (simp add: parts_def v4_octets_def v4_octet_def upt_rec numeral_eq_Suc)

lemma v6_segments_parts: "v6_segments a = parts 8 a"
  by (simp add: parts_def v6_segments_def v6_segment_def upt_rec numeral_eq_Suc)

lemma matches_v4_slots:
  assumes "length slots = 4"
  shows "matches_rule (rule_from_v4_slots slots) (V4 a) \<longleftrightarrow> slots_agree slots (v4_octets a)"
proof -
  obtain n' m' where f: "fold (slot_step 24 8) (List.enumerate 0 slots) (0, 0) = (n', m' :: u32)"
    by fastforce
  from fold_slot_step [of 24 0 slots 0 0 n' m' a] f assms show ?thesis
    by (simp add: rule_from_v4_slots_def v4_octets_parts)
qed

lemma matches_v6_slots:
  assumes "length slots = 8"
  shows "matches_rule (rule_from_v6_slots slots) (V6 a) \<longleftrightarrow> slots_agree slots (v6_segments a)"
proof -
  obtain n' m' where f: "fold (slot_step 112 16) (List.enumerate 0 slots) (0, 0) = (n', m' :: u128)"
    by fastforce
  from fold_slot_step [of 112 0 slots 0 0 n' m' a] f assms show ?thesis
    by (simp add: rule_from_v6_slots_def v6_segments_parts)
qed

lemma normalize_peer_canonical: "normalize_peer ip = to_canonical ip"
  by (cases ip) auto

section \<open>Mapped addresses\<close>

lemma v6_segments_mapped:
  "v6_segments (mapped_v6 a) = [0, 0, 0, 0, 0, 0xffff, ucast (drop_bit 16 a), ucast a]"
proof -
  have "v6_segment (mapped_v6 a) i = 0" if "i < 5" for i
    using that by (intro bit_eqI) (auto simp: v6_segment_def bit_ucast_iff bit_drop_bit_eq bit_mapped_v6)
  moreover have "v6_segment (mapped_v6 a) 5 = mask 16"
    by (intro bit_eqI) (auto simp: v6_segment_def bit_ucast_iff bit_drop_bit_eq bit_mapped_v6 bit_mask_iff)
  moreover have "v6_segment (mapped_v6 a) 6 = ucast (drop_bit 16 a)"
    by (intro bit_eqI) (auto simp: v6_segment_def bit_ucast_iff bit_drop_bit_eq bit_mapped_v6)
  moreover have "v6_segment (mapped_v6 a) 7 = ucast a"
    by (intro bit_eqI) (auto simp: v6_segment_def bit_ucast_iff bit_drop_bit_eq bit_mapped_v6)
  ultimately show ?thesis by (simp add: v6_segments_def mask_eq_exp_minus_1)
qed

lemma v6_segments_inject: "v6_segments a = v6_segments b \<longleftrightarrow> a = b"
proof
  assume eq: "v6_segments a = v6_segments b"
  then have seg: "v6_segment a i = v6_segment b i" if "i < 8" for i
    using that by (auto simp: v6_segments_def less_Suc_eq numeral_eq_Suc)
  show "a = b"
  proof (rule bit_word_eqI)
    fix k assume "k < LENGTH(128)"
    then have k: "k < 128" by simp
    define i where "i = 7 - k div 16"
    have i: "16 * (7 - i) + k mod 16 = k" "i < 8" using k by (auto simp: i_def)
    have "bit (v6_segment c i) (k mod 16) \<longleftrightarrow> bit c k" for c
      using i(1) by (simp add: v6_segment_def bit_ucast_iff bit_drop_bit_eq)
    with seg [OF i(2)] show "bit a k \<longleftrightarrow> bit b k" by metis
  qed
qed simp

lemma mapped_segments_iff:
  "take 6 (v6_segments b) = [0, 0, 0, 0, 0, 0xffff] \<longleftrightarrow> (\<exists>a. b = mapped_v6 a)"
proof
  assume "take 6 (v6_segments b) = [0, 0, 0, 0, 0, 0xffff]"
  then have seg: "v6_segment b i = v6_segment (mapped_v6 (ucast b)) i" if "i < 6" for i
    using that v6_segments_mapped [of "ucast b"]
    by (auto simp: v6_segments_def less_Suc_eq numeral_eq_Suc)
  have low: "v6_segment b i = v6_segment (mapped_v6 (ucast b)) i" if "6 \<le> i" "i < 8" for i
    using that by (intro bit_eqI) (auto simp: v6_segment_def bit_ucast_iff bit_drop_bit_eq bit_mapped_v6)
  have "v6_segments b = v6_segments (mapped_v6 (ucast b))"
    using seg low by (simp add: v6_segments_def)
  then show "\<exists>a. b = mapped_v6 a" by (auto simp: v6_segments_inject)
qed (auto simp: v6_segments_mapped)

lemma to_octets_agree:
  "slots_agree (to_octets slot) [ucast (drop_bit 8 w), ucast w] \<longleftrightarrow> slot = None \<or> slot = Some w"
proof (cases slot)
  case (Some v)
  have "(ucast (drop_bit 8 v) :: u8) = ucast (drop_bit 8 w) \<and> (ucast v :: u8) = ucast w \<longleftrightarrow> v = w"
  proof
    assume eq: "(ucast (drop_bit 8 v) :: u8) = ucast (drop_bit 8 w) \<and> (ucast v :: u8) = ucast w"
    show "v = w"
    proof (rule bit_word_eqI)
      fix k assume "k < LENGTH(16)"
      then have "bit x k = (if k < 8 then bit (ucast x :: u8) k
                            else bit (ucast (drop_bit 8 x) :: u8) (k - 8))" for x :: u16
        by (auto simp: bit_ucast_iff bit_drop_bit_eq)
      with eq show "bit v k = bit w k" by simp
    qed
  qed simp
  with Some show ?thesis by (auto simp: slots_agree_def)
qed (simp add: slots_agree_def)

lemma slots_agree_append:
  "length xs = length as \<Longrightarrow> slots_agree (xs @ ys) (as @ bs) \<longleftrightarrow> slots_agree xs as \<and> slots_agree ys bs"
  by (simp add: slots_agree_def list_all2_append)

lemma length_to_octets [simp]: "length (to_octets slot) = 2"
  by (cases slot) auto

lemma v4_octets_pairs:
  "v4_octets a = [ucast (drop_bit 8 (ucast (drop_bit 16 a) :: u16)), ucast (ucast (drop_bit 16 a) :: u16)]
     @ [ucast (drop_bit 8 (ucast a :: u16)), ucast (ucast a :: u16)]"
  unfolding v4_octets_def v4_octet_def
  by (auto intro!: bit_eqI simp: bit_ucast_iff bit_drop_bit_eq)

lemma split_mapped_SomeD:
  assumes "length slots = 8" and "split_mapped_v4 slots = Some os"
  obtains s6 s7 where "slots = [Some 0, Some 0, Some 0, Some 0, Some 0, Some 0xffff, s6, s7]"
    and "os = to_octets s6 @ to_octets s7"
proof -
  from assms have pre: "take 6 slots = [Some 0, Some 0, Some 0, Some 0, Some 0, Some 0xffff]"
    and os: "os = to_octets (slots ! 6) @ to_octets (slots ! 7)"
    by (auto simp: split_mapped_v4_def split: if_splits)
  from assms(1) have "length (drop 6 slots) = Suc (Suc 0)" by simp
  then obtain s6 s7 where "drop 6 slots = [s6, s7]" by (auto simp only: length_Suc_conv length_0_conv)
  with pre have slots: "slots = [Some 0, Some 0, Some 0, Some 0, Some 0, Some 0xffff, s6, s7]"
    using append_take_drop_id [of 6 slots] by simp
  show ?thesis by (rule that [OF slots]) (simp add: os slots)
qed

lemma slots_agree_exact:
  "slots_agree (Some v # slots) (part # ps) \<longleftrightarrow> part = v \<and> slots_agree slots ps"
  by (simp add: slots_agree_Cons)

lemma slots_agree_pair:
  "slots_agree [s, t] [v, w] \<longleftrightarrow> (s = None \<or> s = Some v) \<and> (t = None \<or> t = Some w)"
  by (simp add: slots_agree_def)

lemma split_mapped_agree:
  assumes "length slots = 8" and "split_mapped_v4 slots = Some os"
  shows "slots_agree os (v4_octets a) \<longleftrightarrow> slots_agree slots (v6_segments (mapped_v6 a))"
    and "length os = 4"
proof -
  from assms obtain s6 s7
    where slots: "slots = [Some 0, Some 0, Some 0, Some 0, Some 0, Some 0xffff, s6, s7]"
      and os: "os = to_octets s6 @ to_octets s7"
    by (rule split_mapped_SomeD)
  have "slots_agree os (v4_octets a) \<longleftrightarrow>
    (s6 = None \<or> s6 = Some (ucast (drop_bit 16 a))) \<and> (s7 = None \<or> s7 = Some (ucast a))"
    unfolding os v4_octets_pairs by (subst slots_agree_append) (simp_all only: to_octets_agree length_to_octets, simp)
  also have "\<dots> \<longleftrightarrow> slots_agree slots (v6_segments (mapped_v6 a))"
    unfolding slots v6_segments_mapped by (simp only: slots_agree_exact slots_agree_pair) simp
  finally show "slots_agree os (v4_octets a) \<longleftrightarrow> slots_agree slots (v6_segments (mapped_v6 a))" .
  show "length os = 4" by (simp add: os)
qed

lemma agree_prefix:
  assumes "length slots = 8" and "split_mapped_v4 slots = Some os" and "slots_agree slots (v6_segments b)"
  shows "\<exists>a. b = mapped_v6 a"
proof -
  from assms(1,2) obtain s6 s7
    where slots: "slots = [Some 0, Some 0, Some 0, Some 0, Some 0, Some 0xffff, s6, s7]"
    by (rule split_mapped_SomeD)
  from assms(3) have "take 6 (v6_segments b) = [0, 0, 0, 0, 0, 0xffff]"
    unfolding slots v6_segments_def by (simp add: slots_agree_exact)
  then show ?thesis by (simp only: mapped_segments_iff)
qed

lemma allows_slots_rule:
  assumes "length slots = 8"
  shows "allows [slots_rule slots] ip \<longleftrightarrow>
    (case to_canonical ip of
       V4 a \<Rightarrow> split_mapped_v4 slots \<noteq> None \<and> slots_agree slots (v6_segments (mapped_v6 a))
     | V6 b \<Rightarrow> slots_agree slots (v6_segments b))"
proof (cases "split_mapped_v4 slots")
  case None
  then show ?thesis
    using matches_v6_slots [OF assms]
    by (auto simp: allows_def slots_rule_def normalize_peer_canonical rule_from_v6_slots_def
        split: ip_addr.split prod.splits)
next
  case (Some os)
  have notm: "\<not> slots_agree slots (v6_segments b)" if "to_canonical ip = V6 b" for b
    using agree_prefix [OF assms Some, of b] that by (cases ip) (auto split: option.splits)
  from Some show ?thesis
    using matches_v4_slots [of os] split_mapped_agree [OF assms Some] notm
    by (auto simp: allows_def slots_rule_def normalize_peer_canonical rule_from_v4_slots_def
        split: ip_addr.split prod.splits)
qed

lemma length_v4_octets [simp]: "length (v4_octets a) = 4"
  by (simp add: v4_octets_def)

lemma v4_octets_nth: "i < 4 \<Longrightarrow> v4_octets a ! i = v4_octet a i"
  by (auto simp: v4_octets_def less_Suc_eq numeral_eq_Suc)

lemma allows_v4_slots:
  assumes "length slots = 4"
  shows "allows [rule_from_v4_slots slots] ip \<longleftrightarrow>
    (\<exists>a. to_canonical ip = V4 a \<and> slots_agree slots (v4_octets a))"
  using matches_v4_slots [OF assms]
  by (cases "to_canonical ip")
    (auto simp: allows_def normalize_peer_canonical rule_from_v4_slots_def split: prod.splits)

lemma v4_slot_Inr_iff:
  "v4_slot token c = Inr slot \<longleftrightarrow> c = ''*'' \<and> slot = None \<or> c \<noteq> ''*'' \<and> (\<exists>v. parse_v4_octet c = Some v \<and> slot = Some v)"
  by (auto simp: v4_slot_def ok_or_Inr_iff)

lemma agree_v4_components:
  assumes "list_all2 (\<lambda>c slot. v4_slot token c = Inr slot) cs slots" and "length cs \<le> 4"
  shows "slots_agree (slots @ replicate (4 - length slots) None) (v4_octets a) \<longleftrightarrow>
    (\<forall>i<length cs. cs ! i = ''*'' \<or> parse_v4_octet (cs ! i) = Some (v4_octet a i))"
proof -
  have len: "length slots = length cs" using assms(1) by (simp add: list_all2_lengthD)
  have slot: "v4_slot token (cs ! i) = Inr (slots ! i)" if "i < length cs" for i
    using assms(1) that by (simp add: list_all2_conv_all_nth)
  have "slots_agree (slots @ replicate (4 - length slots) None) (v4_octets a) \<longleftrightarrow>
    (\<forall>i<length cs. slots ! i = None \<or> slots ! i = Some (v4_octet a i))" (is "?l = ?r")
  proof
    assume l: ?l
    show ?r
    proof (intro allI impI)
      fix i assume "i < length cs"
      with l [unfolded slots_agree_def, THEN list_all2_nthD, of i] assms(2) len
      show "slots ! i = None \<or> slots ! i = Some (v4_octet a i)"
        by (simp add: nth_append v4_octets_nth)
    qed
  next
    assume ?r
    with assms(2) len show ?l
      by (auto simp: slots_agree_def list_all2_conv_all_nth nth_append v4_octets_nth length_v4_octets)
  qed
  also have "\<dots> \<longleftrightarrow> (\<forall>i<length cs. cs ! i = ''*'' \<or> parse_v4_octet (cs ! i) = Some (v4_octet a i))"
    using slot by (fastforce simp: v4_slot_Inr_iff)
  finally show ?thesis .
qed

lemma allows_v4_mask:
  assumes "parse_ipv4_wildcard token = Inr r"
  shows "allows [r] ip \<longleftrightarrow>
    (\<exists>a. to_canonical ip = V4 a \<and>
       (\<forall>i<length (split_on CHR ''.'' token). split_on CHR ''.'' token ! i = ''*'' \<or>
          parse_v4_octet (split_on CHR ''.'' token ! i) = Some (v4_octet a i)))"
proof -
  let ?cs = "split_on CHR ''.'' token"
  from assms obtain slots where cs: "length ?cs \<le> 4"
    and slots: "list_all2 (\<lambda>c slot. v4_slot token c = Inr slot) ?cs slots"
    and r: "r = rule_from_v4_slots (slots @ replicate (4 - length slots) None)"
    by (auto simp: parse_ipv4_wildcard_def Let_def try_map_Inr_iff split: if_splits)
  from slots cs have "length (slots @ replicate (4 - length slots) None) = 4"
    by (simp add: list_all2_lengthD [symmetric])
  from allows_v4_slots [OF this] agree_v4_components [OF slots cs] show ?thesis by (simp add: r)
qed

text \<open>
  A dotted mask that parses admits exactly the IPv4 peers, given directly or as an IPv4-mapped
  IPv6 address, whose octets agree with every component that is not \<open>*\<close>; the octets a terminal
  \<open>*\<close> leaves out are free.
\<close>

theorem ipv4_mask_matches_octetwise:
  assumes "parse_ipv4_wildcard token = Inr r" and "cs = split_on CHR ''.'' token"
  shows "allows [r] ip \<longleftrightarrow>
    (\<exists>a. to_canonical ip = V4 a \<and>
       (\<forall>i<length cs. cs ! i = ''*'' \<or> parse_v4_octet (cs ! i) = Some (v4_octet a i)))"
  using allows_v4_mask [OF assms(1)] by (simp add: assms(2))

theorem ipv4_mask_matches_octetwise_witness:
  "parse_ipv4_wildcard ''192.168.*'' = Inr (RuleV4 0xc0a80000 0xffff0000) \<and>
   allows [RuleV4 0xc0a80000 0xffff0000] (V6 (mapped_v6 0xc0a80507))"
proof -
  have p: "parse_ipv4_wildcard ''192.168.*'' = Inr (RuleV4 0xc0a80000 0xffff0000)" by code_simp
  have cs: "[''192'', ''168'', ''*''] = split_on CHR ''.'' ''192.168.*''" by code_simp
  have o: "parse_v4_octet ''192'' = Some (v4_octet 0xc0a80507 0)"
    "parse_v4_octet ''168'' = Some (v4_octet 0xc0a80507 1)" by code_simp+
  have "\<forall>i<3. [''192'', ''168'', ''*''] ! i = ''*'' \<or>
      parse_v4_octet ([''192'', ''168'', ''*''] ! i) = Some (v4_octet 0xc0a80507 i)"
    using o by (auto simp: less_Suc_eq numeral_eq_Suc)
  with ipv4_mask_matches_octetwise [OF p cs, of "V6 (mapped_v6 0xc0a80507)"] p show ?thesis by simp
qed

lemma v6_slots_length: "v6_slots token = Inr slots \<Longrightarrow> length slots = 8"
  by (auto simp: v6_slots_def Let_def split: option.splits if_splits prod.splits dest!: try_map_length)

text \<open>
  An IPv6 mask without a dotted tail compiles to eight slots and admits exactly the peers whose
  hextets agree with every fixed slot.  An IPv4 peer is admitted only by a mask that fixes the six
  upper hextets to \<open>::ffff:\<close>, and then its octets are compared as the two lower hextets.
\<close>

theorem ipv6_mask_matches_hextetwise:
  assumes "contains_str '':::'' token = False" and "dotted_tail token = None"
    and "v6_slots token = Inr slots"
  shows "\<exists>r. parse_ipv6_wildcard token = Inr r \<and> length slots = 8 \<and>
    (\<forall>ip. allows [r] ip \<longleftrightarrow>
       (case to_canonical ip of
          V4 a \<Rightarrow> take 6 slots = map Some [0, 0, 0, 0, 0, 0xffff]
                  \<and> slots_agree slots (v6_segments (mapped_v6 a))
        | V6 b \<Rightarrow> slots_agree slots (v6_segments b)))"
proof (intro exI conjI allI)
  show "parse_ipv6_wildcard token = Inr (slots_rule slots)"
    using assms by (simp add: parse_ipv6_wildcard_def)
  show len: "length slots = 8" using v6_slots_length [OF assms(3)] .
  have "split_mapped_v4 slots \<noteq> None \<longleftrightarrow> take 6 slots = map Some [0, 0, 0, 0, 0, 0xffff]"
    by (simp add: split_mapped_v4_def)
  with allows_slots_rule [OF len]
  show "allows [slots_rule slots] ip \<longleftrightarrow>
       (case to_canonical ip of
          V4 a \<Rightarrow> take 6 slots = map Some [0, 0, 0, 0, 0, 0xffff]
                  \<and> slots_agree slots (v6_segments (mapped_v6 a))
        | V6 b \<Rightarrow> slots_agree slots (v6_segments b))" for ip
    by (simp only:)
qed

theorem ipv6_mask_matches_hextetwise_witness:
  "\<exists>r. parse_ipv6_wildcard ''2001:db8::*'' = Inr r \<and>
       allows [r] (V6 (0x20010db8000000000000000000000007)) \<and> \<not> allows [r] (V6 (0x20010db8000000000000000000010007))"
proof -
  let ?s = "[Some 0x2001, Some 0xdb8, Some 0, Some 0, Some 0, Some 0, Some 0, None] :: u16 option list"
  have h: "contains_str '':::'' ''2001:db8::*'' = False" "dotted_tail ''2001:db8::*'' = None"
    "v6_slots ''2001:db8::*'' = Inr ?s" by code_simp+
  have "to_canonical (V6 (0x20010db8000000000000000000000007)) = V6 (0x20010db8000000000000000000000007)"
    "to_canonical (V6 (0x20010db8000000000000000000010007)) = V6 (0x20010db8000000000000000000010007)"
    "slots_agree ?s (v6_segments (0x20010db8000000000000000000000007))"
    "\<not> slots_agree ?s (v6_segments (0x20010db8000000000000000000010007))"
    by code_simp+
  moreover obtain r where "parse_ipv6_wildcard ''2001:db8::*'' = Inr r"
    and "\<forall>ip. allows [r] ip \<longleftrightarrow>
       (case to_canonical ip of
          V4 a \<Rightarrow> take 6 ?s = map Some [0, 0, 0, 0, 0, 0xffff]
                  \<and> slots_agree ?s (v6_segments (mapped_v6 a))
        | V6 b \<Rightarrow> slots_agree ?s (v6_segments b))"
    using ipv6_mask_matches_hextetwise [OF h] by (elim exE conjE) 
  ultimately show ?thesis by (intro exI [of _ r]) (simp only: ip_addr.case simp_thms)
qed

text \<open>
  In a mask with \<open>::\<close> the hextets written on either side keep their order at the two ends of the
  address, and every hextet the \<open>::\<close> stands for is an exact zero: no wildcard hides in it.
\<close>

theorem compressed_hextets_are_zero:
  assumes "v6_slots token = Inr slots" and "split_once_str ''::'' token = Some (l, r)"
  shows "\<exists>ls rs. slots = ls @ replicate (8 - (length ls + length rs)) (Some 0) @ rs \<and>
    length ls + length rs < 8 \<and>
    map Some ls = map parse_v6_hextet (groups_of l) \<and>
    map Some rs = map parse_v6_hextet (groups_of r)"
proof -
  let ?l = "groups_of l" and ?r = "groups_of r"
  from assms obtain fixed where len: "length ?l + length ?r < 8"
    and fixed: "list_all2 (\<lambda>g slot. v6_slot token g = Inr slot) (?l @ ?r) fixed"
    and slots: "slots = take (length fixed - length ?r) fixed @
      replicate (8 - length fixed) (Some 0) @ drop (length fixed - length ?r) fixed"
    by (auto simp: v6_slots_def Let_def try_map_Inr_iff split: if_splits)
  from fixed obtain ls rs where f: "fixed = ls @ rs"
    and ls: "list_all2 (\<lambda>g slot. v6_slot token g = Inr slot) ?l ls"
    and rs: "list_all2 (\<lambda>g slot. v6_slot token g = Inr slot) ?r rs"
    by (auto simp: list_all2_append1)
  have hext: "map Some xs = map parse_v6_hextet gs"
    if "list_all2 (\<lambda>g slot. v6_slot token g = Inr slot) gs xs" for gs xs
    using that by (induction rule: list_all2_induct) (auto simp: v6_slot_def ok_or_Inr_iff)
  show ?thesis
    using len ls rs slots hext [OF ls] hext [OF rs]
    by (intro exI [of _ ls] exI [of _ rs]) (simp add: f list_all2_lengthD)
qed

theorem compressed_hextets_are_zero_witness:
  "\<exists>ls rs. [Some 0x2001, Some 0xdb8, Some 0, Some 0, Some 0, Some 0, Some 0, None] =
     ls @ replicate (8 - (length ls + length rs)) (Some 0) @ rs \<and> length ls + length rs < 8 \<and>
     map Some ls = map parse_v6_hextet (groups_of ''2001:db8'') \<and>
     map Some rs = map parse_v6_hextet (groups_of ''*'')"
proof -
  have "v6_slots ''2001:db8::*'' =
      Inr [Some 0x2001, Some 0xdb8, Some 0, Some 0, Some 0, Some 0, Some 0, None]"
    "split_once_str ''::'' ''2001:db8::*'' = Some (''2001:db8'', ''*'')" by code_simp+
  from compressed_hextets_are_zero [OF this] show ?thesis .
qed

lemma and_minus_one_eq: "bits AND -1 = network AND (-1 :: 'a::len word) \<longleftrightarrow> bits = network"
  by simp

lemma exact_rule_allows:
  "allows [case ip of V4 v4 \<Rightarrow> RuleV4 v4 (-1)
           | V6 v6 \<Rightarrow> (case to_ipv4_mapped v6 of Some v4 \<Rightarrow> RuleV4 v4 (-1) | None \<Rightarrow> RuleV6 v6 (-1))] peer
   \<longleftrightarrow> to_canonical peer = to_canonical ip"
  by (cases ip; cases "to_canonical peer")
    (auto simp: allows_def normalize_peer_canonical split: option.splits)

lemma ip_literal_not_keyword:
  "ip_from_str t = Some ip \<Longrightarrow> t \<noteq> [] \<and> t \<noteq> ''*'' \<and> t \<noteq> ''loopback''"
proof -
  have "ip_from_str [] = None" "ip_from_str ''*'' = None" "ip_from_str ''loopback'' = None"
    by code_simp+
  then show "ip_from_str t = Some ip \<Longrightarrow> t \<noteq> [] \<and> t \<noteq> ''*'' \<and> t \<noteq> ''loopback''" by auto
qed

lemma parse_token_literal:
  assumes "ip_from_str t = Some ip"
  shows "parse_token t = Inr (case ip of V4 v4 \<Rightarrow> RuleV4 v4 (-1)
     | V6 v6 \<Rightarrow> (case to_ipv4_mapped v6 of Some v4 \<Rightarrow> RuleV4 v4 (-1) | None \<Rightarrow> RuleV6 v6 (-1)))"
  using assms ip_literal_not_keyword [OF assms]
  by (auto simp: parse_token_def split: ip_addr.split option.split)

text \<open>
  An exact address literal, in any spelling the standard parser takes, admits exactly the peer
  with that address; a mapped literal and the plain IPv4 literal admit the same peers.
\<close>

theorem literal_admits_exactly_that_peer:
  assumes "ip_from_str token = Some ip"
  shows "\<exists>r. parse_token token = Inr r \<and> (\<forall>peer. allows [r] peer \<longleftrightarrow> to_canonical peer = to_canonical ip)"
  using parse_token_literal [OF assms] exact_rule_allows [of ip] by blast

theorem literal_admits_exactly_that_peer_witness:
  "\<exists>r. parse_token ''::ffff:127.0.0.1'' = Inr r \<and> allows [r] (V4 0x7f000001) \<and> \<not> allows [r] (V4 0x7f000002)"
proof -
  have m: "ip_from_str ''::ffff:127.0.0.1'' = Some (V6 0xffff7f000001)" by code_simp
  have c: "to_canonical (V6 0xffff7f000001) = V4 0x7f000001" by code_simp
  from literal_admits_exactly_that_peer [OF m, unfolded c] show ?thesis by auto
qed

definition tokens :: "str \<Rightarrow> str list" where
  "tokens source = map trim (split_on CHR '','' source)"

lemma parse_Inr_iff:
  "parse source = Inr rules \<longleftrightarrow> list_all2 (\<lambda>t r. parse_token t = Inr r) (tokens source) rules"
proof (cases "tokens source = [[]]")
  case True
  then show ?thesis
    by (simp add: parse_def Let_def tokens_def [symmetric] list_all2_Cons1 parse_token_def)
next
  case False
  then show ?thesis
    by (simp add: parse_def Let_def tokens_def [symmetric] try_map_Inr_iff)
qed

lemma tokens_not_Nil [simp]: "tokens source \<noteq> []"
  by (simp add: tokens_def)

lemma list_all2_ex_iff:
  "list_all2 (\<lambda>t r. f t = Inr r) ts rs \<Longrightarrow> (\<exists>r \<in> set rs. P r) \<longleftrightarrow> (\<exists>t \<in> set ts. \<exists>r. f t = Inr r \<and> P r)"
  by (induction rule: list_all2_induct) auto

text \<open>
  A list is accepted exactly when every one of its comma-separated tokens is a rule, also those
  after a \<open>*\<close>; an accepted list has at least one rule and admits a peer exactly when one of its
  tokens does.  Otherwise the error carries the reason of one of the tokens, or the list is empty.
\<close>

theorem list_is_the_union_of_its_tokens:
  "case from_str source of
     Inr ac \<Rightarrow> ac_rules ac \<noteq> [] \<and> (\<forall>t \<in> set (tokens source). \<exists>r. parse_token t = Inr r) \<and>
       (\<forall>ip. ac_allows ac ip \<longleftrightarrow> (\<exists>t \<in> set (tokens source). \<exists>r. parse_token t = Inr r \<and> allows [r] ip))
   | Inl e \<Rightarrow> (\<exists>t \<in> set (tokens source). parse_token t = Inl e) \<or>
       tokens source = [[]] \<and> e = bad (trim source) ListEmpty"
proof (cases "from_str source")
  case (Inl e)
  then show ?thesis
    by (auto simp: from_str_def parse_def Let_def tokens_def [symmetric] and_then_Inl_iff
        split: if_splits dest!: try_map_InlD)
next
  case (Inr ac)
  then have r: "list_all2 (\<lambda>t r. parse_token t = Inr r) (tokens source) (ac_rules ac)"
    by (auto simp: from_str_def parse_Inr_iff)
  have "ac_allows ac ip \<longleftrightarrow> (\<exists>r \<in> set (ac_rules ac). allows [r] ip)" for ip
    by (auto simp: ac_allows_def allows_def Let_def list_ex_iff)
  with r list_all2_ex_iff [OF r] show ?thesis
    by (auto simp: Inr list_all2_conv_all_nth in_set_conv_nth)
qed

theorem list_is_the_union_of_its_tokens_witness:
  "\<exists>ac. from_str ''*, 10.*'' = Inr ac \<and> ac_allows ac (V4 1) \<and>
     (\<forall>t \<in> set (tokens ''*, 10.*''). \<exists>r. parse_token t = Inr r)"
proof -
  obtain ac where ac: "from_str ''*, 10.*'' = Inr ac" and rules: "ac_rules ac = [Any, RuleV4 0xa000000 0xff000000]"
  proof
    show "from_str ''*, 10.*'' = Inr \<lparr>ac_source = ''*, 10.*'', ac_rules = [Any, RuleV4 0xa000000 0xff000000]\<rparr>"
      by code_simp
  qed simp
  from list_is_the_union_of_its_tokens [of "''*, 10.*''"] ac rules show ?thesis
    by (auto simp: ac_allows_def allows_def)
qed

text \<open>
  The serialized form of a loaded list is the operator's own text, and reading it back gives the
  same list.
\<close>

theorem allowed_clients_roundtrip:
  assumes "deserialize_allowed s = Inr ac"
  shows "serialize_allowed ac = s \<and> deserialize_allowed (serialize_allowed ac) = Inr ac"
  using assms by (auto simp: deserialize_allowed_def serialize_allowed_def as_str_def from_str_def)

theorem allowed_clients_roundtrip_witness:
  "serialize_allowed default_allowed = ''*'' \<and>
   deserialize_allowed (serialize_allowed default_allowed) = Inr default_allowed"
proof -
  have "deserialize_allowed ''*'' = Inr default_allowed" by code_simp
  from allowed_clients_roundtrip [OF this] show ?thesis .
qed

end
