(* ===== verification/Socks5Endpoint.thy ===== *)
theory Socks5Endpoint
  imports NetAddr
begin

text \<open>
  Upstream SOCKS5 endpoints (\<open>client-acl/src/socks5.rs\<close>): the scalar \<open>address\<close> or
  \<open>address|username:password\<close>, the \<open>none\<close> override, and the precedence of an account's setting
  over the global one.
\<close>

section \<open>The endpoint\<close>

record socks5_endpoint =
  se_address :: socket_addr
  se_username :: "str option"
  se_password :: "str option"

datatype endpoint_error =
    EmptyOrNone | BadAddress | ZeroPort | CredentialsShape | CredentialsInvalid
  | UseNoneScalar | NotAnEndpoint | InvalidType

definition credentials :: "socks5_endpoint \<Rightarrow> (str \<times> str) option" where
  "credentials e =
     (case (se_username e, se_password e) of (Some u, Some p) \<Rightarrow> Some (u, p) | _ \<Rightarrow> None)"

definition credentials_invalid :: "str \<Rightarrow> str \<Rightarrow> bool" where
  "credentials_invalid username password \<longleftrightarrow>
     CHR '':'' \<in> set username \<or> CHR '':'' \<in> set password
     \<or> CHR ''|'' \<in> set username \<or> CHR ''|'' \<in> set password
     \<or> username = [] \<or> password = []
     \<or> 255 < length username \<or> 255 < length password"

definition parse_credentials ::
  "str option \<Rightarrow> (endpoint_error, str option \<times> str option) result" where
  "parse_credentials creds =
     (case creds of
        None \<Rightarrow> Inr (None, None)
      | Some value \<Rightarrow>
          and_then (ok_or CredentialsShape (split_once CHR '':'' value)) (\<lambda>(username, password).
            if credentials_invalid username password then Inl CredentialsInvalid
            else Inr (Some username, Some password)))"

definition endpoint_from_str :: "str \<Rightarrow> (endpoint_error, socks5_endpoint) result" where
  "endpoint_from_str value =
     (let (address, creds) =
        (case split_once CHR ''|'' value of None \<Rightarrow> (value, None) | Some (a, c) \<Rightarrow> (a, Some c)) in
      if value = ''none'' \<or> value = [] then Inl EmptyOrNone
      else and_then (ok_or BadAddress (socket_from_str address)) (\<lambda>address.
        if sa_port address = 0 then Inl ZeroPort
        else and_then (parse_credentials creds) (\<lambda>(username, password).
          Inr \<lparr>se_address = address, se_username = username, se_password = password\<rparr>)))"

definition serialize_endpoint :: "socks5_endpoint \<Rightarrow> str" where
  "serialize_endpoint e =
     (case (se_username e, se_password e) of
        (Some username, Some password) \<Rightarrow>
          show_socket (se_address e) @ ''|'' @ username @ '':'' @ password
      | _ \<Rightarrow> show_socket (se_address e))"

section \<open>Overrides\<close>

datatype endpoint_override = Disabled | Endpoint socks5_endpoint

fun resolve_endpoint ::
  "endpoint_override option \<Rightarrow> endpoint_override option \<Rightarrow> socks5_endpoint option" where
  "resolve_endpoint global account =
     (case (case account of None \<Rightarrow> global | Some _ \<Rightarrow> account) of
        Some (Endpoint e) \<Rightarrow> Some e
      | Some Disabled \<Rightarrow> None
      | None \<Rightarrow> None)"

fun serialize_override :: "endpoint_override \<Rightarrow> str" where
  "serialize_override Disabled = ''none''"
| "serialize_override (Endpoint e) = serialize_endpoint e"

text \<open>The self-describing values the visitor can be handed.\<close>

datatype serde_value = SUnit | SNone | SStr str | SOther

fun deserialize_override :: "serde_value \<Rightarrow> (endpoint_error, endpoint_override) result" where
  "deserialize_override SUnit = Inl UseNoneScalar"
| "deserialize_override SNone = Inl UseNoneScalar"
| "deserialize_override (SStr value) =
     (if value = ''none'' then Inr Disabled
      else if value = [] then Inl NotAnEndpoint
      else and_then (endpoint_from_str value) (\<lambda>e. Inr (Endpoint e)))"
| "deserialize_override SOther = Inl InvalidType"

fun serialize_field :: "endpoint_override option \<Rightarrow> str" where
  "serialize_field None = ''inherit''"
| "serialize_field (Some v) = serialize_override v"

definition deserialize_field ::
  "serde_value \<Rightarrow> (endpoint_error, endpoint_override option) result" where
  "deserialize_field v = and_then (deserialize_override v) (\<lambda>o'. Inr (Some o'))"

section \<open>Reading back what was written\<close>

definition endpoint_wf :: "socks5_endpoint \<Rightarrow> bool" where
  "endpoint_wf e \<longleftrightarrow> sa_port (se_address e) \<noteq> 0 \<and>
     (case (se_username e, se_password e) of
        (None, None) \<Rightarrow> True
      | (Some u, Some p) \<Rightarrow> \<not> credentials_invalid u p
      | _ \<Rightarrow> False)"

lemma endpoint_from_str_wf: "endpoint_from_str s = Inr e \<Longrightarrow> endpoint_wf e"
  by (auto simp: endpoint_from_str_def endpoint_wf_def parse_credentials_def ok_or_Inr_iff
      split: option.splits if_splits)

lemma socket_from_str_v4_scope:
  "socket_from_str s = Some sa \<Longrightarrow> sa_ip sa = V4 a \<Longrightarrow> sa_scope sa = 0"
  by (auto simp: socket_from_str_def finish_def bind_eq_Some_conv Let_def case_prod_beta
      split: option.splits if_splits)

lemma v4_address_chars: "c \<in> set (show_v4 a @ '':'' @ show_nat n) \<Longrightarrow> (of_char c :: nat) < 59"
  using show_nat_char_range [of c] by (auto simp: show_v4_def v4_octets_def dest!: show_nat_char_range)

lemma show_socket_v4_plain:
  assumes "sa_ip sa = V4 a"
  shows "CHR ''|'' \<notin> set (show_socket sa)" and "show_socket sa \<noteq> []" and "CHR '':'' \<in> set (show_socket sa)"
  using v4_address_chars [of "CHR ''|''" a "unat (sa_port sa)"] assms by (auto simp: show_socket_def)

lemma split_once_free: "c \<notin> set xs \<Longrightarrow> split_once c (xs @ c # ys) = Some (xs, ys)"
  by (simp add: split_once_Some_iff)

lemma endpoint_roundtrip_v4:
  assumes wf: "endpoint_wf e" and v4: "sa_ip (se_address e) = V4 a" and scope: "sa_scope (se_address e) = 0"
  shows "endpoint_from_str (serialize_endpoint e) = Inr e" and "serialize_endpoint e \<noteq> ''none''"
    and "serialize_endpoint e \<noteq> []"
proof -
  let ?s = "show_socket (se_address e)"
  note plain = show_socket_v4_plain [OF v4]
  have colon: "CHR '':'' \<in> set (serialize_endpoint e)"
    using plain(3) by (auto simp: serialize_endpoint_def split: option.splits)
  then show "serialize_endpoint e \<noteq> ''none''" "serialize_endpoint e \<noteq> []" by auto
  have parse: "socket_from_str ?s = Some (se_address e)"
    using socket_from_str_show_v4 [of a "sa_port (se_address e)"] v4 scope
    by (cases "se_address e") simp
  show "endpoint_from_str (serialize_endpoint e) = Inr e"
  proof (cases "se_username e")
    case None
    with wf have "se_password e = None" by (simp add: endpoint_wf_def split: option.splits)
    moreover have "split_once CHR ''|'' ?s = None" using plain(1) by (simp add: split_once_None_iff)
    ultimately show ?thesis
      using None wf parse plain(2) colon
      by (cases e) (auto simp: endpoint_from_str_def serialize_endpoint_def endpoint_wf_def
          parse_credentials_def)
  next
    case (Some u)
    with wf obtain p where p: "se_password e = Some p" and ok: "\<not> credentials_invalid u p"
      by (auto simp: endpoint_wf_def split: option.splits)
    from ok have "split_once CHR '':'' (u @ '':'' @ p) = Some (u, p)"
      by (simp add: credentials_invalid_def split_once_free)
    moreover have "split_once CHR ''|'' (?s @ ''|'' @ u @ '':'' @ p) = Some (?s, u @ '':'' @ p)"
      using plain(1) by (simp add: split_once_free)
    ultimately show ?thesis
      using Some p ok wf parse colon
      by (cases e) (auto simp: endpoint_from_str_def serialize_endpoint_def endpoint_wf_def
          parse_credentials_def)
  qed
qed

text \<open>
  A setting read from the configuration with an IPv4 upstream is written back as text that
  reads as the same setting, credentials included.
\<close>

theorem override_roundtrip:
  assumes "deserialize_field (SStr s) = Inr (Some v)"
    and "\<And>e. v = Endpoint e \<Longrightarrow> is_ipv4 (sa_ip (se_address e))"
  shows "deserialize_field (SStr (serialize_field (Some v))) = Inr (Some v)"
proof (cases v)
  case Disabled
  then show ?thesis by (simp add: deserialize_field_def)
next
  case (Endpoint e)
  with assms(1) have "endpoint_from_str s = Inr e"
    by (auto simp: deserialize_field_def split: if_splits)
  moreover from this obtain addr where "socket_from_str addr = Some (se_address e)"
    by (auto simp: endpoint_from_str_def ok_or_Inr_iff Let_def split: prod.splits if_splits)
  moreover obtain a where "sa_ip (se_address e) = V4 a"
    using assms(2) [OF Endpoint] by (cases "sa_ip (se_address e)") auto
  ultimately show ?thesis
    using endpoint_roundtrip_v4 [OF endpoint_from_str_wf _ socket_from_str_v4_scope] Endpoint
    by (simp add: deserialize_field_def)
qed

theorem override_roundtrip_witness:
  "\<exists>v. deserialize_field (SStr ''127.0.0.1:1080|user:pass'') = Inr (Some v) \<and>
       deserialize_field (SStr (serialize_field (Some v))) = Inr (Some v)"
proof -
  let ?v = "Endpoint \<lparr>se_address = \<lparr>sa_ip = V4 0x7f000001, sa_port = 1080, sa_scope = 0\<rparr>,
      se_username = Some ''user'', se_password = Some ''pass''\<rparr>"
  have d: "deserialize_field (SStr ''127.0.0.1:1080|user:pass'') = Inr (Some ?v)" by code_simp
  have "deserialize_field (SStr (serialize_field (Some ?v))) = Inr (Some ?v)"
    by (rule override_roundtrip [OF d]) auto
  with d show ?thesis by blast
qed

end
