(* ===== verification/Auth.thy ===== *)
theory Auth
  imports ClientAcl Socks5Endpoint
begin

text \<open>
  Accounts and login (\<open>packages/auth\<close>): the users registry, the HMAC success cache bound to a
  hash snapshot, trust-on-first-use provisioning of \<open>init\<close> accounts with its write-back, and the
  per-account policies.  Argon2id, HMAC-SHA-256 and the Ktav codec are parameters; the outcome of a
  publish is the three-way outcome of \<open>TempFileGuard::finish\<close>.
\<close>

section \<open>The registry (user.rs, users_config.rs)\<close>

record user =
  u_name :: str
  u_hash :: str
  u_is_enabled :: bool
  u_allowed_onion :: bool
  u_allowed_clients :: "allowed_clients option"
  u_pre_socks5 :: "endpoint_override option"
  u_post_socks5 :: "endpoint_override option"

record users_config =
  uc_users :: "user list"

definition default_users :: users_config where
  "default_users = \<lparr>uc_users = []\<rparr>"

definition find_user :: "users_config \<Rightarrow> str \<Rightarrow> user option" where
  "find_user cfg name = find (\<lambda>u. u_name u = name) (uc_users cfg)"

text \<open>\<open>find_mut\<close> with an update of the record found: only the first match changes.\<close>

fun update_first :: "('a \<Rightarrow> bool) \<Rightarrow> ('a \<Rightarrow> 'a) \<Rightarrow> 'a list \<Rightarrow> 'a list" where
  "update_first P f [] = []"
| "update_first P f (x # xs) = (if P x then f x # xs else x # update_first P f xs)"

definition update_user :: "str \<Rightarrow> (user \<Rightarrow> user) \<Rightarrow> users_config \<Rightarrow> users_config" where
  "update_user name f cfg = cfg\<lparr>uc_users := update_first (\<lambda>u. u_name u = name) f (uc_users cfg)\<rparr>"

section \<open>Foreign code and the registry file\<close>

text \<open>
  \<open>phc_verify\<close> parses a stored PHC string and verifies a password against it; \<open>phc_hash\<close> hashes
  a password with a salt; \<open>ktav_parse\<close> and \<open>ktav_print\<close> are the registry's codec.
\<close>

record foreign =
  phc_verify :: "str \<Rightarrow> str \<Rightarrow> (unit, bool) result"
  phc_hash :: "str \<Rightarrow> str \<Rightarrow> (unit, str) result"
  hmac_sha256 :: "str \<Rightarrow> str \<Rightarrow> str"
  ktav_parse :: "str \<Rightarrow> (unit, users_config) result"
  ktav_print :: "users_config \<Rightarrow> (unit, str) result"

datatype disk = Missing | Unreadable | File str

text \<open>
  What a save can do to the file: nothing; publish it and report success; or rename the new file
  into place and then fail on the directory sync, which is reported as an error.
\<close>

datatype publish = NotPublished | PublishedUnsynced | Published

text \<open>The choices of the environment during one login.\<close>

record login_env =
  le_salt :: "str option"
  le_lock_ok :: bool
  le_publish :: publish

definition load :: "foreign \<Rightarrow> disk \<Rightarrow> (unit, users_config) result" where
  "load F d =
     (case d of
        File src \<Rightarrow> ktav_parse F src
      | Missing \<Rightarrow> Inr default_users
      | Unreadable \<Rightarrow> Inl ())"

definition save :: "foreign \<Rightarrow> publish \<Rightarrow> users_config \<Rightarrow> disk \<Rightarrow> bool \<times> disk" where
  "save F p cfg d =
     (case ktav_print F cfg of
        Inl _ \<Rightarrow> (False, d)
      | Inr body \<Rightarrow>
          (case p of
             NotPublished \<Rightarrow> (False, d)
           | PublishedUnsynced \<Rightarrow> (False, File body)
           | Published \<Rightarrow> (True, File body)))"

definition compute_hash :: "foreign \<Rightarrow> str option \<Rightarrow> str \<Rightarrow> (unit, str) result" where
  "compute_hash F salt password = and_then (ok_or () salt) (phc_hash F password)"

definition verify_hash :: "foreign \<Rightarrow> str \<Rightarrow> str \<Rightarrow> (unit, bool) result" where
  "verify_hash F stored password = phc_verify F stored password"

section \<open>The authenticator (state.rs)\<close>

definition INIT_SENTINEL :: str where
  "INIT_SENTINEL = ''init''"

record cache_entry =
  ce_hash_snapshot :: str
  ce_hmac :: str

record auth_state =
  as_users :: users_config
  as_cache :: "str \<rightharpoonup> cache_entry"
  as_server_secret :: str
  as_users_path :: "str option"

definition build_inner :: "str option \<Rightarrow> users_config \<Rightarrow> str option \<Rightarrow> (unit, auth_state) result" where
  "build_inner secret cfg path =
     and_then (ok_or () secret) (\<lambda>server_secret.
       Inr \<lparr>as_users = cfg, as_cache = Map.empty, as_server_secret = server_secret, as_users_path = path\<rparr>)"

definition require_auth :: "auth_state \<Rightarrow> bool" where
  "require_auth st \<longleftrightarrow> uc_users (as_users st) \<noteq> []"

definition allowed_onion :: "auth_state \<Rightarrow> str \<Rightarrow> bool" where
  "allowed_onion st name =
     (case find_user (as_users st) name of
        None \<Rightarrow> False
      | Some u \<Rightarrow> u_is_enabled u \<and> u_allowed_onion u)"

definition client_allowed :: "auth_state \<Rightarrow> str \<Rightarrow> ip_addr \<Rightarrow> bool" where
  "client_allowed st name peer =
     (case find_user (as_users st) name of
        None \<Rightarrow> False
      | Some u \<Rightarrow>
          (if \<not> u_is_enabled u then False
           else case u_allowed_clients u of
                  Some policy \<Rightarrow> ac_allows policy peer
                | None \<Rightarrow> True))"

definition hmac :: "foreign \<Rightarrow> auth_state \<Rightarrow> str \<Rightarrow> str \<Rightarrow> str" where
  "hmac F st name password = hmac_sha256 F (as_server_secret st) (name @ [CHR 0x00] @ password)"

definition cache_hit :: "foreign \<Rightarrow> auth_state \<Rightarrow> str \<Rightarrow> str \<Rightarrow> str \<Rightarrow> bool" where
  "cache_hit F st name password hash =
     (case as_cache st name of
        None \<Rightarrow> False
      | Some entry \<Rightarrow> ce_hash_snapshot entry = hash \<and> ce_hmac entry = hmac F st name password)"

definition cache_insert :: "foreign \<Rightarrow> str \<Rightarrow> str \<Rightarrow> str \<Rightarrow> auth_state \<Rightarrow> auth_state" where
  "cache_insert F name password hash st =
     st\<lparr>as_cache := (as_cache st)(name \<mapsto>
          \<lparr>ce_hash_snapshot = hash, ce_hmac = hmac F st name password\<rparr>)\<rparr>"

definition verify_with_cache ::
  "foreign \<Rightarrow> str \<Rightarrow> str \<Rightarrow> str \<Rightarrow> auth_state \<Rightarrow> bool \<times> auth_state" where
  "verify_with_cache F name password hash st =
     (if cache_hit F st name password hash then (True, st)
      else case verify_hash F hash password of
        Inr True \<Rightarrow> (True, cache_insert F name password hash st)
      | Inr False \<Rightarrow> (False, st)
      | Inl _ \<Rightarrow> (False, st))"

datatype decision = Reject | Verify str | Tofu

definition decide :: "auth_state \<Rightarrow> str \<Rightarrow> decision" where
  "decide st name =
     (case find_user (as_users st) name of
        None \<Rightarrow> Reject
      | Some u \<Rightarrow>
          if \<not> u_is_enabled u then Reject
          else if u_hash u = INIT_SENTINEL then Tofu
          else Verify (u_hash u))"

text \<open>
  The transaction of \<open>resolve_init\<close>, up to the release of both locks: refused, lost to a hash set
  meanwhile, or claimed with the new hash.
\<close>

datatype init_outcome = InitRefused | InitLost str | InitClaimed str

definition init_txn ::
  "foreign \<Rightarrow> login_env \<Rightarrow> str \<Rightarrow> str \<Rightarrow> auth_state \<times> disk \<Rightarrow> init_outcome \<times> auth_state \<times> disk" where
  "init_txn F E name password = (\<lambda>(st, d).
     if password = [] then (InitRefused, st, d)
     else case compute_hash F (le_salt E) password of
       Inl _ \<Rightarrow> (InitRefused, st, d)
     | Inr new_hash \<Rightarrow>
         if as_users_path st \<noteq> None \<and> \<not> le_lock_ok E then (InitRefused, st, d)
         else case (if as_users_path st \<noteq> None then load F d else Inr (as_users st)) of
           Inl _ \<Rightarrow> (InitRefused, st, d)
         | Inr current \<Rightarrow>
             (case find_user current name of
                None \<Rightarrow> (InitRefused, st, d)
              | Some u \<Rightarrow>
                  if \<not> u_is_enabled u then (InitRefused, st, d)
                  else if u_hash u \<noteq> INIT_SENTINEL
                  then (InitLost (u_hash u), st\<lparr>as_users := current\<rparr>, d)
                  else
                    (let current = update_user name (\<lambda>u. u\<lparr>u_hash := new_hash\<rparr>) current;
                         (ok, d') = (if as_users_path st \<noteq> None then save F (le_publish E) current d
                                     else (True, d))
                     in if ok then (InitClaimed new_hash, st\<lparr>as_users := current\<rparr>, d')
                        else (InitRefused, st, d'))))"

definition resolve_init ::
  "foreign \<Rightarrow> login_env \<Rightarrow> str \<Rightarrow> str \<Rightarrow> auth_state \<times> disk \<Rightarrow> bool \<times> auth_state \<times> disk" where
  "resolve_init F E name password s =
     (case init_txn F E name password s of
        (InitRefused, st, d) \<Rightarrow> (False, st, d)
      | (InitLost h, st, d) \<Rightarrow> (let (r, st) = verify_with_cache F name password h st in (r, st, d))
      | (InitClaimed h, st, d) \<Rightarrow> (True, cache_insert F name password h st, d))"

definition verify ::
  "foreign \<Rightarrow> login_env \<Rightarrow> str \<Rightarrow> str \<Rightarrow> auth_state \<times> disk \<Rightarrow> bool \<times> auth_state \<times> disk" where
  "verify F E name password = (\<lambda>(st, d).
     case decide st name of
       Reject \<Rightarrow> (False, st, d)
     | Verify hash \<Rightarrow> (let (r, st) = verify_with_cache F name password hash st in (r, st, d))
     | Tofu \<Rightarrow> resolve_init F E name password (st, d))"

section \<open>Registry lemmas\<close>

lemma find_update_first:
  assumes "\<And>u. P (f u) = P u"
  shows "find P (update_first P f xs) = map_option f (find P xs)"
  using assms by (induction xs) auto

lemma find_update_first_other:
  assumes "\<And>u. P u \<Longrightarrow> \<not> Q u \<and> \<not> Q (f u)"
  shows "find Q (update_first P f xs) = find Q xs"
  using assms by (induction xs) auto

lemma find_user_update:
  assumes "\<And>u. u_name (f u) = u_name u"
  shows "find_user (update_user n f cfg) name =
    (if name = n then map_option f (find_user cfg name) else find_user cfg name)"
  using assms
  by (auto simp: find_user_def update_user_def find_update_first find_update_first_other)

section \<open>The cache\<close>

text \<open>
  Two messages that differ are given different tags: the collision resistance of the keyed hash,
  idealised.
\<close>

definition hmac_collision_free :: "foreign \<Rightarrow> bool" where
  "hmac_collision_free F \<longleftrightarrow> (\<forall>k. inj (hmac_sha256 F k))"

text \<open>A password verifies against the hash it was hashed to.\<close>

definition hash_verifies :: "foreign \<Rightarrow> bool" where
  "hash_verifies F \<longleftrightarrow> (\<forall>p s h. phc_hash F p s = Inr h \<longrightarrow> phc_verify F h p = Inr True)"

definition cache_ok :: "foreign \<Rightarrow> auth_state \<Rightarrow> bool" where
  "cache_ok F st \<longleftrightarrow> (\<forall>name e. as_cache st name = Some e \<longrightarrow>
     (\<exists>p. ce_hmac e = hmac F st name p \<and> phc_verify F (ce_hash_snapshot e) p = Inr True))"

lemma hmac_inject:
  "hmac_collision_free F \<Longrightarrow> hmac F st name p = hmac F st name q \<longleftrightarrow> p = q"
  by (auto simp: hmac_collision_free_def hmac_def dest: injD)

lemma cache_hit_sound:
  "hmac_collision_free F \<Longrightarrow> cache_ok F st \<Longrightarrow> cache_hit F st name p h \<Longrightarrow> phc_verify F h p = Inr True"
  by (fastforce simp: cache_ok_def cache_hit_def hmac_inject split: option.splits)

lemma hmac_update [simp]:
  "hmac F (st\<lparr>as_users := us\<rparr>) = hmac F st" "hmac F (st\<lparr>as_cache := c\<rparr>) = hmac F st"
  by (simp_all add: fun_eq_iff hmac_def)

lemma cache_ok_insert:
  assumes "cache_ok F st" and "phc_verify F h p = Inr True"
  shows "cache_ok F (cache_insert F name p h st)"
proof -
  have "hmac F (cache_insert F name p h st) = hmac F st" by (simp add: cache_insert_def)
  with assms show ?thesis by (auto simp: cache_ok_def) (auto simp: cache_insert_def split: if_splits)
qed

lemma cache_ok_users [simp]: "cache_ok F (st\<lparr>as_users := us\<rparr>) = cache_ok F st"
  by (simp add: cache_ok_def)

lemma verify_with_cache_spec:
  assumes "hmac_collision_free F" and "cache_ok F st"
  shows "fst (verify_with_cache F name p h st) \<longleftrightarrow> phc_verify F h p = Inr True"
    and "cache_ok F (snd (verify_with_cache F name p h st))"
    and "as_users (snd (verify_with_cache F name p h st)) = as_users st"
  using assms cache_hit_sound [OF assms, of name p h] cache_ok_insert [OF assms(2)]
  by (auto simp: verify_with_cache_def verify_hash_def cache_insert_def split: sum.splits bool.splits)

text \<open>The login decision without a cache: what the source promises of \<open>verify\<close>.\<close>

definition login_spec :: "foreign \<Rightarrow> login_env \<Rightarrow> str \<Rightarrow> str \<Rightarrow> auth_state \<times> disk \<Rightarrow> bool" where
  "login_spec F E name password = (\<lambda>(st, d).
     case decide st name of
       Reject \<Rightarrow> False
     | Verify h \<Rightarrow> phc_verify F h password = Inr True
     | Tofu \<Rightarrow> (case fst (init_txn F E name password (st, d)) of
          InitRefused \<Rightarrow> False
        | InitLost h \<Rightarrow> phc_verify F h password = Inr True
        | InitClaimed h \<Rightarrow> True))"

lemma init_txn_cache:
  "init_txn F E name p (st, d) = (oc, st', d') \<Longrightarrow>
   as_cache st' = as_cache st \<and> as_server_secret st' = as_server_secret st"
  by (auto simp: init_txn_def Let_def split: if_splits sum.splits option.splits prod.splits)

lemma init_txn_claimed:
  "init_txn F E name p (st, d) = (InitClaimed h, st', d') \<Longrightarrow>
   p \<noteq> [] \<and> (\<exists>salt. le_salt E = Some salt \<and> phc_hash F p salt = Inr h)"
  by (auto simp: init_txn_def Let_def compute_hash_def ok_or_Inr_iff
      split: if_splits sum.splits option.splits prod.splits)

lemma cache_ok_cong:
  "as_cache st' = as_cache st \<Longrightarrow> as_server_secret st' = as_server_secret st \<Longrightarrow> cache_ok F st' = cache_ok F st"
  by (simp add: cache_ok_def hmac_def)

text \<open>
  C6: The success cache never changes a login's outcome: started from a sound cache, a login is
  accepted exactly when the decision without the cache accepts it, so a cached credential whose
  hash has been rotated away is rejected, and the cache stays sound.
\<close>

theorem verify_refines_cacheless:
  assumes "hmac_collision_free F" and "hash_verifies F" and "cache_ok F st"
    and "verify F E name password (st, d) = (r, st', d')"
  shows "r = login_spec F E name password (st, d) \<and> cache_ok F st'"
proof (cases "decide st name")
  case Reject
  with assms show ?thesis by (simp add: verify_def login_spec_def)
next
  case (Verify h)
  with assms verify_with_cache_spec [OF assms(1,3), of name password h] show ?thesis
    by (auto simp: verify_def login_spec_def split: prod.splits)
next
  case Tofu
  obtain oc st1 d1 where txn: "init_txn F E name password (st, d) = (oc, st1, d1)"
    by (metis surj_pair)
  have ok1: "cache_ok F st1" using init_txn_cache [OF txn] cache_ok_cong assms(3) by blast
  show ?thesis
  proof (cases oc)
    case InitRefused
    with Tofu txn assms(4) ok1 show ?thesis
      by (simp add: verify_def login_spec_def resolve_init_def)
  next
    case (InitLost h)
    with Tofu txn assms(4) verify_with_cache_spec [OF assms(1) ok1, of name password h] show ?thesis
      by (auto simp: verify_def login_spec_def resolve_init_def split: prod.splits)
  next
    case (InitClaimed h)
    with txn assms(2) have "phc_verify F h password = Inr True"
      by (auto simp: hash_verifies_def dest!: init_txn_claimed)
    with InitClaimed Tofu txn assms(4) cache_ok_insert [OF ok1] show ?thesis
      by (auto simp: verify_def login_spec_def resolve_init_def)
  qed
qed

text \<open>A concrete instance of the foreign code, for the witnesses.\<close>

definition demo_user :: "str \<Rightarrow> user" where
  "demo_user h = \<lparr>u_name = ''alice'', u_hash = h, u_is_enabled = True, u_allowed_onion = False,
     u_allowed_clients = None, u_pre_socks5 = None, u_post_socks5 = None\<rparr>"

definition demo_foreign :: foreign where
  "demo_foreign = \<lparr>
     phc_verify = (\<lambda>h p. if h = ''init'' then Inl () else Inr (h = CHR ''$'' # p)),
     phc_hash = (\<lambda>p s. Inr (CHR ''$'' # p)),
     hmac_sha256 = (\<lambda>k m. k @ m),
     ktav_parse = (\<lambda>s. Inr \<lparr>uc_users = [demo_user (if s = ''alice'' then ''init'' else s)]\<rparr>),
     ktav_print = (\<lambda>cfg. case uc_users cfg of [] \<Rightarrow> Inr [] | u # _ \<Rightarrow> Inr (u_hash u))\<rparr>"

definition demo_state :: "str \<Rightarrow> auth_state" where
  "demo_state h = \<lparr>as_users = \<lparr>uc_users = [demo_user h]\<rparr>, as_cache = Map.empty,
     as_server_secret = ''k'', as_users_path = Some ''users''\<rparr>"

definition demo_env :: "publish \<Rightarrow> login_env" where
  "demo_env p = \<lparr>le_salt = Some ''salt'', le_lock_ok = True, le_publish = p\<rparr>"

lemma demo_laws:
  "hmac_collision_free demo_foreign" "hash_verifies demo_foreign" "cache_ok demo_foreign (demo_state h)"
  "phc_verify demo_foreign INIT_SENTINEL p \<noteq> Inr True"
  by (auto simp: hmac_collision_free_def hash_verifies_def cache_ok_def demo_foreign_def demo_state_def
      INIT_SENTINEL_def inj_def)

theorem verify_refines_cacheless_witness:
  "\<exists>st'. verify demo_foreign (demo_env Published) ''alice'' ''pw'' (demo_state ''$pw'', Missing) = (True, st', Missing)
     \<and> login_spec demo_foreign (demo_env Published) ''alice'' ''pw'' (demo_state ''$pw'', Missing)
     \<and> cache_ok demo_foreign st'"
proof -
  let ?st = "cache_insert demo_foreign ''alice'' ''pw'' ''$pw'' (demo_state ''$pw'')"
  have v: "verify demo_foreign (demo_env Published) ''alice'' ''pw'' (demo_state ''$pw'', Missing) = (True, ?st, Missing)"
    by (simp add: verify_def decide_def find_user_def demo_state_def demo_user_def demo_foreign_def
        INIT_SENTINEL_def verify_with_cache_def cache_hit_def verify_hash_def)
  from verify_refines_cacheless [OF demo_laws(1-3) v] v show ?thesis by auto
qed

lemma demo_txn:
  "init_txn demo_foreign (demo_env Published) ''alice'' ''pw'' (demo_state ''init'', File ''alice'')
     = (InitClaimed ''$pw'', demo_state ''$pw'', File ''$pw'')"
  by (simp add: init_txn_def demo_foreign_def demo_env_def demo_state_def compute_hash_def ok_or_def
      load_def find_user_def INIT_SENTINEL_def save_def update_user_def demo_user_def)

lemma demo_tofu: "decide (demo_state ''init'') ''alice'' = Tofu"
  by (simp add: decide_def find_user_def demo_state_def demo_user_def INIT_SENTINEL_def)

section \<open>Trust on first use\<close>

text \<open>
  C9: A provisioning transaction is all or nothing for the process: refused, it leaves the accounts
  and the cache untouched, and the file too unless a save reported a failed directory sync after the
  rename; lost, it adopts the file's accounts, where the account has a real hash; claimed, the
  account alone carries the new hash, and a persistent registry has exactly these accounts on disk.
\<close>

theorem init_txn_all_or_nothing:
  assumes "init_txn F E name p (st, d) = (oc, st', d')"
  shows "case oc of
      InitRefused \<Rightarrow> st' = st \<and> (d' \<noteq> d \<longrightarrow> le_publish E = PublishedUnsynced)
    | InitLost h \<Rightarrow> d' = d \<and> h \<noteq> INIT_SENTINEL \<and>
        (\<exists>u. find_user (as_users st') name = Some u \<and> u_is_enabled u \<and> u_hash u = h) \<and>
        (as_users_path st \<noteq> None \<longrightarrow> load F d = Inr (as_users st'))
    | InitClaimed h \<Rightarrow> p \<noteq> [] \<and>
        (\<exists>old u. (if as_users_path st = None then old = as_users st else load F d = Inr old) \<and>
           find_user old name = Some u \<and> u_is_enabled u \<and> u_hash u = INIT_SENTINEL \<and>
           find_user (as_users st') name = Some (u\<lparr>u_hash := h\<rparr>) \<and>
           (\<forall>n. n \<noteq> name \<longrightarrow> find_user (as_users st') n = find_user old n)) \<and>
        (if as_users_path st = None then d' = d
         else \<exists>body. ktav_print F (as_users st') = Inr body \<and> d' = File body)"
  using assms
  by (auto simp: init_txn_def Let_def save_def find_user_update
      split: if_splits sum.splits option.splits prod.splits publish.splits)

theorem init_txn_all_or_nothing_witness:
  "\<exists>st' d'. init_txn demo_foreign (demo_env Published) ''alice'' ''pw'' (demo_state ''init'', File ''alice'')
     = (InitClaimed ''$pw'', st', d') \<and> d' = File ''$pw'' \<and>
     find_user (as_users st') ''alice'' = Some (demo_user ''$pw'')"
  using init_txn_all_or_nothing [OF demo_txn] demo_txn
  by (auto simp: demo_state_def find_user_def demo_user_def)

text \<open>
  C14: The first accepted password of an \<open>init\<close> account becomes its credential: after that login
  the process accepts for this account exactly the passwords that verify against the hash just set
  or found, whatever the file holds later, and the accepted password is one of them.
\<close>

theorem first_login_fixes_credential:
  assumes laws: "hmac_collision_free F" "hash_verifies F" "cache_ok F st"
    and init_malformed: "\<And>q. phc_verify F INIT_SENTINEL q \<noteq> Inr True"
    and tofu: "decide st name = Tofu"
    and login: "verify F E name p (st, d) = (True, st', d')"
  shows "\<exists>h. decide st' name = Verify h \<and> phc_verify F h p = Inr True \<and>
    (\<forall>E' q e. fst (verify F E' name q (st', e)) \<longleftrightarrow> phc_verify F h q = Inr True)"
proof -
  obtain oc st1 d1 where txn: "init_txn F E name p (st, d) = (oc, st1, d1)"
    by (metis surj_pair)
  have ok1: "cache_ok F st1" using init_txn_cache [OF txn] cache_ok_cong laws(3) by blast
  from login tofu txn obtain h where h: "oc = InitLost h \<or> oc = InitClaimed h"
    by (cases oc) (auto simp: verify_def resolve_init_def)
  have users: "as_users st' = as_users st1" and ver: "phc_verify F h p = Inr True" and ok: "cache_ok F st'"
    using h login tofu txn verify_with_cache_spec [OF laws(1) ok1, of name p h]
      init_txn_claimed [of F E name p st d h st1 d1] cache_ok_insert [OF ok1, of h p name] laws(2)
    by (auto simp: verify_def resolve_init_def cache_insert_def hash_verifies_def split: prod.splits)
  have "\<exists>u. find_user (as_users st1) name = Some u \<and> u_is_enabled u \<and> u_hash u = h"
    using h txn by (auto simp: init_txn_def Let_def find_user_update
        split: if_splits sum.splits option.splits prod.splits)
  with users ver init_malformed [of p] have dec: "decide st' name = Verify h"
    by (auto simp: decide_def)
  have "fst (verify F E' name q (st', e)) \<longleftrightarrow> phc_verify F h q = Inr True" for E' q e
    using dec verify_with_cache_spec(1) [OF laws(1) ok, of name q h]
    by (simp add: verify_def case_prod_beta)
  with dec ver show ?thesis by blast
qed

theorem first_login_fixes_credential_witness:
  "\<exists>st' h. verify demo_foreign (demo_env Published) ''alice'' ''pw'' (demo_state ''init'', File ''alice'')
       = (True, st', File ''$pw'') \<and>
     decide st' ''alice'' = Verify h \<and>
     \<not> fst (verify demo_foreign (demo_env Published) ''alice'' ''other'' (st', Missing))"
proof -
  let ?st = "cache_insert demo_foreign ''alice'' ''pw'' ''$pw'' (demo_state ''$pw'')"
  have v: "verify demo_foreign (demo_env Published) ''alice'' ''pw'' (demo_state ''init'', File ''alice'')
       = (True, ?st, File ''$pw'')"
    by (simp only: verify_def prod.case demo_tofu decision.case resolve_init_def demo_txn init_outcome.case)
  from first_login_fixes_credential [OF demo_laws demo_tofu v] obtain h where
    "decide ?st ''alice'' = Verify h" "phc_verify demo_foreign h ''pw'' = Inr True"
    "\<not> fst (verify demo_foreign (demo_env Published) ''alice'' ''other'' (?st, Missing)) \<longleftrightarrow>
       phc_verify demo_foreign h ''other'' \<noteq> Inr True"
    by blast
  moreover from this(2) have "phc_verify demo_foreign h ''other'' \<noteq> Inr True"
    by (auto simp: demo_foreign_def split: if_splits)
  ultimately show ?thesis using v by blast
qed

text \<open>
  An account that is unknown or disabled in the registry gets nothing: no login, no onion
  access, no client address, and the attempt changes neither the process nor the file.
\<close>

theorem disabled_account_gets_nothing:
  assumes "\<And>u. find_user (as_users st) name = Some u \<Longrightarrow> \<not> u_is_enabled u"
  shows "verify F E name p (st, d) = (False, st, d) \<and> \<not> allowed_onion st name \<and>
    \<not> client_allowed st name peer"
  using assms
  by (auto simp: verify_def decide_def allowed_onion_def client_allowed_def split: option.splits)

theorem disabled_account_gets_nothing_witness:
  "verify demo_foreign (demo_env Published) ''bob'' ''pw'' (demo_state ''$pw'', Missing)
     = (False, demo_state ''$pw'', Missing) \<and> \<not> client_allowed (demo_state ''$pw'') ''bob'' (V4 1)"
  using disabled_account_gets_nothing [of "demo_state ''$pw''" "''bob''" demo_foreign "demo_env Published" "''pw''" Missing "V4 1"]
  by (simp add: demo_state_def find_user_def demo_user_def)

text \<open>
  A save that renames the new registry into place and then fails to sync the directory refuses
  the login but leaves the new hash in the file: the account is no longer claimable, and the next
  client with another password is refused.
\<close>

theorem unsynced_save_burns_the_claim:
  assumes persistent: "as_users_path st \<noteq> None" and loaded: "load F d = Inr cfg"
    and user: "find_user cfg name = Some u" "u_is_enabled u" "u_hash u = INIT_SENTINEL"
    and tofu: "decide st name = Tofu"
    and env: "le_lock_ok E" "le_publish E = PublishedUnsynced" "le_salt E = Some salt" "p \<noteq> []"
    and hash: "phc_hash F p salt = Inr h" "h \<noteq> INIT_SENTINEL"
    and codec: "cfg' = update_user name (\<lambda>u. u\<lparr>u_hash := h\<rparr>) cfg"
      "ktav_print F cfg' = Inr body" "ktav_parse F body = Inr cfg'"
    and other: "phc_verify F h q \<noteq> Inr True" "as_cache st name = None"
  shows "verify F E name p (st, d) = (False, st, File body) \<and>
    (\<forall>E'. fst (verify F E' name q (st, File body)) = False)"
proof
  show "verify F E name p (st, d) = (False, st, File body)"
    using assms by (simp add: verify_def resolve_init_def init_txn_def compute_hash_def ok_or_def save_def Let_def)
  have "find_user cfg' name = Some (u\<lparr>u_hash := h\<rparr>)"
    using user codec(1) by (simp add: find_user_update)
  then have txn: "fst (init_txn F E' name q (st, File body)) \<in> {InitRefused, InitLost h}" for E'
    using persistent codec hash by (auto simp: init_txn_def load_def split: sum.splits)
  have "fst (resolve_init F E' name q (st, File body)) = False" for E'
  proof -
    obtain oc st1 d1 where t: "init_txn F E' name q (st, File body) = (oc, st1, d1)"
      by (metis surj_pair)
    with init_txn_cache [OF t] txn [of E'] other show ?thesis
      by (auto simp: resolve_init_def verify_with_cache_def cache_hit_def verify_hash_def
          split: sum.splits bool.splits)
  qed
  then show "\<forall>E'. fst (verify F E' name q (st, File body)) = False"
    by (simp add: verify_def tofu)
qed

theorem unsynced_save_burns_the_claim_witness:
  "verify demo_foreign (demo_env PublishedUnsynced) ''alice'' ''pw'' (demo_state ''init'', File ''alice'')
     = (False, demo_state ''init'', File ''$pw'') \<and>
   (\<forall>E'. fst (verify demo_foreign E' ''alice'' ''other'' (demo_state ''init'', File ''$pw'')) = False)"
  by (rule unsynced_save_burns_the_claim [where cfg = "\<lparr>uc_users = [demo_user ''init'']\<rparr>" and
        u = "demo_user ''init''" and salt = "''salt''" and h = "''$pw''" and
        cfg' = "\<lparr>uc_users = [demo_user ''$pw'']\<rparr>"])
    (simp_all add: demo_tofu,
     simp_all add: demo_state_def demo_foreign_def demo_env_def demo_user_def load_def find_user_def
       INIT_SENTINEL_def update_user_def)

end
