(* ===== verification/AuthSteps.thy ===== *)
theory AuthSteps
  imports Auth
begin

text \<open>
  Concurrent logins.  A login runs in the steps between which the source holds no lock: the decision
  under the read lock, the cache lookup, the Argon2id check, the cache insertion, and the
  provisioning transaction.  Logins interleave with each other and with edits of the registry file
  by other processes.
\<close>

section \<open>Login threads\<close>

datatype phase =
    Start
  | Lookup str
  | Check str
  | Store str
  | Txn
  | Accepted str
  | Rejected

record login =
  l_name :: str
  l_password :: str
  l_phase :: phase

text \<open>
  \<open>m_seen\<close> collects the credentials, account name and hash, that were enabled in some registry
  the process has held in memory so far.
\<close>

record machine =
  m_auth :: auth_state
  m_disk :: disk
  m_logins :: "nat \<rightharpoonup> login"
  m_seen :: "(str \<times> str) set"

definition enabled_hashes :: "users_config \<Rightarrow> (str \<times> str) set" where
  "enabled_hashes cfg = {(name, u_hash u) | name u. find_user cfg name = Some u \<and> u_is_enabled u}"

definition goto :: "nat \<Rightarrow> phase \<Rightarrow> machine \<Rightarrow> machine" where
  "goto i ph m = m\<lparr>m_logins := (m_logins m)(i := map_option (\<lambda>l. l\<lparr>l_phase := ph\<rparr>) (m_logins m i))\<rparr>"

definition set_auth :: "auth_state \<Rightarrow> disk \<Rightarrow> machine \<Rightarrow> machine" where
  "set_auth st d m = m\<lparr>m_auth := st, m_disk := d, m_seen := m_seen m \<union> enabled_hashes (as_users st)\<rparr>"

fun decision_phase :: "decision \<Rightarrow> phase" where
  "decision_phase Reject = Rejected"
| "decision_phase (Verify h) = Lookup h"
| "decision_phase Tofu = Txn"

fun outcome_phase :: "init_outcome \<Rightarrow> phase" where
  "outcome_phase InitRefused = Rejected"
| "outcome_phase (InitLost h) = Lookup h"
| "outcome_phase (InitClaimed h) = Store h"

inductive login_step :: "foreign \<Rightarrow> machine \<Rightarrow> machine \<Rightarrow> bool" for F where
  arrive: "m_logins m i = None \<Longrightarrow>
    login_step F m (m\<lparr>m_logins := (m_logins m)(i \<mapsto> \<lparr>l_name = n, l_password = p, l_phase = Start\<rparr>)\<rparr>)"
| decide: "m_logins m i = Some l \<Longrightarrow> l_phase l = Start \<Longrightarrow>
    login_step F m (goto i (decision_phase (decide (m_auth m) (l_name l))) m)"
| lookup: "m_logins m i = Some l \<Longrightarrow> l_phase l = Lookup h \<Longrightarrow>
    login_step F m
      (goto i (if cache_hit F (m_auth m) (l_name l) (l_password l) h then Accepted h else Check h) m)"
| check: "m_logins m i = Some l \<Longrightarrow> l_phase l = Check h \<Longrightarrow>
    login_step F m (goto i (if verify_hash F h (l_password l) = Inr True then Store h else Rejected) m)"
| store: "m_logins m i = Some l \<Longrightarrow> l_phase l = Store h \<Longrightarrow>
    login_step F m
      (goto i (Accepted h)
        (set_auth (cache_insert F (l_name l) (l_password l) h (m_auth m)) (m_disk m) m))"
| txn: "m_logins m i = Some l \<Longrightarrow> l_phase l = Txn \<Longrightarrow>
    init_txn F E (l_name l) (l_password l) (m_auth m, m_disk m) = (oc, st, d) \<Longrightarrow>
    login_step F m (goto i (outcome_phase oc) (set_auth st d m))"
| edit: "login_step F m (m\<lparr>m_disk := d\<rparr>)"

inductive reachable :: "foreign \<Rightarrow> machine \<Rightarrow> bool" for F where
  boot: "build_inner secret cfg path = Inr st \<Longrightarrow>
    reachable F \<lparr>m_auth = st, m_disk = d, m_logins = Map.empty, m_seen = enabled_hashes cfg\<rparr>"
| step: "reachable F m \<Longrightarrow> login_step F m m' \<Longrightarrow> reachable F m'"

section \<open>The invariant\<close>

fun phase_ok :: "foreign \<Rightarrow> (str \<times> str) set \<Rightarrow> str \<Rightarrow> str \<Rightarrow> phase \<Rightarrow> bool" where
  "phase_ok F seen n p (Lookup h) \<longleftrightarrow> (n, h) \<in> seen"
| "phase_ok F seen n p (Check h) \<longleftrightarrow> (n, h) \<in> seen"
| "phase_ok F seen n p (Store h) \<longleftrightarrow> (n, h) \<in> seen \<and> phc_verify F h p = Inr True"
| "phase_ok F seen n p (Accepted h) \<longleftrightarrow> (n, h) \<in> seen \<and> phc_verify F h p = Inr True"
| "phase_ok F seen n p _ \<longleftrightarrow> True"

definition machine_ok :: "foreign \<Rightarrow> machine \<Rightarrow> bool" where
  "machine_ok F m \<longleftrightarrow> cache_ok F (m_auth m) \<and> enabled_hashes (as_users (m_auth m)) \<subseteq> m_seen m \<and>
     (\<forall>i l. m_logins m i = Some l \<longrightarrow> phase_ok F (m_seen m) (l_name l) (l_password l) (l_phase l))"

lemma phase_ok_mono: "phase_ok F seen n p ph \<Longrightarrow> seen \<subseteq> seen' \<Longrightarrow> phase_ok F seen' n p ph"
  by (cases ph) auto

lemma machine_ok_goto:
  assumes "machine_ok F m" and "m_logins m i = Some l"
    and "phase_ok F (m_seen m) (l_name l) (l_password l) ph"
  shows "machine_ok F (goto i ph m)"
  using assms by (auto simp: machine_ok_def goto_def)

lemma machine_ok_set_auth:
  assumes "machine_ok F m" and "cache_ok F st"
  shows "machine_ok F (set_auth st d m)"
  using assms by (auto simp: machine_ok_def set_auth_def intro: phase_ok_mono)

lemma decide_seen: "decide st n = Verify h \<Longrightarrow> (n, h) \<in> enabled_hashes (as_users st)"
  by (auto simp: decide_def enabled_hashes_def split: option.splits if_splits)

lemma init_txn_seen:
  assumes "init_txn F E n p (st, d) = (oc, st', d')" and "oc = InitLost h \<or> oc = InitClaimed h"
  shows "(n, h) \<in> enabled_hashes (as_users st')"
  using assms by (auto simp: init_txn_def Let_def enabled_hashes_def find_user_update
      split: if_splits sum.splits option.splits prod.splits)

lemma logins_set_auth [simp]: "m_logins (set_auth st d m) = m_logins m"
  by (simp add: set_auth_def)

lemma seen_set_auth: "x \<in> m_seen m \<Longrightarrow> x \<in> m_seen (set_auth st d m)"
  by (simp add: set_auth_def)

lemma machine_ok_step:
  assumes laws: "hmac_collision_free F" "hash_verifies F" and ok: "machine_ok F m"
    and "login_step F m m'"
  shows "machine_ok F m'"
  using assms(4)
proof cases
  case (arrive i n p)
  with ok show ?thesis by (auto simp: machine_ok_def)
next
  case (decide i l)
  have "phase_ok F (m_seen m) (l_name l) (l_password l) (decision_phase (Auth.decide (m_auth m) (l_name l)))"
    using ok decide_seen [of "m_auth m" "l_name l"]
    by (cases "Auth.decide (m_auth m) (l_name l)") (auto simp: machine_ok_def)
  with ok decide show ?thesis by (auto intro: machine_ok_goto)
next
  case (lookup i l h)
  with ok have "(l_name l, h) \<in> m_seen m" by (fastforce simp: machine_ok_def)
  moreover have "phc_verify F h (l_password l) = Inr True"
    if "cache_hit F (m_auth m) (l_name l) (l_password l) h"
    using cache_hit_sound [OF laws(1) _ that] ok by (simp add: machine_ok_def)
  ultimately show ?thesis using ok lookup by (auto intro: machine_ok_goto)
next
  case (check i l h)
  with ok have "(l_name l, h) \<in> m_seen m" by (fastforce simp: machine_ok_def)
  with ok check show ?thesis by (auto simp: verify_hash_def intro: machine_ok_goto)
next
  case (store i l h)
  with ok have h: "(l_name l, h) \<in> m_seen m" "phc_verify F h (l_password l) = Inr True"
    by (fastforce simp: machine_ok_def)+
  then have "cache_ok F (cache_insert F (l_name l) (l_password l) h (m_auth m))"
    using ok by (simp add: machine_ok_def cache_ok_insert)
  from machine_ok_set_auth [OF ok this] show ?thesis
    using store h seen_set_auth by (auto intro!: machine_ok_goto)
next
  case (txn i l E oc st d)
  have "cache_ok F st"
    using init_txn_cache [OF txn(4)] ok cache_ok_cong [of st "m_auth m" F] by (simp add: machine_ok_def)
  from machine_ok_set_auth [OF ok this] have "machine_ok F (set_auth st d m)" .
  moreover have "phase_ok F (m_seen (set_auth st d m)) (l_name l) (l_password l) (outcome_phase oc)"
    using init_txn_seen [OF txn(4)] init_txn_claimed [of F E "l_name l" "l_password l" "m_auth m" "m_disk m"] txn(4) laws(2)
    by (cases oc) (auto simp: set_auth_def hash_verifies_def)
  ultimately show ?thesis using txn by (auto intro: machine_ok_goto)
next
  case (edit d)
  with ok show ?thesis by (simp add: machine_ok_def)
qed

lemma reachable_machine_ok:
  assumes "hmac_collision_free F" "hash_verifies F" and "reachable F m"
  shows "machine_ok F m"
  using assms(3)
proof induction
  case (boot secret cfg path st d)
  then show ?case by (auto simp: machine_ok_def build_inner_def cache_ok_def ok_or_Inr_iff)
next
  case (step m m')
  then show ?case using machine_ok_step [OF assms(1,2)] by blast
qed

text \<open>
  C1: However logins interleave with each other, with provisioning and with edits of the registry
  file, a login is accepted only with a password that verifies, by Argon2id itself, against a hash
  that was enabled for that account in a registry the process held; a cached or late-published
  result never admits anything else.
\<close>

theorem accepted_login_was_verified:
  assumes "hmac_collision_free F" and "hash_verifies F" and "reachable F m"
    and "m_logins m i = Some l" and "l_phase l = Accepted h"
  shows "phc_verify F h (l_password l) = Inr True \<and> (l_name l, h) \<in> m_seen m"
  using reachable_machine_ok [OF assms(1-3)] assms(4,5) by (fastforce simp: machine_ok_def)

theorem accepted_login_was_verified_witness:
  "\<exists>m l. reachable demo_foreign m \<and> m_logins m 0 = Some l \<and> l_phase l = Accepted ''$pw'' \<and>
     phc_verify demo_foreign ''$pw'' (l_password l) = Inr True \<and> (l_name l, ''$pw'') \<in> m_seen m"
proof -
  let ?F = demo_foreign and ?l = "\<lambda>ph. \<lparr>l_name = ''alice'', l_password = ''pw'', l_phase = ph\<rparr>"
  define st where "st = (demo_state ''$pw'')\<lparr>as_users_path := None\<rparr>"
  define seen where "seen = enabled_hashes (as_users st)"
  define m where "m = (\<lambda>st ph. \<lparr>m_auth = st, m_disk = Missing, m_logins = [0 \<mapsto> ?l ph], m_seen = seen\<rparr>)"
  have d: "decide st ''alice'' = Verify ''$pw''"
    by (simp add: st_def decide_def demo_state_def find_user_def demo_user_def INIT_SENTINEL_def)
  have "reachable ?F \<lparr>m_auth = st, m_disk = Missing, m_logins = Map.empty, m_seen = seen\<rparr>"
    by (simp add: seen_def, rule reachable.boot [of "Some ''k''" _ None])
      (simp add: build_inner_def ok_or_def st_def demo_state_def)
  from reachable.step [OF this login_step.arrive [of _ 0 _ "''alice''" "''pw''"]]
  have "reachable ?F (m st Start)" by (simp add: m_def)
  from reachable.step [OF this login_step.decide [of _ 0 "?l Start"]]
  have "reachable ?F (m st (Lookup ''$pw''))" by (simp add: m_def goto_def d)
  from reachable.step [OF this login_step.lookup [of _ 0 "?l (Lookup ''$pw'')"]]
  have "reachable ?F (m st (Check ''$pw''))"
    by (simp add: m_def goto_def cache_hit_def st_def demo_state_def)
  from reachable.step [OF this login_step.check [of _ 0 "?l (Check ''$pw'')"]]
  have "reachable ?F (m st (Store ''$pw''))"
    by (simp add: m_def goto_def verify_hash_def demo_foreign_def)
  from reachable.step [OF this login_step.store [of _ 0 "?l (Store ''$pw'')"]]
  have r: "reachable ?F (m (cache_insert ?F ''alice'' ''pw'' ''$pw'' st) (Accepted ''$pw''))"
    by (simp add: m_def goto_def set_auth_def seen_def cache_insert_def)
  from accepted_login_was_verified [OF demo_laws(1,2) r, of 0 "?l (Accepted ''$pw'')"] r
  show ?thesis by (intro exI [of _ "m (cache_insert ?F ''alice'' ''pw'' ''$pw'' st) (Accepted ''$pw'')"]
        exI [of _ "?l (Accepted ''$pw'')"]) (simp add: m_def)
qed

end
