(* ===== verification/TempFiles.thy ===== *)
theory TempFiles
  imports Text_Num
begin

text \<open>
  Owned temp files (\<open>packages/persist-lock/src/temp.rs\<close>): the canonical temp names and their
  recogniser, and the ownership protocol between writers (\<open>TempFileGuard\<close>) and readers that clean
  up after dead writers.  The protocol is a step relation with one rule per file-system call; any
  number of writers and cleaners of one target interleave, calls may fail, and a participant may
  die at any point, which releases its locks.
\<close>

section \<open>Temp names\<close>

definition temp_file_name :: "str \<Rightarrow> u32 \<Rightarrow> u64 \<Rightarrow> str" where
  "temp_file_name target_name pid seq =
     ''.'' @ target_name @ ''.'' @ show_nat (unat pid) @ ''.'' @ show_nat (unat seq) @ ''.tmp''"

definition parse_temp_name :: "str \<Rightarrow> str \<Rightarrow> (u32 \<times> u64) option" where
  "parse_temp_name entry_name target_name =
     (case strip_prefix ''.'' entry_name of None \<Rightarrow> None | Some r1 \<Rightarrow>
      case strip_prefix target_name r1 of None \<Rightarrow> None | Some r2 \<Rightarrow>
      case strip_prefix ''.'' r2 of None \<Rightarrow> None | Some rest \<Rightarrow>
      case split_on CHR ''.'' rest of
        [p, s, ext] \<Rightarrow>
          (case parse_uint 10 (2 ^ 32) p of None \<Rightarrow> None | Some pid \<Rightarrow>
           case parse_uint 10 (2 ^ 64) s of None \<Rightarrow> None | Some seq \<Rightarrow>
           if ext = ''tmp'' then Some (of_nat pid, of_nat seq) else None)
      | _ \<Rightarrow> None)"

lemma split_temp_suffix:
  "split_on CHR ''.'' (show_nat n @ ''.'' @ show_nat k @ ''.tmp'') = [show_nat n, show_nat k, ''tmp'']"
proof -
  have free: "CHR ''.'' \<notin> set (show_nat m)" for m by (rule show_nat_free) simp
  have "split_on CHR ''.'' (join [CHR ''.''] [show_nat n, show_nat k, ''tmp'']) = [show_nat n, show_nat k, ''tmp'']"
    by (rule split_on_join) (use free in auto)
  then show ?thesis by simp
qed

text \<open>
  Every temp name a writer builds is recognised by the cleanup, with the process id and
  sequence number it was built from.
\<close>

theorem temp_name_roundtrip:
  "parse_temp_name (temp_file_name target_name pid seq) target_name = Some (pid, seq)"
  using unsigned_less [of pid, where ?'a = nat] unsigned_less [of seq, where ?'a = nat]
  by (simp add: parse_temp_name_def temp_file_name_def strip_prefix_append split_temp_suffix [simplified]
      parse_uint_show_nat)

text \<open>
  The recogniser is not exact: it also takes names no writer builds, with a sign or leading
  zeros in the numbers.
\<close>

theorem recogniser_takes_other_spellings:
  "parse_temp_name ''.x.+5.007.tmp'' ''x'' = Some (5, 7) \<and>
   (\<forall>pid seq. temp_file_name ''x'' pid seq \<noteq> ''.x.+5.007.tmp'')"
proof
  show "parse_temp_name ''.x.+5.007.tmp'' ''x'' = Some (5, 7)" by code_simp
  show "\<forall>pid seq. temp_file_name ''x'' pid seq \<noteq> ''.x.+5.007.tmp''"
  proof (intro allI notI)
    fix pid seq assume "temp_file_name ''x'' pid seq = ''.x.+5.007.tmp''"
    then have eq: "show_nat (unat pid) @ ''.'' @ show_nat (unat seq) @ ''.tmp'' = ''+5.007.tmp''"
      by (simp add: temp_file_name_def)
    have "hd (show_nat (unat pid) @ ''.'' @ show_nat (unat seq) @ ''.tmp'') = CHR ''+''"
      unfolding eq by simp
    then have "hd (show_nat (unat pid)) = CHR ''+''" by simp
    then have "CHR ''+'' \<in> set (show_nat (unat pid))" by (metis hd_in_set show_nat_not_Nil)
    from show_nat_char_range [OF this] show False by simp
  qed
qed

section \<open>The protocol\<close>

type_synonym tname = str
type_synonym inode = nat

text \<open>
  Where a participant stands.  \<open>W\<close>: \<open>TempFileGuard::create\<close>, the writes and the publishing
  rename; \<open>D\<close>: \<open>Drop\<close>, with the \<open>done\<close> flag and whether the critical section was entered;
  \<open>R\<close>: \<open>remove_temp_if_unlocked\<close>; \<open>O\<close>: the orphan-companion sweep; \<open>Leave\<close>: about to leave the
  critical section and return.
\<close>

datatype pc =
    Idle
  | W_start tname
  | W_section tname
  | W_opened tname inode
  | W_locked tname inode
  | W_abort tname
  | W_temp tname inode inode
  | W_own tname inode inode str
  | W_renamed tname inode
  | D_start tname inode bool
  | D_temp tname inode bool bool
  | D_comp tname inode bool
  | D_release tname inode bool
  | D_unlock tname inode
  | R_section tname
  | R_opened tname inode
  | R_locked tname inode
  | R_unlink tname
  | R_temp tname
  | O_section tname
  | O_opened tname inode
  | O_locked tname inode
  | O_unlink tname
  | Leave

record fsys =
  companion :: "tname \<Rightarrow> inode option"
  temp :: "tname \<Rightarrow> inode option"
  lock :: "inode \<Rightarrow> nat option"
  data :: "inode \<Rightarrow> str"
  templock :: "nat option"
  target :: "inode option"
  next_inode :: inode
  procs :: "nat \<Rightarrow> pc"

fun wname :: "pc \<Rightarrow> tname option" where
  "wname (W_start t) = Some t"
| "wname (W_section t) = Some t"
| "wname (W_opened t _) = Some t"
| "wname (W_locked t _) = Some t"
| "wname (W_abort t) = Some t"
| "wname (W_temp t _ _) = Some t"
| "wname (W_own t _ _ _) = Some t"
| "wname (W_renamed t _) = Some t"
| "wname (D_start t _ _) = Some t"
| "wname (D_temp t _ _ _) = Some t"
| "wname (D_comp t _ _) = Some t"
| "wname (D_release t _ _) = Some t"
| "wname (D_unlock t _) = Some t"
| "wname _ = None"

definition go :: "nat \<Rightarrow> pc \<Rightarrow> fsys \<Rightarrow> fsys" where
  "go p c s = s\<lparr>procs := (procs s)(p := c)\<rparr>"

definition unlink_temp :: "tname \<Rightarrow> fsys \<Rightarrow> fsys" where
  "unlink_temp t s = s\<lparr>temp := (temp s)(t := None)\<rparr>"

definition unlink_companion :: "tname \<Rightarrow> fsys \<Rightarrow> fsys" where
  "unlink_companion t s = s\<lparr>companion := (companion s)(t := None)\<rparr>"

definition unlock :: "inode \<Rightarrow> fsys \<Rightarrow> fsys" where
  "unlock i s = s\<lparr>lock := (lock s)(i := None)\<rparr>"

definition lock_by :: "nat \<Rightarrow> inode \<Rightarrow> fsys \<Rightarrow> fsys" where
  "lock_by p i s = s\<lparr>lock := (lock s)(i \<mapsto> p)\<rparr>"

definition die :: "nat \<Rightarrow> fsys \<Rightarrow> fsys" where
  "die p s = s\<lparr>lock := (\<lambda>i. if lock s i = Some p then None else lock s i),
     templock := (if templock s = Some p then None else templock s),
     procs := (procs s)(p := Idle)\<rparr>"

text \<open>\<open>TempFileGuard::create\<close>, the writes and \<open>rename_into_target\<close>.\<close>

inductive writer_step :: "nat \<Rightarrow> fsys \<Rightarrow> fsys \<Rightarrow> bool" where
  w_arrive: "procs s p = Idle \<Longrightarrow> (\<And>q. wname (procs s q) \<noteq> Some t) \<Longrightarrow>
    writer_step p s (go p (W_start t) s)"
| w_enter: "procs s p = W_start t \<Longrightarrow> templock s = None \<Longrightarrow>
    writer_step p s (go p (W_section t) (s\<lparr>templock := Some p\<rparr>))"
| w_enter_err: "procs s p = W_start t \<Longrightarrow> writer_step p s (go p Idle s)"
| w_open: "procs s p = W_section t \<Longrightarrow> companion s t = Some i \<Longrightarrow>
    writer_step p s (go p (W_opened t i) s)"
| w_create: "procs s p = W_section t \<Longrightarrow> companion s t = None \<Longrightarrow> i = next_inode s \<Longrightarrow>
    writer_step p s (go p (W_opened t i)
      (s\<lparr>companion := (companion s)(t \<mapsto> i), next_inode := Suc i\<rparr>))"
| w_open_err: "procs s p = W_section t \<Longrightarrow> writer_step p s (go p Leave s)"
| w_lock: "procs s p = W_opened t i \<Longrightarrow> lock s i = None \<Longrightarrow>
    writer_step p s (go p (W_locked t i) (lock_by p i s))"
| w_busy: "procs s p = W_opened t i \<Longrightarrow> lock s i \<noteq> None \<Longrightarrow> writer_step p s (go p Leave s)"
| w_truncate: "procs s p = W_locked t i \<Longrightarrow> temp s t = Some d \<Longrightarrow>
    writer_step p s (go p (W_temp t i d) (s\<lparr>data := (data s)(d := [])\<rparr>))"
| w_temp: "procs s p = W_locked t i \<Longrightarrow> temp s t = None \<Longrightarrow> d = next_inode s \<Longrightarrow>
    writer_step p s (go p (W_temp t i d)
      (s\<lparr>temp := (temp s)(t \<mapsto> d), data := (data s)(d := []), next_inode := Suc d\<rparr>))"
| w_temp_err: "procs s p = W_locked t i \<Longrightarrow> writer_step p s (go p (W_abort t) (unlock i s))"
| w_abort: "procs s p = W_abort t \<Longrightarrow> writer_step p s (go p Leave (unlink_companion t s))"
| w_leave: "procs s p = W_temp t i d \<Longrightarrow>
    writer_step p s (go p (W_own t i d []) (s\<lparr>templock := None\<rparr>))"
| w_write: "procs s p = W_own t i d w \<Longrightarrow>
    writer_step p s (go p (W_own t i d (w @ b)) (s\<lparr>data := (data s)(d := data s d @ b)\<rparr>))"
| w_rename: "procs s p = W_own t i d w \<Longrightarrow> temp s t = Some e \<Longrightarrow>
    writer_step p s (go p (W_renamed t i) (unlink_temp t (s\<lparr>target := Some e\<rparr>)))"
| w_fail: "procs s p = W_own t i d w \<Longrightarrow> writer_step p s (go p (D_start t i False) s)"
| w_synced: "procs s p = W_renamed t i \<Longrightarrow> writer_step p s (go p (D_start t i dn) s)"
| w_leave_section: "procs s p = Leave \<Longrightarrow> writer_step p s (go p Idle (s\<lparr>templock := None\<rparr>))"

text \<open>\<open>Drop\<close> of the guard; without the critical section when it cannot be entered.\<close>

inductive drop_step :: "nat \<Rightarrow> fsys \<Rightarrow> fsys \<Rightarrow> bool" where
  d_enter: "procs s p = D_start t i dn \<Longrightarrow> templock s = None \<Longrightarrow>
    drop_step p s (go p (D_temp t i dn True) (s\<lparr>templock := Some p\<rparr>))"
| d_enter_err: "procs s p = D_start t i dn \<Longrightarrow> drop_step p s (go p (D_temp t i dn False) s)"
| d_temp: "procs s p = D_temp t i dn sec \<Longrightarrow>
    drop_step p s (go p (D_comp t i sec) (if dn then s else unlink_temp t s))"
| d_comp: "procs s p = D_comp t i sec \<Longrightarrow>
    drop_step p s (go p (D_release t i sec) (unlink_companion t s))"
| d_release: "procs s p = D_release t i sec \<Longrightarrow>
    drop_step p s (go p (D_unlock t i) (if sec then s\<lparr>templock := None\<rparr> else s))"
| d_unlock: "procs s p = D_unlock t i \<Longrightarrow> drop_step p s (go p Idle (unlock i s))"

text \<open>\<open>remove_temp_if_unlocked\<close> on one candidate.\<close>

inductive cleaner_step :: "nat \<Rightarrow> fsys \<Rightarrow> fsys \<Rightarrow> bool" where
  r_enter: "procs s p = Idle \<Longrightarrow> templock s = None \<Longrightarrow>
    cleaner_step p s (go p (R_section t) (s\<lparr>templock := Some p\<rparr>))"
| r_open: "procs s p = R_section t \<Longrightarrow> companion s t = Some i \<Longrightarrow>
    cleaner_step p s (go p (R_opened t i) s)"
| r_missing: "procs s p = R_section t \<Longrightarrow> companion s t = None \<Longrightarrow>
    cleaner_step p s (go p (R_temp t) s)"
| r_open_err: "procs s p = R_section t \<Longrightarrow> cleaner_step p s (go p Leave s)"
| r_lock: "procs s p = R_opened t i \<Longrightarrow> lock s i = None \<Longrightarrow>
    cleaner_step p s (go p (R_locked t i) (lock_by p i s))"
| r_busy: "procs s p = R_opened t i \<Longrightarrow> lock s i \<noteq> None \<Longrightarrow> cleaner_step p s (go p Leave s)"
| r_drop: "procs s p = R_locked t i \<Longrightarrow> cleaner_step p s (go p (R_unlink t) (unlock i s))"
| r_unlink: "procs s p = R_unlink t \<Longrightarrow> cleaner_step p s (go p (R_temp t) (unlink_companion t s))"
| r_unlink_err: "procs s p = R_unlink t \<Longrightarrow> cleaner_step p s (go p (R_temp t) s)"
| r_temp: "procs s p = R_temp t \<Longrightarrow> cleaner_step p s (go p Leave (unlink_temp t s))"
| r_temp_err: "procs s p = R_temp t \<Longrightarrow> cleaner_step p s (go p Leave s)"
| r_leave_section: "procs s p = Leave \<Longrightarrow> cleaner_step p s (go p Idle (s\<lparr>templock := None\<rparr>))"

text \<open>The sweep of one orphaned companion in \<open>cleanup_temp_files_with\<close>.\<close>

inductive sweep_step :: "nat \<Rightarrow> fsys \<Rightarrow> fsys \<Rightarrow> bool" where
  o_enter: "procs s p = Idle \<Longrightarrow> templock s = None \<Longrightarrow>
    sweep_step p s (go p (O_section t) (s\<lparr>templock := Some p\<rparr>))"
| o_exists: "procs s p = O_section t \<Longrightarrow> temp s t \<noteq> None \<Longrightarrow> sweep_step p s (go p Leave s)"
| o_open: "procs s p = O_section t \<Longrightarrow> temp s t = None \<Longrightarrow> companion s t = Some i \<Longrightarrow>
    sweep_step p s (go p (O_opened t i) s)"
| o_open_err: "procs s p = O_section t \<Longrightarrow> temp s t = None \<Longrightarrow> sweep_step p s (go p Leave s)"
| o_lock: "procs s p = O_opened t i \<Longrightarrow> lock s i = None \<Longrightarrow>
    sweep_step p s (go p (O_locked t i) (lock_by p i s))"
| o_busy: "procs s p = O_opened t i \<Longrightarrow> lock s i \<noteq> None \<Longrightarrow> sweep_step p s (go p Leave s)"
| o_drop: "procs s p = O_locked t i \<Longrightarrow> sweep_step p s (go p (O_unlink t) (unlock i s))"
| o_unlink: "procs s p = O_unlink t \<Longrightarrow> sweep_step p s (go p Leave (unlink_companion t s))"
| o_unlink_err: "procs s p = O_unlink t \<Longrightarrow> sweep_step p s (go p Leave s)"
| o_leave_section: "procs s p = Leave \<Longrightarrow> sweep_step p s (go p Idle (s\<lparr>templock := None\<rparr>))"

inductive temp_step :: "nat \<Rightarrow> fsys \<Rightarrow> fsys \<Rightarrow> bool" where
  writer: "writer_step p s s' \<Longrightarrow> temp_step p s s'"
| dropped: "drop_step p s s' \<Longrightarrow> temp_step p s s'"
| cleaner: "cleaner_step p s s' \<Longrightarrow> temp_step p s s'"
| sweeper: "sweep_step p s s' \<Longrightarrow> temp_step p s s'"
| crash: "temp_step p s (die p s)"

lemmas step_elims = temp_step.cases writer_step.cases drop_step.cases cleaner_step.cases sweep_step.cases

definition quiet :: "fsys \<Rightarrow> bool" where
  "quiet s \<longleftrightarrow> (\<forall>p. procs s p = Idle) \<and> templock s = None \<and> (\<forall>i. lock s i = None) \<and>
     (\<forall>t d. temp s t = Some d \<longrightarrow> d < next_inode s \<and> target s \<noteq> Some d) \<and>
     (\<forall>t u d. temp s t = Some d \<longrightarrow> temp s u = Some d \<longrightarrow> t = u) \<and>
     (\<forall>d. target s = Some d \<longrightarrow> d < next_inode s)"

inductive temp_reach :: "fsys \<Rightarrow> bool" where
  boot: "quiet s \<Longrightarrow> temp_reach s"
| step: "temp_reach s \<Longrightarrow> temp_step p s s' \<Longrightarrow> temp_reach s'"

section \<open>The ownership invariant\<close>

fun in_section :: "pc \<Rightarrow> bool" where
  "in_section (W_section _) \<longleftrightarrow> True"
| "in_section (W_opened _ _) \<longleftrightarrow> True"
| "in_section (W_locked _ _) \<longleftrightarrow> True"
| "in_section (W_abort _) \<longleftrightarrow> True"
| "in_section (W_temp _ _ _) \<longleftrightarrow> True"
| "in_section (D_temp _ _ _ sec) \<longleftrightarrow> sec"
| "in_section (D_comp _ _ sec) \<longleftrightarrow> sec"
| "in_section (D_release _ _ sec) \<longleftrightarrow> sec"
| "in_section (R_section _) \<longleftrightarrow> True"
| "in_section (R_opened _ _) \<longleftrightarrow> True"
| "in_section (R_locked _ _) \<longleftrightarrow> True"
| "in_section (R_unlink _) \<longleftrightarrow> True"
| "in_section (R_temp _) \<longleftrightarrow> True"
| "in_section (O_section _) \<longleftrightarrow> True"
| "in_section (O_opened _ _) \<longleftrightarrow> True"
| "in_section (O_locked _ _) \<longleftrightarrow> True"
| "in_section (O_unlink _) \<longleftrightarrow> True"
| "in_section Leave \<longleftrightarrow> True"
| "in_section _ \<longleftrightarrow> False"

text \<open>The writer of a temp from the opening of its companion to its publication.\<close>

fun owns :: "pc \<Rightarrow> tname \<Rightarrow> bool" where
  "owns (W_opened t _) u \<longleftrightarrow> t = u"
| "owns (W_locked t _) u \<longleftrightarrow> t = u"
| "owns (W_temp t _ _) u \<longleftrightarrow> t = u"
| "owns (W_own t _ _ _) u \<longleftrightarrow> t = u"
| "owns _ _ \<longleftrightarrow> False"

text \<open>What a participant may rely on where it stands.\<close>

fun local_ok :: "fsys \<Rightarrow> nat \<Rightarrow> pc \<Rightarrow> bool" where
  "local_ok s p (W_opened t i) \<longleftrightarrow> companion s t = Some i"
| "local_ok s p (W_locked t i) \<longleftrightarrow> companion s t = Some i \<and> lock s i = Some p"
| "local_ok s p (W_temp t i d) \<longleftrightarrow>
     companion s t = Some i \<and> lock s i = Some p \<and> temp s t = Some d \<and> data s d = []"
| "local_ok s p (W_own t i d w) \<longleftrightarrow>
     companion s t = Some i \<and> lock s i = Some p \<and> temp s t = Some d \<and> data s d = w"
| "local_ok s p (W_renamed t i) \<longleftrightarrow> lock s i = Some p"
| "local_ok s p (D_start t i dn) \<longleftrightarrow> lock s i = Some p"
| "local_ok s p (D_temp t i dn sec) \<longleftrightarrow> lock s i = Some p"
| "local_ok s p (D_comp t i sec) \<longleftrightarrow> lock s i = Some p"
| "local_ok s p (D_release t i sec) \<longleftrightarrow> lock s i = Some p"
| "local_ok s p (D_unlock t i) \<longleftrightarrow> lock s i = Some p"
| "local_ok s p (R_opened t i) \<longleftrightarrow> companion s t = Some i \<or> companion s t = None"
| "local_ok s p (R_locked t i) \<longleftrightarrow> lock s i = Some p \<and> (\<forall>q. \<not> owns (procs s q) t)"
| "local_ok s p (R_unlink t) \<longleftrightarrow> (\<forall>q. \<not> owns (procs s q) t)"
| "local_ok s p (R_temp t) \<longleftrightarrow> (\<forall>q. \<not> owns (procs s q) t)"
| "local_ok s p (O_opened t i) \<longleftrightarrow> companion s t = Some i \<or> companion s t = None"
| "local_ok s p (O_locked t i) \<longleftrightarrow> lock s i = Some p \<and> (\<forall>q. \<not> owns (procs s q) t)"
| "local_ok s p (O_unlink t) \<longleftrightarrow> (\<forall>q. \<not> owns (procs s q) t)"
| "local_ok s p _ \<longleftrightarrow> True"

definition section_ok :: "fsys \<Rightarrow> bool" where
  "section_ok s \<longleftrightarrow> (\<forall>p. in_section (procs s p) \<longrightarrow> templock s = Some p)"

definition names_ok :: "fsys \<Rightarrow> bool" where
  "names_ok s \<longleftrightarrow> (\<forall>p q t. wname (procs s p) = Some t \<longrightarrow> wname (procs s q) = Some t \<longrightarrow> p = q)"

definition inodes_ok :: "fsys \<Rightarrow> bool" where
  "inodes_ok s \<longleftrightarrow> (\<forall>t d. temp s t = Some d \<longrightarrow> d < next_inode s \<and> target s \<noteq> Some d) \<and>
     (\<forall>t u d. temp s t = Some d \<longrightarrow> temp s u = Some d \<longrightarrow> t = u) \<and>
     (\<forall>d. target s = Some d \<longrightarrow> d < next_inode s)"

lemmas fs_ops = go_def unlink_temp_def unlink_companion_def unlock_def lock_by_def die_def

lemma section_excl:
  "section_ok s \<Longrightarrow> in_section (procs s p) \<Longrightarrow> in_section (procs s q) \<Longrightarrow> p = q"
  unfolding section_ok_def by (metis option.inject)

lemma section_ok_step: "section_ok s \<Longrightarrow> temp_step p s s' \<Longrightarrow> section_ok s'"
proof -
  assume ok: "section_ok s" and step: "temp_step p s s'"
  have excl: "in_section (procs s q) \<Longrightarrow> q = p" if "in_section (procs s p)" for q
    using section_excl [OF ok that] by metis
  from step ok excl show ?thesis
    by (elim step_elims) (auto simp: section_ok_def fs_ops split: if_splits)
qed

lemma names_ok_step: "names_ok s \<Longrightarrow> temp_step p s s' \<Longrightarrow> names_ok s'"
  by (elim step_elims) (auto simp: names_ok_def fs_ops split: if_splits)

lemma inodes_ok_step: "inodes_ok s \<Longrightarrow> temp_step p s s' \<Longrightarrow> inodes_ok s'"
  by (elim step_elims) (auto simp: inodes_ok_def fs_ops less_SucI split: if_splits)

definition local_inv :: "fsys \<Rightarrow> bool" where
  "local_inv s \<longleftrightarrow> (\<forall>p. local_ok s p (procs s p))"

text \<open>What a position reads of the file system, and who else it excludes.\<close>

fun cname :: "pc \<Rightarrow> tname option" where
  "cname (W_opened t _) = Some t"
| "cname (W_locked t _) = Some t"
| "cname (W_temp t _ _) = Some t"
| "cname (W_own t _ _ _) = Some t"
| "cname (R_opened t _) = Some t"
| "cname (O_opened t _) = Some t"
| "cname _ = None"

fun tdata :: "pc \<Rightarrow> (tname \<times> inode) option" where
  "tdata (W_temp t _ d) = Some (t, d)"
| "tdata (W_own t _ d _) = Some (t, d)"
| "tdata _ = None"

fun cleaning :: "pc \<Rightarrow> tname option" where
  "cleaning (R_locked t _) = Some t"
| "cleaning (R_unlink t) = Some t"
| "cleaning (R_temp t) = Some t"
| "cleaning (O_locked t _) = Some t"
| "cleaning (O_unlink t) = Some t"
| "cleaning _ = None"

lemma position_facts:
  "cname c = Some t \<Longrightarrow> owns c t \<or> in_section c \<and> wname c = None"
  "owns c t \<Longrightarrow> wname c = Some t"
  "tdata c = Some (t, d) \<Longrightarrow> owns c t"
  "tdata c = Some (t, d) \<Longrightarrow> local_ok s p c \<Longrightarrow> temp s t = Some d"
  "cleaning c = Some t \<Longrightarrow> in_section c"
  "cleaning c = Some t \<Longrightarrow> local_ok s p c \<Longrightarrow> \<not> owns (procs s q) t"
  by (cases c; auto)+

lemma local_frame:
  assumes "local_ok s q c"
    and "\<And>t. cname c = Some t \<Longrightarrow> companion s' t = companion s t \<or> companion s' t = None \<and> \<not> owns c t"
    and "\<And>i. lock s i = Some q \<Longrightarrow> lock s' i = Some q"
    and "\<And>t d. tdata c = Some (t, d) \<Longrightarrow> temp s' t = temp s t \<and> data s' d = data s d"
    and "\<And>t r. cleaning c = Some t \<Longrightarrow> owns (procs s' r) t \<Longrightarrow> owns (procs s r) t"
  shows "local_ok s' q c"
  using assms by (cases c) (simp_all, (metis+)?)

text \<open>A participant in the critical section that finds no lock knows the temp has no live owner.\<close>

lemma no_live_owner:
  assumes "section_ok s" "local_inv s" and "in_section (procs s p)" "\<not> owns (procs s p) t"
    and "companion s t = None \<or> companion s t = Some i \<and> lock s i = None"
  shows "\<not> owns (procs s q) t"
proof
  assume own: "owns (procs s q) t"
  with assms(4) have "q \<noteq> p" by auto
  with section_excl [OF assms(1,3)] have "\<not> in_section (procs s q)" by blast
  with own obtain j d w where "procs s q = W_own t j d w" by (cases "procs s q") auto
  moreover have "local_ok s q (procs s q)" using assms(2) by (simp add: local_inv_def)
  ultimately show False using assms(5) by auto
qed

definition effect :: "fsys \<Rightarrow> fsys \<Rightarrow> nat \<Rightarrow> bool" where
  "effect s s' p \<longleftrightarrow>
     (\<forall>q. q \<noteq> p \<longrightarrow> procs s' q = procs s q) \<and>
     (\<forall>t. companion s' t \<noteq> companion s t \<longrightarrow>
        wname (procs s p) = Some t \<and> (in_section (procs s p) \<or> companion s' t = None) \<or>
        cleaning (procs s p) = Some t) \<and>
     (\<forall>i q. q \<noteq> p \<longrightarrow> lock s i = Some q \<longrightarrow> lock s' i = Some q) \<and>
     (\<forall>t. temp s' t \<noteq> temp s t \<longrightarrow> wname (procs s p) = Some t \<or> cleaning (procs s p) = Some t) \<and>
     (\<forall>d. data s' d \<noteq> data s d \<longrightarrow>
        next_inode s \<le> d \<or> (\<exists>t. temp s t = Some d \<and> wname (procs s p) = Some t)) \<and>
     (\<forall>t. owns (procs s' p) t \<longrightarrow> owns (procs s p) t \<or> in_section (procs s p))"

lemma effect_others:
  assumes inv: "section_ok s" "names_ok s" "inodes_ok s" "local_inv s" and e: "effect s s' p"
    and qp: "q \<noteq> p"
  shows "local_ok s' q (procs s' q)"
proof -
  let ?c = "procs s q"
  have loc: "local_ok s r (procs s r)" for r using inv(4) by (simp add: local_inv_def)
  have excl: "\<not> (in_section ?c \<and> in_section (procs s p))"
    using section_excl [OF inv(1)] qp by blast
  have uniq: "wname (procs s p) \<noteq> Some t" if "wname ?c = Some t" for t
    using inv(2) that qp by (auto simp: names_ok_def)
  have clean: "cleaning (procs s p) \<noteq> Some t" if "owns ?c t" for t
    using position_facts(6) [OF _ loc [of p]] that by blast
  have "local_ok s' q ?c"
  proof (rule local_frame [OF loc])
    fix t assume c: "cname ?c = Some t"
    show "companion s' t = companion s t \<or> companion s' t = None \<and> \<not> owns ?c t"
      using e position_facts(1) [OF c] position_facts(2) [of ?c t] uniq [of t] clean [of t] excl
        position_facts(5) [of "procs s p" t]
      unfolding effect_def by blast
  next
    fix i assume "lock s i = Some q"
    with e qp show "lock s' i = Some q" unfolding effect_def by blast
  next
    fix t d assume td: "tdata ?c = Some (t, d)"
    note own = position_facts(3) [OF td]
    note temp = position_facts(4) [OF td loc]
    have "temp s' t = temp s t"
      using e position_facts(2) [OF own] uniq [of t] clean [OF own] unfolding effect_def by blast
    moreover have "d < next_inode s" and inj: "u = t" if "temp s u = Some d" for u
      using inv(3) temp that unfolding inodes_ok_def by blast+
    moreover have "data s' d = data s d"
    proof (rule ccontr)
      assume "data s' d \<noteq> data s d"
      with e consider "next_inode s \<le> d" | u where "temp s u = Some d" "wname (procs s p) = Some u"
        unfolding effect_def by blast
      then show False
      proof cases
        case 1
        with inv(3) temp show False unfolding inodes_ok_def by (metis not_less)
      next
        case (2 u)
        with inj [of u] uniq [OF position_facts(2) [OF own]] show False by simp
      qed
    qed
    ultimately show "temp s' t = temp s t \<and> data s' d = data s d" by simp
  next
    fix t r assume c: "cleaning ?c = Some t" and own: "owns (procs s' r) t"
    show "owns (procs s r) t"
      using e own position_facts(5) [OF c] excl unfolding effect_def by metis
  qed
  with e qp show ?thesis by (simp add: effect_def)
qed

lemma temp_step_effect:
  assumes inv: "section_ok s" "local_inv s" and step: "temp_step p s s'"
  shows "effect s s' p" and "local_ok s' p (procs s' p)"
proof -
  have loc: "local_ok s r (procs s r)" for r using inv(2) by (simp add: local_inv_def)
  note alone = no_live_owner [OF inv, of p]
  from step show "effect s s' p"
    by (elim step_elims) (use loc [of p] in \<open>auto simp: effect_def fs_ops split: if_splits\<close>)
  from step show "local_ok s' p (procs s' p)"
    by (elim step_elims) (use loc [of p] alone in \<open>auto simp: fs_ops\<close>)
qed

definition temp_inv :: "fsys \<Rightarrow> bool" where
  "temp_inv s \<longleftrightarrow> section_ok s \<and> names_ok s \<and> inodes_ok s \<and> local_inv s"

lemma temp_inv_step: "temp_inv s \<Longrightarrow> temp_step p s s' \<Longrightarrow> temp_inv s'"
  using section_ok_step [of s p s'] names_ok_step [of s p s'] inodes_ok_step [of s p s']
    temp_step_effect [of s p s'] effect_others [of s s' p]
  by (auto simp: temp_inv_def local_inv_def) metis

lemma temp_reach_inv: "temp_reach s \<Longrightarrow> temp_inv s"
proof (induction rule: temp_reach.induct)
  case (boot s)
  then show ?case
    by (simp add: quiet_def temp_inv_def section_ok_def names_ok_def inodes_ok_def local_inv_def)
next
  case (step s p s')
  then show ?case using temp_inv_step by blast
qed

definition published :: "fsys \<Rightarrow> str option" where
  "published s = map_option (data s) (target s)"

text \<open>
  C35: Between creating its guard and publishing, a live writer always finds its temp file in place
  under its name with exactly the bytes it wrote, its companion in place and locked by itself,
  whatever cleaners, other writers and crashes do meanwhile; so its rename cannot miss the file and
  publishes exactly these bytes.
\<close>

theorem live_writer_keeps_its_temp:
  assumes "temp_reach s" and "procs s p = W_own t i d w"
  shows "temp s t = Some d \<and> data s d = w \<and> companion s t = Some i \<and> lock s i = Some p \<and>
    (\<exists>s'. temp_step p s s' \<and> procs s' p = W_renamed t i \<and> published s' = Some w)"
proof -
  from temp_reach_inv [OF assms(1)] have "local_ok s p (procs s p)"
    by (simp add: temp_inv_def local_inv_def)
  with assms(2) have own: "temp s t = Some d" "data s d = w" "companion s t = Some i" "lock s i = Some p"
    by simp_all
  from temp_step.writer [OF writer_step.w_rename [OF assms(2) own(1)]] own show ?thesis
    by (fastforce simp: published_def go_def unlink_temp_def)
qed

text \<open>A run of one writer up to its first write.\<close>

definition demo_fs :: "nat \<Rightarrow> pc \<Rightarrow> fsys" where
  "demo_fs n c = \<lparr>companion = (if 1 \<le> n then [''t'' \<mapsto> 0] else Map.empty),
     temp = (if 3 \<le> n then [''t'' \<mapsto> 1] else Map.empty),
     lock = (if 2 \<le> n then [0 \<mapsto> 7] else Map.empty),
     data = (\<lambda>_. []), templock = (if n = 4 then None else Some 7), target = None,
     next_inode = (if 3 \<le> n then 2 else if 1 \<le> n then 1 else 0), procs = (\<lambda>_. Idle)(7 := c)\<rparr>"

lemma demo_run: "temp_reach ((demo_fs 4 (W_own ''t'' 0 1 ''x''))\<lparr>data := (\<lambda>_. [])(1 := ''x'')\<rparr>)"
proof -
  have "temp_reach ((demo_fs 0 Idle)\<lparr>templock := None\<rparr>)"
    by (rule temp_reach.boot) (simp add: quiet_def demo_fs_def)
  from temp_reach.step [OF this temp_step.writer [OF writer_step.w_arrive [of _ 7 "''t''"]]]
  have "temp_reach ((demo_fs 0 (W_start ''t''))\<lparr>templock := None\<rparr>)" by (simp add: demo_fs_def go_def)
  from temp_reach.step [OF this temp_step.writer [OF writer_step.w_enter [of _ 7 "''t''"]]]
  have "temp_reach (demo_fs 0 (W_section ''t''))" by (simp add: demo_fs_def go_def)
  from temp_reach.step [OF this temp_step.writer [OF writer_step.w_create [of _ 7 "''t''" 0]]]
  have "temp_reach (demo_fs 1 (W_opened ''t'' 0))" by (simp add: demo_fs_def go_def)
  from temp_reach.step [OF this temp_step.writer [OF writer_step.w_lock [of _ 7 "''t''" 0]]]
  have "temp_reach (demo_fs 2 (W_locked ''t'' 0))" by (simp add: demo_fs_def go_def lock_by_def)
  from temp_reach.step [OF this temp_step.writer [OF writer_step.w_temp [of _ 7 "''t''" 0 1]]]
  have "temp_reach (demo_fs 3 (W_temp ''t'' 0 1))" by (simp add: demo_fs_def go_def numeral_2_eq_2 fun_upd_idem)
  from temp_reach.step [OF this temp_step.writer [OF writer_step.w_leave [of _ 7 "''t''" 0 1]]]
  have "temp_reach (demo_fs 4 (W_own ''t'' 0 1 []))" by (simp add: demo_fs_def go_def)
  from temp_reach.step [OF this temp_step.writer [OF writer_step.w_write [of _ 7 "''t''" 0 1 "[]" "''x''"]]]
  show ?thesis by (simp add: demo_fs_def go_def)
qed

theorem live_writer_keeps_its_temp_witness:
  "\<exists>s s'. temp_reach s \<and> procs s 7 = W_own ''t'' 0 1 ''x'' \<and> temp s ''t'' = Some 1 \<and>
     temp_step 7 s s' \<and> published s' = Some ''x''"
proof -
  have "procs ((demo_fs 4 (W_own ''t'' 0 1 ''x''))\<lparr>data := (\<lambda>_. [])(1 := ''x'')\<rparr>) 7 = W_own ''t'' 0 1 ''x''"
    by (simp add: demo_fs_def)
  from live_writer_keeps_its_temp [OF demo_run this] this demo_run show ?thesis by blast
qed

text \<open>
  The published file is never torn: every step, a crash included, leaves its contents as they
  were or replaces them by everything some writer wrote to its own temp.
\<close>

theorem publish_is_atomic:
  assumes "temp_reach s" and "temp_step p s s'"
  shows "published s' = published s \<or>
    (\<exists>t i d w. procs s p = W_own t i d w \<and> published s' = Some w)"
proof -
  from temp_reach_inv [OF assms(1)] have loc: "local_ok s p (procs s p)" and ino: "inodes_ok s"
    by (auto simp: temp_inv_def local_inv_def)
  from assms(2) loc ino show ?thesis
    by (elim step_elims; cases "target s") (auto simp: published_def fs_ops inodes_ok_def)
qed

theorem publish_is_atomic_witness:
  "\<exists>s s'. temp_reach s \<and> temp_step 7 s s' \<and> published s = None \<and> published s' = Some ''x''"
proof -
  let ?s = "(demo_fs 4 (W_own ''t'' 0 1 ''x''))\<lparr>data := (\<lambda>_. [])(1 := ''x'')\<rparr>"
  have r: "temp_step 7 ?s (go 7 (W_renamed ''t'' 0) (unlink_temp ''t'' (?s\<lparr>target := Some 1\<rparr>)))"
    by (rule temp_step.writer [OF writer_step.w_rename]) (simp_all add: demo_fs_def)
  have "procs ?s 7 = W_own ''t'' 0 1 ''x''" by (simp add: demo_fs_def)
  moreover have "published ?s = None" by (simp add: published_def demo_fs_def)
  moreover have "published (go 7 (W_renamed ''t'' 0) (unlink_temp ''t'' (?s\<lparr>target := Some 1\<rparr>))) \<noteq> None"
    by (simp add: published_def go_def unlink_temp_def)
  ultimately show ?thesis using publish_is_atomic [OF demo_run r] r demo_run by auto
qed

end
