(* ===== verification/Socks5Client.thy ===== *)
theory Socks5Client
  imports NetAddr
begin

text \<open>
  The outgoing SOCKS5 handshake (\<open>packages/socks5-proto/src/client.rs\<close>).  The peer is the sequence
  of bytes it sends; the client's side is the bytes of its writes.  A deadline is a budget of I/O steps: an exchange cut off before
  its end is a timeout.
\<close>

section \<open>Inputs\<close>

record credentials =
  c_username :: str
  c_password :: str

datatype socks_error = InvalidInput | Io | Timeout | Protocol

definition credentials_new :: "str \<Rightarrow> str \<Rightarrow> (socks_error, credentials) result" where
  "credentials_new username password =
     (if username = [] \<or> password = [] \<or> 255 < length username \<or> 255 < length password
      then Inl InvalidInput
      else Inr \<lparr>c_username = username, c_password = password\<rparr>)"

definition as_bytes :: "str \<Rightarrow> bytes" where
  "as_bytes s = map (\<lambda>c. of_nat (of_char c)) s"

definition to_be16 :: "u16 \<Rightarrow> bytes" where
  "to_be16 p = to_be 2 (unat p)"

definition build_request :: "str \<Rightarrow> u16 \<Rightarrow> (socks_error, bytes) result" where
  "build_request host port =
     (if host = [] \<or> 255 < length host \<or> CHR 0x00 \<in> set host then Inl InvalidInput
      else Inr ([5, 1, 0]
        @ (case ip_from_str host of
             Some (V4 ip) \<Rightarrow> 1 # v4_octets ip
           | Some (V6 ip) \<Rightarrow> 4 # v6_octets ip
           | None \<Rightarrow> 3 # of_nat (length host) # as_bytes host)
        @ to_be16 port))"

section \<open>The exchange\<close>

text \<open>
  A connection as the client sees it: what the peer still has to say, what the client has written,
  how many writes the peer still takes, and how many I/O operations the deadline leaves.
\<close>

record conn =
  incoming :: bytes
  written :: bytes
  writable :: nat
  budget :: nat

type_synonym 'a io = "conn \<Rightarrow> (socks_error, 'a \<times> conn) result"

definition write_all :: "bytes \<Rightarrow> unit io" where
  "write_all data c =
     (case budget c of
        0 \<Rightarrow> Inl Timeout
      | Suc n \<Rightarrow>
          (case writable c of
             0 \<Rightarrow> Inl Io
           | Suc w \<Rightarrow> Inr ((), c\<lparr>written := written c @ data, writable := w, budget := n\<rparr>)))"

definition read_exact :: "nat \<Rightarrow> bytes io" where
  "read_exact n c =
     (case budget c of
        0 \<Rightarrow> Inl Timeout
      | Suc k \<Rightarrow>
          (if length (incoming c) < n then Inl Io
           else Inr (take n (incoming c), c\<lparr>incoming := drop n (incoming c), budget := k\<rparr>)))"

definition io_bind :: "'a io \<Rightarrow> ('a \<Rightarrow> 'b io) \<Rightarrow> 'b io" where
  "io_bind m f c = (case m c of Inl e \<Rightarrow> Inl e | Inr (x, c') \<Rightarrow> f x c')"

definition io_return :: "'a \<Rightarrow> 'a io" where
  "io_return x c = Inr (x, c)"

definition io_fail :: "socks_error \<Rightarrow> 'a io" where
  "io_fail e c = Inl e"

definition guard_io :: "bool \<Rightarrow> unit io" where
  "guard_io b = (if b then io_return () else io_fail Protocol)"

definition auth_message :: "credentials \<Rightarrow> bytes" where
  "auth_message cr =
     [1, of_nat (length (c_username cr))] @ as_bytes (c_username cr)
     @ [of_nat (length (c_password cr))] @ as_bytes (c_password cr)"

definition authenticate :: "credentials \<Rightarrow> unit io" where
  "authenticate cr =
     io_bind (write_all (auth_message cr)) (\<lambda>_.
     io_bind (read_exact 2) (\<lambda>result. guard_io (result = [1, 0])))"

definition read_tail_len :: "u8 \<Rightarrow> nat io" where
  "read_tail_len atyp =
     (if atyp = 1 then io_return 4
      else if atyp = 4 then io_return 16
      else if atyp = 3 then
        io_bind (read_exact 1) (\<lambda>n. if hd n = 0 then io_fail Protocol else io_return (unat (hd n)))
      else io_fail Protocol)"

definition negotiate :: "credentials option \<Rightarrow> unit io" where
  "negotiate creds =
     (let m = (if creds = None then 0 else 2 :: u8) in
      io_bind (write_all [5, 1]) (\<lambda>_.
      io_bind (write_all [m]) (\<lambda>_.
      io_bind (read_exact 2) (\<lambda>choice.
      io_bind (guard_io (choice ! 0 = 5 \<and> choice ! 1 = m)) (\<lambda>_.
      if choice ! 1 = 2 then (case creds of None \<Rightarrow> io_fail Protocol | Some cr \<Rightarrow> authenticate cr)
      else io_return ())))))"

definition request_phase :: "bytes \<Rightarrow> unit io" where
  "request_phase request =
     io_bind (write_all request) (\<lambda>_.
     io_bind (read_exact 4) (\<lambda>header.
     io_bind (guard_io (header ! 0 = 5 \<and> header ! 2 = 0)) (\<lambda>_.
     io_bind (read_tail_len (header ! 3)) (\<lambda>tail_len.
     io_bind (read_exact (tail_len + 2)) (\<lambda>_.
     guard_io (header ! 1 = 0))))))"

definition exchange :: "bytes \<Rightarrow> credentials option \<Rightarrow> unit io" where
  "exchange request creds = io_bind (negotiate creds) (\<lambda>_. request_phase request)"

definition connect :: "str \<Rightarrow> u16 \<Rightarrow> credentials option \<Rightarrow> unit io" where
  "connect host port creds c =
     and_then (build_request host port) (\<lambda>request. exchange request creds c)"

section \<open>What a server reads\<close>

text \<open>The request and credential messages as RFC 1928 and RFC 1929 define their reading.\<close>

datatype dest = DestIp ip_addr | DestName bytes

definition dest_of :: "str \<Rightarrow> dest" where
  "dest_of host = (case ip_from_str host of Some ip \<Rightarrow> DestIp ip | None \<Rightarrow> DestName (as_bytes host))"

definition from_be16 :: "bytes \<Rightarrow> u16" where
  "from_be16 b = of_nat (from_be b)"

definition v4_of_bytes :: "bytes \<Rightarrow> u32" where
  "v4_of_bytes b = of_nat (from_be b)"

definition v6_of_bytes :: "bytes \<Rightarrow> u128" where
  "v6_of_bytes b = of_nat (from_be b)"

fun read_dest :: "bytes \<Rightarrow> (dest \<times> bytes) option" where
  "read_dest (a # r) =
     (if a = 1 \<and> 4 \<le> length r then Some (DestIp (V4 (v4_of_bytes (take 4 r))), drop 4 r)
      else if a = 4 \<and> 16 \<le> length r then Some (DestIp (V6 (v6_of_bytes (take 16 r))), drop 16 r)
      else if a = 3 then
        (case r of [] \<Rightarrow> None
         | n # r' \<Rightarrow> if unat n \<le> length r' then Some (DestName (take (unat n) r'), drop (unat n) r') else None)
      else None)"
| "read_dest [] = None"

fun read_request :: "bytes \<Rightarrow> (dest \<times> u16 \<times> bytes) option" where
  "read_request (v # cmd # rsv # r) =
     (if v = 5 \<and> cmd = 1 \<and> rsv = 0 then
        (case read_dest r of
           Some (d, p1 # p2 # r') \<Rightarrow> Some (d, from_be16 [p1, p2], r')
         | _ \<Rightarrow> None)
      else None)"
| "read_request _ = None"

fun read_auth :: "bytes \<Rightarrow> (bytes \<times> bytes \<times> bytes) option" where
  "read_auth (v # n # r) =
     (if v = 1 \<and> unat n \<le> length r then
        (case drop (unat n) r of
           m # r' \<Rightarrow> if unat m \<le> length r' then Some (take (unat n) r, take (unat m) r', drop (unat m) r') else None
         | [] \<Rightarrow> None)
      else None)"
| "read_auth _ = None"

lemma length_as_bytes [simp]: "length (as_bytes s) = length s"
  by (simp add: as_bytes_def)

lemma unat_len: "n \<le> 255 \<Longrightarrow> unat (of_nat n :: u8) = n"
  by (simp add: unat_of_nat)

lemma as_bytes_inject: "as_bytes s = as_bytes t \<longleftrightarrow> s = t"
proof -
  have "inj (\<lambda>c :: char. (of_nat (of_char c) :: u8))"
  proof
    fix c d :: char
    assume "(of_nat (of_char c) :: u8) = of_nat (of_char d)"
    then have "unat (of_nat (of_char c) :: u8) = unat (of_nat (of_char d) :: u8)" by simp
    then show "c = d" by (simp add: unat_of_nat)
  qed
  then show ?thesis by (simp add: as_bytes_def inj_map_eq_map)
qed

lemma to_be_word:
  "to_be k (unat (a :: 'a::len word)) = map (\<lambda>i. ucast (drop_bit (8 * i) a)) (rev [0..<k])"
proof (induction k arbitrary: a)
  case 0
  then show ?case by simp
next
  case (Suc k)
  have "take_bit LENGTH('a) (unat a) = unat a"
    using unsigned_less [of a, where ?'a = nat] by (simp add: take_bit_nat_eq_self)
  then have div: "unat a div 256 = unat (drop_bit 8 a)"
    unfolding unsigned_drop_bit_eq by (simp add: drop_bit_eq_div)
  have "unat a mod 256 = take_bit 8 (unat a)" by (simp add: take_bit_eq_mod)
  then have low: "(of_nat (unat a mod 256) :: u8) = ucast a"
    by (simp only:) (rule bit_word_eqI, auto simp: bit_ucast_iff bit_take_bit_iff bit_unsigned_iff
        bit_of_nat_iff)
  have "[0..<Suc k] = 0 # map Suc [0..<k]" by (simp add: map_Suc_upt upt_conv_Cons del: upt_Suc)
  then have "rev [0..<Suc k] = map Suc (rev [0..<k]) @ [0]" by (simp only: rev.simps rev_map)
  then show ?case by (simp add: Suc div low algebra_simps del: upt_Suc)
qed

lemma v4_octets_to_be: "v4_octets a = to_be 4 (unat a)"
  by (simp add: to_be_word v4_octets_def v4_octet_def upt_rec numeral_eq_Suc)

lemma v6_octets_to_be: "v6_octets a = to_be 16 (unat a)"
  by (simp add: to_be_word v6_octets_def upt_rec numeral_eq_Suc)

lemma from_be16_to_be16 [simp]: "from_be16 (to_be16 p) = p"
  using unsigned_less [of p, where ?'a = nat] by (simp add: from_be16_def to_be16_def)

lemma length_to_be16 [simp]: "length (to_be16 p) = 2"
  by (simp add: to_be16_def)

lemma v4_of_bytes_octets [simp]: "v4_of_bytes (v4_octets a) = a" "length (v4_octets a) = 4"
  using unsigned_less [of a, where ?'a = nat] by (simp_all add: v4_of_bytes_def v4_octets_to_be)

lemma v6_of_bytes_octets [simp]: "v6_of_bytes (v6_octets a) = a" "length (v6_octets a) = 16"
  using unsigned_less [of a, where ?'a = nat] by (simp_all add: v6_of_bytes_def v6_octets_to_be)

lemma two_bytes: "length xs = 2 \<Longrightarrow> \<exists>a b. xs = [a, b]"
  by (auto simp: length_Suc_conv numeral_2_eq_2)

text \<open>
  The request on the wire reads back, by the protocol's own rules, as the destination the
  caller named (the address when the host is an address literal, the name otherwise) and the port,
  and nothing more; a host that does not fit the format is refused before anything is sent.
\<close>

theorem request_reads_back:
  "case build_request host port of
     Inr req \<Rightarrow> \<forall>rest. read_request (req @ rest) = Some (dest_of host, port, rest)
   | Inl e \<Rightarrow> e = InvalidInput \<and> (host = [] \<or> 255 < length host \<or> CHR 0x00 \<in> set host)"
proof (cases "build_request host port")
  case (Inl e)
  then show ?thesis by (auto simp: build_request_def split: if_splits)
next
  case (Inr req)
  then have len: "length host \<le> 255" by (auto simp: build_request_def split: if_splits)
  obtain p1 p2 where p: "to_be16 port = [p1, p2]" using two_bytes [of "to_be16 port"] by auto
  then have port: "from_be16 [p1, p2] = port" using from_be16_to_be16 [of port] by simp
  have "read_request (req @ rest) = Some (dest_of host, port, rest)" for rest
    using Inr len
    by (auto simp: build_request_def dest_of_def p port unat_len split: if_splits option.splits ip_addr.splits)
  then show ?thesis by (simp add: Inr)
qed

text \<open>
  Credentials that are accepted fit the length bytes of the sub-negotiation: the message reads
  back as exactly this user name and password.
\<close>

theorem credentials_read_back:
  assumes "credentials_new username password = Inr cr"
  shows "read_auth (auth_message cr @ rest) = Some (as_bytes username, as_bytes password, rest)"
  using assms by (auto simp: credentials_new_def auth_message_def unat_len split: if_splits)

theorem credentials_read_back_witness:
  "read_auth (auth_message \<lparr>c_username = ''u'', c_password = ''pw''\<rparr> @ [9])
   = Some (as_bytes ''u'', as_bytes ''pw'', [9])"
proof -
  have "credentials_new ''u'' ''pw'' = Inr \<lparr>c_username = ''u'', c_password = ''pw''\<rparr>" by code_simp
  from credentials_read_back [OF this] show ?thesis .
qed

section \<open>The handshake\<close>

text \<open>What an accepting peer sends, and what the client sends to it.\<close>

definition bound_address :: "u8 \<Rightarrow> bytes \<Rightarrow> bool" where
  "bound_address atyp tail \<longleftrightarrow>
     atyp = 1 \<and> length tail = 6 \<or> atyp = 4 \<and> length tail = 18 \<or>
     atyp = 3 \<and> (\<exists>n r. tail = n # r \<and> n \<noteq> 0 \<and> length r = unat n + 2)"

definition accepting :: "credentials option \<Rightarrow> bytes \<Rightarrow> bool" where
  "accepting creds script \<longleftrightarrow>
     (\<exists>atyp tail. bound_address atyp tail \<and>
        script = (if creds = None then [5, 0] else [5, 2, 1, 0]) @ [5, 0, 0, atyp] @ tail)"

definition client_bytes :: "bytes \<Rightarrow> credentials option \<Rightarrow> bytes" where
  "client_bytes request creds =
     (case creds of None \<Rightarrow> [5, 1, 0] | Some cr \<Rightarrow> [5, 1, 2] @ auth_message cr) @ request"

lemma io_bind_Inr_iff:
  "io_bind m f c = Inr r \<longleftrightarrow> (\<exists>x c'. m c = Inr (x, c') \<and> f x c' = Inr r)"
  by (auto simp: io_bind_def split: sum.splits)

lemma read_exact_Inr_iff:
  "read_exact n c = Inr (b, c') \<longleftrightarrow> (\<exists>rest. budget c \<noteq> 0 \<and> length b = n \<and>
     incoming c = b @ rest \<and> c' = c\<lparr>incoming := rest, budget := budget c - 1\<rparr>)"
  by (auto simp: read_exact_def split: nat.splits intro!: exI [of _ "drop n (incoming c)"])

lemma write_all_Inr_iff:
  "write_all b c = Inr (u, c') \<longleftrightarrow> budget c \<noteq> 0 \<and> writable c \<noteq> 0 \<and>
     c' = c\<lparr>written := written c @ b, writable := writable c - 1, budget := budget c - 1\<rparr>"
  by (auto simp: write_all_def split: nat.splits)

lemma guard_io_Inr_iff: "guard_io b c = Inr (u, c') \<longleftrightarrow> b \<and> c' = c"
  by (auto simp: guard_io_def io_return_def io_fail_def)

lemmas io_simps = io_bind_Inr_iff read_exact_Inr_iff write_all_Inr_iff guard_io_Inr_iff

lemma read_tail_lenD:
  assumes "read_tail_len a c = Inr (n, c')"
  shows "a = 1 \<and> n = 4 \<and> c' = c \<or> a = 4 \<and> n = 16 \<and> c' = c \<or>
     a = 3 \<and> (\<exists>b rest. b \<noteq> 0 \<and> n = unat b \<and> incoming c = b # rest \<and>
                  c' = c\<lparr>incoming := rest, budget := budget c - 1\<rparr>)"
proof -
  have one: "length b = Suc 0 \<Longrightarrow> \<exists>x. b = [x]" for b :: bytes by (cases b) auto
  from assms show ?thesis
    by (auto simp: read_tail_len_def io_bind_Inr_iff io_return_def io_fail_def read_exact_Inr_iff
        split: if_splits dest!: one)
qed

lemma four: "length xs = 4 \<Longrightarrow> xs = [xs ! 0, xs ! 1, xs ! 2, xs ! 3]"
  by (auto simp: length_Suc_conv numeral_eq_Suc)

lemma two: "length xs = 2 \<Longrightarrow> xs = [xs ! 0, xs ! 1]"
  by (auto simp: length_Suc_conv numeral_eq_Suc)

lemma negotiate_sound:
  assumes "negotiate creds c = Inr (u, c')"
  shows "incoming c = (if creds = None then [5, 0] else [5, 2, 1, 0]) @ incoming c' \<and>
    written c' = written c @ (case creds of None \<Rightarrow> [5, 1, 0] | Some cr \<Rightarrow> [5, 1, 2] @ auth_message cr)"
proof -
  let ?m = "if creds = None then 0 else 2 :: u8"
  define c1 where "c1 = c\<lparr>written := written c @ [5, 1, ?m], writable := writable c - Suc (Suc 0),
    budget := budget c - Suc (Suc 0)\<rparr>"
  then have c1: "incoming c1 = incoming c" "written c1 = written c @ [5, 1, ?m]" by simp_all
  from assms obtain choice c2 where
    r: "read_exact 2 c1 = Inr (choice, c2)" "choice ! 0 = 5" "choice ! 1 = ?m"
    and a: "(if choice ! 1 = 2 then (case creds of None \<Rightarrow> io_fail Protocol | Some cr \<Rightarrow> authenticate cr)
      else io_return ()) c2 = Inr (u, c')"
    by (auto simp: negotiate_def Let_def io_bind_Inr_iff write_all_Inr_iff guard_io_Inr_iff c1_def)
  from r have in1: "incoming c = [5, ?m] @ incoming c2" and w1: "written c2 = written c @ [5, 1, ?m]"
    using two [of choice] c1 by (auto simp: read_exact_Inr_iff)
  show ?thesis
  proof (cases creds)
    case None
    with a r in1 w1 show ?thesis by (simp add: io_return_def)
  next
    case (Some cr)
    with a r have "authenticate cr c2 = Inr (u, c')" by simp
    then have "incoming c2 = [1, 0] @ incoming c'" "written c' = written c2 @ auth_message cr"
      by (auto simp: authenticate_def io_simps)
    with Some in1 w1 show ?thesis by simp
  qed
qed

lemma tail_read:
  assumes "read_tail_len a c = Inr (n, c1)" and "read_exact (n + 2) c1 = Inr (b, c2)"
  shows "\<exists>tail. bound_address a tail \<and> incoming c = tail @ incoming c2 \<and> written c2 = written c"
  using read_tail_lenD [OF assms(1)] assms(2)
  by (elim disjE) (fastforce simp: read_exact_Inr_iff bound_address_def)+

lemma request_phase_sound:
  assumes "request_phase request c = Inr (u, c')"
  shows "\<exists>atyp tail. bound_address atyp tail \<and> incoming c = [5, 0, 0, atyp] @ tail @ incoming c' \<and>
    written c' = written c @ request"
proof -
  from assms obtain header c2 n c3 b where h: "read_exact 4
        (c\<lparr>written := written c @ request, writable := writable c - 1, budget := budget c - 1\<rparr>) = Inr (header, c2)"
    and ok: "header ! 0 = 5" "header ! 2 = 0" "header ! 1 = 0"
    and t: "read_tail_len (header ! 3) c2 = Inr (n, c3)" "read_exact (n + 2) c3 = Inr (b, c')"
    by (auto simp: request_phase_def io_bind_Inr_iff write_all_Inr_iff guard_io_Inr_iff)
  from tail_read [OF t] obtain tail where "bound_address (header ! 3) tail"
    "incoming c2 = tail @ incoming c'" "written c' = written c2" by blast
  moreover from h have "length header = 4" "incoming c = header @ incoming c2" "written c2 = written c @ request"
    by (auto simp: read_exact_Inr_iff)
  ultimately show ?thesis using ok four [of header] by (metis append.assoc)
qed

lemma exchange_sound:
  assumes "exchange request creds c = Inr (u, c')"
  shows "\<exists>script. accepting creds script \<and> incoming c = script @ incoming c' \<and>
    written c' = written c @ client_bytes request creds"
proof -
  from assms obtain c1 where n: "negotiate creds c = Inr ((), c1)" and r: "request_phase request c1 = Inr (u, c')"
    by (auto simp: exchange_def io_bind_Inr_iff)
  from negotiate_sound [OF n] request_phase_sound [OF r] show ?thesis
    by (fastforce simp: accepting_def client_bytes_def split: option.splits)
qed

lemma io_run:
  "budget c \<noteq> 0 \<Longrightarrow> incoming c = b @ r \<Longrightarrow> length b = n \<Longrightarrow>
     read_exact n c = Inr (b, c\<lparr>incoming := r, budget := budget c - 1\<rparr>)"
  "budget c \<noteq> 0 \<Longrightarrow> writable c \<noteq> 0 \<Longrightarrow> write_all d c =
     Inr ((), c\<lparr>written := written c @ d, writable := writable c - 1, budget := budget c - 1\<rparr>)"
  by (auto simp: read_exact_Inr_iff write_all_Inr_iff)

lemma negotiate_complete:
  assumes "5 \<le> budget c" "3 \<le> writable c"
    and "incoming c = (if creds = None then [5, 0] else [5, 2, 1, 0]) @ r"
  shows "\<exists>c'. negotiate creds c = Inr ((), c') \<and> incoming c' = r \<and>
    budget c - 5 \<le> budget c' \<and> writable c - 3 \<le> writable c'"
proof (cases creds)
  case None
  with assms show ?thesis
    by (simp add: negotiate_def io_bind_def io_run(2) io_run(1) [where b = "[5, 0]" and r = r]
        guard_io_def io_return_def) linarith
next
  case (Some cr)
  with assms show ?thesis
    by (simp add: negotiate_def io_bind_def io_run(2) io_run(1) [where b = "[5, 2]" and r = "[1, 0] @ r"]
        guard_io_def io_return_def authenticate_def io_run(1) [where b = "[1, 0]" and r = r])
      linarith
qed

lemma request_phase_complete:
  assumes "4 \<le> budget c" "1 \<le> writable c" and tail: "bound_address atyp tail"
    and "incoming c = [5, 0, 0, atyp] @ tail @ r"
  shows "\<exists>c'. request_phase request c = Inr ((), c') \<and> incoming c' = r"
proof -
  note run = request_phase_def io_bind_def io_run(2) io_return_def guard_io_def read_tail_len_def
    io_run(1) [where b = "[5, 0, 0, atyp]" and r = "tail @ r"]
  from tail consider "atyp = 1" "length tail = 6" | "atyp = 4" "length tail = 18"
    | n t where "atyp = 3" "tail = n # t" "n \<noteq> 0" "length t = unat n + 2"
    by (auto simp: bound_address_def)
  then show ?thesis
  proof cases
    case 1
    with assms show ?thesis by (simp add: run io_run(1) [where b = tail and r = r])
  next
    case 2
    with assms show ?thesis by (simp add: run io_run(1) [where b = tail and r = r])
  next
    case 3
    with assms show ?thesis
      by (simp add: run io_run(1) [where b = "[n]" and r = "t @ r"] io_run(1) [where b = t and r = r])
  qed
qed

text \<open>
  The handshake succeeds exactly on a peer that chooses the offered method, accepts the
  credentials if there are any, and answers the request with a well-formed success reply; then
  exactly that reply has been read and exactly the greeting, credentials and request were written.
  Nine I/O operations within the deadline are enough.
\<close>

theorem handshake_iff_peer_accepts:
  assumes "build_request host port = Inr request" and "9 \<le> budget c" and "4 \<le> writable c"
  shows "((\<exists>c'. connect host port creds c = Inr ((), c')) \<longleftrightarrow>
      (\<exists>script rest. accepting creds script \<and> incoming c = script @ rest)) \<and>
    (\<forall>c'. connect host port creds c = Inr ((), c') \<longrightarrow>
      (\<exists>script. accepting creds script \<and> incoming c = script @ incoming c') \<and>
      written c' = written c @ client_bytes request creds)"
proof -
  have complete: "\<exists>c'. exchange request creds c = Inr ((), c')"
    if acc: "accepting creds script" and inc: "incoming c = script @ rest" for script rest
  proof -
    from acc obtain atyp tail where tail: "bound_address atyp tail"
      and script: "script = (if creds = None then [5, 0] else [5, 2, 1, 0]) @ [5, 0, 0, atyp] @ tail"
      by (auto simp: accepting_def)
    from negotiate_complete [of c creds "[5, 0, 0, atyp] @ tail @ rest"] assms(2,3) inc script
    obtain c1 where n: "negotiate creds c = Inr ((), c1)" and "incoming c1 = [5, 0, 0, atyp] @ tail @ rest"
      and "4 \<le> budget c1" "1 \<le> writable c1" by auto
    with request_phase_complete [OF _ _ tail, of c1 rest request] show ?thesis
      by (auto simp: exchange_def io_bind_Inr_iff)
  qed
  show ?thesis using complete exchange_sound [of request creds c] assms(1)
    by (auto simp: connect_def) blast+
qed

theorem handshake_iff_peer_accepts_witness:
  "\<exists>c'. connect ''a.onion'' 80 None
       \<lparr>incoming = [5, 0, 5, 0, 0, 1, 0, 0, 0, 0, 0, 0, 42], written = [], writable = 4, budget = 9\<rparr>
     = Inr ((), c')"
proof -
  let ?c = "\<lparr>incoming = [5, 0, 5, 0, 0, 1, 0, 0, 0, 0, 0, 0, 42], written = [], writable = 4, budget = 9\<rparr>"
  have b: "build_request ''a.onion'' 80 = Inr [5, 1, 0, 3, 7, 97, 46, 111, 110, 105, 111, 110, 0, 80]"
    by code_simp
  have "accepting None [5, 0, 5, 0, 0, 1, 0, 0, 0, 0, 0, 0]" by (simp add: accepting_def bound_address_def)
  moreover have "incoming ?c = [5, 0, 5, 0, 0, 1, 0, 0, 0, 0, 0, 0] @ [42]" by simp
  ultimately show ?thesis using handshake_iff_peer_accepts [OF b, of ?c None] by fastforce
qed

end
