(* ===== verification/Socks5Adapter.thy ===== *)
theory Socks5Adapter
  imports Text_Num
begin

text \<open>
  The inbound adapter (\<open>packages/socks5-proto/src/lib.rs\<close>): the cap on blocking password checks,
  as a step relation over handshakes that are admitted, cancelled and finished in any order, and
  the \<open>.onion\<close> routing predicate.
\<close>

section \<open>Verification slots\<close>

definition MAX_BLOCKING_VERIFICATIONS :: nat where
  "MAX_BLOCKING_VERIFICATIONS = 256"

text \<open>
  A check that runs on the blocking pool: the submitted credentials, and whether the handshake
  still awaits it.  A cancelled handshake leaves the check running with its permit.
\<close>

record job =
  j_username :: str
  j_password :: str
  j_awaited :: bool

text \<open>\<open>sl_asked\<close> remembers what each admitted handshake submitted.\<close>

record slots =
  sl_available :: nat
  sl_asked :: "nat \<rightharpoonup> str \<times> str"
  sl_jobs :: "nat \<rightharpoonup> job"
  sl_verdict :: "nat \<rightharpoonup> bool"

definition verification_slots :: slots where
  "verification_slots = \<lparr>sl_available = MAX_BLOCKING_VERIFICATIONS,
     sl_asked = Map.empty, sl_jobs = Map.empty, sl_verdict = Map.empty\<rparr>"

definition fresh :: "nat \<Rightarrow> slots \<Rightarrow> bool" where
  "fresh i s \<longleftrightarrow> sl_jobs s i = None \<and> sl_verdict s i = None"

definition release :: "nat \<Rightarrow> slots \<Rightarrow> slots" where
  "release i s = s\<lparr>sl_available := Suc (sl_available s), sl_jobs := (sl_jobs s)(i := None)\<rparr>"

definition answer_handshake :: "nat \<Rightarrow> bool \<Rightarrow> slots \<Rightarrow> slots" where
  "answer_handshake i b s = s\<lparr>sl_verdict := (sl_verdict s)(i \<mapsto> b)\<rparr>"

text \<open>The verifier is the host's; \<open>None\<close> when the host configured no authentication.\<close>

type_synonym verifier = "(str \<Rightarrow> str \<Rightarrow> bool) option"

inductive slot_step :: "verifier \<Rightarrow> slots \<Rightarrow> slots \<Rightarrow> bool" for auth where
  anonymous: "auth = None \<Longrightarrow> fresh i s \<Longrightarrow> slot_step auth s (answer_handshake i False s)"
| saturated: "auth = Some v \<Longrightarrow> fresh i s \<Longrightarrow> sl_available s = 0 \<Longrightarrow>
    slot_step auth s (answer_handshake i False s)"
| admit: "auth = Some v \<Longrightarrow> fresh i s \<Longrightarrow> sl_available s = Suc n \<Longrightarrow>
    slot_step auth s (s\<lparr>sl_available := n, sl_asked := (sl_asked s)(i \<mapsto> (u, p)),
      sl_jobs := (sl_jobs s)(i \<mapsto> \<lparr>j_username = u, j_password = p, j_awaited = True\<rparr>)\<rparr>)"
| cancel: "sl_jobs s i = Some j \<Longrightarrow>
    slot_step auth s (s\<lparr>sl_jobs := (sl_jobs s)(i \<mapsto> j\<lparr>j_awaited := False\<rparr>)\<rparr>)"
| finished: "auth = Some v \<Longrightarrow> sl_jobs s i = Some j \<Longrightarrow>
    slot_step auth s
      ((if j_awaited j then answer_handshake i (v (j_username j) (j_password j)) else id) (release i s))"
| panicked: "sl_jobs s i = Some j \<Longrightarrow>
    slot_step auth s ((if j_awaited j then answer_handshake i False else id) (release i s))"

inductive slots_reach :: "verifier \<Rightarrow> slots \<Rightarrow> bool" for auth where
  boot: "slots_reach auth verification_slots"
| step: "slots_reach auth s \<Longrightarrow> slot_step auth s s' \<Longrightarrow> slots_reach auth s'"

definition said_yes :: "verifier \<Rightarrow> slots \<Rightarrow> nat \<Rightarrow> bool" where
  "said_yes auth s i \<longleftrightarrow> (\<exists>v u p. auth = Some v \<and> sl_asked s i = Some (u, p) \<and> v u p)"

definition slots_ok :: "verifier \<Rightarrow> slots \<Rightarrow> bool" where
  "slots_ok auth s \<longleftrightarrow> finite (dom (sl_jobs s)) \<and>
     sl_available s + card (dom (sl_jobs s)) = MAX_BLOCKING_VERIFICATIONS \<and>
     (\<forall>i j. sl_jobs s i = Some j \<longrightarrow> sl_asked s i = Some (j_username j, j_password j)) \<and>
     (\<forall>i. sl_verdict s i = Some True \<longrightarrow> said_yes auth s i)"

lemma card_dom_remove:
  "finite (dom m) \<Longrightarrow> m i = Some x \<Longrightarrow> Suc (card (dom (m(i := None)))) = card (dom m)"
  using card_Suc_Diff1 [of "dom m" i] by (auto simp: domI)

lemma release_ok:
  assumes "slots_ok auth s" and "sl_jobs s i = Some j"
  shows "slots_ok auth (release i s)"
  using assms card_dom_remove [of "sl_jobs s" i j] by (auto simp: slots_ok_def release_def said_yes_def)

lemma answer_ok:
  "slots_ok auth s \<Longrightarrow> (b \<Longrightarrow> said_yes auth s i) \<Longrightarrow> slots_ok auth (answer_handshake i b s)"
  by (auto simp: slots_ok_def answer_handshake_def said_yes_def)

lemma slots_ok_step:
  assumes "slots_ok auth s" and "slot_step auth s s'"
  shows "slots_ok auth s'"
  using assms(2)
proof cases
  case (admit v i n u p)
  with assms(1) show ?thesis by (auto simp: slots_ok_def fresh_def card_insert_if domIff said_yes_def)
next
  case (cancel i j)
  with assms(1) show ?thesis by (auto simp: slots_ok_def insert_absorb domI said_yes_def)
next
  case (finished v i j)
  have "said_yes auth (release i s) i" if "v (j_username j) (j_password j)"
    using assms(1) finished that by (auto simp: slots_ok_def said_yes_def release_def)
  with finished release_ok [OF assms(1) finished(3)] show ?thesis by (auto intro: answer_ok)
next
  case (panicked i j)
  with release_ok [OF assms(1) panicked(2)] answer_ok show ?thesis by auto
qed (use assms(1) answer_ok in auto)

text \<open>
  C39: However handshakes are admitted, cancelled, finished or panic, at most 256 password checks
  are queued or running, every permit is either free or held by one of them, and a handshake is
  told yes only when the configured verifier said yes to what it submitted.
\<close>

theorem verification_slots_conserved:
  assumes "slots_reach auth s"
  shows "card (dom (sl_jobs s)) \<le> 256 \<and> sl_available s + card (dom (sl_jobs s)) = 256 \<and>
    (\<forall>i. sl_verdict s i = Some True \<longrightarrow>
      (\<exists>v u p. auth = Some v \<and> sl_asked s i = Some (u, p) \<and> v u p))"
proof -
  from assms have "slots_ok auth s"
  proof induction
    case boot
    then show ?case by (simp add: slots_ok_def verification_slots_def)
  next
    case (step s s')
    then show ?case using slots_ok_step by blast
  qed
  then show ?thesis by (auto simp: slots_ok_def MAX_BLOCKING_VERIFICATIONS_def said_yes_def)
qed

theorem verification_slots_conserved_witness:
  "\<exists>s. slots_reach (Some (\<lambda>u p. u = p)) s \<and> sl_verdict s 0 = Some True \<and>
     sl_available s + card (dom (sl_jobs s)) = 256"
proof -
  let ?a = "Some (\<lambda>u p. u = p) :: verifier"
  let ?j = "\<lparr>j_username = ''x'', j_password = ''x'', j_awaited = True\<rparr>"
  have "slots_reach ?a (verification_slots\<lparr>sl_available := 255, sl_asked := [0 \<mapsto> (''x'', ''x'')], sl_jobs := [0 \<mapsto> ?j]\<rparr>)"
    using slots_reach.step [OF slots_reach.boot slot_step.admit [of ?a _ 0 verification_slots 255 "''x''" "''x''"]]
    by (simp add: verification_slots_def fresh_def MAX_BLOCKING_VERIFICATIONS_def)
  from slots_reach.step [OF this slot_step.finished [of ?a _ _ 0 ?j]]
  have r: "slots_reach ?a (answer_handshake 0 True (release 0 (verification_slots\<lparr>sl_available := 255, sl_asked := [0 \<mapsto> (''x'', ''x'')], sl_jobs := [0 \<mapsto> ?j]\<rparr>)))"
    by simp
  from verification_slots_conserved [OF r] r show ?thesis by (auto simp: answer_handshake_def)
qed

section \<open>Onion hosts\<close>

definition is_onion :: "str \<Rightarrow> bool" where
  "is_onion host =
     (case rsplit_once CHR ''.'' (trim_end_matches CHR ''.'' host) of
        Some (_, tld) \<Rightarrow> eq_ignore_ascii_case tld ''onion''
      | None \<Rightarrow> False)"

lemma trim_end_matches_snoc: "trim_end_matches c (xs @ [x]) = (if x = c then trim_end_matches c xs else xs @ [x])"
  by (simp add: trim_end_matches_def)

lemma trim_end_matches_replicate: "trim_end_matches c (xs @ replicate k c) = trim_end_matches c xs"
  by (induction k) (simp_all add: replicate_append_same [symmetric] trim_end_matches_snoc flip: append_assoc)

lemma trim_end_matches_id: "xs \<noteq> [] \<Longrightarrow> last xs \<noteq> c \<Longrightarrow> trim_end_matches c xs = xs"
  by (cases xs rule: rev_cases) (auto simp: trim_end_matches_snoc)

lemma onion_label_dotless: "ascii_lowercase tld = ''onion'' \<Longrightarrow> CHR ''.'' \<notin> set tld"
proof
  assume "ascii_lowercase tld = ''onion''" and "CHR ''.'' \<in> set tld"
  then have "to_ascii_lower CHR ''.'' \<in> set ''onion''" by (metis ascii_lowercase_def image_eqI set_map)
  then show False by (simp add: to_ascii_lower_def)
qed

lemma lowercase_onion_self: "ascii_lowercase ''onion'' = ''onion''"
  by code_simp

text \<open>
  A host is an onion host exactly when, trailing dots aside, it has a last label that is
  \<open>onion\<close> in any ASCII case, with a dot before it; the bare word is not one.
\<close>

theorem is_onion_iff:
  "is_onion host \<longleftrightarrow>
     (\<exists>l tld k. host = l @ ''.'' @ tld @ replicate k CHR ''.'' \<and> ascii_lowercase tld = ''onion'')"
proof
  assume "is_onion host"
  then obtain l tld where tld: "ascii_lowercase tld = ''onion''"
    and l: "trim_end_matches CHR ''.'' host = l @ ''.'' @ tld"
    by (auto simp: is_onion_def eq_ignore_ascii_case_def lowercase_onion_self rsplit_once_Some_iff
        split: option.splits)
  obtain k where "host = trim_end_matches CHR ''.'' host @ replicate k CHR ''.''"
    using trim_end_matches_decomp [of host "CHR ''.''"] by auto
  then have "host = l @ ''.'' @ tld @ replicate k CHR ''.''" unfolding l by simp
  with tld show "\<exists>l tld k. host = l @ ''.'' @ tld @ replicate k CHR ''.'' \<and> ascii_lowercase tld = ''onion''"
    by blast
next
  assume "\<exists>l tld k. host = l @ ''.'' @ tld @ replicate k CHR ''.'' \<and> ascii_lowercase tld = ''onion''"
  then obtain l tld k where host: "host = (l @ ''.'' @ tld) @ replicate k CHR ''.''"
    and tld: "ascii_lowercase tld = ''onion''" by auto
  from tld have ne: "tld \<noteq> []" by (auto simp: ascii_lowercase_def)
  note dotless = onion_label_dotless [OF tld]
  have "last tld \<noteq> CHR ''.''" using dotless last_in_set [OF ne] by metis
  then have "last (l @ ''.'' @ tld) \<noteq> CHR ''.''" using ne by simp
  then have "trim_end_matches CHR ''.'' host = l @ ''.'' @ tld"
    unfolding host trim_end_matches_replicate by (simp add: trim_end_matches_id)
  then have "rsplit_once CHR ''.'' (trim_end_matches CHR ''.'' host) = Some (l, tld)"
    using dotless by (simp add: rsplit_once_Some_iff)
  with tld show "is_onion host" by (simp add: is_onion_def eq_ignore_ascii_case_def lowercase_onion_self)
qed

end
