(* ===== verification/OrdMap.thy ===== *)
theory OrdMap
  imports Prelude
begin

text \<open>
  \<open>BTreeMap\<close> as the list of its entries in key order, with the operations the program uses, and
  the interface its clients rely on: the locale \<open>ordered_map\<close> states the map laws of lookup, insert
  and remove and the order of iteration; the \<open>entry\<close> operations (update in place, or insert a default
  first) are derived inside and reach the components through the interpretation.
\<close>

section \<open>Entries in key order\<close>

type_synonym ('k, 'v) omap = "('k \<times> 'v) list"

fun om_lookup :: "('k::linorder, 'v) omap \<Rightarrow> 'k \<Rightarrow> 'v option" where
  "om_lookup [] k = None"
| "om_lookup ((x, v) # m) k = (if k = x then Some v else om_lookup m k)"

fun om_insert :: "'k::linorder \<Rightarrow> 'v \<Rightarrow> ('k, 'v) omap \<Rightarrow> ('k, 'v) omap" where
  "om_insert k v [] = [(k, v)]"
| "om_insert k v ((x, w) # m) =
     (if k < x then (k, v) # (x, w) # m
      else if k = x then (k, v) # m
      else (x, w) # om_insert k v m)"

definition om_remove :: "'k::linorder \<Rightarrow> ('k, 'v) omap \<Rightarrow> ('k, 'v) omap" where
  "om_remove k m = filter (\<lambda>(x, _). x \<noteq> k) m"

definition om_ok :: "('k::linorder, 'v) omap \<Rightarrow> bool" where
  "om_ok m \<longleftrightarrow> sorted_wrt (<) (map fst m)"

definition om_values :: "('k, 'v) omap \<Rightarrow> 'v list" where
  "om_values m = map snd m"

text \<open>\<open>get_mut\<close> with a change of the value found, and \<open>entry(k).or_insert(v)\<close> followed by one.\<close>

definition om_modify :: "'k::linorder \<Rightarrow> ('v \<Rightarrow> 'v) \<Rightarrow> ('k, 'v) omap \<Rightarrow> ('k, 'v) omap" where
  "om_modify k f m = (case om_lookup m k of None \<Rightarrow> m | Some v \<Rightarrow> om_insert k (f v) m)"

definition om_upsert :: "'k::linorder \<Rightarrow> 'v \<Rightarrow> ('v \<Rightarrow> 'v) \<Rightarrow> ('k, 'v) omap \<Rightarrow> ('k, 'v) omap" where
  "om_upsert k d f m = om_insert k (f (case om_lookup m k of None \<Rightarrow> d | Some v \<Rightarrow> v)) m"

section \<open>The interface\<close>

locale ordered_map =
  fixes empty :: "'m"
    and lookup :: "'m \<Rightarrow> 'k::linorder \<Rightarrow> 'v option"
    and insert :: "'k \<Rightarrow> 'v \<Rightarrow> 'm \<Rightarrow> 'm"
    and remove :: "'k \<Rightarrow> 'm \<Rightarrow> 'm"
    and entries :: "'m \<Rightarrow> ('k \<times> 'v) list"
    and ok :: "'m \<Rightarrow> bool"
  assumes ok_empty: "ok empty"
    and ok_insert: "ok m \<Longrightarrow> ok (insert k v m)"
    and ok_remove: "ok m \<Longrightarrow> ok (remove k m)"
    and lookup_empty: "lookup empty k = None"
    and lookup_insert: "ok m \<Longrightarrow> lookup (insert k v m) = (lookup m)(k \<mapsto> v)"
    and lookup_remove: "ok m \<Longrightarrow> lookup (remove k m) = (lookup m)(k := None)"
    and entries_lookup: "ok m \<Longrightarrow> (k, v) \<in> set (entries m) \<longleftrightarrow> lookup m k = Some v"
    and entries_sorted: "ok m \<Longrightarrow> sorted_wrt (<) (map fst (entries m))"
begin

definition modify :: "'k \<Rightarrow> ('v \<Rightarrow> 'v) \<Rightarrow> 'm \<Rightarrow> 'm" where
  "modify k f m = (case lookup m k of None \<Rightarrow> m | Some v \<Rightarrow> insert k (f v) m)"

definition upsert :: "'k \<Rightarrow> 'v \<Rightarrow> ('v \<Rightarrow> 'v) \<Rightarrow> 'm \<Rightarrow> 'm" where
  "upsert k d f m = insert k (f (case lookup m k of None \<Rightarrow> d | Some v \<Rightarrow> v)) m"

lemma ok_modify: "ok m \<Longrightarrow> ok (modify k f m)"
  by (simp add: modify_def ok_insert split: option.split)

lemma ok_upsert: "ok m \<Longrightarrow> ok (upsert k d f m)"
  by (simp add: upsert_def ok_insert)

lemma lookup_modify:
  "ok m \<Longrightarrow> lookup (modify k f m) x = (if x = k then map_option f (lookup m k) else lookup m x)"
  by (auto simp: modify_def lookup_insert split: option.split)

lemma lookup_upsert:
  "ok m \<Longrightarrow> lookup (upsert k d f m) x =
     (if x = k then Some (f (case lookup m k of None \<Rightarrow> d | Some v \<Rightarrow> v)) else lookup m x)"
  by (auto simp: upsert_def lookup_insert)

lemma entries_distinct: "ok m \<Longrightarrow> distinct (map fst (entries m))"
  using entries_sorted [of m] by (simp add: strict_sorted_iff)

lemma fold_remove:
  "ok m \<Longrightarrow> ok (fold remove ks m) \<and>
     lookup (fold remove ks m) = (\<lambda>k. if k \<in> set ks then None else lookup m k)"
  by (induction ks arbitrary: m) (auto simp: ok_remove lookup_remove fun_eq_iff)

end

section \<open>The laws hold\<close>

lemma set_om_insert_keys: "set (map fst (om_insert k v m)) = insert k (set (map fst m))"
  by (induction k v m rule: om_insert.induct) auto

lemma om_ok_Cons: "om_ok ((x, v) # m) \<longleftrightarrow> om_ok m \<and> (\<forall>y \<in> set (map fst m). x < y)"
  by (auto simp: om_ok_def)

lemma om_ok_insert: "om_ok m \<Longrightarrow> om_ok (om_insert k v m)"
proof (induction k v m rule: om_insert.induct)
  case (1 k v)
  then show ?case by (simp add: om_ok_def)
next
  case (2 k v x w m)
  then show ?case using set_om_insert_keys [of k v m] by (auto simp: om_ok_Cons)
qed

lemma om_lookup_None: "k \<notin> set (map fst m) \<Longrightarrow> om_lookup m k = None"
  by (induction m) auto

lemma om_lookup_insert: "om_ok m \<Longrightarrow> om_lookup (om_insert k v m) = (om_lookup m)(k \<mapsto> v)"
  by (induction k v m rule: om_insert.induct) (auto simp: om_ok_Cons fun_eq_iff)

lemma om_lookup_remove: "om_lookup (om_remove k m) = (om_lookup m)(k := None)"
  by (induction m) (auto simp: om_remove_def fun_eq_iff)

lemma om_entries_lookup: "om_ok m \<Longrightarrow> (k, v) \<in> set m \<longleftrightarrow> om_lookup m k = Some v"
  by (induction m) (force simp: om_ok_Cons)+

lemma om_ok_remove: "om_ok m \<Longrightarrow> om_ok (om_remove k m)"
  by (induction m) (auto simp: om_ok_Cons om_remove_def)

interpretation om: ordered_map "[]" om_lookup om_insert om_remove "\<lambda>m. m" om_ok
  by unfold_locales
    (auto simp: om_ok_insert om_ok_remove om_lookup_insert om_lookup_remove om_entries_lookup,
     auto simp: om_ok_def)

lemma om_modify_eq: "om.modify = om_modify"
  by (intro ext) (simp add: om.modify_def om_modify_def)

lemma om_upsert_eq: "om.upsert = om_upsert"
  by (intro ext) (simp add: om.upsert_def om_upsert_def)

lemmas om_laws = om.ok_empty om.ok_insert om.ok_remove om.ok_modify [unfolded om_modify_eq]
  om.ok_upsert [unfolded om_upsert_eq] om.lookup_insert om.lookup_remove
  om.lookup_modify [unfolded om_modify_eq] om.lookup_upsert [unfolded om_upsert_eq]

end
