(* ===== verification/BridgeStore.thy ===== *)
theory BridgeStore
  imports OrdMap Text_Num "HOL-Library.Char_ord" "HOL-Library.List_Lexorder"
begin

text \<open>
  The bridge health store (\<open>packages/bridge-store\<close>, \<open>lib.rs\<close> and \<open>observe.rs\<close>): one entry per
  bridge identity with saturating counters and rate-limited failure counting, the probe round and
  pruning.  A bridge line and the identity \<open>key_of\<close> reads off it are parameters; times are UTC
  nanoseconds, as the difference of two \<open>OffsetDateTime\<close>s is compared with a window.
\<close>

section \<open>Entries\<close>

type_synonym instant = int
type_synonym duration = nat

record 'b entry =
  e_bridge :: 'b
  e_last_ok :: "instant option"
  e_last_attempt :: instant
  e_last_latency :: duration
  e_fails :: u32
  e_ok_count :: u32
  e_channel_ok_count :: u32
  e_last_channel_ok :: "instant option"
  e_verified_count :: u32
  e_last_verified :: "instant option"
  e_last_verification_attempt :: "instant option"
  e_circuit_fails :: u32
  e_last_circuit_observation :: instant
  e_sources :: "str list"

type_synonym ('k, 'b) store = "('k, 'b entry) omap"

definition saturating_add :: "'a::len word \<Rightarrow> 'a word \<Rightarrow> 'a word" where
  "saturating_add a b = (if unat a + unat b < 2 ^ LENGTH('a) then a + b else -1)"

definition RETIRED_CIRCUIT_FAILS :: u32 where
  "RETIRED_CIRCUIT_FAILS = -1"

definition entry_is_retired :: "'b entry \<Rightarrow> bool" where
  "entry_is_retired e \<longleftrightarrow> e_circuit_fails e = RETIRED_CIRCUIT_FAILS"

definition is_proven_alive :: "'b entry \<Rightarrow> bool" where
  "is_proven_alive e \<longleftrightarrow> e_fails e = 0 \<and> 0 < e_ok_count e \<and> \<not> entry_is_retired e"

text \<open>The entry every insertion starts from.\<close>

definition blank_entry :: "'b \<Rightarrow> duration \<Rightarrow> instant \<Rightarrow> 'b entry" where
  "blank_entry bridge latency now = \<lparr>e_bridge = bridge, e_last_ok = None, e_last_attempt = now,
     e_last_latency = latency, e_fails = 0, e_ok_count = 0, e_channel_ok_count = 0,
     e_last_channel_ok = None, e_verified_count = 0, e_last_verified = None,
     e_last_verification_attempt = None, e_circuit_fails = 0, e_last_circuit_observation = now,
     e_sources = []\<rparr>"

section \<open>Observations (observe.rs)\<close>

definition record_at ::
  "('b \<Rightarrow> 'k::linorder) \<Rightarrow> 'b \<Rightarrow> duration \<Rightarrow> instant \<Rightarrow> ('k, 'b) store \<Rightarrow> ('k, 'b) store" where
  "record_at key_of bridge latency now =
     om_upsert (key_of bridge) (blank_entry bridge latency now)
       (\<lambda>e. e\<lparr>e_bridge := bridge, e_last_ok := Some now, e_last_attempt := now,
          e_last_latency := latency, e_fails := 0, e_ok_count := saturating_add (e_ok_count e) 1\<rparr>)"

definition note_failure_at ::
  "('b \<Rightarrow> 'k::linorder) \<Rightarrow> 'b \<Rightarrow> instant \<Rightarrow> duration \<Rightarrow> ('k, 'b) store \<Rightarrow> bool \<times> ('k, 'b) store" where
  "note_failure_at key_of bridge now window s =
     (case om_lookup s (key_of bridge) of
        Some e \<Rightarrow>
          (if int window \<le> now - e_last_attempt e
           then (True, om_insert (key_of bridge)
                  (e\<lparr>e_fails := saturating_add (e_fails e) 1, e_last_attempt := now\<rparr>) s)
           else (False, s))
      | None \<Rightarrow> (True, om_insert (key_of bridge) ((blank_entry bridge 0 now)\<lparr>e_fails := 1\<rparr>) s))"

definition prune ::
  "u32 \<Rightarrow> u32 \<Rightarrow> ('k::linorder, 'b) store \<Rightarrow> 'b list \<times> ('k, 'b) store" where
  "prune max_fails max_circuit_fails s =
     (let dead = filter (\<lambda>(_, e). max_fails \<le> e_fails e \<or> max_circuit_fails \<le> e_circuit_fails e) s
      in (map (\<lambda>(_, e). e_bridge e) dead, fold om_remove (map fst dead) s))"

definition note_answers ::
  "('b \<Rightarrow> 'k::linorder) \<Rightarrow> instant \<Rightarrow> ('b \<times> duration) list \<Rightarrow> ('k, 'b) store \<Rightarrow> ('k, 'b) store" where
  "note_answers key_of now = fold (\<lambda>(bridge, latency). record_at key_of bridge latency now)"

definition note_misses ::
  "('b \<Rightarrow> 'k::linorder) \<Rightarrow> 'k set \<Rightarrow> instant \<Rightarrow> duration \<Rightarrow> 'b list \<Rightarrow> ('k, 'b) store \<Rightarrow> ('k, 'b) store" where
  "note_misses key_of alive_keys now fail_window =
     fold (\<lambda>bridge s. if key_of bridge \<in> alive_keys then s
             else snd (note_failure_at key_of bridge now fail_window s))"

definition note_probe_round ::
  "('b \<Rightarrow> 'k::linorder) \<Rightarrow> 'b list \<Rightarrow> ('b \<times> duration) list \<Rightarrow> instant \<Rightarrow> duration \<Rightarrow> u32 \<Rightarrow> u32
   \<Rightarrow> ('k, 'b) store \<Rightarrow> 'b list \<times> ('k, 'b) store" where
  "note_probe_round key_of probed alive now fail_window max_fails max_circuit_fails s =
     (let alive_keys = set (map (\<lambda>(b, _). key_of b) alive)
      in prune max_fails max_circuit_fails
           (note_misses key_of alive_keys now fail_window probed (note_answers key_of now alive s)))"

definition note_circuit_failure_at ::
  "('b \<Rightarrow> 'k::linorder) \<Rightarrow> 'b \<Rightarrow> instant \<Rightarrow> duration \<Rightarrow> ('k, 'b) store \<Rightarrow> bool \<times> ('k, 'b) store" where
  "note_circuit_failure_at key_of bridge now window s =
     (case om_lookup s (key_of bridge) of
        Some e \<Rightarrow>
          (if int window \<le> now - e_last_circuit_observation e
           then (True, om_insert (key_of bridge)
                  (e\<lparr>e_circuit_fails := saturating_add (e_circuit_fails e) 1,
                     e_last_circuit_observation := now\<rparr>) s)
           else (False, s))
      | None \<Rightarrow> (True, om_insert (key_of bridge) ((blank_entry bridge 0 now)\<lparr>e_circuit_fails := 1\<rparr>) s))"

definition note_permanent_failure_at ::
  "('b \<Rightarrow> 'k::linorder) \<Rightarrow> 'b \<Rightarrow> instant \<Rightarrow> ('k, 'b) store \<Rightarrow> ('k, 'b) store" where
  "note_permanent_failure_at key_of bridge now =
     om_upsert (key_of bridge) (blank_entry bridge 0 now)
       (\<lambda>e. e\<lparr>e_circuit_fails := RETIRED_CIRCUIT_FAILS, e_last_circuit_observation := now\<rparr>)"

definition note_source_at ::
  "('b \<Rightarrow> 'k::linorder) \<Rightarrow> 'b \<Rightarrow> str \<Rightarrow> instant \<Rightarrow> ('k, 'b) store \<Rightarrow> ('k, 'b) store" where
  "note_source_at key_of bridge source now =
     om_upsert (key_of bridge) (blank_entry bridge 0 now)
       (\<lambda>e. e\<lparr>e_sources := insort_insert source (e_sources e)\<rparr>)"

definition is_retired :: "('b \<Rightarrow> 'k::linorder) \<Rightarrow> ('k, 'b) store \<Rightarrow> 'b \<Rightarrow> bool" where
  "is_retired key_of s bridge =
     (case om_lookup s (key_of bridge) of None \<Rightarrow> False | Some e \<Rightarrow> entry_is_retired e)"

definition day_of :: "instant \<Rightarrow> int" where
  "day_of t = t div (86400 * 1000000000)"

definition failed_today :: "('b \<Rightarrow> 'k::linorder) \<Rightarrow> ('k, 'b) store \<Rightarrow> 'b \<Rightarrow> instant \<Rightarrow> bool" where
  "failed_today key_of s bridge today =
     (case om_lookup s (key_of bridge) of
        None \<Rightarrow> False
      | Some e \<Rightarrow> 0 < e_fails e \<and> day_of (e_last_attempt e) = day_of today)"

definition note_circuit_success_at ::
  "('b \<Rightarrow> 'k::linorder) \<Rightarrow> 'b \<Rightarrow> instant \<Rightarrow> ('k, 'b) store \<Rightarrow> ('k, 'b) store" where
  "note_circuit_success_at key_of bridge now =
     om_modify (key_of bridge) (\<lambda>e. e\<lparr>e_circuit_fails := 0, e_last_circuit_observation := now\<rparr>)"

definition note_channel_success_at ::
  "('b \<Rightarrow> 'k::linorder) \<Rightarrow> 'b \<Rightarrow> instant \<Rightarrow> ('k, 'b) store \<Rightarrow> ('k, 'b) store" where
  "note_channel_success_at key_of bridge now =
     om_modify (key_of bridge)
       (\<lambda>e. e\<lparr>e_channel_ok_count := saturating_add (e_channel_ok_count e) 1, e_last_channel_ok := Some now\<rparr>)"

definition note_circuit_verified_at ::
  "('b \<Rightarrow> 'k::linorder) \<Rightarrow> 'b \<Rightarrow> instant \<Rightarrow> ('k, 'b) store \<Rightarrow> ('k, 'b) store" where
  "note_circuit_verified_at key_of bridge now =
     om_modify (key_of bridge)
       (\<lambda>e. e\<lparr>e_verified_count := saturating_add (e_verified_count e) 1, e_last_verified := Some now,
          e_last_verification_attempt := Some now\<rparr>)"

definition note_verification_attempt_at ::
  "('b \<Rightarrow> 'k::linorder) \<Rightarrow> 'b \<Rightarrow> instant \<Rightarrow> ('k, 'b) store \<Rightarrow> ('k, 'b) store" where
  "note_verification_attempt_at key_of bridge now =
     om_modify (key_of bridge) (\<lambda>e. e\<lparr>e_last_verification_attempt := Some now\<rparr>)"

section \<open>The store invariant\<close>

text \<open>The map is ordered, and every entry's line has the identity it is filed under.\<close>

definition store_ok :: "('b \<Rightarrow> 'k::linorder) \<Rightarrow> ('k, 'b) store \<Rightarrow> bool" where
  "store_ok key_of s \<longleftrightarrow> om_ok s \<and> (\<forall>k e. om_lookup s k = Some e \<longrightarrow> key_of (e_bridge e) = k)"

lemma blank_simps [simp]:
  "e_bridge (blank_entry b l n) = b" "e_fails (blank_entry b l n) = 0"
  "e_circuit_fails (blank_entry b l n) = 0" "e_ok_count (blank_entry b l n) = 0"
  "e_channel_ok_count (blank_entry b l n) = 0" "e_last_attempt (blank_entry b l n) = n"
  by (simp_all add: blank_entry_def)

lemma store_ok_insert:
  "store_ok key_of s \<Longrightarrow> key_of (e_bridge e) = k \<Longrightarrow> store_ok key_of (om_insert k e s)"
  by (auto simp: store_ok_def om_laws)

lemma store_ok_upsert:
  assumes "store_ok key_of s" and "key_of (e_bridge (f d)) = k"
    and "\<And>e. key_of (e_bridge e) = k \<Longrightarrow> key_of (e_bridge (f e)) = k"
  shows "store_ok key_of (om_upsert k d f s)"
  using assms by (auto simp: store_ok_def om_laws split: option.splits if_splits)

lemma store_ok_modify:
  assumes "store_ok key_of s" and "\<And>e. key_of (e_bridge (f e)) = key_of (e_bridge e)"
  shows "store_ok key_of (om_modify k f s)"
  using assms by (auto simp: store_ok_def om_laws split: if_splits)

lemma store_ok_fold_remove: "store_ok key_of s \<Longrightarrow> store_ok key_of (fold om_remove ks s)"
  using om.fold_remove [of s ks] by (auto simp: store_ok_def split: if_splits)

lemma store_ok_fold:
  "store_ok key_of s \<Longrightarrow> (\<And>x s. store_ok key_of s \<Longrightarrow> store_ok key_of (f x s)) \<Longrightarrow> store_ok key_of (fold f xs s)"
  by (induction xs arbitrary: s) auto

lemma store_ok_record: "store_ok key_of s \<Longrightarrow> store_ok key_of (record_at key_of b l n s)"
  unfolding record_at_def by (rule store_ok_upsert) auto

lemma store_ok_failure: "store_ok key_of s \<Longrightarrow> store_ok key_of (snd (note_failure_at key_of b n w s))"
  by (auto simp: note_failure_at_def store_ok_insert split: option.splits)
     (auto simp: store_ok_def intro!: store_ok_insert [unfolded store_ok_def])

text \<open>A counter is positive exactly when its time stamp is set.\<close>

definition entry_ok :: "'b entry \<Rightarrow> bool" where
  "entry_ok e \<longleftrightarrow> (e_last_ok e \<noteq> None \<longleftrightarrow> 0 < e_ok_count e) \<and>
     (e_last_channel_ok e \<noteq> None \<longleftrightarrow> 0 < e_channel_ok_count e) \<and>
     (e_last_verified e \<noteq> None \<longleftrightarrow> 0 < e_verified_count e) \<and>
     (e_last_verified e \<noteq> None \<longrightarrow> e_last_verification_attempt e \<noteq> None) \<and>
     sorted (e_sources e) \<and> distinct (e_sources e)"

definition all_entries :: "('e \<Rightarrow> bool) \<Rightarrow> ('k::linorder, 'e) omap \<Rightarrow> bool" where
  "all_entries P s \<longleftrightarrow> (\<forall>k e. om_lookup s k = Some e \<longrightarrow> P e)"

lemma unat_saturating_add_1: "unat (saturating_add (a :: 'a::len word) 1) = min (unat a + 1) (2 ^ LENGTH('a) - 1)"
proof -
  have a: "unat a < 2 ^ LENGTH('a)" using unsigned_less [of a, where ?'a = nat] by simp
  show ?thesis
  proof (cases "unat a + 1 < 2 ^ LENGTH('a)")
    case True
    then have "unat (a + 1) = unat a + 1" by (simp add: unat_word_ariths)
    with True show ?thesis by (simp add: saturating_add_def)
  next
    case False
    moreover have "unat (-1 :: 'a word) = 2 ^ LENGTH('a) - 1" by (simp add: unsigned_minus_1_eq_mask mask_eq_exp_minus_1)
    ultimately show ?thesis using a by (simp add: saturating_add_def)
  qed
qed

lemma saturating_add_pos: "0 < saturating_add (a :: u32) 1"
  using unat_saturating_add_1 [of a] by (simp add: word_less_nat_alt)

lemma saturating_add_le: "unat a \<le> unat (saturating_add (a :: u32) 1)" "unat (saturating_add a 1) \<le> unat a + 1"
  using unat_saturating_add_1 [of a] unsigned_less [of a, where ?'a = nat] by auto

lemma all_entries_insert: "om_ok s \<Longrightarrow> all_entries P s \<Longrightarrow> P e \<Longrightarrow> all_entries P (om_insert k e s)"
  by (auto simp: all_entries_def om_laws)

lemma all_entries_upsert:
  "om_ok s \<Longrightarrow> all_entries P s \<Longrightarrow> P d \<Longrightarrow> (\<And>e. P e \<Longrightarrow> P (f e)) \<Longrightarrow> all_entries P (om_upsert k d f s)"
  by (auto simp: all_entries_def om_laws split: option.splits if_splits)

lemma all_entries_modify:
  "om_ok s \<Longrightarrow> all_entries P s \<Longrightarrow> (\<And>e. P e \<Longrightarrow> P (f e)) \<Longrightarrow> all_entries P (om_modify k f s)"
  by (auto simp: all_entries_def om_laws split: if_splits)

lemma all_entries_fold_remove:
  "om_ok s \<Longrightarrow> all_entries P s \<Longrightarrow> all_entries P (fold om_remove ks s)"
  using om.fold_remove [of s ks] by (auto simp: all_entries_def split: if_splits)

definition store_inv :: "('b \<Rightarrow> 'k::linorder) \<Rightarrow> ('k, 'b) store \<Rightarrow> bool" where
  "store_inv key_of s \<longleftrightarrow> store_ok key_of s \<and> all_entries entry_ok s"

lemma entry_ok_blank [simp]: "entry_ok (blank_entry b l n)" "entry_ok ((blank_entry b l n)\<lparr>e_fails := f\<rparr>)"
  "entry_ok ((blank_entry b l n)\<lparr>e_circuit_fails := f\<rparr>)"
  by (simp_all add: entry_ok_def blank_entry_def)

lemma store_inv_upsert:
  assumes "store_inv key_of s" and "key_of (e_bridge (f d)) = k" "entry_ok d"
    and "\<And>e. key_of (e_bridge e) = k \<Longrightarrow> key_of (e_bridge (f e)) = k"
    and "\<And>e. entry_ok e \<Longrightarrow> entry_ok (f e)"
  shows "store_inv key_of (om_upsert k d f s)"
  using assms store_ok_upsert [of key_of s f d k] all_entries_upsert [of s entry_ok d f k]
  by (auto simp: store_inv_def store_ok_def)

lemma store_inv_modify:
  assumes "store_inv key_of s" and "\<And>e. key_of (e_bridge (f e)) = key_of (e_bridge e)"
    and "\<And>e. entry_ok e \<Longrightarrow> entry_ok (f e)"
  shows "store_inv key_of (om_modify k f s)"
  using assms store_ok_modify [of key_of s f k] all_entries_modify [of s entry_ok f k]
  by (auto simp: store_inv_def store_ok_def)

lemma store_inv_insert:
  assumes "store_inv key_of s" and "key_of (e_bridge e) = k" "entry_ok e"
  shows "store_inv key_of (om_insert k e s)"
  using assms store_ok_insert [of key_of s e k] all_entries_insert [of s entry_ok e k]
  by (auto simp: store_inv_def store_ok_def)

lemma store_inv_lookup:
  "store_inv key_of s \<Longrightarrow> om_lookup s k = Some e \<Longrightarrow> key_of (e_bridge e) = k \<and> entry_ok e"
  by (auto simp: store_inv_def store_ok_def all_entries_def)

lemma store_inv_record: "store_inv key_of s \<Longrightarrow> store_inv key_of (record_at key_of b l n s)"
  unfolding record_at_def by (rule store_inv_upsert) (auto simp: entry_ok_def saturating_add_pos blank_entry_def)

lemma store_inv_failure:
  "store_inv key_of s \<Longrightarrow> store_inv key_of (snd (note_failure_at key_of b n w s))"
  using store_inv_lookup [of key_of s "key_of b"]
  by (auto simp: note_failure_at_def intro!: store_inv_insert split: option.splits)
     (auto simp: entry_ok_def)

lemma store_inv_circuit_failure:
  "store_inv key_of s \<Longrightarrow> store_inv key_of (snd (note_circuit_failure_at key_of b n w s))"
  using store_inv_lookup [of key_of s "key_of b"]
  by (auto simp: note_circuit_failure_at_def intro!: store_inv_insert split: option.splits)
     (auto simp: entry_ok_def)

lemma store_inv_prune: "store_inv key_of s \<Longrightarrow> store_inv key_of (snd (prune mf mc s))"
  by (simp add: store_inv_def prune_def Let_def store_ok_fold_remove all_entries_fold_remove store_ok_def [of _ s])

lemma store_inv_fold:
  "store_inv key_of s \<Longrightarrow> (\<And>x s. store_inv key_of s \<Longrightarrow> store_inv key_of (f x s)) \<Longrightarrow> store_inv key_of (fold f xs s)"
  by (induction xs arbitrary: s) auto

lemma store_inv_probe_round:
  "store_inv key_of s \<Longrightarrow> store_inv key_of (snd (note_probe_round key_of probed alive now w mf mc s))"
  unfolding note_probe_round_def Let_def note_misses_def note_answers_def
  by (intro store_inv_prune store_inv_fold)
     (auto simp: store_inv_record store_inv_failure split: prod.splits)

text \<open>The observations the process makes of a store, in any order.\<close>

inductive store_step :: "('b \<Rightarrow> 'k::linorder) \<Rightarrow> ('k, 'b) store \<Rightarrow> ('k, 'b) store \<Rightarrow> bool" for key_of where
  probe_round: "store_step key_of s (snd (note_probe_round key_of probed alive now w mf mc s))"
| circuit_failure: "store_step key_of s (snd (note_circuit_failure_at key_of b now w s))"
| permanent_failure: "store_step key_of s (note_permanent_failure_at key_of b now s)"
| source: "store_step key_of s (note_source_at key_of b label now s)"
| circuit_success: "store_step key_of s (note_circuit_success_at key_of b now s)"
| channel_success: "store_step key_of s (note_channel_success_at key_of b now s)"
| circuit_verified: "store_step key_of s (note_circuit_verified_at key_of b now s)"
| verification_attempt: "store_step key_of s (note_verification_attempt_at key_of b now s)"

inductive store_reach :: "('b \<Rightarrow> 'k::linorder) \<Rightarrow> ('k, 'b) store \<Rightarrow> bool" for key_of where
  fresh: "store_reach key_of []"
| observe: "store_reach key_of s \<Longrightarrow> store_step key_of s s' \<Longrightarrow> store_reach key_of s'"

lemma store_inv_step:
  assumes inv: "store_inv key_of s" and "store_step key_of s s'"
  shows "store_inv key_of s'"
  using assms(2)
proof cases
  case (source b l now)
  have "store_inv key_of (note_source_at key_of b l now s)"
    unfolding note_source_at_def
    by (rule store_inv_upsert [OF inv]) (auto simp: entry_ok_def sorted_insort_insert distinct_insort_insert blank_entry_def)
  with source show ?thesis by simp
next
  case (permanent_failure b now)
  then show ?thesis
    by (auto simp: note_permanent_failure_at_def intro!: store_inv_upsert [OF inv]) (simp add: entry_ok_def)
qed (auto simp: store_inv_probe_round [OF inv] store_inv_circuit_failure [OF inv]
      note_circuit_success_at_def note_channel_success_at_def note_circuit_verified_at_def
      note_verification_attempt_at_def saturating_add_pos entry_ok_def
      intro!: store_inv_modify [OF inv])

text \<open>
  Whatever a process observes, in any order, its store stays a map from identities to the lines
  that have them, and in every entry a counter is positive exactly when its time stamp is set, a
  verified bridge has a recorded attempt, and the credited sources are a sorted set.
\<close>

theorem store_stays_well_formed:
  assumes "store_reach key_of s"
  shows "om_ok s \<and> (\<forall>k e. om_lookup s k = Some e \<longrightarrow> key_of (e_bridge e) = k \<and> entry_ok e)"
proof -
  from assms have "store_inv key_of s"
  proof induction
    case fresh
    then show ?case by (simp add: store_inv_def store_ok_def all_entries_def om_ok_def)
  next
    case (observe s s')
    then show ?case using store_inv_step by blast
  qed
  then show ?thesis by (auto simp: store_inv_def store_ok_def all_entries_def)
qed

theorem store_stays_well_formed_witness:
  "\<exists>s :: (nat, nat) store. store_reach id s \<and> om_lookup s 7 \<noteq> None \<and> om_ok s \<and>
     (\<forall>k e. om_lookup s k = Some e \<longrightarrow> e_bridge e = k \<and> entry_ok e)"
proof -
  let ?s = "note_source_at id (7 :: nat) ''feed'' 0 []"
  have r: "store_reach id ?s" by (rule store_reach.observe [OF store_reach.fresh store_step.source])
  have "om_lookup ?s 7 \<noteq> None" by (simp add: note_source_at_def om_upsert_def)
  with store_stays_well_formed [OF r] r show ?thesis by fastforce
qed

section \<open>Rate limiting\<close>

definition note_failures ::
  "('b \<Rightarrow> 'k::linorder) \<Rightarrow> 'b \<Rightarrow> duration \<Rightarrow> instant list \<Rightarrow> ('k, 'b) store \<Rightarrow> ('k, 'b) store" where
  "note_failures key_of b w ts s = fold (\<lambda>t s. snd (note_failure_at key_of b t w s)) ts s"

lemma failure_known:
  assumes "om_ok s" and "om_lookup s (key_of b) = Some e"
  shows "\<exists>e' n. om_lookup (snd (note_failure_at key_of b t w s)) (key_of b) = Some e' \<and>
    om_ok (snd (note_failure_at key_of b t w s)) \<and> unat (e_fails e') = unat (e_fails e) + n \<and>
    (e' = e \<and> n = 0 \<or> int w \<le> t - e_last_attempt e \<and> e_last_attempt e' = t \<and> n \<le> 1)"
proof -
  obtain n where "unat (saturating_add (e_fails e) 1) = unat (e_fails e) + n" "n \<le> 1"
    using saturating_add_le [of "e_fails e"] that [of "unat (saturating_add (e_fails e) 1) - unat (e_fails e)"]
    by linarith
  with assms show ?thesis by (auto simp: note_failure_at_def om_laws)
qed

lemma failures_bounded:
  assumes "om_ok s" "om_lookup s (key_of b) = Some e" "sorted (e_last_attempt e # ts)"
  shows "\<exists>e' n. om_lookup (note_failures key_of b w ts s) (key_of b) = Some e' \<and>
    unat (e_fails e') = unat (e_fails e) + n \<and>
    int n * int w \<le> last (e_last_attempt e # ts) - e_last_attempt e"
  using assms
proof (induction ts arbitrary: s e)
  case Nil
  then show ?case by (simp add: note_failures_def)
next
  case (Cons t ts)
  let ?s = "snd (note_failure_at key_of b t w s)"
  obtain e1 n1 where e1: "om_lookup ?s (key_of b) = Some e1" "om_ok ?s"
    and n1: "unat (e_fails e1) = unat (e_fails e) + n1"
    and step: "e1 = e \<and> n1 = 0 \<or> int w \<le> t - e_last_attempt e \<and> e_last_attempt e1 = t \<and> n1 \<le> 1"
    using failure_known [of s key_of b e t w] Cons.prems by blast
  have srt: "sorted (e_last_attempt e1 # ts)" using step Cons.prems(3) by auto
  from Cons.IH [OF e1(2,1) srt] obtain e' n where
    e': "om_lookup (note_failures key_of b w ts ?s) (key_of b) = Some e'"
    and n: "unat (e_fails e') = unat (e_fails e1) + n"
    and bound: "int n * int w \<le> last (e_last_attempt e1 # ts) - e_last_attempt e1" by blast
  have "int (n1 + n) * int w \<le> last (t # ts) - e_last_attempt e"
    using step
  proof
    assume "e1 = e \<and> n1 = 0"
    moreover have "last (e_last_attempt e # ts) \<le> last (t # ts)"
      using Cons.prems(3) by (cases ts) auto
    ultimately show ?thesis using bound by auto
  next
    assume b: "int w \<le> t - e_last_attempt e \<and> e_last_attempt e1 = t \<and> n1 \<le> 1"
    then have "int n1 * int w \<le> 1 * int w" by (intro mult_right_mono) auto
    with b bound show ?thesis by (auto simp: algebra_simps)
  qed
  with e' n n1 show ?case by (auto simp: note_failures_def)
qed

text \<open>
  A burst of failed probes counts once: over any run of failures of a known bridge the counter
  grows by at most one per elapsed \<open>fail_window\<close>, however many failures were reported.
\<close>

theorem failures_are_rate_limited:
  assumes "om_ok s" and "om_lookup s (key_of b) = Some e" and "sorted (e_last_attempt e # ts)"
  shows "\<exists>e' bumps. om_lookup (note_failures key_of b w ts s) (key_of b) = Some e' \<and>
    unat (e_fails e') = unat (e_fails e) + bumps \<and>
    int bumps * int w \<le> last (e_last_attempt e # ts) - e_last_attempt e"
  using assms failures_bounded [of s key_of b e ts w] by blast

theorem failures_are_rate_limited_witness:
  "\<exists>e' bumps. om_lookup (note_failures id (7 :: nat) 10 [1, 2, 3, 12] [(7, blank_entry 7 0 0)]) 7 = Some e' \<and>
     unat (e_fails e') = bumps \<and> int bumps * 10 \<le> 12"
  using failures_are_rate_limited [of "[(7, blank_entry 7 0 0)]" id "7 :: nat" "blank_entry 7 0 0" "[1, 2, 3, 12]" 10]
  by (auto simp: om_ok_def)

section \<open>Probe rounds\<close>

lemma prune_spec:
  assumes "store_ok key_of s" and "prune mf mc s = (dropped, s')"
  shows "om_lookup s' k = (case om_lookup s k of
      Some e \<Rightarrow> if mf \<le> e_fails e \<or> mc \<le> e_circuit_fails e then None else Some e | None \<Rightarrow> None)"
    and "b \<in> set dropped \<longleftrightarrow> (\<exists>e. om_lookup s (key_of b) = Some e \<and> e_bridge e = b \<and>
      (mf \<le> e_fails e \<or> mc \<le> e_circuit_fails e))"
proof -
  let ?dead = "filter (\<lambda>(_, e). mf \<le> e_fails e \<or> mc \<le> e_circuit_fails e) s"
  have ok: "om_ok s" using assms(1) by (simp add: store_ok_def)
  have mem: "(x, e) \<in> set s \<longleftrightarrow> om_lookup s x = Some e" for x e by (rule om.entries_lookup [OF ok])
  have s': "s' = fold om_remove (map fst ?dead) s" and d: "dropped = map (\<lambda>(_, e). e_bridge e) ?dead"
    using assms(2) by (auto simp: prune_def Let_def)
  have keys: "k \<in> set (map fst ?dead) \<longleftrightarrow> (\<exists>e. om_lookup s k = Some e \<and> (mf \<le> e_fails e \<or> mc \<le> e_circuit_fails e))"
    by (force simp: mem)
  show "om_lookup s' k = (case om_lookup s k of
      Some e \<Rightarrow> if mf \<le> e_fails e \<or> mc \<le> e_circuit_fails e then None else Some e | None \<Rightarrow> None)"
    using om.fold_remove [OF ok, of "map fst ?dead"] keys by (auto simp: s' split: option.splits)
  show "b \<in> set dropped \<longleftrightarrow> (\<exists>e. om_lookup s (key_of b) = Some e \<and> e_bridge e = b \<and>
      (mf \<le> e_fails e \<or> mc \<le> e_circuit_fails e))"
    using assms(1) by (force simp: d mem store_ok_def)
qed

text \<open>
  A probe round seen from one entry.  A counter that would pass its width stays at the maximum.  All answers of a round
  count; of its misses only the first one falls outside the window, unless the window is empty.
\<close>

definition capped :: "u32 \<Rightarrow> nat \<Rightarrow> u32" where
  "capped c n = of_nat (min (unat c + n) (2 ^ 32 - 1))"

definition answered :: "instant \<Rightarrow> ('b \<times> duration) list \<Rightarrow> 'b entry option \<Rightarrow> 'b entry" where
  "answered now answers old =
     (let e = (case old of Some e \<Rightarrow> e | None \<Rightarrow> blank_entry (fst (hd answers)) (snd (hd answers)) now) in
      e\<lparr>e_bridge := fst (last answers), e_last_ok := Some now, e_last_attempt := now,
        e_last_latency := snd (last answers), e_fails := 0, e_ok_count := capped (e_ok_count e) (length answers)\<rparr>)"

definition missed :: "instant \<Rightarrow> duration \<Rightarrow> 'b list \<Rightarrow> 'b entry option \<Rightarrow> 'b entry" where
  "missed now w misses old =
     (let n = (if w = 0 then length misses else 1) in
      case old of
        None \<Rightarrow> (blank_entry (hd misses) 0 now)\<lparr>e_fails := capped 0 n\<rparr>
      | Some e \<Rightarrow>
          if int w \<le> now - e_last_attempt e then e\<lparr>e_fails := capped (e_fails e) n, e_last_attempt := now\<rparr> else e)"

definition round_entry ::
  "('b \<Rightarrow> 'k) \<Rightarrow> 'b list \<Rightarrow> ('b \<times> duration) list \<Rightarrow> instant \<Rightarrow> duration \<Rightarrow> 'k \<Rightarrow> 'b entry option \<Rightarrow> 'b entry option" where
  "round_entry key_of probed alive now w k old =
     (let answers = filter (\<lambda>(b, _). key_of b = k) alive; misses = filter (\<lambda>b. key_of b = k) probed in
      if answers \<noteq> [] then Some (answered now answers old)
      else if misses \<noteq> [] then Some (missed now w misses old)
      else old)"

definition at_limit :: "u32 \<Rightarrow> u32 \<Rightarrow> 'b entry \<Rightarrow> bool" where
  "at_limit mf mc e \<longleftrightarrow> mf \<le> e_fails e \<or> mc \<le> e_circuit_fails e"

lemma unat_capped: "unat (capped c n) = min (unat c + n) (2 ^ 32 - 1)"
proof -
  have "min (unat c + n) (2 ^ 32 - 1) < 2 ^ 32" by simp
  then show ?thesis unfolding capped_def by (simp only: unsigned_of_nat len_num1 len_bit0 len_bit1) (simp add: take_bit_nat_eq_self)
qed

lemma saturating_capped: "saturating_add c 1 = capped c (Suc 0)" "capped (capped c n) (Suc 0) = capped c (Suc n)"
proof -
  have "unat (saturating_add c 1) = unat (capped c (Suc 0))" "unat (capped (capped c n) (Suc 0)) = unat (capped c (Suc n))"
    by (simp_all add: unat_saturating_add_1 unat_capped min_def)
  then show "saturating_add c 1 = capped c (Suc 0)" "capped (capped c n) (Suc 0) = capped c (Suc n)"
    by (simp_all only: word_unat_eq_iff)
qed

lemma answers_lookup:
  assumes "om_ok s"
  shows "om_ok (note_answers key_of now alive s) \<and>
    om_lookup (note_answers key_of now alive s) k =
      (let answers = filter (\<lambda>(b, _). key_of b = k) alive in
       if answers \<noteq> [] then Some (answered now answers (om_lookup s k)) else om_lookup s k)"
proof (induction alive rule: rev_induct)
  case Nil
  then show ?case using assms by (simp add: note_answers_def)
next
  case (snoc x alive)
  obtain b l where x: "x = (b, l)" by (cases x)
  let ?s = "note_answers key_of now alive s" and ?as = "filter (\<lambda>(b, _). key_of b = k) alive"
  have eq: "note_answers key_of now (alive @ [(b, l)]) s = record_at key_of b l now ?s" by (simp add: note_answers_def)
  have ok: "om_ok ?s" and look: "om_lookup ?s k = (if ?as \<noteq> [] then Some (answered now ?as (om_lookup s k)) else om_lookup s k)"
    using snoc by (simp_all add: Let_def)
  show ?case
  proof (cases "k = key_of b")
    case True
    then show ?thesis unfolding x eq using ok look
      by (cases "?as = []") (auto simp: record_at_def om_laws answered_def Let_def saturating_capped split: option.splits)
  next
    case False
    then show ?thesis unfolding x eq using ok look by (simp add: record_at_def om_laws)
  qed
qed

lemma misses_lookup:
  assumes "om_ok s"
  shows "om_ok (note_misses key_of A now w probed s) \<and>
    om_lookup (note_misses key_of A now w probed s) k =
      (let misses = filter (\<lambda>b. key_of b = k) probed in
       if k \<notin> A \<and> misses \<noteq> [] then Some (missed now w misses (om_lookup s k)) else om_lookup s k)"
proof (induction probed rule: rev_induct)
  case Nil
  then show ?case using assms by (simp add: note_misses_def)
next
  case (snoc b probed)
  let ?s = "note_misses key_of A now w probed s" and ?ms = "filter (\<lambda>b. key_of b = k) probed"
  have eq: "note_misses key_of A now w (probed @ [b]) s = (if key_of b \<in> A then ?s else snd (note_failure_at key_of b now w ?s))"
    by (simp add: note_misses_def)
  have ok: "om_ok ?s" and look: "om_lookup ?s k = (if k \<notin> A \<and> ?ms \<noteq> [] then Some (missed now w ?ms (om_lookup s k)) else om_lookup s k)"
    using snoc by (simp_all add: Let_def)
  have ok': "om_ok (snd (note_failure_at key_of b now w ?s))" using ok by (auto simp: note_failure_at_def om_laws split: option.splits)
  have one: "capped 0 (Suc 0) = 1" by (simp add: capped_def)
  show ?case
  proof (cases "key_of b = k \<and> k \<notin> A")
    case True
    then show ?thesis unfolding eq using ok ok' look
      by (cases "?ms = []") (auto simp: note_failure_at_def om_laws missed_def Let_def one saturating_capped split: option.splits if_splits)
  next
    case False
    then have "om_lookup (snd (note_failure_at key_of b now w ?s)) k = om_lookup ?s k" if "key_of b \<notin> A"
      using that ok by (auto simp: note_failure_at_def om_laws split: option.splits)
    then show ?thesis unfolding eq using ok ok' look False by auto
  qed
qed

text \<open>
  C36: What a probe round does to every entry, and to nothing else.  A bridge that answered is recorded reachable now, with
  its failures cleared; one that was probed and did not answer has one more failure, at most once per window; an entry
  that was not probed is as it was.  After that exactly the entries that have reached one of the two failure limits are
  gone, and the bridges of exactly these entries are returned; every other entry is there.
\<close>

theorem probe_round_outcome:
  assumes "store_ok key_of s"
    and "note_probe_round key_of probed alive now w mf mc s = (dropped, s')"
  shows "om_lookup s' k =
      (case round_entry key_of probed alive now w k (om_lookup s k) of
         Some e \<Rightarrow> if at_limit mf mc e then None else Some e
       | None \<Rightarrow> None) \<and>
    (b \<in> set dropped \<longleftrightarrow>
      (\<exists>e. round_entry key_of probed alive now w (key_of b) (om_lookup s (key_of b)) = Some e \<and> e_bridge e = b \<and> at_limit mf mc e)) \<and>
    store_ok key_of s'"
proof -
  define A where "A = set (map (\<lambda>(b, _). key_of b) alive)"
  define s2 where "s2 = note_misses key_of A now w probed (note_answers key_of now alive s)"
  have om: "om_ok s" using assms(1) by (simp add: store_ok_def)
  have A: "k \<in> A \<longleftrightarrow> filter (\<lambda>(b, _). key_of b = k) alive \<noteq> []" for k by (force simp: A_def filter_empty_conv)
  have look: "om_lookup s2 k = round_entry key_of probed alive now w k (om_lookup s k)" for k
    using misses_lookup [OF conjunct1 [OF answers_lookup [OF om]], of key_of A now w probed key_of now alive k]
      answers_lookup [OF om, of key_of now alive k] A [of k]
    by (auto simp: s2_def round_entry_def Let_def)
  have ok: "store_ok key_of s2"
    unfolding s2_def note_misses_def note_answers_def
    by (intro store_ok_fold assms(1)) (auto simp: store_ok_record store_ok_failure)
  have pr: "prune mf mc s2 = (dropped, s')"
    using assms(2) by (simp add: note_probe_round_def Let_def s2_def A_def)
  have "store_ok key_of s'"
    using pr store_ok_fold_remove [OF ok] by (auto simp: prune_def Let_def)
  then show ?thesis
    using prune_spec(1) [OF ok pr, of k] prune_spec(2) [OF ok pr, of b] unfolding look at_limit_def by simp
qed

text \<open>Of three known bridges one answers, one misses for the third time, and one is not probed.\<close>

definition tracked :: "nat \<Rightarrow> u32 \<Rightarrow> nat \<times> nat entry" where
  "tracked b fails = (b, (blank_entry b 0 0)\<lparr>e_fails := fails\<rparr>)"

theorem probe_round_outcome_witness:
  "\<exists>s'. note_probe_round id [7, 8] [(7, 5)] 20 10 3 3 [tracked 7 2, tracked 8 2, tracked 9 1] = ([8], s') \<and>
     om_lookup s' 8 = None \<and> (\<exists>e. om_lookup s' 7 = Some e \<and> e_fails e = 0 \<and> e_last_ok e = Some 20) \<and>
     om_lookup s' 9 = Some (snd (tracked 9 1))"
proof -
  let ?s = "[tracked 7 2, tracked 8 2, tracked 9 1]"
  have d: "fst (note_probe_round id [7, 8] [(7, 5)] 20 10 3 3 ?s) = [8]" by code_simp
  then obtain s' where s': "note_probe_round id [7, 8] [(7, 5)] 20 10 3 3 ?s = ([8], s')" by (metis prod.collapse)
  have "store_ok id ?s" by (auto simp: store_ok_def om_ok_def tracked_def split: if_splits)
  note out = conjunct1 [OF probe_round_outcome [OF this s']]
  have 3: "capped 2 (Suc 0) = 3" "\<not> (3 :: u32) \<le> 1" by code_simp+
  have "om_lookup s' 8 = None" using out [of 8] by (simp add: round_entry_def missed_def at_limit_def tracked_def 3)
  moreover have "\<exists>e. om_lookup s' 7 = Some e \<and> e_fails e = 0 \<and> e_last_ok e = Some 20"
    using out [of 7] by (simp add: round_entry_def answered_def at_limit_def tracked_def)
  moreover have "om_lookup s' 9 = Some (snd (tracked 9 1))" using out [of 9] by (simp add: round_entry_def at_limit_def tracked_def 3)
  ultimately show ?thesis using s' by blast
qed

end
