(* ===== verification/BridgeRank.thy ===== *)
theory BridgeRank
  imports BridgeStore "HOL-Library.Option_ord" "HOL-Library.Product_Lexorder"
begin

text \<open>
  Queries and ranking of the bridge store (\<open>packages/bridge-store/src/stats.rs\<close>).  The selections
  keep the best entries in a bounded heap under an \<open>Ord\<close> written as a chain of comparisons; the
  locale \<open>keyed_cmp\<close> states what makes such a comparison an order, and inside it the bounded
  selection is proved equal to sorting everything and taking the first entries.
\<close>

section \<open>Comparisons\<close>

datatype ordering = Less | Equal | Greater

definition cmp_of :: "'a::linorder \<Rightarrow> 'a \<Rightarrow> ordering" where
  "cmp_of x y = (if x < y then Less else if x = y then Equal else Greater)"

fun then_with :: "ordering \<Rightarrow> ordering \<Rightarrow> ordering" where
  "then_with Equal r = r"
| "then_with l r = l"

section \<open>The bounded heap\<close>

text \<open>
  \<open>BinaryHeap\<close> as the list of its elements: \<open>peek\<close> is an element no other exceeds, \<open>pop\<close> removes
  it, and \<open>Vec::sort\<close> is a stable insertion sort.
\<close>

fun heap_peek :: "('a \<Rightarrow> 'a \<Rightarrow> ordering) \<Rightarrow> 'a \<Rightarrow> 'a list \<Rightarrow> 'a" where
  "heap_peek cmp m [] = m"
| "heap_peek cmp m (x # xs) = heap_peek cmp (if cmp m x = Less then x else m) xs"

fun heap_remove :: "('a \<Rightarrow> 'a \<Rightarrow> ordering) \<Rightarrow> 'a \<Rightarrow> 'a list \<Rightarrow> 'a list" where
  "heap_remove cmp m [] = []"
| "heap_remove cmp m (x # xs) = (if cmp x m = Equal then xs else x # heap_remove cmp m xs)"

fun insort_cmp :: "('a \<Rightarrow> 'a \<Rightarrow> ordering) \<Rightarrow> 'a \<Rightarrow> 'a list \<Rightarrow> 'a list" where
  "insort_cmp cmp x [] = [x]"
| "insort_cmp cmp x (y # ys) = (if cmp x y \<noteq> Greater then x # y # ys else y # insort_cmp cmp x ys)"

definition sort_cmp :: "('a \<Rightarrow> 'a \<Rightarrow> ordering) \<Rightarrow> 'a list \<Rightarrow> 'a list" where
  "sort_cmp cmp xs = foldr (insort_cmp cmp) xs []"

definition keep_best :: "('a \<Rightarrow> 'a \<Rightarrow> ordering) \<Rightarrow> nat \<Rightarrow> 'a \<Rightarrow> 'a list \<Rightarrow> 'a list" where
  "keep_best cmp limit item kept =
     (if length kept < limit then item # kept
      else (case kept of
              [] \<Rightarrow> kept
            | k # ks \<Rightarrow>
                (let peek = heap_peek cmp k ks in
                 if cmp item peek = Less then item # heap_remove cmp peek kept else kept)))"

definition take_best :: "('a \<Rightarrow> 'a \<Rightarrow> ordering) \<Rightarrow> 'a list \<Rightarrow> nat \<Rightarrow> 'a list" where
  "take_best cmp items limit =
     (if limit = 0 then [] else sort_cmp cmp (fold (keep_best cmp limit) items []))"

section \<open>Comparisons by a key\<close>

lemma take_insort_key:
  "sorted (map f xs) \<Longrightarrow> take (Suc n) (insort_key f x xs) =
     (if length xs \<le> n then insort_key f x xs
      else if f x \<le> f (xs ! n) then insort_key f x (take n xs)
      else take (Suc n) xs)"
proof (induction xs arbitrary: n)
  case Nil
  then show ?case by simp
next
  case (Cons y ys)
  have "f x \<le> f (ys ! m)" if "f x \<le> f y" "m < length ys" for m
    using Cons.prems that by (auto intro: order_trans)
  with Cons show ?case by (cases n) (auto simp: nth_Cons')
qed

locale keyed_cmp =
  fixes cmp :: "'a \<Rightarrow> 'a \<Rightarrow> ordering" and key :: "'a \<Rightarrow> 'r::linorder"
  assumes cmp_key: "cmp x y = cmp_of (key x) (key y)"
begin

lemma cmp_simps:
  "cmp x y = Less \<longleftrightarrow> key x < key y" "cmp x y = Equal \<longleftrightarrow> key x = key y"
  "cmp x y = Greater \<longleftrightarrow> key y < key x"
  by (auto simp: cmp_key cmp_of_def)

lemma insort_cmp_key: "insort_cmp cmp x xs = insort_key key x xs"
  by (induction xs) (auto simp: cmp_simps)

lemma sort_cmp_key: "sort_cmp cmp xs = sort_key key xs"
  unfolding sort_cmp_def by (induction xs) (auto simp: insort_cmp_key)

lemma heap_peek_max:
  "heap_peek cmp m xs \<in> insert m (set xs) \<and> (\<forall>y \<in> insert m (set xs). key y \<le> key (heap_peek cmp m xs))"
proof (induction xs arbitrary: m)
  case Nil
  then show ?case by simp
next
  case (Cons x xs)
  from Cons.IH [of "if cmp m x = Less then x else m"] show ?case
    by (auto simp: cmp_simps split: if_splits)
qed

lemma mset_heap_remove:
  "inj_on key (set xs) \<Longrightarrow> m \<in> set xs \<Longrightarrow> mset (heap_remove cmp m xs) = mset xs - {#m#}"
proof (induction xs)
  case Nil
  then show ?case by simp
next
  case (Cons x xs)
  then show ?case by (auto simp: cmp_simps dest: inj_onD)
qed

lemma sort_key_unique:
  "inj_on key (set xs) \<Longrightarrow> mset xs = mset ys \<Longrightarrow> sort_key key xs = sort_key key ys"
  by (metis mset_sort sort_key_inj_key_eq sorted_sort_key)

text \<open>The heap holds the best of what it has seen.\<close>

lemma keep_best_step:
  assumes inj: "inj_on key (set (seen @ [x]))" and dist: "distinct (seen @ [x])" and lim: "limit \<noteq> 0"
    and kept: "mset kept = mset (take limit (sort_key key seen))"
  shows "mset (keep_best cmp limit x kept) = mset (take limit (sort_key key (seen @ [x])))"
proof -
  obtain n where n: "limit = Suc n" using lim by (cases limit) auto
  let ?S = "sort_key key seen"
  have sorted: "sorted (map key ?S)" by simp
  have ins: "sort_key key (seen @ [x]) = insort_key key x ?S"
  proof -
    have "sort_key key (seen @ [x]) = sort_key key (x # seen)" by (rule sort_key_unique [OF inj]) simp
    then show ?thesis by simp
  qed
  have len: "length kept = min limit (length seen)" using mset_eq_length [OF kept] by simp
  have set: "set kept \<subseteq> set seen"
    using mset_eq_setD [OF kept] set_take_subset [of limit ?S] by auto
  show ?thesis
  proof (cases "length seen \<le> n")
    case True
    then have "take limit ?S = ?S" "length kept < limit" using len n by simp_all
    with True kept ins n show ?thesis by (simp add: keep_best_def)
  next
    case False
    then have full: "length kept = Suc n" using len n by simp
    then obtain k ks where ks: "kept = k # ks" by (cases kept) auto
    let ?m = "heap_peek cmp k ks"
    have mem: "?m \<in> set kept" and max: "\<forall>y \<in> set kept. key y \<le> key ?m"
      using heap_peek_max [of k ks] by (simp_all add: ks)
    have last: "?S ! n \<in> set kept" "\<forall>y \<in> set kept. key y \<le> key (?S ! n)"
    proof -
      have take: "take limit ?S = take n ?S @ [?S ! n]" using False n by (simp add: take_Suc_conv_app_nth)
      have sk: "set kept = set (take n ?S @ [?S ! n])" using mset_eq_setD [OF kept] by (simp add: take)
      then show "?S ! n \<in> set kept" by simp
      have "sorted (map key (take n ?S @ [?S ! n]))" using sorted take sorted_wrt_take [of "(\<le>)" "map key ?S" limit] by (simp add: take_map)
      then show "\<forall>y \<in> set kept. key y \<le> key (?S ! n)" by (auto simp: sk sorted_append)
    qed
    have "inj_on key (set kept)" using inj set by (auto intro: inj_on_subset)
    with last max mem have m: "?m = ?S ! n" by (metis inj_onD order_antisym)
    have ne: "key x \<noteq> key ?m" using inj dist set mem by (auto dest: inj_onD)
    have take: "take (Suc n) (insort_key key x ?S) =
        (if key x < key ?m then insort_key key x (take n ?S) else take (Suc n) ?S)"
      using take_insort_key [OF sorted, of n x] False ne m by auto
    have "mset (take n ?S) = mset kept - {#?m#}"
      using kept False n m by (simp add: take_Suc_conv_app_nth)
    then show ?thesis
      using full ne take ins kept n mset_heap_remove [of kept ?m] \<open>inj_on key (set kept)\<close> mem
      by (auto simp: keep_best_def ks cmp_simps Let_def)
  qed
qed

lemma take_best_eq:
  assumes "inj_on key (set items)" and "distinct items"
  shows "take_best cmp items limit = take limit (sort_key key items)"
proof (cases "limit = 0")
  case True
  then show ?thesis by (simp add: take_best_def)
next
  case False
  have "mset (fold (keep_best cmp limit) items []) = mset (take limit (sort_key key items))"
    using assms
  proof (induction items rule: rev_induct)
    case Nil
    then show ?case by simp
  next
    case (snoc x items)
    then show ?case using keep_best_step [of items x limit] False by (simp add: inj_on_def)
  qed
  moreover have "inj_on key (set (fold (keep_best cmp limit) items []))"
    using assms(1) mset_eq_setD [OF calculation] set_take_subset [of limit "sort_key key items"]
    by (auto intro: inj_on_subset)
  ultimately have "sort_key key (fold (keep_best cmp limit) items []) = take limit (sort_key key items)"
    by (metis sort_key_inj_key_eq sorted_sort_key sorted_wrt_take take_map)
  with False show ?thesis by (simp add: take_best_def sort_cmp_key)
qed

end
section \<open>The rankings\<close>

definition rank_cmp :: "'b entry \<Rightarrow> 'b entry \<Rightarrow> ordering" where
  "rank_cmp a b =
     then_with (then_with (then_with (then_with (then_with
       (cmp_of (e_verified_count b) (e_verified_count a))
       (cmp_of (e_last_verified b) (e_last_verified a)))
       (cmp_of (e_channel_ok_count b) (e_channel_ok_count a)))
       (cmp_of (e_last_channel_ok b) (e_last_channel_ok a)))
       (cmp_of (e_ok_count b) (e_ok_count a)))
       (cmp_of (e_last_latency a) (e_last_latency b))"

text \<open>An entry with its position in the store map, and the three orders on them.\<close>

type_synonym 'b ranked = "nat \<times> 'b entry"

definition ranked_cmp :: "'b ranked \<Rightarrow> 'b ranked \<Rightarrow> ordering" where
  "ranked_cmp = (\<lambda>(p, a) (q, b). then_with (rank_cmp a b) (cmp_of p q))"

definition due :: "'b entry \<Rightarrow> instant option" where
  "due e = (case e_last_verification_attempt e of None \<Rightarrow> e_last_verified e | Some t \<Rightarrow> Some t)"

definition due_cmp :: "'b ranked \<Rightarrow> 'b ranked \<Rightarrow> ordering" where
  "due_cmp = (\<lambda>(p, a) (q, b). then_with (cmp_of (due a) (due b)) (cmp_of p q))"

definition channel_proven_cmp :: "'b entry \<Rightarrow> 'b entry \<Rightarrow> ordering" where
  "channel_proven_cmp a b =
     then_with (cmp_of (e_last_channel_ok b) (e_last_channel_ok a))
       (cmp_of (e_channel_ok_count b) (e_channel_ok_count a))"

definition channel_ranked_cmp :: "'b ranked \<Rightarrow> 'b ranked \<Rightarrow> ordering" where
  "channel_ranked_cmp = (\<lambda>(p, a) (q, b). then_with (channel_proven_cmp a b) (cmp_of p q))"

section \<open>Selections\<close>

definition select_best :: "('b ranked \<Rightarrow> 'b ranked \<Rightarrow> ordering) \<Rightarrow> 'b entry list \<Rightarrow> nat \<Rightarrow> 'b list" where
  "select_best cmp es limit = map (\<lambda>(_, e). e_bridge e) (take_best cmp (List.enumerate 0 es) limit)"

definition channel_proven_bridges :: "('k, 'b) store \<Rightarrow> nat \<Rightarrow> 'b list" where
  "channel_proven_bridges s limit =
     select_best channel_ranked_cmp
       (filter (\<lambda>e. 0 < e_channel_ok_count e \<and> \<not> entry_is_retired e) (om_values s)) limit"

definition needing_circuit_verification ::
  "('k, 'b) store \<Rightarrow> instant \<Rightarrow> duration \<Rightarrow> nat \<Rightarrow> ('b \<Rightarrow> bool) \<Rightarrow> 'b list" where
  "needing_circuit_verification s now max_age limit wanted =
     select_best due_cmp
       (filter (\<lambda>e. wanted (e_bridge e))
         (filter (\<lambda>e. case e_last_verified e of None \<Rightarrow> True | Some t \<Rightarrow> int max_age \<le> now - t)
           (filter (\<lambda>e. 0 < e_channel_ok_count e \<and> \<not> entry_is_retired e) (om_values s)))) limit"

definition rank_and_take :: "'b entry list \<Rightarrow> nat \<Rightarrow> 'b list" where
  "rank_and_take healthy limit = select_best ranked_cmp healthy limit"

definition healthiest_bridges :: "('k, 'b) store \<Rightarrow> nat \<Rightarrow> 'b list" where
  "healthiest_bridges s limit = rank_and_take (filter is_proven_alive (om_values s)) limit"

definition healthiest_among ::
  "('b \<Rightarrow> 'k::linorder) \<Rightarrow> ('k, 'b) store \<Rightarrow> 'b list \<Rightarrow> nat \<Rightarrow> 'b list" where
  "healthiest_among key_of s candidates limit =
     (let allowed = set (map key_of candidates) in
      rank_and_take (map snd (filter (\<lambda>(key, e). is_proven_alive e \<and> key \<in> allowed) s)) limit)"

definition rank_probe_round ::
  "('b \<Rightarrow> 'k::linorder) \<Rightarrow> ('k, 'b) store \<Rightarrow> ('b \<times> duration) list \<Rightarrow> ('b \<times> duration) list" where
  "rank_probe_round key_of s alive =
     sort_cmp (\<lambda>(b, l) (c, m).
       let x = om_lookup s (key_of b); y = om_lookup s (key_of c);
           ch = (\<lambda>o'. case o' of None \<Rightarrow> 0 | Some e \<Rightarrow> e_channel_ok_count e);
           okc = (\<lambda>o'. case o' of None \<Rightarrow> 0 | Some e \<Rightarrow> e_ok_count e)
       in then_with (then_with (cmp_of (ch y) (ch x)) (cmp_of (okc y) (okc x))) (cmp_of l m)) alive"

section \<open>The rankings are orders\<close>

lemma then_with_pair: "then_with (cmp_of x y) (cmp_of u v) = cmp_of (x, u) (y, v)"
  by (auto simp: cmp_of_def)

definition desc32 :: "u32 \<Rightarrow> int" where
  "desc32 v = - uint v"

definition desc_opt :: "instant option \<Rightarrow> int \<times> int" where
  "desc_opt t = (case t of None \<Rightarrow> (1, 0) | Some t \<Rightarrow> (0, - t))"

lemma cmp_desc32: "cmp_of y x = cmp_of (desc32 x) (desc32 y)"
  by (auto simp: cmp_of_def desc32_def word_less_def word_uint_eq_iff)

lemma cmp_desc_opt: "cmp_of y x = cmp_of (desc_opt x) (desc_opt y)"
  by (cases x; cases y) (auto simp: cmp_of_def desc_opt_def)

text \<open>The documented ranking: what an entry is sorted by, best first.\<close>

definition rank_key :: "'b entry \<Rightarrow> ((((int \<times> int \<times> int) \<times> int) \<times> int \<times> int) \<times> int) \<times> duration" where
  "rank_key e = (((((desc32 (e_verified_count e), desc_opt (e_last_verified e)), desc32 (e_channel_ok_count e)),
     desc_opt (e_last_channel_ok e)), desc32 (e_ok_count e)), e_last_latency e)"

definition channel_key :: "'b entry \<Rightarrow> (int \<times> int) \<times> int" where
  "channel_key e = (desc_opt (e_last_channel_ok e), desc32 (e_channel_ok_count e))"

lemma rank_cmp_key: "rank_cmp a b = cmp_of (rank_key a) (rank_key b)"
  unfolding rank_cmp_def rank_key_def
    cmp_desc32 [of "e_verified_count b"] cmp_desc32 [of "e_channel_ok_count b"] cmp_desc32 [of "e_ok_count b"]
    cmp_desc_opt [of "e_last_verified b"] cmp_desc_opt [of "e_last_channel_ok b"] then_with_pair ..

definition placed :: "('e \<Rightarrow> 'r) \<Rightarrow> nat \<times> 'e \<Rightarrow> 'r \<times> nat" where
  "placed key = (\<lambda>(p, e). (key e, p))"

interpretation by_rank: keyed_cmp ranked_cmp "placed rank_key"
  by unfold_locales (auto simp: ranked_cmp_def placed_def rank_cmp_key then_with_pair split: prod.splits)

interpretation by_due: keyed_cmp due_cmp "placed due"
  by unfold_locales (auto simp: due_cmp_def placed_def then_with_pair split: prod.splits)

interpretation by_channel: keyed_cmp channel_ranked_cmp "placed channel_key"
  by unfold_locales
    (auto simp: channel_ranked_cmp_def placed_def channel_proven_cmp_def channel_key_def then_with_pair
      cmp_desc32 [of "e_channel_ok_count _"] cmp_desc_opt [of "e_last_channel_ok _"]
      simp del: split_paired_All split: prod.splits)

lemma insort_placed:
  assumes "\<forall>(q, _) \<in> set xs. p < q"
  shows "map snd (insort_key (placed key) (p, e) xs) = insort_key key e (map snd xs)"
  using assms by (induction xs) (auto simp: placed_def)

lemma sort_placed: "map snd (sort_key (placed key) (List.enumerate n xs)) = sort_key key xs"
proof (induction xs arbitrary: n)
  case Nil
  then show ?case by simp
next
  case (Cons x xs)
  have "\<forall>(q, _) \<in> set (sort_key (placed key) (List.enumerate (Suc n) xs)). n < q"
    by (auto simp: in_set_enumerate_eq)
  from insort_placed [OF this, of key x] Cons show ?case by simp
qed

lemma placed_inj: "inj_on (placed key) (set (List.enumerate n xs))"
  by (auto simp: inj_on_def placed_def in_set_enumerate_eq)

lemma select_best_eq:
  assumes "\<And>items limit. inj_on (placed key) (set items) \<Longrightarrow> distinct items \<Longrightarrow>
      take_best cmp items limit = take limit (sort_key (placed key) items)"
  shows "select_best cmp es limit = take limit (map e_bridge (sort_key key es))"
proof -
  have "take_best cmp (List.enumerate 0 es) limit = take limit (sort_key (placed key) (List.enumerate 0 es))"
    by (rule assms [OF placed_inj]) simp
  then have "select_best cmp es limit =
      take limit (map e_bridge (map snd (sort_key (placed key) (List.enumerate 0 es))))"
    by (simp add: select_best_def take_map case_prod_beta o_def)
  then show ?thesis by (simp only: sort_placed)
qed

lemmas select_eqs =
  select_best_eq [OF by_rank.take_best_eq] select_best_eq [OF by_due.take_best_eq]
  select_best_eq [OF by_channel.take_best_eq]

text \<open>
  The healthiest bridges are, for every limit, the first of a stable sort of the proven-alive
  entries by the documented ranking, so retired and never-reached bridges are never selected; the
  bounded heap changes nothing.
\<close>

theorem healthiest_is_stable_sort_and_take:
  "healthiest_bridges s limit =
     take limit (map e_bridge (sort_key rank_key (filter is_proven_alive (om_values s))))"
  by (simp add: healthiest_bridges_def rank_and_take_def select_eqs)

text \<open>
  Restricting to candidates ranks only the candidates: the result is the stable sort of the
  proven-alive entries among them, whatever else the store holds.
\<close>

theorem healthiest_among_ranks_candidates_only:
  assumes "store_ok key_of s"
  shows "healthiest_among key_of s candidates limit =
    take limit (map e_bridge (sort_key rank_key
      (filter (\<lambda>e. is_proven_alive e \<and> key_of (e_bridge e) \<in> key_of ` set candidates) (om_values s))))"
proof -
  have "key = key_of (e_bridge e)" if "(key, e) \<in> set s" for key e
    using assms that om.entries_lookup [of s key e] by (auto simp: store_ok_def)
  then have "map snd (filter (\<lambda>(key, e). is_proven_alive e \<and> key \<in> key_of ` set candidates) s) =
      filter (\<lambda>e. is_proven_alive e \<and> key_of (e_bridge e) \<in> key_of ` set candidates) (map snd s)"
    by (auto simp: filter_map comp_def intro!: arg_cong [of _ _ "map snd"] filter_cong)
  then show ?thesis
    by (simp add: healthiest_among_def rank_and_take_def select_eqs om_values_def)
qed

theorem healthiest_among_ranks_candidates_only_witness:
  "healthiest_among id [(7 :: nat, (blank_entry 7 5 0)\<lparr>e_ok_count := 1\<rparr>), (8, (blank_entry 8 1 0)\<lparr>e_ok_count := 1\<rparr>)] [7] 5 = [7]"
proof -
  let ?s = "[(7 :: nat, (blank_entry 7 5 0)\<lparr>e_ok_count := 1\<rparr>), (8, (blank_entry 8 1 0)\<lparr>e_ok_count := 1\<rparr>)]"
  have "store_ok id ?s" by (auto simp: store_ok_def om_ok_def blank_entry_def split: if_splits)
  from healthiest_among_ranks_candidates_only [OF this, of "[7]" 5] show ?thesis
    by (simp add: om_values_def is_proven_alive_def entry_is_retired_def RETIRED_CIRCUIT_FAILS_def blank_entry_def)
qed

text \<open>
  The verification queue is the stable sort, oldest attempt first and never-attempted before
  all, of the wanted channel-proven entries that are due; the channel-proven list is the stable sort
  by most recent channel.  Neither contains a retired bridge.
\<close>

theorem queues_are_stable_sorts:
  "needing_circuit_verification s now max_age limit wanted =
     take limit (map e_bridge (sort_key due (filter (\<lambda>e. 0 < e_channel_ok_count e \<and> \<not> entry_is_retired e \<and>
       (case e_last_verified e of None \<Rightarrow> True | Some t \<Rightarrow> int max_age \<le> now - t) \<and> wanted (e_bridge e))
       (om_values s)))) \<and>
   channel_proven_bridges s limit =
     take limit (map e_bridge (sort_key channel_key
       (filter (\<lambda>e. 0 < e_channel_ok_count e \<and> \<not> entry_is_retired e) (om_values s))))"
  by (simp add: needing_circuit_verification_def channel_proven_bridges_def select_eqs conj_ac)

section \<open>Counters and summaries\<close>

definition alive_count :: "('k, 'b) store \<Rightarrow> nat" where
  "alive_count s = length (filter is_proven_alive (om_values s))"

definition ok_count :: "('b \<Rightarrow> 'k::linorder) \<Rightarrow> ('k, 'b) store \<Rightarrow> 'b \<Rightarrow> u32" where
  "ok_count key_of s b = (case om_lookup s (key_of b) of None \<Rightarrow> 0 | Some e \<Rightarrow> e_ok_count e)"

definition circuit_fails :: "('b \<Rightarrow> 'k::linorder) \<Rightarrow> ('k, 'b) store \<Rightarrow> 'b \<Rightarrow> u32" where
  "circuit_fails key_of s b = (case om_lookup s (key_of b) of None \<Rightarrow> 0 | Some e \<Rightarrow> e_circuit_fails e)"

definition last_circuit_observation :: "('b \<Rightarrow> 'k::linorder) \<Rightarrow> ('k, 'b) store \<Rightarrow> 'b \<Rightarrow> instant option" where
  "last_circuit_observation key_of s b = map_option e_last_circuit_observation (om_lookup s (key_of b))"

definition channel_ok_count :: "('b \<Rightarrow> 'k::linorder) \<Rightarrow> ('k, 'b) store \<Rightarrow> 'b \<Rightarrow> u32" where
  "channel_ok_count key_of s b = (case om_lookup s (key_of b) of None \<Rightarrow> 0 | Some e \<Rightarrow> e_channel_ok_count e)"

definition verified_count :: "('b \<Rightarrow> 'k::linorder) \<Rightarrow> ('k, 'b) store \<Rightarrow> 'b \<Rightarrow> u32" where
  "verified_count key_of s b = (case om_lookup s (key_of b) of None \<Rightarrow> 0 | Some e \<Rightarrow> e_verified_count e)"

definition last_verified :: "('b \<Rightarrow> 'k::linorder) \<Rightarrow> ('k, 'b) store \<Rightarrow> 'b \<Rightarrow> instant option" where
  "last_verified key_of s b = (case om_lookup s (key_of b) of None \<Rightarrow> None | Some e \<Rightarrow> e_last_verified e)"

definition tcp_fails :: "('b \<Rightarrow> 'k::linorder) \<Rightarrow> ('k, 'b) store \<Rightarrow> 'b \<Rightarrow> u32" where
  "tcp_fails key_of s b = (case om_lookup s (key_of b) of None \<Rightarrow> 0 | Some e \<Rightarrow> e_fails e)"

definition sources_of :: "('b \<Rightarrow> 'k::linorder) \<Rightarrow> ('k, 'b) store \<Rightarrow> 'b \<Rightarrow> str list" where
  "sources_of key_of s b = (case om_lookup s (key_of b) of None \<Rightarrow> [] | Some e \<Rightarrow> e_sources e)"

record health_snapshot =
  hs_tcp_fails :: u32
  hs_circuit_fails :: u32
  hs_verified_count :: u32
  hs_ok_count :: u32
  hs_last_circuit_observation :: "instant option"

definition health_snapshot_of :: "('b \<Rightarrow> 'k::linorder) \<Rightarrow> ('k, 'b) store \<Rightarrow> 'b \<Rightarrow> health_snapshot option" where
  "health_snapshot_of key_of s b =
     map_option (\<lambda>e. \<lparr>hs_tcp_fails = e_fails e, hs_circuit_fails = e_circuit_fails e,
       hs_verified_count = e_verified_count e, hs_ok_count = e_ok_count e,
       hs_last_circuit_observation = Some (e_last_circuit_observation e)\<rparr>) (om_lookup s (key_of b))"

record source_stats =
  ss_label :: str
  ss_offered :: nat
  ss_alive :: nat
  ss_channel_proven :: nat
  ss_retired :: nat

definition is_barren :: "source_stats \<Rightarrow> nat \<Rightarrow> bool" where
  "is_barren st min_sample \<longleftrightarrow> min_sample \<le> ss_offered st \<and> ss_alive st = 0"

definition new_source :: "str \<Rightarrow> source_stats" where
  "new_source label = \<lparr>ss_label = label, ss_offered = 0, ss_alive = 0, ss_channel_proven = 0, ss_retired = 0\<rparr>"

definition credit_source :: "'b entry \<Rightarrow> source_stats \<Rightarrow> source_stats" where
  "credit_source e st =
     (let st = st\<lparr>ss_offered := ss_offered st + 1\<rparr> in
      if entry_is_retired e then st\<lparr>ss_retired := ss_retired st + 1\<rparr>
      else
        (let st = (if e_fails e = 0 \<and> 0 < e_ok_count e then st\<lparr>ss_alive := ss_alive st + 1\<rparr> else st)
         in if 0 < e_channel_ok_count e then st\<lparr>ss_channel_proven := ss_channel_proven st + 1\<rparr> else st))"

definition by_source :: "('k, 'b) store \<Rightarrow> (str, source_stats) omap" where
  "by_source s =
     fold (\<lambda>e. fold (\<lambda>label. om_upsert label (new_source label) (credit_source e)) (e_sources e)) (om_values s) []"

definition source_summary :: "('k, 'b) store \<Rightarrow> source_stats list" where
  "source_summary s = om_values (by_source s)"

record transport_stats =
  ts_transport :: str
  ts_known :: nat
  ts_alive :: nat
  ts_channel_proven :: nat
  ts_retired :: nat
  ts_last_probe_ok :: "instant option"
  ts_last_channel_ok :: "instant option"

definition new_transport :: "str \<Rightarrow> transport_stats" where
  "new_transport name = \<lparr>ts_transport = name, ts_known = 0, ts_alive = 0, ts_channel_proven = 0,
     ts_retired = 0, ts_last_probe_ok = None, ts_last_channel_ok = None\<rparr>"

definition credit_transport :: "'b entry \<Rightarrow> transport_stats \<Rightarrow> transport_stats" where
  "credit_transport e st =
     (let st = st\<lparr>ts_known := ts_known st + 1\<rparr> in
      if entry_is_retired e then st\<lparr>ts_retired := ts_retired st + 1\<rparr>
      else
        (let st = (if e_fails e = 0 \<and> 0 < e_ok_count e then st\<lparr>ts_alive := ts_alive st + 1\<rparr> else st);
             st = (if 0 < e_channel_ok_count e then st\<lparr>ts_channel_proven := ts_channel_proven st + 1\<rparr> else st);
             st = (case e_last_ok e of
                     Some t \<Rightarrow> st\<lparr>ts_last_probe_ok := max (ts_last_probe_ok st) (Some t)\<rparr> | None \<Rightarrow> st)
         in st\<lparr>ts_last_channel_ok := max (ts_last_channel_ok st) (e_last_channel_ok e)\<rparr>))"

definition transport_name :: "('b \<Rightarrow> str option) \<Rightarrow> 'b entry \<Rightarrow> str" where
  "transport_name transport e = (case transport (e_bridge e) of Some n \<Rightarrow> n | None \<Rightarrow> ''plain'')"

definition by_transport :: "('b \<Rightarrow> str option) \<Rightarrow> ('k, 'b) store \<Rightarrow> (str, transport_stats) omap" where
  "by_transport transport s =
     fold (\<lambda>e. om_upsert (transport_name transport e) (new_transport (transport_name transport e)) (credit_transport e))
       (om_values s) []"

definition transport_summary :: "('b \<Rightarrow> str option) \<Rightarrow> ('k, 'b) store \<Rightarrow> transport_stats list" where
  "transport_summary transport s = om_values (by_transport transport s)"

lemma fold_upsert:
  assumes "om_ok m"
  shows "om_ok (fold (\<lambda>(l, e). om_upsert l (d l) (f e)) ps m) \<and>
    (\<forall>l. om_lookup (fold (\<lambda>(l, e). om_upsert l (d l) (f e)) ps m) l =
      (case map snd (filter (\<lambda>p. fst p = l) ps) of
         [] \<Rightarrow> om_lookup m l
       | es \<Rightarrow> Some (fold f es (case om_lookup m l of None \<Rightarrow> d l | Some v \<Rightarrow> v))))"
  using assms
proof (induction ps arbitrary: m)
  case Nil
  then show ?case by simp
next
  case (Cons p ps)
  obtain x e where p: "p = (x, e)" by (cases p)
  let ?m = "om_upsert x (d x) (f e) m"
  have ok: "om_ok ?m" using Cons.prems by (simp add: om_laws)
  have look: "om_lookup ?m l = (if l = x then Some (f e (case om_lookup m x of None \<Rightarrow> d x | Some v \<Rightarrow> v)) else om_lookup m l)" for l
    using Cons.prems by (simp add: om_laws)
  show ?case using Cons.IH [OF ok] by (auto simp: p look split: list.splits)
qed

text \<open>The bridges a source offered, and its row of the summary counted directly.\<close>

definition offered_by :: "str \<Rightarrow> ('k, 'b) store \<Rightarrow> 'b entry list" where
  "offered_by label s = filter (\<lambda>e. label \<in> set (e_sources e)) (om_values s)"

definition tally :: "('a \<Rightarrow> bool) \<Rightarrow> 'a list \<Rightarrow> nat" where
  "tally P xs = length (filter P xs)"

lemma fold_credit_source:
  "fold credit_source es st = st\<lparr>ss_offered := ss_offered st + length es,
     ss_alive := ss_alive st + tally is_proven_alive es,
     ss_channel_proven := ss_channel_proven st + tally (\<lambda>e. 0 < e_channel_ok_count e \<and> \<not> entry_is_retired e) es,
     ss_retired := ss_retired st + tally entry_is_retired es\<rparr>"
  by (induction es arbitrary: st) (simp_all add: tally_def credit_source_def Let_def is_proven_alive_def)

lemma by_source_pairs:
  "by_source s = fold (\<lambda>(l, e). om_upsert l (new_source l) (credit_source e))
     (concat (map (\<lambda>e. map (\<lambda>l. (l, e)) (e_sources e)) (om_values s))) []"
proof -
  have inner: "fold (\<lambda>(l, e). om_upsert l (new_source l) (credit_source e)) (map (\<lambda>l. (l, e)) ls) m =
      fold (\<lambda>label. om_upsert label (new_source label) (credit_source e)) ls m" for e :: "'b entry" and ls m
    by (induction ls arbitrary: m) auto
  have "fold (\<lambda>(l, e). om_upsert l (new_source l) (credit_source e)) (concat (map (\<lambda>e. map (\<lambda>l. (l, e)) (e_sources e)) es)) m =
      fold (\<lambda>e. fold (\<lambda>label. om_upsert label (new_source label) (credit_source e)) (e_sources e)) es m" for es :: "'b entry list" and m
    by (induction es arbitrary: m) (auto simp: inner)
  then show ?thesis by (simp add: by_source_def)
qed

lemma pairs_of_label:
  assumes "\<forall>e \<in> set es. distinct (e_sources e)"
  shows "map snd (filter (\<lambda>p. fst p = l) (concat (map (\<lambda>e. map (\<lambda>l. (l, e)) (e_sources e)) es))) =
    filter (\<lambda>e. l \<in> set (e_sources e)) es"
proof -
  have one: "map snd (filter (\<lambda>p. fst p = l) (map (\<lambda>l. (l, e)) ls)) = (if l \<in> set ls then [e] else [])"
    if "distinct ls" for ls and e
    using that by (induction ls) (auto simp: filter_empty_conv)
  show ?thesis using assms by (induction es) (auto simp: one)
qed

text \<open>The transport summary counts the same way; a retired bridge contributes no time stamps.\<close>

lemma fold_credit_transport:
  "fold credit_transport es st = st\<lparr>ts_known := ts_known st + length es,
     ts_alive := ts_alive st + tally is_proven_alive es,
     ts_channel_proven := ts_channel_proven st + tally (\<lambda>e. 0 < e_channel_ok_count e \<and> \<not> entry_is_retired e) es,
     ts_retired := ts_retired st + tally entry_is_retired es,
     ts_last_probe_ok := fold max (map e_last_ok (filter (\<lambda>e. \<not> entry_is_retired e) es)) (ts_last_probe_ok st),
     ts_last_channel_ok := fold max (map e_last_channel_ok (filter (\<lambda>e. \<not> entry_is_retired e) es)) (ts_last_channel_ok st)\<rparr>"
proof (induction es arbitrary: st)
  case (Cons e es)
  have none: "max x None = x" "max None x = x" for x :: "instant option" by (cases x; simp add: max_def)+
  show ?case
    by (simp only: fold.simps comp_apply Cons.IH)
       (cases "e_last_ok e"; cases "entry_is_retired e";
         simp add: tally_def credit_transport_def Let_def is_proven_alive_def none max.commute)
qed (simp add: tally_def)

definition carried_by :: "('b \<Rightarrow> str option) \<Rightarrow> str \<Rightarrow> ('k, 'b) store \<Rightarrow> 'b entry list" where
  "carried_by transport name s = filter (\<lambda>e. transport_name transport e = name) (om_values s)"

lemma by_transport_lookup:
  "om_lookup (by_transport transport s) name =
    (if carried_by transport name s = [] then None
     else Some (fold credit_transport (carried_by transport name s) (new_transport name)))"
proof -
  let ?ps = "map (\<lambda>e. (transport_name transport e, e)) (om_values s)"
  have "by_transport transport s = fold (\<lambda>(l, e). om_upsert l (new_transport l) (credit_transport e)) ?ps []"
    by (simp add: by_transport_def fold_map comp_def)
  moreover have "map snd (filter (\<lambda>p. fst p = name) ?ps) = carried_by transport name s"
    by (simp add: carried_by_def filter_map comp_def)
  ultimately show ?thesis
    using fold_upsert [of "[]" new_transport credit_transport ?ps] by (simp add: om_ok_def split: list.split)
qed

text \<open>
  The source summary credits every source with exactly the bridges it offered: its row counts
  all of them, the proven-alive, the channel-proven and the retired ones, and there is a row exactly
  for the sources that offered something.  So a source is barren exactly when it offered enough and
  none of its bridges is proven alive.
\<close>

theorem source_summary_counts:
  assumes "store_inv key_of s"
  shows "om_lookup (by_source s) label =
    (if offered_by label s = [] then None
     else Some \<lparr>ss_label = label, ss_offered = length (offered_by label s),
       ss_alive = tally is_proven_alive (offered_by label s),
       ss_channel_proven = tally (\<lambda>e. 0 < e_channel_ok_count e \<and> \<not> entry_is_retired e) (offered_by label s),
       ss_retired = tally entry_is_retired (offered_by label s)\<rparr>) \<and>
    ((\<exists>st. om_lookup (by_source s) label = Some st \<and> is_barren st n) \<longleftrightarrow>
     offered_by label s \<noteq> [] \<and> n \<le> length (offered_by label s) \<and> filter is_proven_alive (offered_by label s) = [])"
proof -
  have dist: "\<forall>e \<in> set (om_values s). distinct (e_sources e)"
  proof
    fix e assume "e \<in> set (om_values s)"
    then obtain k where "(k, e) \<in> set s" by (auto simp: om_values_def)
    with assms om.entries_lookup [of s k e] store_inv_lookup [OF assms, of k e] show "distinct (e_sources e)"
      by (auto simp: store_inv_def store_ok_def entry_ok_def)
  qed
  have "om_lookup (by_source s) label =
      (if offered_by label s = [] then None else Some (fold credit_source (offered_by label s) (new_source label)))"
    using fold_upsert [of "[]" new_source credit_source
        "concat (map (\<lambda>e. map (\<lambda>l. (l, e)) (e_sources e)) (om_values s))"]
    by (simp add: by_source_pairs pairs_of_label [OF dist] offered_by_def om_ok_def split: list.split)
  then show ?thesis by (simp add: fold_credit_source new_source_def is_barren_def tally_def)
qed

theorem source_summary_counts_witness:
  "om_lookup (by_source (note_source_at (\<lambda>b. b) ''b1'' ''feed'' 0 [])) ''feed'' =
     Some \<lparr>ss_label = ''feed'', ss_offered = 1, ss_alive = 0, ss_channel_proven = 0, ss_retired = 0\<rparr>"
proof -
  let ?s = "note_source_at (\<lambda>b. b) ''b1'' ''feed'' 0 [] :: (str, str) store"
  have "store_inv (\<lambda>b. b) ?s"
    by (auto simp: store_inv_def store_ok_def note_source_at_def blank_entry_def entry_ok_def all_entries_def
        om_ok_def om_upsert_def insort_insert_key_def split: if_splits)
  moreover have "offered_by ''feed'' ?s = [(blank_entry ''b1'' 0 0)\<lparr>e_sources := [''feed'']\<rparr>]"
    by (simp add: offered_by_def note_source_at_def blank_entry_def om_upsert_def om_values_def insort_insert_key_def)
  ultimately show ?thesis
    using source_summary_counts [of "\<lambda>b. b" ?s "''feed''" 1]
    by (simp add: tally_def is_proven_alive_def entry_is_retired_def RETIRED_CIRCUIT_FAILS_def blank_entry_def)
qed

end
