(* ===== verification/IpText.thy ===== *)
theory IpText
  imports NetAddr
begin

text \<open>
  Every printed IP address parses back: \<open>Display\<close> and \<open>FromStr\<close> of \<open>IpAddr\<close> are inverse, with the
  compressed and the IPv4-mapped forms of IPv6 included.
\<close>

section \<open>Hexadecimal groups\<close>

lemma to_digit_hex_lower: "d < 16 \<Longrightarrow> to_digit 16 (hex_lower d) = Some d"
proof -
  have "\<forall>d \<in> set [0..<16]. to_digit 16 (hex_lower d) = Some d" by code_simp
  then show "d < 16 \<Longrightarrow> to_digit 16 (hex_lower d) = Some d" by simp
qed

lemma show_hex_small: "n < 16 \<Longrightarrow> show_hex n = [hex_lower n]"
  by (subst show_hex.simps) simp

lemma show_hex_step: "\<not> n < 16 \<Longrightarrow> show_hex n = show_hex (n div 16) @ [hex_lower (n mod 16)]"
  by (subst show_hex.simps) simp

lemma show_hex_not_Nil [simp]: "show_hex n \<noteq> []"
  by (subst show_hex.simps) simp

lemma show_hex_digits: "list_all (is_digit 16) (show_hex n)"
proof (induction n rule: show_hex.induct)
  case (1 n)
  then show ?case
    by (cases "n < 16") (simp_all add: show_hex_small show_hex_step is_digit_def to_digit_hex_lower)
qed

lemma digits_value_show_hex: "digits_value 16 (show_hex n) = n"
proof (induction n rule: show_hex.induct)
  case (1 n)
  then show ?case
    by (cases "n < 16") (simp_all add: show_hex_small show_hex_step digits_value_snoc to_digit_hex_lower,
      simp add: digits_value_def to_digit_hex_lower)
qed

lemma length_show_hex_le: "length (show_hex n) \<le> Suc (length (show_hex (n div 16)))"
  by (subst show_hex.simps) simp

lemma length_show_hex_group: "n < 65536 \<Longrightarrow> length (show_hex n) \<le> 4"
proof -
  assume "n < 65536"
  then have "n div 16 div 16 div 16 < 16" by (simp add: div_mult2_eq [symmetric])
  then have "length (show_hex (n div 16 div 16 div 16)) = 1" by (simp only: show_hex_small) simp
  with length_show_hex_le [of n] length_show_hex_le [of "n div 16"] length_show_hex_le [of "n div 16 div 16"]
  show ?thesis by linarith
qed

lemma read_group_show:
  fixes g :: u16
  assumes "r = [] \<or> \<not> is_digit 16 (hd r)"
  shows "read_number 16 (Some 4) True 65536 (show_hex (unat g) @ r) = Some (unat g, r)"
  using takeWhile_digits [OF show_hex_digits assms, of "unat g"] unsigned_less [of g, where ?'a = nat]
    length_show_hex_group [of "unat g"]
  by (simp add: read_number_def digits_value_show_hex Let_def)

section \<open>No IPv4 address is read at a group\<close>

lemma not_hex_colon [simp]: "\<not> is_digit 16 CHR '':''" "\<not> is_digit 10 CHR '':''"
  by code_simp+

lemma read_ipv4_addr_None:
  assumes "dropWhile (is_digit 10) s = [] \<or> hd (dropWhile (is_digit 10) s) \<noteq> CHR ''.''"
  shows "read_ipv4_addr s = None"
proof (cases "read_octet s")
  case (Some p)
  then obtain a where p: "p = (a, dropWhile (is_digit 10) s)"
    by (auto simp: read_octet_def read_number_def Let_def split: if_splits)
  have "read_char CHR ''.'' (dropWhile (is_digit 10) s) = None"
    using assms by (cases "dropWhile (is_digit 10) s") (simp_all del: dropWhile_eq_Nil_conv)
  then show ?thesis by (simp add: read_ipv4_addr_def Some p)
qed (simp add: read_ipv4_addr_def)

lemma digit_16_not_dot: "is_digit 16 c \<Longrightarrow> c \<noteq> CHR ''.''"
  by (auto simp: is_digit_def to_digit_def)

lemma read_ipv4_addr_group:
  assumes "r = [] \<or> hd r = CHR '':''"
  shows "read_ipv4_addr (show_hex n @ r) = None"
proof (rule read_ipv4_addr_None)
  let ?d = "dropWhile (is_digit 10) (show_hex n)"
  have eq: "dropWhile (is_digit 10) (show_hex n @ r) = (if ?d = [] then r else ?d @ r)"
    using assms by (cases r) (auto simp: dropWhile_append dropWhile_eq_Nil_conv)
  have "hd ?d \<noteq> CHR ''.''" if "?d \<noteq> []"
  proof -
    have "hd ?d \<in> set (show_hex n)" using hd_in_set [OF that] set_dropWhileD by fast
    then have "is_digit 16 (hd ?d)" using show_hex_digits [of n] unfolding list_all_iff by blast
    then show ?thesis by (rule digit_16_not_dot)
  qed
  then show "dropWhile (is_digit 10) (show_hex n @ r) = [] \<or> hd (dropWhile (is_digit 10) (show_hex n @ r)) \<noteq> CHR ''.''"
    using assms by (auto simp: eq)
qed

section \<open>Runs of groups\<close>

text \<open>What may follow a run of groups: the end of the text or the compressed zeros.\<close>

definition run_end :: "str \<Rightarrow> bool" where
  "run_end r \<longleftrightarrow> r = [] \<or> (\<exists>t. r = CHR '':'' # CHR '':'' # t)"

lemma read_number_colon: "read_number 16 (Some 4) True 65536 (CHR '':'' # t) = None"
  by (simp add: read_number_def)

lemma read_ipv4_colon: "read_ipv4_addr (CHR '':'' # t) = None"
  by (rule read_ipv4_addr_None) simp

lemma read_ipv4_Nil: "read_ipv4_addr [] = None"
  by (rule read_ipv4_addr_None) simp

lemma read_number_Nil: "read_number 16 (Some 4) True 65536 [] = None"
  by (simp add: read_number_def)

lemma read_groups_end:
  assumes "run_end r"
  shows "read_groups k i r = ([], False, r)"
proof (cases k)
  case (Suc k')
  have "read_sep i read_ipv4_addr r = None" "read_sep i (read_number 16 (Some 4) True 65536) r = None"
    using assms by (auto simp: run_end_def read_sep_def read_ipv4_colon read_number_colon read_ipv4_Nil read_number_Nil)
  then show ?thesis by (simp add: Suc)
qed simp

definition tail_groups :: "u16 list \<Rightarrow> str" where
  "tail_groups gs = concat (map (\<lambda>g. CHR '':'' # show_hex (unat g)) gs)"

lemma tail_groups_end: "run_end r \<Longrightarrow> tail_groups gs @ r = [] \<or> hd (tail_groups gs @ r) = CHR '':''"
  by (cases gs) (auto simp: tail_groups_def run_end_def)

lemma read_groups_tail:
  assumes "run_end r" and "length gs \<le> k" and "0 < i"
  shows "read_groups k i (tail_groups gs @ r) = (map unat gs, False, r)"
  using assms(2,3)
proof (induction gs arbitrary: k i)
  case Nil
  then show ?case using read_groups_end [OF assms(1)] by (simp add: tail_groups_def)
next
  case (Cons g gs)
  then obtain k' where k: "k = Suc k'" by (cases k) auto
  let ?r = "tail_groups gs @ r"
  have r: "?r = [] \<or> hd ?r = CHR '':''" by (rule tail_groups_end [OF assms(1)])
  then have "?r = [] \<or> \<not> is_digit 16 (hd ?r)" by auto
  then show ?case
    using Cons.prems Cons.IH [of k' "Suc i"] read_group_show [of ?r g] read_ipv4_addr_group [OF r, of "unat g"]
    by (cases k') (simp_all add: k read_sep_def tail_groups_def)
qed

lemma show_segments_Cons: "show_segments (g # gs) = show_hex (unat g) @ tail_groups gs"
proof -
  have "join '':'' (map (\<lambda>g. show_hex (unat g)) (g # gs)) = show_hex (unat g) @ tail_groups gs" for g
    by (induction gs arbitrary: g) (simp_all add: tail_groups_def)
  then show ?thesis by (simp add: show_segments_def)
qed

lemma read_groups_show:
  assumes "run_end r" and "length gs \<le> k"
  shows "read_groups k 0 (show_segments gs @ r) = (map unat gs, False, r)"
proof (cases gs)
  case Nil
  then show ?thesis using read_groups_end [OF assms(1)] by (simp add: show_segments_def)
next
  case (Cons g gs')
  then obtain k' where k: "k = Suc k'" using assms(2) by (cases k) auto
  let ?r = "tail_groups gs' @ r"
  have r: "?r = [] \<or> hd ?r = CHR '':''" by (rule tail_groups_end [OF assms(1)])
  then have "?r = [] \<or> \<not> is_digit 16 (hd ?r)" by auto
  then show ?thesis
    using assms(2) read_groups_tail [OF assms(1), of gs' k' 1] read_group_show [of ?r g] read_ipv4_addr_group [OF r, of "unat g"]
    by (cases k') (simp_all add: Cons k show_segments_Cons read_sep_def tail_groups_def)
qed

section \<open>The longest zero run\<close>

text \<open>After the segments before \<open>n\<close>, both runs lie within them and hold only zeros.\<close>

definition zero_span :: "u16 list \<Rightarrow> nat \<Rightarrow> nat \<times> nat \<Rightarrow> bool" where
  "zero_span gs n run \<longleftrightarrow> fst run + snd run \<le> n \<and> (\<forall>i < snd run. gs ! (fst run + i) = 0)"

lemma zero_run_step_span:
  assumes "zero_span gs n longest" and "zero_span gs n current" and "n < length gs"
    and "snd current = 0 \<or> fst current + snd current = n"
    and "zero_run_step (n, gs ! n) (longest, current) = (longest', current')"
  shows "zero_span gs (Suc n) longest' \<and> zero_span gs (Suc n) current' \<and>
    (snd current' = 0 \<or> fst current' + snd current' = Suc n)"
proof -
  obtain ls ll cs cl where run: "longest = (ls, ll)" "current = (cs, cl)" by (cases longest; cases current)
  show ?thesis
  proof (cases "gs ! n = 0")
    case True
    have c': "current' = (if cl = 0 then n else cs, cl + 1)"
      using assms(5) True by (auto simp: zero_run_step_def run Let_def split: if_splits)
    have "zero_span gs (Suc n) current'"
      using assms(2,4) True by (auto simp: c' zero_span_def run less_Suc_eq)
    moreover have "zero_span gs (Suc n) longest" using assms(1) by (auto simp: zero_span_def)
    ultimately show ?thesis
      using assms(4,5) True c' by (auto simp: zero_run_step_def run Let_def split: if_splits)
  next
    case False
    then show ?thesis using assms(1,5) by (auto simp: zero_run_step_def zero_span_def run)
  qed
qed

lemma fold_zero_run:
  assumes "fold zero_run_step (List.enumerate n (drop n gs)) (longest, current) = (longest', current')"
    and "zero_span gs n longest" and "zero_span gs n current" and "n \<le> length gs"
    and "snd current = 0 \<or> fst current + snd current = n"
  shows "zero_span gs (length gs) longest'"
  using assms
proof (induction "length gs - n" arbitrary: n longest current)
  case 0
  then show ?case by simp
next
  case (Suc d)
  then have n: "n < length gs" by simp
  obtain l c where s: "zero_run_step (n, gs ! n) (longest, current) = (l, c)" by (cases "zero_run_step (n, gs ! n) (longest, current)")
  have "fold zero_run_step (List.enumerate (Suc n) (drop (Suc n) gs)) (l, c) = (longest', current')"
    using Suc.prems(1) n s by (simp add: Cons_nth_drop_Suc [OF n, symmetric])
  then show ?case
    using Suc.hyps zero_run_step_span [OF Suc.prems(2,3) n Suc.prems(5) s] n by (intro Suc.hyps(1) [of "Suc n" l c]) auto
qed

lemma longest_zero_run_span: "zero_span gs (length gs) (longest_zero_run gs)"
proof -
  obtain l c where f: "fold zero_run_step (List.enumerate 0 gs) ((0, 0), (0, 0)) = (l, c)"
    by (cases "fold zero_run_step (List.enumerate 0 gs) ((0, 0), (0, 0))")
  then show ?thesis
    using fold_zero_run [of 0 gs "(0, 0)" "(0, 0)" l c] by (simp add: longest_zero_run_def zero_span_def)
qed

lemma longest_zero_run_split:
  assumes "longest_zero_run gs = (start, len)"
  shows "gs = take start gs @ replicate len 0 @ drop (start + len) gs" and "start + len \<le> length gs"
proof -
  have z: "start + len \<le> length gs" "\<And>i. i < len \<Longrightarrow> gs ! (start + i) = 0"
    using longest_zero_run_span [of gs] assms by (auto simp: zero_span_def)
  then show "start + len \<le> length gs" by simp
  have "take len (drop start gs) = replicate len 0"
    by (rule nth_equalityI) (use z in auto)
  then have "drop start gs = replicate len 0 @ drop (start + len) gs"
    using append_take_drop_id [of len "drop start gs"] by (simp add: add.commute)
  then show "gs = take start gs @ replicate len 0 @ drop (start + len) gs"
    using append_take_drop_id [of start gs] by simp
qed

section \<open>Printed addresses parse back\<close>

lemma v6_of_segments_segments: "v6_of_segments (map unat (v6_segments a)) = a"
proof -
  let ?n = "unat a"
  have seg: "unat (v6_segment a i) = ?n div 2 ^ (16 * (7 - i)) mod 65536" for i
    unfolding v6_segment_def unsigned_ucast_eq unsigned_drop_bit_eq
    using unsigned_less [of a, where ?'a = nat] by (simp add: drop_bit_eq_div take_bit_eq_mod)
  define d where "d = (\<lambda>k. ?n div 65536 ^ k)"
  have "d (Suc k) = d k div 65536" for k unfolding d_def by (simp only: power_Suc2 div_mult2_eq)
  then have step: "d (Suc k) * 65536 + d k mod 65536 = d k" for k by simp
  have "d 8 = 0" using unsigned_less [of a, where ?'a = nat] by (simp add: d_def)
  then have d7: "d 7 mod 65536 = d 7" using step [of 7] by simp
  have s: "unat (v6_segment a i) = d (7 - i) mod 65536" for i
    by (simp add: seg d_def power_mult)
  have "foldl (\<lambda>a b. a * 65536 + b) 0 (map unat (v6_segments a)) =
      ((((((d 7 * 65536 + d 6 mod 65536) * 65536 + d 5 mod 65536) * 65536 + d 4 mod 65536) * 65536 +
        d 3 mod 65536) * 65536 + d 2 mod 65536) * 65536 + d 1 mod 65536) * 65536 + d 0 mod 65536"
    by (simp only: v6_segments_def list.map foldl.simps s) (simp add: d7)
  also have "\<dots> = d 0"
    using step [of 0] step [of 1] step [of 2] step [of 3] step [of 4] step [of 5] step [of 6]
    by (simp only: Suc_numeral add_num_simps One_nat_def [symmetric] Suc_1)
  finally have "foldl (\<lambda>a b. a * 65536 + b) 0 (map unat (v6_segments a)) = d 0" .
  then show ?thesis by (simp add: v6_of_segments_def d_def)
qed

lemma length_v6_segments [simp]: "length (v6_segments a) = 8"
  by (simp add: v6_segments_def)

lemma read_ipv6_show_groups:
  assumes "longest_zero_run (v6_segments a) = (start, len)" and "1 < len"
  shows "read_ipv6_addr (show_segments (take start (v6_segments a)) @ ''::'' @
    show_segments (drop (start + len) (v6_segments a))) = Some (a, [])"
proof -
  let ?gs = "v6_segments a" and ?t = "drop (start + len) (v6_segments a)"
  have split: "?gs = take start ?gs @ replicate len 0 @ ?t" and le: "start + len \<le> 8"
    using longest_zero_run_split [OF assms(1)] by auto
  have h: "read_groups 8 0 (show_segments (take start ?gs) @ ''::'' @ show_segments ?t) =
      (map unat (take start ?gs), False, ''::'' @ show_segments ?t)"
    by (rule read_groups_show) (auto simp: run_end_def)
  have t: "read_groups (8 - Suc start) 0 (show_segments ?t) = (map unat ?t, False, [])"
    using read_groups_show [of "[]" ?t "8 - Suc start"] le assms(2) by (simp add: run_end_def)
  have "map unat ?gs = map unat (take start ?gs) @ replicate len 0 @ map unat ?t"
    by (subst split) simp
  then have "v6_of_segments (map unat (take start ?gs) @ replicate len 0 @ map unat ?t) = a"
    using v6_of_segments_segments [of a] by simp
  then show ?thesis using le assms(2) h t by (simp add: read_ipv6_addr_def min_absorb1)
qed

lemma segments_of_mapped:
  "map unat (v6_segments (mapped_v6 v4)) = replicate 5 0 @ [65535, unat (drop_bit 16 v4), unat (take_bit 16 v4)]"
proof -
  have b: "bit (v6_segment (mapped_v6 v4) i) k \<longleftrightarrow> k < 16 \<and> bit (mapped_v6 v4) (16 * (7 - i) + k)" for i k
    by (auto simp: v6_segment_def bit_ucast_iff bit_drop_bit_eq)
  have zero: "v6_segment (mapped_v6 v4) i = 0" if "i \<le> 4" for i
    by (rule bit_eqI) (use that in \<open>auto simp: b bit_mapped_v6\<close>)
  have five: "v6_segment (mapped_v6 v4) 5 = 65535"
  proof -
    have "v6_segment (mapped_v6 v4) 5 = mask 16"
      by (rule bit_eqI) (auto simp: b bit_mapped_v6 bit_mask_iff)
    then show ?thesis by (simp add: mask_eq_exp_minus_1)
  qed
  have six: "v6_segment (mapped_v6 v4) 6 = ucast (drop_bit 16 v4)"
    by (rule bit_eqI) (auto simp: b bit_mapped_v6 bit_ucast_iff bit_drop_bit_eq)
  have seven: "v6_segment (mapped_v6 v4) 7 = ucast (take_bit 16 v4)"
    by (rule bit_eqI) (auto simp: b bit_mapped_v6 bit_ucast_iff bit_take_bit_iff)
  have hi: "unat (ucast (drop_bit 16 v4) :: u16) = unat (drop_bit 16 v4)"
    unfolding unsigned_ucast_eq unsigned_drop_bit_eq
    using unsigned_less [of v4, where ?'a = nat] by (simp add: drop_bit_eq_div take_bit_eq_mod)
  have lo: "unat (ucast (take_bit 16 v4) :: u16) = unat (take_bit 16 v4)"
    by (simp add: unsigned_ucast_eq unsigned_take_bit_eq)
  have "replicate 5 (0 :: nat) = [0, 0, 0, 0, 0]" by code_simp
  then show ?thesis by (simp add: v6_segments_def zero five six seven hi lo)
qed

lemma read_ipv6_show_mapped: "read_ipv6_addr (''::ffff:'' @ show_v4 v4) = Some (mapped_v6 v4, [])"
proof -
  have ffff: "show_hex 65535 = ''ffff''" by code_simp
  have r0: "read_groups 8 0 (''::ffff:'' @ show_v4 v4) = ([], False, ''::ffff:'' @ show_v4 v4)"
    by (rule read_groups_end) (simp add: run_end_def)
  have v4: "read_ipv4_addr (show_v4 v4) = Some (v4, [])" using read_ipv4_addr_show [of "[]" v4] by simp
  have no: "read_ipv4_addr (''ffff:'' @ show_v4 v4) = None"
    using read_ipv4_addr_group [of "CHR '':'' # show_v4 v4" "unat (0xffff :: u16)"] by (simp add: ffff)
  have num: "read_number 16 (Some 4) True 65536 (''ffff:'' @ show_v4 v4) = Some (65535, CHR '':'' # show_v4 v4)"
    using read_group_show [of "CHR '':'' # show_v4 v4" "0xffff"] by (simp add: ffff)
  have "read_groups (Suc (Suc (Suc (Suc (Suc (Suc (Suc 0))))))) 0 (''ffff:'' @ show_v4 v4) =
      ([65535, unat (drop_bit 16 v4), unat (take_bit 16 v4)], True, [])"
    using no num v4 by (simp add: read_sep_def)
  moreover have "(7 :: nat) = Suc (Suc (Suc (Suc (Suc (Suc (Suc 0))))))" by simp
  ultimately have t: "read_groups 7 0 (''ffff:'' @ show_v4 v4) =
      ([65535, unat (drop_bit 16 v4), unat (take_bit 16 v4)], True, [])" by (simp only:)
  show ?thesis
    using r0 t v6_of_segments_segments [of "mapped_v6 v4"]
    by (simp add: read_ipv6_addr_def segments_of_mapped)
qed

lemma read_ipv6_show: "read_ipv6_addr (show_v6 a) = Some (a, [])"
proof (cases "to_ipv4_mapped a")
  case (Some v4)
  then show ?thesis using read_ipv6_show_mapped [of v4] by (simp add: show_v6_def to_ipv4_mapped_Some_iff)
next
  case None
  obtain start len where run: "longest_zero_run (v6_segments a) = (start, len)" by (cases "longest_zero_run (v6_segments a)")
  have "read_groups 8 0 (show_segments (v6_segments a)) = (map unat (v6_segments a), False, [])"
    using read_groups_show [of "[]" "v6_segments a" 8] by (simp add: run_end_def)
  then show ?thesis
    using read_ipv6_show_groups [OF run] v6_of_segments_segments [of a]
    by (cases "1 < len") (simp_all add: show_v6_def None run Let_def, simp add: read_ipv6_addr_def)
qed

lemma read_ipv4_addr_show_v6: "read_ipv4_addr (show_v6 a) = None"
proof -
  have seg: "read_ipv4_addr (show_segments gs @ r) = None" if "run_end r" for gs r
    using that tail_groups_end [OF that] read_ipv4_addr_group read_ipv4_colon read_ipv4_Nil
    by (cases gs) (auto simp: show_segments_Cons show_segments_def [of "[]"] run_end_def)
  show ?thesis
    using seg [of "''::'' @ x" for x] seg [of "[]"] read_ipv4_colon
    by (auto simp: show_v6_def run_end_def Let_def split: option.split prod.split)
qed

theorem ip_from_str_show: "ip_from_str (show_ip ip) = Some ip"
proof (cases ip)
  case (V4 a)
  then show ?thesis using read_ipv4_addr_show [of "[]" a] by (simp add: ip_from_str_def)
next
  case (V6 a)
  then show ?thesis
    by (simp add: ip_from_str_def read_ipv4_addr_show_v6 ipv6_from_str_def finish_def read_ipv6_show)
qed

text \<open>The characters of a printed address.\<close>

definition ip_char :: "char \<Rightarrow> bool" where
  "ip_char c \<longleftrightarrow> is_digit 16 c \<or> c = CHR ''.'' \<or> c = CHR '':''"

lemma set_join: "set (join s xs) \<subseteq> set s \<union> \<Union> (set ` set xs)"
  by (induction s xs rule: join.induct) auto

lemma show_nat_hex: "c \<in> set (show_nat n) \<Longrightarrow> is_digit 16 c"
  using show_nat_char_range [of c n] by (auto simp: is_digit_def to_digit_def Let_def)

lemma show_ip_chars: "list_all ip_char (show_ip ip)"
proof -
  have v4: "list_all ip_char (show_v4 a)" for a
    unfolding list_all_iff show_v4_def
    by (rule ballI, drule subsetD [OF set_join]) (auto simp: ip_char_def dest: show_nat_hex)
  have hex: "is_digit 16 c" if "c \<in> set (show_hex n)" for c n
    using that show_hex_digits [of n] by (auto simp: list_all_iff)
  have seg: "list_all ip_char (show_segments gs)" for gs
    unfolding list_all_iff show_segments_def
    by (rule ballI, drule subsetD [OF set_join]) (auto simp: ip_char_def dest: hex)
  have "list_all ip_char ''::ffff:''" by code_simp
  then show ?thesis
    using v4 seg by (cases ip) (simp_all add: show_v6_def Let_def ip_char_def split: option.split prod.split)
qed

lemma show_ip_not_Nil: "show_ip ip \<noteq> []"
proof
  assume "show_ip ip = []"
  then have "ip_from_str [] = Some ip" using ip_from_str_show [of ip] by simp
  moreover have "ip_from_str [] = None" by code_simp
  ultimately show False by simp
qed

end
