(* ===== verification/Text_Tokens.thy ===== *)
theory Text_Tokens
  imports Text_Num
begin

text \<open>
  Texts without white space, \<open>str::lines\<close>, and lossy UTF-8 decoding: what the line-based file formats
  need to read back what they wrote.
\<close>

section \<open>Texts without white space\<close>

fun ws_free :: "str \<Rightarrow> bool" where
  "ws_free [] = True"
| "ws_free (c # cs) \<longleftrightarrow> ws_prefix (c # cs) = None \<and> ws_free cs"

lemma ws_prefix_None_iff: "ws_prefix s = None \<longleftrightarrow> (\<forall>w \<in> set ws_chars. \<not> (\<exists>r. s = w @ r))"
  by (auto simp: ws_prefix_def find_None_iff starts_with_iff)

lemma ws_suffix_None_iff: "ws_suffix s = None \<longleftrightarrow> (\<forall>w \<in> set ws_chars. \<not> (\<exists>r. s = r @ w))"
  by (auto simp: ws_suffix_def find_None_iff ends_with_iff)

lemma ws_chars_space: "w \<in> set ws_chars \<Longrightarrow> CHR '' '' \<in> set w \<Longrightarrow> w = '' ''"
proof -
  have "list_all (\<lambda>w. CHR '' '' \<in> set w \<longrightarrow> w = '' '') ws_chars" by code_simp
  then show "w \<in> set ws_chars \<Longrightarrow> CHR '' '' \<in> set w \<Longrightarrow> w = '' ''" by (auto simp: list_all_iff)
qed

text \<open>A visible ASCII character is in no white-space character.\<close>

definition visible :: "char \<Rightarrow> bool" where
  "visible c \<longleftrightarrow> 33 \<le> (of_char c :: nat) \<and> (of_char c :: nat) \<le> 126"

lemma visible_not_in_ws: "visible c \<Longrightarrow> w \<in> set ws_chars \<Longrightarrow> c \<notin> set w"
proof -
  have "list_all (list_all (\<lambda>c. \<not> visible c)) ws_chars" by code_simp
  then show "visible c \<Longrightarrow> w \<in> set ws_chars \<Longrightarrow> c \<notin> set w" by (auto simp: list_all_iff)
qed

lemma ws_prefix_visible: "visible c \<Longrightarrow> ws_prefix (c # cs) = None"
  using visible_not_in_ws ws_chars_nonempty by (fastforce simp: ws_prefix_None_iff Cons_eq_append_conv)

lemma ws_free_visible: "list_all visible s \<Longrightarrow> ws_free s"
  by (induction s) (auto simp: ws_prefix_visible)

lemma ws_free_suffix: "ws_free (xs @ ys) \<Longrightarrow> ws_free ys"
  by (induction xs) auto

lemma prefix_of_append_sep:
  assumes "w @ r = xs @ y # ys" and "y \<notin> set w"
  shows "\<exists>r'. xs = w @ r'"
proof -
  obtain us where "w = xs @ us \<and> us @ r = y # ys \<or> w @ us = xs" using assms(1) by (auto simp: append_eq_append_conv2)
  then show ?thesis using assms(2) by (cases us) auto
qed

lemma suffix_of_append_sep:
  assumes "r @ w = xs @ y # ys" and "y \<notin> set w"
  shows "\<exists>r'. ys = r' @ w"
proof -
  have "rev w @ rev r = rev ys @ y # rev xs" using arg_cong [OF assms(1), of rev] by simp
  then obtain r' where "rev ys = rev w @ r'" using prefix_of_append_sep [of "rev w"] assms(2) by fastforce
  then have "ys = rev r' @ w" by (metis rev_append rev_rev_ident)
  then show ?thesis ..
qed

lemma ws_prefix_before_sep:
  assumes "ws_prefix (x # xs) = None" and "visible y \<or> y = CHR '' ''"
  shows "ws_prefix (x # xs @ y # ys) = None"
  unfolding ws_prefix_None_iff
proof (intro ballI notI, elim exE)
  fix w r assume w: "w \<in> set ws_chars" and eq: "x # xs @ y # ys = w @ r"
  have "\<exists>r'. x # xs = w @ r'"
  proof (cases "y \<in> set w")
    case True
    then have "y = CHR '' ''" using assms(2) visible_not_in_ws w by blast
    then have "w = '' ''" using ws_chars_space [OF w] True by simp
    then show ?thesis using eq by auto
  next
    case False
    then show ?thesis using prefix_of_append_sep [of w r "x # xs" y ys] eq by simp
  qed
  then show False using assms(1) w by (auto simp: ws_prefix_None_iff)
qed

lemma ws_free_append_sep:
  assumes "ws_free xs" and "visible y" and "ws_free ys"
  shows "ws_free (xs @ y # ys)"
  using assms(1) by (induction xs) (auto simp: assms ws_prefix_visible ws_prefix_before_sep)

lemma ws_free_append_visible:
  assumes "ws_free xs" and "list_all visible p"
  shows "ws_free (p @ xs)"
  using assms(2) by (induction p) (auto simp: assms(1) ws_prefix_visible)

lemma ws_free_join:
  assumes "visible y" and "list_all ws_free xs"
  shows "ws_free (join [y] xs)"
  using assms(2) by (induction "[y]" xs rule: join.induct) (auto simp: assms(1) ws_free_append_sep)

section \<open>Trimming and tokens\<close>

lemma trim_id:
  assumes "ws_prefix s = None" and "ws_suffix s = None"
  shows "trim s = s"
  using assms by (simp add: trim_def trim_start.simps [of s] trim_end.simps [of s])

lemma trim_visible:
  assumes "list_all visible s"
  shows "trim s = s"
proof (rule trim_id)
  show "ws_prefix s = None"
    using assms ws_prefix_visible by (cases s) (auto simp: ws_prefix_None_iff dest: ws_chars_nonempty)
  show "ws_suffix s = None" unfolding ws_suffix_None_iff
  proof (intro ballI notI, elim exE)
    fix w r assume w: "w \<in> set ws_chars" and s: "s = r @ w"
    have "hd w \<in> set w" using ws_chars_nonempty [OF w] by simp
    moreover have "visible (hd w)" using assms s calculation by (auto simp: list_all_iff)
    ultimately show False using visible_not_in_ws w by blast
  qed
qed

lemma set_trim: "set (trim s) \<subseteq> set s"
proof -
  have start: "set (trim_start s) \<subseteq> set s" for s
    by (induction s rule: trim_start.induct) (subst trim_start.simps, auto split: option.splits dest: in_set_dropD)
  have "set (trim_end s) \<subseteq> set s" for s
    by (induction s rule: trim_end.induct) (subst trim_end.simps, auto split: option.splits dest: in_set_takeD)
  with start show ?thesis unfolding trim_def by blast
qed

lemma ws_suffix_after_sep:
  assumes "ws_free ys" and "ys \<noteq> []" and "visible y \<or> y = CHR '' ''"
  shows "ws_suffix (xs @ y # ys) = None"
  unfolding ws_suffix_None_iff
proof (intro ballI notI, elim exE)
  fix w r assume w: "w \<in> set ws_chars" and eq: "xs @ y # ys = r @ w"
  have "\<exists>r'. ys = r' @ w"
  proof (cases "y \<in> set w")
    case True
    then have "y = CHR '' ''" using assms(3) visible_not_in_ws w by blast
    then have c: "w = '' ''" using ws_chars_space [OF w] True by simp
    have "ys = butlast ys @ [last ys]" using assms(2) by simp
    moreover have "last ys = CHR '' ''" using arg_cong [OF eq, of last] assms(2) by (simp add: c)
    ultimately have "ys = butlast ys @ w" using c by simp
    then show ?thesis ..
  next
    case False
    then show ?thesis using suffix_of_append_sep [of r w xs y ys] eq by simp
  qed
  then obtain r' where "ys = r' @ w" ..
  then have "ws_free w" using assms(1) ws_free_suffix by blast
  moreover obtain c cs where "w = c # cs" using ws_chars_nonempty [OF w] by (cases w) auto
  ultimately show False using w by (auto simp: ws_prefix_None_iff)
qed

lemma ws_prefix_space: "ws_prefix (CHR '' '' # s) = Some '' ''"
proof -
  have "'' '' \<in> set ws_chars" by code_simp
  moreover have "CHR '' '' # s = '' '' @ s" by simp
  ultimately have "ws_prefix (CHR '' '' # s) \<noteq> None" unfolding ws_prefix_None_iff by blast
  then obtain w where w: "ws_prefix (CHR '' '' # s) = Some w" by blast
  then obtain r where m: "w \<in> set ws_chars" "CHR '' '' # s = w @ r" "w \<noteq> []" using ws_prefix_SomeD by blast
  from m(2,3) have "CHR '' '' \<in> set w" by (cases w) auto
  then show ?thesis using ws_chars_space [OF m(1)] w by simp
qed

lemma split_ws_from_token:
  assumes "ws_free t"
  shows "split_ws_from acc (t @ CHR '' '' # s) =
    (if acc = [] \<and> t = [] then [] else [rev acc @ t]) @ split_ws_from [] s"
  using assms
proof (induction t arbitrary: acc)
  case Nil
  then show ?case by (subst split_ws_from.simps) (simp add: ws_prefix_space)
next
  case (Cons c t)
  then have "ws_prefix (c # t @ CHR '' '' # s) = None" using ws_prefix_before_sep [of c t "CHR '' ''" s] by simp
  then show ?case using Cons by (subst split_ws_from.simps) simp
qed

lemma split_ws_from_last:
  assumes "ws_free t"
  shows "split_ws_from acc t = (if acc = [] \<and> t = [] then [] else [rev acc @ t])"
  using assms
proof (induction t arbitrary: acc)
  case Nil
  then show ?case by (subst split_ws_from.simps) simp
next
  case (Cons c t)
  then show ?case by (subst split_ws_from.simps) simp
qed

lemma split_whitespace_join:
  assumes "list_all (\<lambda>t. ws_free t \<and> t \<noteq> []) ts"
  shows "split_whitespace (join '' '' ts) = ts"
  using assms unfolding split_whitespace_def
proof (induction ts)
  case (Cons t ts)
  then show ?case by (cases ts) (simp_all add: split_ws_from_token split_ws_from_last)
qed (simp add: split_ws_from_last)

section \<open>Lines\<close>

definition newline :: char where "newline = CHR 0x0A"
definition carriage_return :: char where "carriage_return = CHR 0x0D"

text \<open>\<open>str::lines\<close>: split at newlines, a final empty piece and one trailing carriage return dropped.\<close>

definition strip_cr :: "str \<Rightarrow> str" where
  "strip_cr s = (if s \<noteq> [] \<and> last s = carriage_return then butlast s else s)"

definition lines :: "str \<Rightarrow> str list" where
  "lines s = (let ps = split_on newline s; ps = (if last ps = [] then butlast ps else ps) in map strip_cr ps)"

lemma lines_unlines:
  assumes "list_all (\<lambda>l. newline \<notin> set l \<and> (l = [] \<or> last l \<noteq> carriage_return)) ls"
  shows "lines (concat (map (\<lambda>l. l @ [newline]) ls)) = ls"
proof -
  have "split_on newline (concat (map (\<lambda>l. l @ [newline]) ls)) = ls @ [[]]"
    using assms by (induction ls) (auto simp: split_on_append split_on_free)
  moreover have "map strip_cr ls = ls"
    using assms by (intro map_idI) (auto simp: strip_cr_def list_all_iff)
  ultimately show ?thesis by (simp add: lines_def)
qed

section \<open>UTF-8\<close>

definition byte_at :: "str \<Rightarrow> nat \<Rightarrow> nat" where
  "byte_at s i = (if i < length s then of_char (s ! i) else 0)"

definition utf8_cont :: "nat \<Rightarrow> bool" where
  "utf8_cont b \<longleftrightarrow> 128 \<le> b \<and> b \<le> 191"

definition utf8_second :: "nat \<Rightarrow> nat \<Rightarrow> bool" where
  "utf8_second b0 b1 \<longleftrightarrow>
     (if b0 = 224 then 160 \<le> b1 \<and> b1 \<le> 191
      else if b0 = 237 then 128 \<le> b1 \<and> b1 \<le> 159
      else if b0 = 240 then 144 \<le> b1 \<and> b1 \<le> 191
      else if b0 = 244 then 128 \<le> b1 \<and> b1 \<le> 143
      else utf8_cont b1)"

text \<open>Whether a character is well-formed at the front, and its length or that of the malformed part.\<close>

definition utf8_head :: "str \<Rightarrow> bool \<times> nat" where
  "utf8_head s =
     (let b0 = byte_at s 0; b1 = byte_at s 1; b2 = byte_at s 2; b3 = byte_at s 3 in
      if b0 < 128 then (True, 1)
      else if 194 \<le> b0 \<and> b0 \<le> 223 then (if utf8_cont b1 then (True, 2) else (False, 1))
      else if 224 \<le> b0 \<and> b0 \<le> 239 then
        (if \<not> utf8_second b0 b1 then (False, 1) else if \<not> utf8_cont b2 then (False, 2) else (True, 3))
      else if 240 \<le> b0 \<and> b0 \<le> 244 then
        (if \<not> utf8_second b0 b1 then (False, 1) else if \<not> utf8_cont b2 then (False, 2)
         else if \<not> utf8_cont b3 then (False, 3) else (True, 4))
      else (False, 1))"

lemma utf8_head_pos: "utf8_head s = (v, n) \<Longrightarrow> 0 < n"
  by (auto simp: utf8_head_def Let_def split: if_splits)

function is_utf8 :: "str \<Rightarrow> bool" where
  "is_utf8 s = (if s = [] then True else case utf8_head s of (v, n) \<Rightarrow> v \<and> is_utf8 (drop n s))"
  by pat_completeness auto
termination
  by (relation "measure length") (auto dest!: utf8_head_pos [OF sym])

text \<open>\<open>String::from_utf8_lossy\<close>: each malformed part becomes one replacement character.\<close>

function from_utf8_lossy :: "str \<Rightarrow> str" where
  "from_utf8_lossy s =
     (if s = [] then []
      else case utf8_head s of (v, n) \<Rightarrow>
        (if v then take n s else map char_of [239 :: nat, 191, 189]) @ from_utf8_lossy (drop n s))"
  by pat_completeness auto
termination
  by (relation "measure length") (auto dest!: utf8_head_pos [OF sym])

declare is_utf8.simps [simp del] from_utf8_lossy.simps [simp del]

lemma is_utf8_ascii: "list_all (\<lambda>c. (of_char c :: nat) < 128) s \<Longrightarrow> is_utf8 s"
  by (induction s) (simp_all add: is_utf8.simps [of "_ # _"] is_utf8.simps [of "[]"] utf8_head_def byte_at_def Let_def)

lemma from_utf8_lossy_id: "is_utf8 s \<Longrightarrow> from_utf8_lossy s = s"
proof (induction s rule: is_utf8.induct)
  case (1 s)
  obtain v n where h: "utf8_head s = (v, n)" by (cases "utf8_head s")
  show ?case
  proof (cases "s = []")
    case False
    with "1.prems" h have "v" "is_utf8 (drop n s)" by (simp_all add: is_utf8.simps [of s])
    with "1.IH" False h show ?thesis by (simp add: from_utf8_lossy.simps [of s])
  qed (simp add: from_utf8_lossy.simps)
qed

end
