(* ===== verification/ProbeDns.thy ===== *)
theory ProbeDns
  imports IpText Text_Tokens "HOL-Library.AList" "HOL-Library.Multiset"
begin

text \<open>
  The DNS cache of the bridge prober (\<open>packages/bridge-probe/src/dns.rs\<close>, \<open>dns_hint.rs\<close> and
  \<open>probe/dns_invalidation.rs\<close>): the live cache with its network generation, the persisted fallback
  store and the provider scores.  A \<open>HashMap\<close> is a list of pairs with distinct keys in some iteration
  order, which may change at any time; instants are nanoseconds of the monotonic clock; every
  function reads each clock once.
\<close>

section \<open>State\<close>

definition secs :: "nat \<Rightarrow> nat" where
  "secs n = n * 1000000000"

record cached_answer =
  ca_addrs :: "ip_addr list"
  ca_expires_at :: nat
  ca_resolved_at_unix :: u64
  ca_generation :: u64
  ca_version :: u64

record persisted_answer =
  pa_addrs :: "ip_addr list"
  pa_resolved_at_unix :: u64

record cache_identity =
  ci_generation :: u64
  ci_version :: u64

record dns_state =
  ds_generation :: u64
  ds_cache :: "(str \<times> cached_answer) list"
  ds_next_version :: u64
  ds_fallback :: "(str \<times> persisted_answer) list"
  ds_scores :: "int list"

definition DNS_MIN_TTL :: nat where "DNS_MIN_TTL = secs 60"
definition DNS_MAX_TTL :: nat where "DNS_MAX_TTL = secs (30 * 60)"
definition DNS_NEGATIVE_TTL :: nat where "DNS_NEGATIVE_TTL = secs 120"
definition DNS_CACHE_CAP :: nat where "DNS_CACHE_CAP = 2048"
definition DNS_STALE_FALLBACK_WINDOW :: nat where "DNS_STALE_FALLBACK_WINDOW = secs (24 * 60 * 60)"
definition DNS_TIMESTAMP_FUTURE_TOLERANCE :: nat where "DNS_TIMESTAMP_FUTURE_TOLERANCE = secs (5 * 60)"

definition clamp :: "nat \<Rightarrow> nat \<Rightarrow> nat \<Rightarrow> nat" where
  "clamp lo hi v = (if v < lo then lo else if hi < v then hi else v)"

definition cache_identity_of :: "cached_answer \<Rightarrow> cache_identity" where
  "cache_identity_of e = \<lparr>ci_generation = ca_generation e, ci_version = ca_version e\<rparr>"

section \<open>The live cache\<close>

definition live_entry_is_usable :: "cached_answer \<Rightarrow> nat \<Rightarrow> bool" where
  "live_entry_is_usable e now \<longleftrightarrow>
     now < ca_expires_at e \<or> now - ca_expires_at e \<le> DNS_STALE_FALLBACK_WINDOW"

definition cached_doh_answer_observed :: "str \<Rightarrow> nat \<Rightarrow> dns_state \<Rightarrow> (ip_addr list \<times> cache_identity) option" where
  "cached_doh_answer_observed host now st =
     (case map_of (ds_cache st) host of
        None \<Rightarrow> None
      | Some e \<Rightarrow> if ca_expires_at e \<le> now then None else Some (ca_addrs e, cache_identity_of e))"

definition stale_fallback_answer_observed :: "str \<Rightarrow> nat \<Rightarrow> dns_state \<Rightarrow> (ip_addr list \<times> cache_identity) option" where
  "stale_fallback_answer_observed host now st =
     (case map_of (ds_cache st) host of
        None \<Rightarrow> None
      | Some e \<Rightarrow>
          if ca_addrs e = [] then None
          else if now < ca_expires_at e \<or> DNS_STALE_FALLBACK_WINDOW < now - ca_expires_at e then None
          else Some (ca_addrs e, cache_identity_of e))"

text \<open>The entries closest to leaving the fallback window, a quarter of the capacity, are shed.\<close>

definition shed_soonest :: "(str \<times> cached_answer) list \<Rightarrow> (str \<times> cached_answer) list" where
  "shed_soonest cache =
     (let by_expiry = sort_key snd (map (\<lambda>(host, e). (host, ca_expires_at e)) cache)
      in fold (\<lambda>(host, _). AList.delete host) (take (DNS_CACHE_CAP div 4) by_expiry) cache)"

definition make_room :: "nat \<Rightarrow> (str \<times> cached_answer) list \<Rightarrow> (str \<times> cached_answer) list" where
  "make_room now cache =
     (if DNS_CACHE_CAP \<le> length cache then
        (let swept = filter (\<lambda>(_, e). now < ca_expires_at e + DNS_STALE_FALLBACK_WINDOW) cache
         in if DNS_CACHE_CAP \<le> length swept then shed_soonest swept else swept)
      else cache)"

definition insert_capped :: "nat \<Rightarrow> str \<Rightarrow> cached_answer \<Rightarrow> dns_state \<Rightarrow> dns_state" where
  "insert_capped now host answer st =
     (let answer = answer\<lparr>ca_generation := ds_generation st, ca_version := ds_next_version st\<rparr>
      in st\<lparr>ds_next_version := ds_next_version st + 1,
            ds_cache := AList.update host answer (make_room now (ds_cache st))\<rparr>)"

definition store_cached_if_generation_observed ::
  "nat \<Rightarrow> str \<Rightarrow> cached_answer \<Rightarrow> u64 \<Rightarrow> dns_state \<Rightarrow> cache_identity option \<times> dns_state" where
  "store_cached_if_generation_observed now host answer expected_gen st =
     (if ds_generation st \<noteq> expected_gen then (None, st)
      else let st = insert_capped now host answer st
           in (map_option cache_identity_of (map_of (ds_cache st) host), st))"

definition remember_doh_answer_if_generation_observed ::
  "nat \<Rightarrow> u64 \<Rightarrow> str \<Rightarrow> ip_addr list \<Rightarrow> nat \<Rightarrow> u64 \<Rightarrow> dns_state \<Rightarrow> cache_identity option \<times> dns_state" where
  "remember_doh_answer_if_generation_observed now unix host ips valid_for expected_gen st =
     (let ttl = clamp DNS_MIN_TTL DNS_MAX_TTL valid_for
      in store_cached_if_generation_observed now host
           \<lparr>ca_addrs = ips, ca_expires_at = now + ttl, ca_resolved_at_unix = unix,
            ca_generation = 0, ca_version = 0\<rparr> expected_gen st)"

definition remember_doh_failure_if_generation ::
  "nat \<Rightarrow> u64 \<Rightarrow> str \<Rightarrow> u64 \<Rightarrow> dns_state \<Rightarrow> bool \<times> dns_state" where
  "remember_doh_failure_if_generation now unix host expected_gen st =
     (if ds_generation st \<noteq> expected_gen then (False, st)
      else if (case map_of (ds_cache st) host of
                 None \<Rightarrow> False
               | Some e \<Rightarrow> ca_generation e = expected_gen \<and> ca_addrs e \<noteq> [] \<and> now < ca_expires_at e)
      then (False, st)
      else (True, insert_capped now host
              \<lparr>ca_addrs = [], ca_expires_at = now + DNS_NEGATIVE_TTL, ca_resolved_at_unix = unix,
               ca_generation = 0, ca_version = 0\<rparr> st))"

text \<open>The generation is read before the cache is locked, so the value seen is an argument.\<close>

definition invalidate_if_current ::
  "u64 \<Rightarrow> str \<Rightarrow> cache_identity \<Rightarrow> ip_addr list \<Rightarrow> dns_state \<Rightarrow> bool \<times> dns_state" where
  "invalidate_if_current gen_seen host observed tried_addrs st =
     (if gen_seen \<noteq> ci_generation observed then (False, st)
      else case map_of (ds_cache st) host of
             None \<Rightarrow> (False, st)
           | Some e \<Rightarrow>
               if cache_identity_of e \<noteq> observed \<or> ca_addrs e = [] \<or> tried_addrs = []
                  \<or> \<not> list_all (\<lambda>ip. ip \<in> set (ca_addrs e)) tried_addrs
               then (False, st)
               else (True, st\<lparr>ds_cache := AList.delete host (ds_cache st)\<rparr>))"

section \<open>The fallback store\<close>

definition merge_disk_fallback_entry :: "str \<Rightarrow> persisted_answer \<Rightarrow> dns_state \<Rightarrow> dns_state" where
  "merge_disk_fallback_entry host e st =
     (case map_of (ds_fallback st) host of
        Some existing \<Rightarrow>
          if pa_resolved_at_unix e \<le> pa_resolved_at_unix existing then st
          else st\<lparr>ds_fallback := AList.update host e (ds_fallback st)\<rparr>
      | None \<Rightarrow> st\<lparr>ds_fallback := AList.update host e (ds_fallback st)\<rparr>)"

definition window_secs :: nat where
  "window_secs = DNS_STALE_FALLBACK_WINDOW div 1000000000"

definition disk_fallback_answer :: "str \<Rightarrow> u64 \<Rightarrow> dns_state \<Rightarrow> ip_addr list option" where
  "disk_fallback_answer host unix st =
     (case map_of (ds_fallback st) host of
        None \<Rightarrow> None
      | Some e \<Rightarrow>
          if window_secs < unat unix - unat (pa_resolved_at_unix e) then None else Some (pa_addrs e))"

text \<open>The first half of a flush, under the cache's lock, and the whole flush.\<close>

definition preserved_answers :: "nat \<Rightarrow> (str \<times> cached_answer) list \<Rightarrow> (str \<times> persisted_answer) list" where
  "preserved_answers now cache =
     map (\<lambda>(host, e). (host, \<lparr>pa_addrs = ca_addrs e, pa_resolved_at_unix = ca_resolved_at_unix e\<rparr>))
       (filter (\<lambda>(_, e). ca_addrs e \<noteq> [] \<and> live_entry_is_usable e now) cache)"

definition flush_take :: "nat \<Rightarrow> dns_state \<Rightarrow> (str \<times> persisted_answer) list \<times> dns_state" where
  "flush_take now st =
     (preserved_answers now (ds_cache st), st\<lparr>ds_generation := ds_generation st + 1, ds_cache := []\<rparr>)"

definition flush_dns_cache :: "nat \<Rightarrow> dns_state \<Rightarrow> dns_state" where
  "flush_dns_cache now st =
     (let (preserved, st) = flush_take now st;
          st = fold (\<lambda>(host, e). merge_disk_fallback_entry host e) preserved st
      in st\<lparr>ds_scores := map (\<lambda>_. 0) (ds_scores st)\<rparr>)"

section \<open>Provider scores\<close>

definition DOH_SCORE_LIMIT :: int where "DOH_SCORE_LIMIT = 8"

definition note_doh_result :: "nat \<Rightarrow> bool \<Rightarrow> dns_state \<Rightarrow> dns_state" where
  "note_doh_result index answered st =
     (if index < length (ds_scores st) then
        (let delta = (if answered then 1 else - 1);
             current = ds_scores st ! index
         in st\<lparr>ds_scores := (ds_scores st)[index := max (- DOH_SCORE_LIMIT) (min DOH_SCORE_LIMIT (current + delta))]\<rparr>)
      else st)"

definition doh_order :: "dns_state \<Rightarrow> nat list" where
  "doh_order st = sort_key (\<lambda>i. - (ds_scores st ! i)) [0..<length (ds_scores st)]"

section \<open>Persisted lines and hints\<close>

definition stamp_beyond_future_tolerance :: "u64 \<Rightarrow> u64 \<Rightarrow> bool" where
  "stamp_beyond_future_tolerance unix stamp \<longleftrightarrow>
     DNS_TIMESTAMP_FUTURE_TOLERANCE div 1000000000 < unat stamp - unat unix"

definition tab :: char where "tab = CHR 0x09"

definition format_persisted_line :: "str \<Rightarrow> persisted_answer \<Rightarrow> str" where
  "format_persisted_line host e =
     host @ [tab] @ join '','' (map show_ip (pa_addrs e)) @ [tab] @ show_nat (unat (pa_resolved_at_unix e))"

definition parse_addrs :: "str \<Rightarrow> ip_addr list" where
  "parse_addrs s = List.map_filter ip_from_str (filter (\<lambda>p. p \<noteq> []) (split_on CHR '','' s))"

definition parse_persisted_line :: "u64 \<Rightarrow> str \<Rightarrow> (str \<times> persisted_answer) option" where
  "parse_persisted_line unix line =
     (case split_once tab line of
        None \<Rightarrow> None
      | Some (host, rest) \<Rightarrow>
          (case split_once tab rest of
             None \<Rightarrow> None
           | Some (addrs, stamp) \<Rightarrow>
               (case parse_uint 10 (2 ^ 64) (trim stamp) of
                  None \<Rightarrow> None
                | Some n \<Rightarrow>
                    if parse_addrs addrs = [] \<or> stamp_beyond_future_tolerance unix (of_nat n) then None
                    else Some (host, \<lparr>pa_addrs = parse_addrs addrs, pa_resolved_at_unix = of_nat n\<rparr>))))"

record dns_hint =
  dh_host :: str
  dh_addrs :: "ip_addr list"
  dh_resolved_at_unix :: u64

definition DNS_HINT_PREFIX :: str where "DNS_HINT_PREFIX = ''# xorbot:dns ''"

definition format_dns_hint_line :: "dns_hint \<Rightarrow> str" where
  "format_dns_hint_line h =
     DNS_HINT_PREFIX @ dh_host h @ '' '' @ join '','' (map show_ip (dh_addrs h)) @ '' '' @
     show_nat (unat (dh_resolved_at_unix h))"

definition parse_dns_hint_line :: "u64 \<Rightarrow> str \<Rightarrow> dns_hint option" where
  "parse_dns_hint_line unix line =
     (case strip_prefix DNS_HINT_PREFIX line of
        None \<Rightarrow> None
      | Some rest \<Rightarrow>
          (case split_whitespace rest of
             host # addrs # stamp # _ \<Rightarrow>
               (case parse_uint 10 (2 ^ 64) stamp of
                  None \<Rightarrow> None
                | Some n \<Rightarrow>
                    if parse_addrs addrs = [] \<or> stamp_beyond_future_tolerance unix (of_nat n) then None
                    else Some \<lparr>dh_host = host, dh_addrs = parse_addrs addrs, dh_resolved_at_unix = of_nat n\<rparr>)
           | _ \<Rightarrow> None))"

definition best_known_answer :: "str \<Rightarrow> nat \<Rightarrow> u64 \<Rightarrow> dns_state \<Rightarrow> dns_hint option" where
  "best_known_answer host now unix st =
     (let disk =
        (case map_of (ds_fallback st) host of
           None \<Rightarrow> None
         | Some e \<Rightarrow>
             if window_secs < unat unix - unat (pa_resolved_at_unix e) then None
             else Some \<lparr>dh_host = host, dh_addrs = pa_addrs e, dh_resolved_at_unix = pa_resolved_at_unix e\<rparr>)
      in case map_of (ds_cache st) host of
           Some e \<Rightarrow>
             if ca_addrs e \<noteq> [] \<and> live_entry_is_usable e now
             then Some \<lparr>dh_host = host, dh_addrs = ca_addrs e, dh_resolved_at_unix = ca_resolved_at_unix e\<rparr>
             else disk
         | None \<Rightarrow> disk)"

definition seed_disk_fallback :: "dns_hint list \<Rightarrow> dns_state \<Rightarrow> dns_state" where
  "seed_disk_fallback =
     fold (\<lambda>h. merge_disk_fallback_entry (dh_host h)
             \<lparr>pa_addrs = dh_addrs h, pa_resolved_at_unix = dh_resolved_at_unix h\<rparr>)"

definition load_persisted_dns_cache :: "u64 \<Rightarrow> str option \<Rightarrow> dns_state \<Rightarrow> dns_state" where
  "load_persisted_dns_cache unix read st =
     (case read of
        None \<Rightarrow> st
      | Some data \<Rightarrow>
          fold (\<lambda>line st. case parse_persisted_line unix line of
                  Some (host, e) \<Rightarrow> merge_disk_fallback_entry host e st | None \<Rightarrow> st) (lines data) st)"

definition is_legacy_persist_temp_name :: "str \<Rightarrow> str \<Rightarrow> bool" where
  "is_legacy_persist_temp_name entry_name target_name =
     (case strip_prefix target_name entry_name of
        None \<Rightarrow> False
      | Some rest \<Rightarrow>
          (case strip_prefix ''.'' rest of
             None \<Rightarrow> False
           | Some rest \<Rightarrow>
               (let parts = split_on CHR ''.'' rest
                in if length parts \<noteq> 3 \<or> parts ! 2 \<noteq> ''tmp'' then False
                   else parse_uint 10 (2 ^ 32) (parts ! 0) \<noteq> None
                      \<and> parse_uint 10 (2 ^ 64) (parts ! 1) \<noteq> None)))"

section \<open>Critical sections in any order\<close>

text \<open>
  Every public operation is a critical section under the cache's or the fallback store's lock, so a
  concurrent run is some sequence of them.  \<open>Rehash\<close> is a change of the hash map's iteration order.
\<close>

datatype dns_op =
  Publish str "ip_addr list" nat u64 nat u64
| PublishFailure str u64 nat u64
| Flush nat
| Invalidate u64 str cache_identity "ip_addr list"
| Merge str persisted_answer
| NoteResult nat bool
| Rehash "(str \<times> cached_answer) list"

fun apply_op :: "dns_op \<Rightarrow> dns_state \<Rightarrow> dns_state" where
  "apply_op (Publish host ips valid_for gen now unix) st =
     snd (remember_doh_answer_if_generation_observed now unix host ips valid_for gen st)"
| "apply_op (PublishFailure host gen now unix) st =
     snd (remember_doh_failure_if_generation now unix host gen st)"
| "apply_op (Flush now) st = flush_dns_cache now st"
| "apply_op (Invalidate gen host observed tried) st = snd (invalidate_if_current gen host observed tried st)"
| "apply_op (Merge host e) st = merge_disk_fallback_entry host e st"
| "apply_op (NoteResult i answered) st = note_doh_result i answered st"
| "apply_op (Rehash cache) st = (if mset cache = mset (ds_cache st) then st\<lparr>ds_cache := cache\<rparr> else st)"

definition run_ops :: "dns_op list \<Rightarrow> dns_state \<Rightarrow> dns_state" where
  "run_ops = fold apply_op"

fun is_flush :: "dns_op \<Rightarrow> bool" where
  "is_flush (Flush _) = True"
| "is_flush _ = False"

lemma run_ops_simps [simp]:
  "run_ops [] st = st" "run_ops (op # ops) st = run_ops ops (apply_op op st)"
  "run_ops (ops @ ops') st = run_ops ops' (run_ops ops st)"
  by (simp_all add: run_ops_def)

section \<open>Frames\<close>

lemma merge_frame [simp]:
  "ds_generation (merge_disk_fallback_entry h e st) = ds_generation st"
  "ds_cache (merge_disk_fallback_entry h e st) = ds_cache st"
  "ds_next_version (merge_disk_fallback_entry h e st) = ds_next_version st"
  "ds_scores (merge_disk_fallback_entry h e st) = ds_scores st"
  by (simp_all add: merge_disk_fallback_entry_def split: option.split)

lemma merge_fold_frame [simp]:
  "ds_generation (fold (\<lambda>(h, e). merge_disk_fallback_entry h e) ps st) = ds_generation st"
  "ds_cache (fold (\<lambda>(h, e). merge_disk_fallback_entry h e) ps st) = ds_cache st"
  "ds_next_version (fold (\<lambda>(h, e). merge_disk_fallback_entry h e) ps st) = ds_next_version st"
  "ds_scores (fold (\<lambda>(h, e). merge_disk_fallback_entry h e) ps st) = ds_scores st"
  by (induction ps arbitrary: st) auto

lemma flush_frame [simp]:
  "ds_generation (flush_dns_cache now st) = ds_generation st + 1"
  "ds_cache (flush_dns_cache now st) = []"
  "ds_next_version (flush_dns_cache now st) = ds_next_version st"
  "ds_scores (flush_dns_cache now st) = map (\<lambda>_. 0) (ds_scores st)"
  by (simp_all add: flush_dns_cache_def flush_take_def)

lemma insert_capped_frame [simp]:
  "ds_generation (insert_capped now h a st) = ds_generation st"
  "ds_next_version (insert_capped now h a st) = ds_next_version st + 1"
  "ds_fallback (insert_capped now h a st) = ds_fallback st"
  "ds_scores (insert_capped now h a st) = ds_scores st"
  by (simp_all add: insert_capped_def Let_def)

lemma insert_capped_lookup:
  "map_of (ds_cache (insert_capped now h a st)) k =
     (if k = h then Some (a\<lparr>ca_generation := ds_generation st, ca_version := ds_next_version st\<rparr>)
      else map_of (make_room now (ds_cache st)) k)"
  by (simp add: insert_capped_def Let_def update_conv)

lemmas publish_defs =
  remember_doh_answer_if_generation_observed_def store_cached_if_generation_observed_def
  remember_doh_failure_if_generation_def

section \<open>Capacity\<close>

lemma fold_delete:
  "fold (\<lambda>(h, _). AList.delete h) ps al = filter (\<lambda>p. fst p \<notin> fst ` set ps) al"
proof (induction ps arbitrary: al)
  case (Cons p ps)
  then show ?case by (cases p) (auto simp: AList.delete_eq intro: filter_cong)
qed simp

lemma length_without_keys:
  assumes "distinct (map fst al)" and "K \<subseteq> fst ` set al"
  shows "length (filter (\<lambda>p. fst p \<notin> K) al) = length al - card K"
proof -
  have "length (filter (\<lambda>p. fst p \<in> K) al) = length (filter (\<lambda>k. k \<in> K) (map fst al))"
    by (simp add: filter_map comp_def)
  also have "\<dots> = card (set (filter (\<lambda>k. k \<in> K) (map fst al)))"
    using assms(1) by (intro distinct_card [symmetric]) (rule distinct_filter)
  also have "set (filter (\<lambda>k. k \<in> K) (map fst al)) = K" using assms(2) by auto
  finally have "length (filter (\<lambda>p. fst p \<in> K) al) = card K" .
  then show ?thesis using sum_length_filter_compl [of "\<lambda>p. fst p \<in> K" al] by simp
qed

definition expiries :: "(str \<times> cached_answer) list \<Rightarrow> (str \<times> nat) list" where
  "expiries cache = sort_key snd (map (\<lambda>(host, e). (host, ca_expires_at e)) cache)"

lemma expiries_facts:
  "length (expiries cache) = length cache"
  "set (expiries cache) = (\<lambda>(h, e). (h, ca_expires_at e)) ` set cache"
  "fst ` set (expiries cache) = fst ` set cache"
  "distinct (map fst cache) \<Longrightarrow> distinct (map fst (expiries cache))"
proof -
  have m: "mset (map fst (expiries cache)) = mset (map fst cache)"
    by (simp add: expiries_def mset_map case_prod_beta comp_def multiset.map_comp)
  then show "distinct (map fst cache) \<Longrightarrow> distinct (map fst (expiries cache))"
    using mset_eq_imp_distinct_iff by blast
  show "fst ` set (expiries cache) = fst ` set cache"
    using mset_eq_setD [OF m] by simp
qed (simp_all add: expiries_def)

lemma shed_soonest_eq:
  "shed_soonest cache = filter (\<lambda>p. fst p \<notin> fst ` set (take (DNS_CACHE_CAP div 4) (expiries cache))) cache"
  by (simp add: shed_soonest_def expiries_def fold_delete)

lemma shed_soonest_length:
  assumes "distinct (map fst cache)" and "DNS_CACHE_CAP \<le> length cache"
  shows "length (shed_soonest cache) = length cache - DNS_CACHE_CAP div 4"
proof -
  let ?T = "take (DNS_CACHE_CAP div 4) (expiries cache)"
  have "distinct (map fst ?T)"
    using expiries_facts(4) [OF assms(1)] by (simp add: take_map [symmetric])
  then have "card (fst ` set ?T) = length ?T" using distinct_card [of "map fst ?T"] by simp
  moreover have "length ?T = DNS_CACHE_CAP div 4"
    using assms(2) by (simp add: expiries_facts DNS_CACHE_CAP_def)
  moreover have "fst ` set ?T \<subseteq> fst ` set cache"
    using expiries_facts(3) [of cache] set_take_subset [of "DNS_CACHE_CAP div 4" "expiries cache"] by blast
  ultimately show ?thesis
    unfolding shed_soonest_eq using length_without_keys [OF assms(1)] by simp
qed

text \<open>What is shed expires no later than what is kept.\<close>

lemma shed_soonest_order:
  assumes "distinct (map fst cache)" and "(h, e) \<in> set (shed_soonest cache)"
    and "(h', e') \<in> set cache" and "(h', e') \<notin> set (shed_soonest cache)"
  shows "ca_expires_at e' \<le> ca_expires_at e"
proof -
  let ?n = "DNS_CACHE_CAP div 4"
  let ?T = "take ?n (expiries cache)" and ?D = "drop ?n (expiries cache)"
  have key: "snd p = ca_expires_at x" if "p \<in> set (expiries cache)" "(fst p, x) \<in> set cache" for p x
    using that assms(1) by (auto simp: expiries_facts dest: eq_key_imp_eq_value)
  from assms(3,4) obtain p' where p': "p' \<in> set ?T" "fst p' = h'"
    unfolding shed_soonest_eq by (simp add: image_iff) metis
  from assms(2) have e: "(h, e) \<in> set cache" "h \<notin> fst ` set ?T" unfolding shed_soonest_eq by simp_all
  have "h \<in> fst ` set (expiries cache)" unfolding expiries_facts(3) using image_eqI [OF _ e(1), of h fst] by simp
  then obtain p where p: "p \<in> set (expiries cache)" "fst p = h" by auto
  moreover have "set (expiries cache) = set ?T \<union> set ?D" by (metis append_take_drop_id set_append)
  ultimately have "p \<in> set ?D" using e(2) by auto
  moreover have "sorted (map snd ?T @ map snd ?D)"
    unfolding map_append [symmetric] append_take_drop_id by (simp add: expiries_def)
  ultimately have "snd p' \<le> snd p" using p'(1) by (auto simp: sorted_append)
  moreover have "p' \<in> set (expiries cache)" using p'(1) set_take_subset by fast
  ultimately show ?thesis using key [of p' e'] key [of p e] assms(3) e(1) p(1,2) p'(2) by simp
qed

lemma make_room_subset: "set (make_room now cache) \<subseteq> set cache"
  by (auto simp: make_room_def shed_soonest_eq Let_def)

lemma make_room_distinct: "distinct (map fst cache) \<Longrightarrow> distinct (map fst (make_room now cache))"
  by (auto simp: make_room_def shed_soonest_eq Let_def intro!: distinct_map_filter)

lemma make_room_length:
  assumes "distinct (map fst cache)" and "length cache \<le> DNS_CACHE_CAP"
  shows "length (make_room now cache) < DNS_CACHE_CAP"
proof -
  let ?S = "filter (\<lambda>(_, e). now < ca_expires_at e + DNS_STALE_FALLBACK_WINDOW) cache"
  have "distinct (map fst ?S)" using assms(1) by (rule distinct_map_filter)
  moreover have "length ?S \<le> DNS_CACHE_CAP" using assms(2) length_filter_le le_trans by blast
  ultimately show ?thesis
    using shed_soonest_length [of ?S] by (auto simp: make_room_def Let_def DNS_CACHE_CAP_def)
qed

lemma make_room_lookup:
  assumes "distinct (map fst cache)" and "map_of (make_room now cache) k = Some e"
  shows "map_of cache k = Some e"
  using map_of_SomeD [OF assms(2)] make_room_subset [of now cache] assms(1) by (intro map_of_is_SomeI) auto

section \<open>The invariant\<close>

definition scores_ok :: "int list \<Rightarrow> bool" where
  "scores_ok scores \<longleftrightarrow> list_all (\<lambda>v. \<bar>v\<bar> \<le> DOH_SCORE_LIMIT) scores"

definition dns_ok :: "dns_state \<Rightarrow> bool" where
  "dns_ok st \<longleftrightarrow> distinct (map fst (ds_cache st)) \<and> length (ds_cache st) \<le> DNS_CACHE_CAP \<and>
     list_all (\<lambda>(_, e). ca_generation e = ds_generation st) (ds_cache st) \<and>
     distinct (map fst (ds_fallback st)) \<and> scores_ok (ds_scores st)"

lemma distinct_fallback_merge:
  "distinct (map fst (ds_fallback st)) \<Longrightarrow> distinct (map fst (ds_fallback (merge_disk_fallback_entry h e st)))"
  by (auto simp: merge_disk_fallback_entry_def distinct_update split: option.split)

lemma distinct_fallback_merges:
  "distinct (map fst (ds_fallback st)) \<Longrightarrow>
   distinct (map fst (ds_fallback (fold (\<lambda>(h, e). merge_disk_fallback_entry h e) ps st)))"
  by (induction ps arbitrary: st) (auto simp: distinct_fallback_merge)

lemma dns_ok_merge: "dns_ok st \<Longrightarrow> dns_ok (merge_disk_fallback_entry h e st)"
  by (simp add: dns_ok_def distinct_fallback_merge)

lemma length_update_le: "length (AList.update k v al) \<le> Suc (length al)"
  by (induction al) auto

lemma set_update_subset: "set (AList.update k v al) \<subseteq> insert (k, v) (set al)"
  by (induction al) auto

lemma dns_ok_insert:
  assumes "dns_ok st"
  shows "dns_ok (insert_capped now h a st)"
proof -
  let ?m = "make_room now (ds_cache st)"
  let ?a = "a\<lparr>ca_generation := ds_generation st, ca_version := ds_next_version st\<rparr>"
  have "distinct (map fst ?m)" "length ?m < DNS_CACHE_CAP"
    using assms make_room_distinct make_room_length by (auto simp: dns_ok_def)
  moreover have "(\<lambda>(_, e). ca_generation e = ds_generation st) p" if "p \<in> set (AList.update h ?a ?m)" for p
  proof -
    have "p = (h, ?a) \<or> p \<in> set (ds_cache st)"
      using that set_update_subset [of h ?a ?m] make_room_subset [of now "ds_cache st"] by blast
    then show ?thesis using assms by (auto simp: dns_ok_def list_all_iff)
  qed
  ultimately show ?thesis
    using assms length_update_le [of h ?a ?m]
    by (auto simp: dns_ok_def insert_capped_def Let_def distinct_update list_all_iff)
qed

lemma dns_ok_flush: "dns_ok st \<Longrightarrow> dns_ok (flush_dns_cache now st)"
  by (auto simp: dns_ok_def flush_dns_cache_def flush_take_def distinct_fallback_merges scores_ok_def
      list_all_iff DOH_SCORE_LIMIT_def)

lemma dns_ok_note: "dns_ok st \<Longrightarrow> dns_ok (note_doh_result i answered st)"
  by (auto simp: dns_ok_def note_doh_result_def scores_ok_def DOH_SCORE_LIMIT_def Let_def list_all_length nth_list_update)

lemma dns_ok_invalidate: "dns_ok st \<Longrightarrow> dns_ok (snd (invalidate_if_current g h i t st))"
  by (auto simp: dns_ok_def invalidate_if_current_def list_all_iff AList.delete_eq
      intro: distinct_map_filter order_trans [OF length_filter_le] split: option.split)

lemma rehash_distinct: "mset xs = mset ys \<Longrightarrow> distinct (map fst xs) \<longleftrightarrow> distinct (map fst ys)"
  by (rule mset_eq_imp_distinct_iff) (simp add: mset_map)

lemma dns_ok_rehash:
  assumes "dns_ok st" and m: "mset cache = mset (ds_cache st)"
  shows "dns_ok (st\<lparr>ds_cache := cache\<rparr>)"
proof -
  show ?thesis
    using assms mset_eq_length [OF m] mset_eq_setD [OF m] rehash_distinct [OF m] by (auto simp: dns_ok_def list_all_iff)
qed

lemma dns_ok_op: "dns_ok st \<Longrightarrow> dns_ok (apply_op op st)"
  by (cases op) (auto simp: publish_defs Let_def dns_ok_insert dns_ok_flush dns_ok_merge dns_ok_note
      dns_ok_invalidate dns_ok_rehash)

lemma dns_ok_run: "dns_ok st \<Longrightarrow> dns_ok (run_ops ops st)"
  by (induction ops arbitrary: st) (auto simp: dns_ok_op)

definition fresh_dns :: "nat \<Rightarrow> dns_state" where
  "fresh_dns providers = \<lparr>ds_generation = 0, ds_cache = [], ds_next_version = 1, ds_fallback = [],
     ds_scores = replicate providers 0\<rparr>"

lemma dns_ok_fresh: "dns_ok (fresh_dns n)"
  by (auto simp: dns_ok_def fresh_dns_def scores_ok_def DOH_SCORE_LIMIT_def list_all_iff DNS_CACHE_CAP_def)

text \<open>
  Whatever sequence of lookups, failures, network changes, invalidations and imports a process
  performs, its DNS cache holds at most 2048 hosts, one answer each, all of them obtained in the
  current network generation; provider scores stay within their limit; and right after a network
  change nothing is served from the live cache.
\<close>

theorem dns_cache_stays_bounded_and_current:
  "(let st = run_ops ops (fresh_dns n) in
     length (ds_cache st) \<le> DNS_CACHE_CAP \<and> distinct (map fst (ds_cache st)) \<and>
     list_all (\<lambda>(_, e). ca_generation e = ds_generation st) (ds_cache st) \<and>
     list_all (\<lambda>v. \<bar>v\<bar> \<le> DOH_SCORE_LIMIT) (ds_scores st)) \<and>
   cached_doh_answer_observed host now (run_ops (ops @ [Flush t]) (fresh_dns n)) = None \<and>
   stale_fallback_answer_observed host now (run_ops (ops @ [Flush t]) (fresh_dns n)) = None"
  using dns_ok_run [OF dns_ok_fresh [of n], of ops]
  by (simp add: dns_ok_def scores_ok_def Let_def cached_doh_answer_observed_def stale_fallback_answer_observed_def)

section \<open>Network generations\<close>

lemma generation_op:
  "ds_generation (apply_op op st) = (if is_flush op then ds_generation st + 1 else ds_generation st)"
  by (cases op) (auto simp: publish_defs Let_def note_doh_result_def invalidate_if_current_def split: option.split)

lemma generation_run: "ds_generation (run_ops ops st) = ds_generation st + of_nat (length (filter is_flush ops))"
  by (induction ops arbitrary: st) (auto simp: generation_op)

lemma same_generation_iff:
  assumes "length (filter is_flush ops) < 2 ^ 64"
  shows "ds_generation (run_ops ops st) = ds_generation st \<longleftrightarrow> filter is_flush ops = []"
proof -
  have "(of_nat (length (filter is_flush ops)) :: u64) = 0 \<longleftrightarrow> 2 ^ 64 dvd length (filter is_flush ops)"
    by (simp add: word_of_nat_eq_0_iff)
  then show ?thesis using assms by (auto simp: generation_run dest: nat_dvd_not_less)
qed

text \<open>
  C17: A lookup that captured the network generation before it started publishes its answer exactly
  when no network change happened meanwhile, whatever else the process did; then the answer is served
  at once, and otherwise nothing is written.
\<close>

theorem lookup_publishes_iff_network_unchanged:
  assumes "length (filter is_flush ops) < 2 ^ 64"
  shows "(case remember_doh_answer_if_generation_observed now unix host ips valid_for (ds_generation st) (run_ops ops st) of
     (Some identity, st') \<Rightarrow> \<not> list_ex is_flush ops \<and> cached_doh_answer_observed host now st' = Some (ips, identity)
   | (None, st') \<Rightarrow> list_ex is_flush ops \<and> st' = run_ops ops st)"
proof -
  have "list_ex is_flush ops \<longleftrightarrow> filter is_flush ops \<noteq> []"
    by (auto simp: list_ex_iff filter_empty_conv)
  moreover have "0 < clamp DNS_MIN_TTL DNS_MAX_TTL valid_for"
    by (simp add: clamp_def DNS_MIN_TTL_def DNS_MAX_TTL_def secs_def)
  ultimately show ?thesis
    using same_generation_iff [OF assms, of st]
    by (auto simp: remember_doh_answer_if_generation_observed_def store_cached_if_generation_observed_def Let_def
        insert_capped_lookup cached_doh_answer_observed_def cache_identity_of_def)
qed

theorem lookup_publishes_iff_network_unchanged_witness:
  "fst (remember_doh_answer_if_generation_observed 5 7 ''a'' [V4 1] 0 0 (run_ops [Flush 3] (fresh_dns 2))) = None \<and>
   fst (remember_doh_answer_if_generation_observed 5 7 ''a'' [V4 1] 0 0 (run_ops [NoteResult 1 True] (fresh_dns 2))) \<noteq> None"
  using lookup_publishes_iff_network_unchanged [where ops = "[Flush 3]" and now = 5 and unix = 7
      and host = "''a''" and ips = "[V4 1]" and valid_for = 0 and st = "fresh_dns 2"]
    lookup_publishes_iff_network_unchanged [where ops = "[NoteResult 1 True]" and now = 5 and unix = 7
      and host = "''a''" and ips = "[V4 1]" and valid_for = 0 and st = "fresh_dns 2"]
  by (auto simp: fresh_dns_def split: prod.splits option.splits)

text \<open>
  A failed lookup never hides an answer that is still fresh: in a well-formed cache recording a
  failure writes exactly when the generation is current and no fresh positive answer is held, and
  then the host is remembered as unresolvable for the negative lifetime only.
\<close>

theorem failure_never_hides_fresh_answer:
  assumes "dns_ok st"
  shows "(let fresh = (\<exists>ips identity. ips \<noteq> [] \<and> cached_doh_answer_observed host now st = Some (ips, identity)) in
     case remember_doh_failure_if_generation now unix host gen st of
       (True, st') \<Rightarrow> gen = ds_generation st \<and> \<not> fresh \<and>
         ((\<exists>identity. cached_doh_answer_observed host later st' = Some ([], identity)) \<longleftrightarrow> later < now + DNS_NEGATIVE_TTL)
     | (False, st') \<Rightarrow> (gen \<noteq> ds_generation st \<or> fresh) \<and> st' = st)"
proof -
  have "ca_generation e = ds_generation st" if "map_of (ds_cache st) host = Some e" for e
    using assms map_of_SomeD [OF that] by (auto simp: dns_ok_def list_all_iff)
  then show ?thesis
    by (auto simp: remember_doh_failure_if_generation_def cached_doh_answer_observed_def insert_capped_lookup
        Let_def split: option.splits)
qed

theorem failure_never_hides_fresh_answer_witness:
  "let st = snd (remember_doh_answer_if_generation_observed 5 7 ''a'' [V4 1] 0 0 (fresh_dns 2))
   in remember_doh_failure_if_generation 9 8 ''a'' 0 st = (False, st)"
proof -
  let ?st = "snd (remember_doh_answer_if_generation_observed 5 7 ''a'' [V4 1] 0 0 (fresh_dns 2))"
  have ok: "dns_ok ?st"
    using dns_ok_op [OF dns_ok_fresh, of "Publish ''a'' [V4 1] 0 0 5 7" 2] by simp
  have "\<exists>identity. cached_doh_answer_observed ''a'' 9 ?st = Some ([V4 1], identity)"
    by (simp add: publish_defs Let_def fresh_dns_def insert_capped_lookup cached_doh_answer_observed_def clamp_def
        DNS_MIN_TTL_def DNS_MAX_TTL_def secs_def)
  then show ?thesis
    using failure_never_hides_fresh_answer [OF ok, where host = "''a''" and now = 9 and unix = 8 and gen = 0 and later = 0]
    by (auto simp: Let_def split: prod.splits bool.splits)
qed

section \<open>Invalidation\<close>

text \<open>The host's entry, if it still has version \<open>v\<close>, is the one that was written under it.\<close>

definition only_as :: "str \<Rightarrow> cached_answer \<Rightarrow> dns_state \<Rightarrow> bool" where
  "only_as host e0 st \<longleftrightarrow> ca_version e0 < ds_next_version st \<and>
     (\<forall>e. map_of (ds_cache st) host = Some e \<longrightarrow> ca_version e = ca_version e0 \<longrightarrow> e = e0)"

lemma next_version_op:
  "ds_next_version (apply_op op st) = ds_next_version st \<or> ds_next_version (apply_op op st) = ds_next_version st + 1"
  by (cases op) (auto simp: publish_defs Let_def note_doh_result_def invalidate_if_current_def split: option.split)

lemma only_as_insert:
  assumes "only_as h e0 st" and "dns_ok st" and "ds_next_version st < ds_next_version st + 1"
  shows "only_as h e0 (insert_capped now k a st)"
  using assms make_room_lookup [of "ds_cache st" now h]
  by (fastforce simp: only_as_def dns_ok_def insert_capped_lookup)

lemma only_as_op:
  assumes "only_as h e0 st" and "dns_ok st" and "ds_next_version st < ds_next_version st + 1"
  shows "only_as h e0 (apply_op op st)"
proof (cases op)
  case (Rehash cache)
  show ?thesis
  proof (cases "mset cache = mset (ds_cache st)")
    case True
    then have "distinct (map fst cache)" using assms(2) rehash_distinct by (auto simp: dns_ok_def)
    then have "map_of cache = map_of (ds_cache st)"
      using assms(2) mset_eq_setD [OF True] by (intro map_of_eqI) (auto simp: dns_ok_def)
    then show ?thesis using assms(1) Rehash True by (simp add: only_as_def)
  qed (use assms(1) Rehash in simp)
next
  case (Invalidate g host i t)
  then show ?thesis
    using assms(1) by (auto simp: only_as_def invalidate_if_current_def delete_conv split: option.split)
qed (use assms only_as_insert [OF assms] in \<open>auto simp: publish_defs Let_def, (auto simp: only_as_def note_doh_result_def)?\<close>)

lemma unat_next: "unat w + 1 < 2 ^ 64 \<Longrightarrow> unat (w + 1 :: u64) = unat w + 1"
  by (simp add: unat_word_ariths)

lemma only_as_run:
  assumes "only_as h e0 st" and "dns_ok st" and "unat (ds_next_version st) + length ops < 2 ^ 64"
  shows "only_as h e0 (run_ops ops st)"
  using assms
proof (induction ops arbitrary: st)
  case (Cons op ops)
  have nv: "unat (ds_next_version st + 1) = unat (ds_next_version st) + 1"
    using Cons.prems(3) by (intro unat_next) simp
  have "ds_next_version st < ds_next_version st + 1" by (simp add: word_less_nat_alt nv)
  then have "only_as h e0 (apply_op op st)" using only_as_op Cons.prems(1,2) by blast
  moreover have "unat (ds_next_version (apply_op op st)) + length ops < 2 ^ 64"
    using next_version_op [of op st] Cons.prems(3) nv by auto
  ultimately show ?case using Cons.IH dns_ok_op [OF Cons.prems(2)] by simp
qed simp

text \<open>
  A failed probe drops only the very answer it used.  Whatever the process did between caching an
  answer and the probe's verdict, invalidating by that answer's identity removes the host's entry only
  if it is still that answer and the addresses tried were its own; every other host keeps its entry,
  and in all other cases nothing changes.
\<close>

theorem invalidation_drops_only_the_observed_answer:
  assumes "dns_ok st"
    and "remember_doh_answer_if_generation_observed now unix host ips valid_for gen st = (Some identity, st1)"
    and "unat (ds_next_version st) + length ops + 1 < 2 ^ 64"
  shows "(let st2 = run_ops ops st1 in
     case invalidate_if_current gen_seen host identity tried st2 of
       (True, st3) \<Rightarrow> map_option ca_addrs (map_of (ds_cache st2) host) = Some ips \<and> tried \<noteq> [] \<and>
         set tried \<subseteq> set ips \<and> map_of (ds_cache st3) = (map_of (ds_cache st2))(host := None)
     | (False, st3) \<Rightarrow> st3 = st2)"
proof -
  let ?e = "\<lparr>ca_addrs = ips, ca_expires_at = now + clamp DNS_MIN_TTL DNS_MAX_TTL valid_for,
    ca_resolved_at_unix = unix, ca_generation = ds_generation st, ca_version = ds_next_version st\<rparr>"
  have st1: "st1 = insert_capped now host \<lparr>ca_addrs = ips, ca_expires_at = now + clamp DNS_MIN_TTL DNS_MAX_TTL valid_for,
      ca_resolved_at_unix = unix, ca_generation = 0, ca_version = 0\<rparr> st"
    and id: "identity = cache_identity_of ?e"
    using assms(2) by (auto simp: publish_defs Let_def insert_capped_lookup split: if_splits)
  have nv: "unat (ds_next_version st + 1) = unat (ds_next_version st) + 1"
    using assms(3) by (intro unat_next) simp
  have "only_as host ?e st1"
    by (simp add: only_as_def st1 insert_capped_lookup word_less_nat_alt nv)
  moreover have "dns_ok st1" unfolding st1 by (rule dns_ok_insert [OF assms(1)])
  ultimately have "only_as host ?e (run_ops ops st1)"
    using assms(3) by (intro only_as_run) (auto simp: st1 nv)
  then show ?thesis
    by (auto simp: only_as_def invalidate_if_current_def id cache_identity_of_def Let_def list_all_iff delete_conv
        split: option.splits)
qed

theorem invalidation_drops_only_the_observed_answer_witness:
  "\<exists>identity st1. remember_doh_answer_if_generation_observed 5 7 ''a'' [V4 1] 0 0 (fresh_dns 2) = (Some identity, st1) \<and>
     (case invalidate_if_current 0 ''a'' identity [V4 1] (run_ops [NoteResult 0 True] st1) of
        (True, st3) \<Rightarrow> map_of (ds_cache st3) ''a'' = None | (False, st3) \<Rightarrow> st3 = run_ops [NoteResult 0 True] st1)"
proof -
  let ?r = "remember_doh_answer_if_generation_observed 5 7 ''a'' [V4 1] 0 0 (fresh_dns 2)"
  have "fst ?r \<noteq> None" by (simp add: publish_defs Let_def fresh_dns_def insert_capped_lookup)
  then obtain identity st1 where r: "?r = (Some identity, st1)" by (cases ?r) auto
  show ?thesis
    using r invalidation_drops_only_the_observed_answer [OF dns_ok_fresh r, where ops = "[NoteResult 0 True]"
        and gen_seen = 0 and tried = "[V4 1]"]
    by (auto simp: fresh_dns_def Let_def split: prod.splits bool.splits)
qed

section \<open>Written lines read back\<close>

lemma visible_digits: "list_all visible (show_nat n)"
  by (auto simp: list_all_iff visible_def dest!: show_nat_char_range)

lemma visible_ip: "list_all visible (show_ip ip)"
proof -
  have "visible c" if "ip_char c" for c
    using that by (auto simp: ip_char_def visible_def is_digit_def to_digit_def Let_def split: if_splits)
  then show ?thesis using show_ip_chars [of ip] by (auto simp: list_all_iff)
qed

lemma show_ip_free: "CHR '','' \<notin> set (show_ip ip)" "tab \<notin> set (show_ip ip)"
proof -
  have "\<not> ip_char CHR '',''" "\<not> ip_char tab" unfolding tab_def by code_simp+
  then show "CHR '','' \<notin> set (show_ip ip)" "tab \<notin> set (show_ip ip)"
    using show_ip_chars [of ip] by (auto simp: list_all_iff)
qed

lemma parse_addrs_join: "parse_addrs (join '','' (map show_ip ips)) = ips"
proof (cases "ips = []")
  case False
  have "split_on CHR '','' (join '','' (map show_ip ips)) = map show_ip ips"
    using False by (intro split_on_join) (auto simp: show_ip_free)
  then show ?thesis
    by (simp add: parse_addrs_def filter_map comp_def show_ip_not_Nil map_filter_def ip_from_str_show)
qed (simp add: parse_addrs_def map_filter_def)

lemma tab_not_in_addrs: "tab \<notin> set (join '','' (map show_ip ips))"
proof
  assume "tab \<in> set (join '','' (map show_ip ips))"
  then have "tab \<in> set '','' \<union> \<Union> (set ` set (map show_ip ips))" by (rule subsetD [OF set_join])
  moreover have "tab \<noteq> CHR '',''" by (simp add: tab_def)
  ultimately show False using show_ip_free(2) by auto
qed

lemma parse_stamp: "parse_uint 10 18446744073709551616 (show_nat (unat (u :: u64))) = Some (unat u)"
  using unsigned_less [of u, where ?'a = nat] by (simp add: parse_uint_show_nat)

lemma persisted_line_reads_back:
  assumes "tab \<notin> set host"
  shows "parse_persisted_line unix (format_persisted_line host e) =
    (if pa_addrs e = [] \<or> stamp_beyond_future_tolerance unix (pa_resolved_at_unix e) then None else Some (host, e))"
proof -
  let ?a = "join '','' (map show_ip (pa_addrs e))" and ?n = "show_nat (unat (pa_resolved_at_unix e))"
  have "split_once tab (format_persisted_line host e) = Some (host, ?a @ tab # ?n)"
    using assms by (simp add: format_persisted_line_def split_once_Some_iff)
  moreover have "split_once tab (?a @ tab # ?n) = Some (?a, ?n)"
    by (simp add: split_once_Some_iff tab_not_in_addrs)
  ultimately show ?thesis
    by (simp add: parse_persisted_line_def parse_addrs_join trim_visible visible_digits parse_stamp)
qed

lemma hint_tokens:
  assumes "ws_free host" and "host \<noteq> []" and "ips \<noteq> []"
  shows "split_whitespace (host @ '' '' @ join '','' (map show_ip ips) @ '' '' @ show_nat n) =
    [host, join '','' (map show_ip ips), show_nat n]"
proof -
  let ?a = "join '','' (map show_ip ips)"
  have "ws_free ?a" using ws_free_visible [OF visible_ip] by (intro ws_free_join) (auto simp: visible_def list_all_iff)
  moreover have "?a \<noteq> []" using assms(3) parse_addrs_join [of ips] by (auto simp: parse_addrs_def map_filter_def)
  ultimately have "split_whitespace (join '' '' [host, ?a, show_nat n]) = [host, ?a, show_nat n]"
    using assms(1,2) by (intro split_whitespace_join) (simp add: ws_free_visible visible_digits)
  then show ?thesis by simp
qed

lemma hint_tokens_none:
  assumes "ws_free host" and "host \<noteq> []"
  shows "split_whitespace (host @ '' '' @ '' '' @ show_nat n) = [host, show_nat n]"
  using split_ws_from_token [OF assms(1), of "[]" "'' '' @ show_nat n"] split_ws_from_token [of "[]" "[]" "show_nat n"]
    split_ws_from_last [OF ws_free_visible [OF visible_digits], of "[]" n] assms(2)
  by (simp add: split_whitespace_def)

lemma hint_line_reads_back:
  assumes "ws_free (dh_host h)" and "dh_host h \<noteq> []"
  shows "parse_dns_hint_line unix (format_dns_hint_line h) =
    (if dh_addrs h = [] \<or> stamp_beyond_future_tolerance unix (dh_resolved_at_unix h) then None else Some h)"
proof -
  let ?a = "join '','' (map show_ip (dh_addrs h))" and ?n = "show_nat (unat (dh_resolved_at_unix h))"
  have line: "strip_prefix DNS_HINT_PREFIX (format_dns_hint_line h) = Some (dh_host h @ '' '' @ ?a @ '' '' @ ?n)"
    by (simp add: format_dns_hint_line_def)
  show ?thesis
  proof (cases "dh_addrs h = []")
    case True
    then show ?thesis using line hint_tokens_none [OF assms] by (simp add: parse_dns_hint_line_def)
  next
    case False
    then show ?thesis using line hint_tokens [OF assms False] 
      by (simp add: parse_dns_hint_line_def parse_addrs_join parse_stamp)
  qed
qed

text \<open>
  What the process writes down about a host it reads back: a persisted line and a shared hint
  line give the same host, addresses (of both families) and time stamp, and a line with no address or
  with a stamp too far in the future is refused.
\<close>

theorem written_answers_read_back:
  assumes "tab \<notin> set host" and "ws_free host" and "host \<noteq> []"
  shows "parse_persisted_line unix (format_persisted_line host \<lparr>pa_addrs = ips, pa_resolved_at_unix = t\<rparr>) =
      (if ips = [] \<or> stamp_beyond_future_tolerance unix t then None
       else Some (host, \<lparr>pa_addrs = ips, pa_resolved_at_unix = t\<rparr>)) \<and>
    parse_dns_hint_line unix (format_dns_hint_line \<lparr>dh_host = host, dh_addrs = ips, dh_resolved_at_unix = t\<rparr>) =
      (if ips = [] \<or> stamp_beyond_future_tolerance unix t then None
       else Some \<lparr>dh_host = host, dh_addrs = ips, dh_resolved_at_unix = t\<rparr>)"
  using persisted_line_reads_back [OF assms(1), of unix "\<lparr>pa_addrs = ips, pa_resolved_at_unix = t\<rparr>"]
    hint_line_reads_back [of "\<lparr>dh_host = host, dh_addrs = ips, dh_resolved_at_unix = t\<rparr>" unix] assms(2,3)
  by simp

theorem written_answers_read_back_witness:
  "parse_persisted_line 1000 (format_persisted_line ''a.example'' \<lparr>pa_addrs = [V4 1, V6 1], pa_resolved_at_unix = 900\<rparr>) =
     Some (''a.example'', \<lparr>pa_addrs = [V4 1, V6 1], pa_resolved_at_unix = 900\<rparr>)"
proof -
  have "list_all visible ''a.example''" by code_simp
  then have "ws_free ''a.example''" by (rule ws_free_visible)
  moreover have "tab \<notin> set ''a.example''" unfolding tab_def by code_simp
  moreover have "\<not> stamp_beyond_future_tolerance 1000 900" by code_simp
  ultimately show ?thesis
    using written_answers_read_back [of "''a.example''" 1000 "[V4 1, V6 1]" 900] by simp
qed

end
