(* ===== verification/ProbeDnsSteps.thy ===== *)
theory ProbeDnsSteps
  imports ProbeDns
begin

text \<open>
  Saving the prober's DNS answers while the network changes (\<open>dns.rs\<close>): the flush moves live answers
  to the fallback store under the transition gate, a capture reads both stores under the same gate
  and takes the next generation number, and a save job publishes its file only when no later one has been published.
  The machine interleaves any number of flushes, captures, save jobs and cache operations.
\<close>

section \<open>Captures and files\<close>

type_synonym snapshot = "(str \<times> persisted_answer) list"

definition capture_live :: "nat \<Rightarrow> dns_state \<Rightarrow> snapshot" where
  "capture_live now st =
     map (\<lambda>(host, e). (host, \<lparr>pa_addrs = ca_addrs e, pa_resolved_at_unix = ca_resolved_at_unix e\<rparr>))
       (filter (\<lambda>(_, e). ca_addrs e \<noteq> [] \<and> live_entry_is_usable e now) (ds_cache st))"

definition capture_disk :: "u64 \<Rightarrow> snapshot \<Rightarrow> dns_state \<Rightarrow> snapshot" where
  "capture_disk unix live st =
     filter (\<lambda>(_, e). unat unix - unat (pa_resolved_at_unix e) \<le> window_secs)
       (filter (\<lambda>(host, _). host \<notin> fst ` set live) (ds_fallback st))"

definition file_contents :: "snapshot \<Rightarrow> str" where
  "file_contents snap = join [newline] (map (\<lambda>(host, e). format_persisted_line host e) snap)"

section \<open>The machine\<close>

text \<open>
  The transition gate is free, held by a flush that still has answers to merge, or held by a capture
  that has read the live cache.  \<open>sv_log\<close> lists the captures in their order, \<open>sv_flushed\<close> the answers
  flushes took out of the live cache, \<open>sv_ok\<close> the generations of the saves that returned success, and
  \<open>sv_on_disk\<close> the number of the capture the file holds (zero for the file found at the start);
  no step reads these four.  Generation numbers are \<open>u64\<close> and wrap.
\<close>

datatype gate = Free | Flushing snapshot | Capturing snapshot

record save_state =
  sv_dns :: dns_state
  sv_gate :: gate
  sv_next :: u64
  sv_published :: u64
  sv_file :: "str option"
  sv_jobs :: "(u64 \<times> str) list"
  sv_log :: "snapshot list"
  sv_flushed :: "(str \<times> u64) list"
  sv_ok :: "u64 list"
  sv_on_disk :: nat

text \<open>
  \<open>rename_into_target\<close> renames the file and then syncs its directory: when the sync fails, the save reports an error and
  leaves the published generation as it was, but the new contents are in place (\<open>job_unsynced\<close>).
\<close>

inductive save_step :: "save_state \<Rightarrow> save_state \<Rightarrow> bool" where
  operation:
    "\<not> is_flush op \<Longrightarrow> save_step s (s\<lparr>sv_dns := apply_op op (sv_dns s)\<rparr>)"
| flush_begin:
    "sv_gate s = Free \<Longrightarrow> flush_take now (sv_dns s) = (preserved, dns) \<Longrightarrow>
     save_step s (s\<lparr>sv_gate := Flushing preserved, sv_dns := dns,
       sv_flushed := sv_flushed s @ map (\<lambda>(host, e). (host, pa_resolved_at_unix e)) preserved\<rparr>)"
| flush_merge:
    "sv_gate s = Flushing ((host, e) # rest) \<Longrightarrow>
     save_step s (s\<lparr>sv_gate := Flushing rest, sv_dns := merge_disk_fallback_entry host e (sv_dns s)\<rparr>)"
| flush_end:
    "sv_gate s = Flushing [] \<Longrightarrow>
     save_step s (s\<lparr>sv_gate := Free, sv_dns := (sv_dns s)\<lparr>ds_scores := map (\<lambda>_. 0) (ds_scores (sv_dns s))\<rparr>\<rparr>)"
| capture_first:
    "sv_gate s = Free \<Longrightarrow> save_step s (s\<lparr>sv_gate := Capturing (capture_live now (sv_dns s))\<rparr>)"
| capture_second:
    "sv_gate s = Capturing live \<Longrightarrow> snap = live @ capture_disk unix live (sv_dns s) \<Longrightarrow>
     save_step s (s\<lparr>sv_gate := Free, sv_next := sv_next s + 1,
       sv_jobs := (sv_next s + 1, file_contents snap) # sv_jobs s, sv_log := sv_log s @ [snap]\<rparr>)"
| job_fails:
    "(gen, contents) \<in> set (sv_jobs s) \<Longrightarrow>
     save_step s (s\<lparr>sv_jobs := remove1 (gen, contents) (sv_jobs s)\<rparr>)"
| job_skips:
    "(gen, contents) \<in> set (sv_jobs s) \<Longrightarrow> gen \<le> sv_published s \<Longrightarrow>
     save_step s (s\<lparr>sv_jobs := remove1 (gen, contents) (sv_jobs s), sv_ok := gen # sv_ok s\<rparr>)"
| job_unsynced:
    "(gen, contents) \<in> set (sv_jobs s) \<Longrightarrow> \<not> gen \<le> sv_published s \<Longrightarrow>
     save_step s (s\<lparr>sv_jobs := remove1 (gen, contents) (sv_jobs s), sv_file := Some contents, sv_on_disk := unat gen\<rparr>)"
| job_publishes:
    "(gen, contents) \<in> set (sv_jobs s) \<Longrightarrow> \<not> gen \<le> sv_published s \<Longrightarrow>
     save_step s (s\<lparr>sv_jobs := remove1 (gen, contents) (sv_jobs s), sv_file := Some contents,
       sv_published := gen, sv_ok := gen # sv_ok s, sv_on_disk := unat gen\<rparr>)"

inductive save_reach :: "dns_state \<Rightarrow> str option \<Rightarrow> save_state \<Rightarrow> bool" for dns initial where
  start: "save_reach dns initial \<lparr>sv_dns = dns, sv_gate = Free, sv_next = 0, sv_published = 0, sv_file = initial,
    sv_jobs = [], sv_log = [], sv_flushed = [], sv_ok = [], sv_on_disk = 0\<rparr>"
| step: "save_reach dns initial s \<Longrightarrow> save_step s s' \<Longrightarrow> save_reach dns initial s'"

section \<open>No rollback of what was saved\<close>

text \<open>Generation \<open>gen\<close> is the number of a capture, and the contents are that capture's.\<close>

definition job_ok :: "snapshot list \<Rightarrow> u64 \<times> str \<Rightarrow> bool" where
  "job_ok log job \<longleftrightarrow> 0 < unat (fst job) \<and> unat (fst job) \<le> length log \<and> snd job = file_contents (log ! (unat (fst job) - 1))"

lemma job_ok_append: "job_ok log job \<Longrightarrow> job_ok (log @ [snap]) job"
  by (cases job) (auto simp: job_ok_def nth_append)

definition on_disk :: "str option \<Rightarrow> snapshot list \<Rightarrow> nat \<Rightarrow> str option" where
  "on_disk initial log n = (if n = 0 then initial else Some (file_contents (log ! (n - 1))))"

definition files_ok :: "str option \<Rightarrow> save_state \<Rightarrow> bool" where
  "files_ok initial s \<longleftrightarrow> unat (sv_next s) = length (sv_log s) \<and> list_all (job_ok (sv_log s)) (sv_jobs s) \<and>
     sv_file s = on_disk initial (sv_log s) (sv_on_disk s) \<and> sv_on_disk s \<le> length (sv_log s) \<and>
     unat (sv_published s) \<le> sv_on_disk s \<and> list_all (\<lambda>gen. gen \<le> sv_published s) (sv_ok s)"

lemma on_disk_append: "n \<le> length log \<Longrightarrow> on_disk initial (log @ [snap]) n = on_disk initial log n"
  by (auto simp: on_disk_def nth_append)

lemma jobs_remove1: "list_all P xs \<Longrightarrow> list_all P (remove1 x xs)"
  using set_remove1_subset [of x xs] by (auto simp: list_all_iff)

lemma files_ok_step:
  assumes "files_ok initial s" and "save_step s s'" and "length (sv_log s') < 2 ^ 64"
  shows "files_ok initial s'"
  using assms(2)
proof cases
  case (capture_second live snap unix)
  have incr: "unat (sv_next s + 1) = Suc (length (sv_log s))"
    using assms(1,3) capture_second by (simp add: files_ok_def unat_word_ariths)
  then have "job_ok (sv_log s @ [snap]) (sv_next s + 1, file_contents snap)" by (simp add: job_ok_def)
  moreover have "list_all (job_ok (sv_log s @ [snap])) (sv_jobs s)"
    using assms(1) job_ok_append by (auto simp: files_ok_def list_all_iff)
  ultimately show ?thesis using assms(1) incr capture_second by (simp add: files_ok_def on_disk_append)
next
  case (job_unsynced gen contents)
  then have "job_ok (sv_log s) (gen, contents)" using assms(1) by (auto simp: files_ok_def list_all_iff)
  then show ?thesis using assms(1) job_unsynced
    by (auto simp: files_ok_def jobs_remove1 on_disk_def job_ok_def word_le_nat_alt)
next
  case (job_publishes gen contents)
  then have j: "job_ok (sv_log s) (gen, contents)" using assms(1) by (auto simp: files_ok_def list_all_iff)
  have "list_all (\<lambda>g. g \<le> gen) (sv_ok s)"
    using assms(1) job_publishes by (auto simp: files_ok_def list_all_iff)
  then show ?thesis using assms(1) job_publishes j
    by (auto simp: files_ok_def jobs_remove1 on_disk_def job_ok_def)
qed (use assms(1) in \<open>auto simp: files_ok_def jobs_remove1\<close>)

lemma log_grows: "save_step s s' \<Longrightarrow> length (sv_log s) \<le> length (sv_log s')"
  by (induction rule: save_step.induct) auto

lemma files_ok_reach: "save_reach dns initial s \<Longrightarrow> length (sv_log s) < 2 ^ 64 \<Longrightarrow> files_ok initial s"
proof (induction rule: save_reach.induct)
  case start
  then show ?case by (simp add: files_ok_def on_disk_def)
next
  case (step s s')
  then show ?case using files_ok_step log_grows [OF step.hyps(2)] by force
qed

text \<open>
  C18: What a save has reported as done is never rolled back.  In every interleaving of fewer than 2 to the 64 captures the
  file holds the capture numbered \<open>sv_on_disk\<close> (the original file before the first), captures are numbered in the order in
  which their data was read, and before and after every step the file is at least as new as the capture of every save that
  has reported success.  So a step that replaces the file by an older capture only takes away one whose save reported an error.
\<close>

theorem saves_never_roll_back:
  assumes "save_reach dns initial s" and "save_step s s'" and "length (sv_log s') < 2 ^ 64"
  shows "sv_file s = on_disk initial (sv_log s) (sv_on_disk s) \<and> sv_on_disk s \<le> length (sv_log s) \<and>
    list_all (\<lambda>gen. unat gen \<le> sv_on_disk s) (sv_ok s) \<and> list_all (\<lambda>gen. unat gen \<le> sv_on_disk s') (sv_ok s @ sv_ok s') \<and>
    (sv_on_disk s' = sv_on_disk s \<longrightarrow> sv_file s' = sv_file s)"
proof -
  have ok: "files_ok initial s" using files_ok_reach [OF assms(1)] log_grows [OF assms(2)] assms(3) by simp
  have ok': "files_ok initial s'" by (rule files_ok_step [OF ok assms(2,3)])
  have acked: "set (sv_ok s) \<subseteq> set (sv_ok s')" using assms(2) by (cases rule: save_step.cases) auto
  have le: "unat gen \<le> sv_on_disk t" if "files_ok initial t" "gen \<in> set (sv_ok t)" for t gen
    using that by (force simp: files_ok_def list_all_iff word_le_nat_alt)
  have same: "sv_file s' = sv_file s" if "sv_on_disk s' = sv_on_disk s"
  proof -
    have "on_disk initial (sv_log s') (sv_on_disk s) = on_disk initial (sv_log s) (sv_on_disk s)"
      using assms(2) ok by (cases rule: save_step.cases) (auto simp: on_disk_append files_ok_def)
    then show ?thesis using ok ok' that by (simp add: files_ok_def)
  qed
  show ?thesis using ok le [OF ok] le [OF ok'] acked same
    by (fastforce simp: files_ok_def list_all_iff)
qed

text \<open>One capture of an empty cache, then its publication.\<close>

definition idle :: "nat \<Rightarrow> save_state" where
  "idle n = \<lparr>sv_dns = fresh_dns n, sv_gate = Free, sv_next = 0, sv_published = 0, sv_file = None,
     sv_jobs = [], sv_log = [], sv_flushed = [], sv_ok = [], sv_on_disk = 0\<rparr>"

definition captured :: "nat \<Rightarrow> save_state" where
  "captured n = (idle n)\<lparr>sv_next := 1, sv_jobs := [(1, file_contents [])], sv_log := [[]]\<rparr>"

lemma idle_reach: "save_reach (fresh_dns n) None (idle n)"
  unfolding idle_def by (rule save_reach.start)

lemma captured_reach: "save_reach (fresh_dns n) None (captured n)"
proof -
  let ?live = "capture_live 0 (sv_dns (idle n))"
  have "save_reach (fresh_dns n) None ((idle n)\<lparr>sv_gate := Capturing ?live\<rparr>)"
    by (rule save_reach.step [OF idle_reach capture_first]) (simp add: idle_def)
  then show ?thesis
    by (rule save_reach.step [OF _ capture_second [where live = "[]" and snap = "[]" and unix = 0, THEN back_subst [of "save_step _"]]])
       (simp_all add: captured_def idle_def capture_live_def capture_disk_def fresh_dns_def)
qed

theorem saves_never_roll_back_witness:
  "\<exists>s s'. save_reach (fresh_dns 1) None s \<and> save_step s s' \<and> sv_on_disk s' = 1 \<and> sv_file s = None \<and> sv_ok s' = [1] \<and>
     list_all (\<lambda>gen. unat gen \<le> sv_on_disk s') (sv_ok s @ sv_ok s')"
proof -
  let ?s' = "(captured 1)\<lparr>sv_jobs := remove1 (1, file_contents []) (sv_jobs (captured 1)), sv_file := Some (file_contents []),
    sv_published := 1, sv_ok := 1 # sv_ok (captured 1), sv_on_disk := unat (1 :: u64)\<rparr>"
  have st: "save_step (captured 1) ?s'" by (rule job_publishes) (simp_all add: captured_def idle_def)
  have "length (sv_log ?s') < 2 ^ 64" by (simp add: captured_def)
  from saves_never_roll_back [OF captured_reach st this] st show ?thesis
    using captured_reach [of 1] by (intro exI [of _ "captured 1"] exI [of _ ?s']) (simp add: captured_def idle_def)
qed

section \<open>What was not synced can be rolled back\<close>

text \<open>Two captures, the second after an answer has come in; neither has been published.\<close>

definition late_answer :: persisted_answer where
  "late_answer = \<lparr>pa_addrs = [V4 1], pa_resolved_at_unix = 7\<rparr>"

definition both_captured :: save_state where
  "both_captured = (captured 1)\<lparr>sv_dns := apply_op (Merge ''a'' late_answer) (fresh_dns 1), sv_next := 2,
     sv_jobs := [(2, file_contents [(''a'', late_answer)]), (1, file_contents [])], sv_log := [[], [(''a'', late_answer)]]\<rparr>"

lemma both_captured_reach: "save_reach (fresh_dns 1) None both_captured"
proof -
  let ?s1 = "(captured 1)\<lparr>sv_dns := apply_op (Merge ''a'' late_answer) (sv_dns (captured 1))\<rparr>"
  have 1: "save_reach (fresh_dns 1) None ?s1"
    by (rule save_reach.step [OF captured_reach operation]) simp
  have 2: "save_reach (fresh_dns 1) None (?s1\<lparr>sv_gate := Capturing (capture_live 0 (sv_dns ?s1))\<rparr>)"
    by (rule save_reach.step [OF 1 capture_first]) (simp add: captured_def idle_def)
  have live: "capture_live 0 (sv_dns ?s1) = []" by (simp add: captured_def idle_def capture_live_def fresh_dns_def)
  have disk: "capture_disk 7 [] (merge_disk_fallback_entry ''a'' late_answer (fresh_dns (Suc 0))) = [(''a'', late_answer)]"
    by (simp add: capture_disk_def fresh_dns_def merge_disk_fallback_entry_def late_answer_def)
  from 2 show ?thesis unfolding live
    by (rule save_reach.step [OF _ capture_second [where live = "[]" and snap = "[(''a'', late_answer)]" and unix = 7, THEN back_subst [of "save_step _"]]])
       (simp_all add: disk both_captured_def captured_def idle_def)
qed

text \<open>
  C38: A save can be rolled back after all.  The later of two captures is renamed into place, but the directory cannot be
  synced, so the save fails and the generation on disk is not recorded; then the save of the earlier capture, still running,
  passes the test against the recorded generation, replaces the newer file, and reports success.
\<close>

theorem unsynced_save_can_be_rolled_back:
  "\<exists>s s'. save_reach (fresh_dns 1) None s \<and> save_step s s' \<and>
     sv_file s = Some (file_contents (sv_log s ! 1)) \<and> sv_file s' = Some (file_contents (sv_log s ! 0)) \<and>
     sv_log s = [[], [(''a'', late_answer)]] \<and> sv_on_disk s' < sv_on_disk s \<and> sv_ok s' = [1]"
proof -
  let ?s = "both_captured\<lparr>sv_jobs := [(1, file_contents [])], sv_file := Some (file_contents [(''a'', late_answer)]), sv_on_disk := 2\<rparr>"
  let ?s' = "?s\<lparr>sv_jobs := [], sv_file := Some (file_contents []), sv_published := 1, sv_ok := [1], sv_on_disk := 1\<rparr>"
  have "save_step both_captured ?s"
    using job_unsynced [of 2 "file_contents [(''a'', late_answer)]" both_captured]
    by (simp add: both_captured_def captured_def idle_def)
  then have r: "save_reach (fresh_dns 1) None ?s" by (rule save_reach.step [OF both_captured_reach])
  have "save_step ?s ?s'"
    using job_publishes [of 1 "file_contents []" ?s] by (simp add: both_captured_def captured_def idle_def)
  with r show ?thesis by (intro exI [of _ ?s] exI [of _ ?s']) (simp add: both_captured_def)
qed

section \<open>Flushed answers are never missing from a capture\<close>

lemma merge_keeps_stamp:
  assumes "map_of (ds_fallback st) h = Some e"
  shows "\<exists>e'. map_of (ds_fallback (merge_disk_fallback_entry k x st)) h = Some e' \<and>
    pa_resolved_at_unix e \<le> pa_resolved_at_unix e'"
  using assms by (auto simp: merge_disk_fallback_entry_def update_conv split: option.split)

lemma merge_has_stamp:
  "\<exists>e'. map_of (ds_fallback (merge_disk_fallback_entry h e st)) h = Some e' \<and>
     pa_resolved_at_unix e \<le> pa_resolved_at_unix e'"
  by (auto simp: merge_disk_fallback_entry_def update_conv split: option.split)

lemma operation_fallback:
  assumes "\<not> is_flush op"
  shows "ds_fallback (apply_op op st) = ds_fallback st \<or>
    (\<exists>h e. apply_op op st = merge_disk_fallback_entry h e st)"
  using assms
  by (cases op) (auto simp: publish_defs Let_def note_doh_result_def invalidate_if_current_def split: option.split)

definition stored_since :: "dns_state \<Rightarrow> str \<Rightarrow> u64 \<Rightarrow> bool" where
  "stored_since st h t \<longleftrightarrow> (\<exists>e. map_of (ds_fallback st) h = Some e \<and> t \<le> pa_resolved_at_unix e)"

lemma stored_since_operation: "\<not> is_flush op \<Longrightarrow> stored_since st h t \<Longrightarrow> stored_since (apply_op op st) h t"
  using operation_fallback [of op st] merge_keeps_stamp [of st h] by (fastforce simp: stored_since_def)

lemma stored_since_merge: "stored_since st h t \<Longrightarrow> stored_since (merge_disk_fallback_entry k x st) h t"
  using merge_keeps_stamp [of st h _ k x] by (fastforce simp: stored_since_def)

fun being_merged :: "gate \<Rightarrow> str \<Rightarrow> u64 \<Rightarrow> bool" where
  "being_merged (Flushing ps) h t \<longleftrightarrow> (\<exists>e. (h, e) \<in> set ps \<and> pa_resolved_at_unix e = t)"
| "being_merged _ h t \<longleftrightarrow> False"

definition flushed_ok :: "save_state \<Rightarrow> bool" where
  "flushed_ok s \<longleftrightarrow> (\<forall>(h, t) \<in> set (sv_flushed s). stored_since (sv_dns s) h t \<or> being_merged (sv_gate s) h t)"

lemma flushed_ok_step:
  assumes "flushed_ok s" and "save_step s s'"
  shows "flushed_ok s'"
  using assms(2)
proof cases
  case (operation op)
  then show ?thesis using assms(1) stored_since_operation by (fastforce simp: flushed_ok_def)
next
  case (flush_begin now preserved dns)
  then show ?thesis using assms(1) by (fastforce simp: flushed_ok_def flush_take_def stored_since_def)
next
  case (flush_merge host e rest)
  then show ?thesis
    using assms(1) stored_since_merge merge_has_stamp [of host e "sv_dns s"]
    by (fastforce simp: flushed_ok_def stored_since_def)
qed (use assms(1) in \<open>auto simp: flushed_ok_def stored_since_def\<close>)

lemma flushed_ok_reach: "save_reach dns initial s \<Longrightarrow> flushed_ok s"
  by (induction rule: save_reach.induct) (auto simp: flushed_ok_step, simp add: flushed_ok_def)

text \<open>
  A network change never makes a save forget an answer.  When a capture completes, every answer
  that any flush has taken out of the live cache and that is still inside the fallback window has its
  host in the captured snapshot, whatever else ran in between.
\<close>

theorem captures_keep_flushed_answers:
  assumes "save_reach dns initial s" and "sv_gate s = Capturing live"
    and "snap = live @ capture_disk unix live (sv_dns s)"
    and "(host, stamp) \<in> set (sv_flushed s)" and "unat unix - unat stamp \<le> window_secs"
  shows "host \<in> fst ` set snap"
proof -
  have "stored_since (sv_dns s) host stamp"
    using flushed_ok_reach [OF assms(1)] assms(2,4) by (auto simp: flushed_ok_def)
  then obtain e where e: "map_of (ds_fallback (sv_dns s)) host = Some e" "stamp \<le> pa_resolved_at_unix e"
    by (auto simp: stored_since_def)
  then have "unat unix - unat (pa_resolved_at_unix e) \<le> window_secs"
    using assms(5) by (simp add: word_le_nat_alt)
  then have "(host, e) \<in> set (capture_disk unix live (sv_dns s))" if "host \<notin> fst ` set live"
    using that map_of_SomeD [OF e(1)] by (auto simp: capture_disk_def)
  then show ?thesis by (force simp: assms(3))
qed

text \<open>A run in which a flush moves one answer and a capture follows.\<close>

definition warm :: dns_state where
  "warm = (fresh_dns 1)\<lparr>ds_cache := [(''a'', \<lparr>ca_addrs = [V4 1], ca_expires_at = 100, ca_resolved_at_unix = 7,
     ca_generation = 0, ca_version = 1\<rparr>)]\<rparr>"

definition flushed_run :: save_state where
  "flushed_run = \<lparr>sv_dns = (fresh_dns 1)\<lparr>ds_generation := 1,
       ds_fallback := [(''a'', \<lparr>pa_addrs = [V4 1], pa_resolved_at_unix = 7\<rparr>)]\<rparr>,
     sv_gate = Capturing [], sv_next = 0, sv_published = 0, sv_file = None, sv_jobs = [], sv_log = [],
     sv_flushed = [(''a'', 7)], sv_ok = [], sv_on_disk = 0\<rparr>"

lemma flushed_run_reach: "save_reach warm None flushed_run"
proof -
  let ?s0 = "\<lparr>sv_dns = warm, sv_gate = Free, sv_next = 0, sv_published = 0, sv_file = None,
    sv_jobs = [], sv_log = [], sv_flushed = [], sv_ok = [], sv_on_disk = 0\<rparr>"
  let ?e = "\<lparr>pa_addrs = [V4 1], pa_resolved_at_unix = 7\<rparr> :: persisted_answer"
  let ?s1 = "?s0\<lparr>sv_gate := Flushing [(''a'', ?e)], sv_dns := warm\<lparr>ds_generation := 1, ds_cache := []\<rparr>,
    sv_flushed := [(''a'', 7)]\<rparr>"
  let ?s2 = "?s1\<lparr>sv_gate := Flushing [], sv_dns := merge_disk_fallback_entry ''a'' ?e (sv_dns ?s1)\<rparr>"
  let ?s3 = "?s2\<lparr>sv_gate := Free, sv_dns := (sv_dns ?s2)\<lparr>ds_scores := map (\<lambda>_. 0) (ds_scores (sv_dns ?s2))\<rparr>\<rparr>"
  have s1: "save_step ?s0 ?s1"
    using flush_begin [of ?s0 5 "[(''a'', ?e)]" "warm\<lparr>ds_generation := 1, ds_cache := []\<rparr>"]
    by (simp add: flush_take_def preserved_answers_def warm_def fresh_dns_def live_entry_is_usable_def)
  have s2: "save_step ?s1 ?s2" using flush_merge [of ?s1 "''a''" ?e "[]"] by simp
  have s3: "save_step ?s2 ?s3" using flush_end [of ?s2] by simp
  have s4: "save_step ?s3 flushed_run"
    using capture_first [of ?s3 0]
    by (simp add: flushed_run_def warm_def fresh_dns_def merge_disk_fallback_entry_def capture_live_def)
  show ?thesis
    by (rule save_reach.step [OF save_reach.step [OF save_reach.step [OF save_reach.step [OF save_reach.start s1] s2] s3] s4])
qed

theorem captures_keep_flushed_answers_witness:
  "''a'' \<in> fst ` set (capture_disk 9 [] (sv_dns flushed_run))"
proof -
  have "''a'' \<in> fst ` set ([] @ capture_disk 9 [] (sv_dns flushed_run))"
    by (rule captures_keep_flushed_answers [OF flushed_run_reach, of "[]" _ 9 "''a''" 7])
       (simp_all add: flushed_run_def window_secs_def DNS_STALE_FALLBACK_WINDOW_def secs_def)
  then show ?thesis by simp
qed

section \<open>A saved file loads back\<close>

lemma lines_join:
  assumes "list_all (\<lambda>l. newline \<notin> set l \<and> l \<noteq> [] \<and> last l \<noteq> carriage_return) ls"
  shows "lines (join [newline] ls) = ls"
proof (cases "ls = []")
  case False
  have "split_on newline (join [newline] ls) = ls"
    using False assms by (intro split_on_join) (auto simp: list_all_iff)
  moreover have "last ls \<noteq> []" using False assms by (auto simp: list_all_iff)
  moreover have "map strip_cr ls = ls"
    using assms by (intro map_idI) (auto simp: strip_cr_def list_all_iff)
  ultimately show ?thesis by (simp add: lines_def)
qed (simp add: lines_def)

lemma fold_merge_fresh:
  assumes "distinct (map fst ps)" and "\<forall>h \<in> fst ` set ps. map_of (ds_fallback st) h = None"
  shows "map_of (ds_fallback (fold (\<lambda>(h, e). merge_disk_fallback_entry h e) ps st)) k =
    (case map_of ps k of Some e \<Rightarrow> Some e | None \<Rightarrow> map_of (ds_fallback st) k)"
  using assms
proof (induction ps arbitrary: st)
  case (Cons p ps)
  obtain h e where p: "p = (h, e)" by (cases p)
  let ?st = "merge_disk_fallback_entry h e st"
  have look: "map_of (ds_fallback ?st) k = (if k = h then Some e else map_of (ds_fallback st) k)" for k
    using Cons.prems(2) by (simp add: p merge_disk_fallback_entry_def update_conv)
  have "\<forall>h' \<in> fst ` set ps. map_of (ds_fallback ?st) h' = None"
    using Cons.prems by (auto simp: p look)
  moreover have "map_of ps h = None" using Cons.prems(1) by (simp add: p map_of_eq_None_iff)
  ultimately show ?case using Cons.IH [of ?st] Cons.prems(1) by (auto simp: p look split: option.split)
qed simp

definition line_ok :: "u64 \<Rightarrow> str \<times> persisted_answer \<Rightarrow> bool" where
  "line_ok unix p \<longleftrightarrow> tab \<notin> set (fst p) \<and> newline \<notin> set (fst p) \<and> pa_addrs (snd p) \<noteq> [] \<and>
     \<not> stamp_beyond_future_tolerance unix (pa_resolved_at_unix (snd p))"

lemma format_line_shape:
  assumes "newline \<notin> set host"
  shows "newline \<notin> set (format_persisted_line host e) \<and> format_persisted_line host e \<noteq> [] \<and>
    last (format_persisted_line host e) \<noteq> carriage_return"
proof -
  have v: "\<not> visible newline" "\<not> visible carriage_return" "newline \<noteq> tab" "newline \<noteq> CHR '',''"
    by (simp_all add: newline_def carriage_return_def tab_def visible_def)
  have d: "list_all visible (show_nat (unat (pa_resolved_at_unix e)))" by (rule visible_digits)
  have "newline \<notin> set (join '','' (map show_ip (pa_addrs e)))"
  proof
    assume "newline \<in> set (join '','' (map show_ip (pa_addrs e)))"
    then have "newline \<in> set '','' \<union> \<Union> (set ` set (map show_ip (pa_addrs e)))" by (rule subsetD [OF set_join])
    then show False using v visible_ip by (auto simp: list_all_iff)
  qed
  moreover have "newline \<notin> set (show_nat (unat (pa_resolved_at_unix e)))" using d v by (auto simp: list_all_iff)
  moreover have "visible (last (show_nat (unat (pa_resolved_at_unix e))))"
    using d last_in_set [OF show_nat_not_Nil] by (simp add: list_all_iff)
  ultimately show ?thesis using assms v by (auto simp: format_persisted_line_def)
qed

text \<open>
  A saved file loads back: read into an empty fallback store, the file of a snapshot gives exactly
  the snapshot's answers, one per host, with their original time stamps.
\<close>

theorem saved_file_loads_back:
  assumes "distinct (map fst snap)" and "list_all (line_ok unix) snap" and "ds_fallback st = []"
  shows "map_of (ds_fallback (load_persisted_dns_cache unix (Some (file_contents snap)) st)) = map_of snap"
proof
  fix k
  let ?fmt = "\<lambda>(host, e). format_persisted_line host e"
  have lines: "lines (file_contents snap) = map ?fmt snap"
    unfolding file_contents_def using assms(2) format_line_shape
    by (intro lines_join) (auto simp: list_all_iff line_ok_def)
  have "fold (\<lambda>line st. case parse_persisted_line unix line of
        Some (host, e) \<Rightarrow> merge_disk_fallback_entry host e st | None \<Rightarrow> st) (map ?fmt snap) st =
      fold (\<lambda>(h, e). merge_disk_fallback_entry h e) snap st" for st
    using assms(2) by (induction snap arbitrary: st) (auto simp: line_ok_def persisted_line_reads_back)
  then show "map_of (ds_fallback (load_persisted_dns_cache unix (Some (file_contents snap)) st)) k = map_of snap k"
    using fold_merge_fresh [OF assms(1), of st k]
    by (simp add: load_persisted_dns_cache_def lines assms(3) split: option.split)
qed

theorem saved_file_loads_back_witness:
  "map_of (ds_fallback (load_persisted_dns_cache 9 (Some (file_contents
       [(''a'', \<lparr>pa_addrs = [V6 1], pa_resolved_at_unix = 7\<rparr>)])) (fresh_dns 1))) ''a'' =
     Some \<lparr>pa_addrs = [V6 1], pa_resolved_at_unix = 7\<rparr>"
proof -
  have "list_all (line_ok 9) [(''a'', \<lparr>pa_addrs = [V6 1], pa_resolved_at_unix = 7\<rparr>)]"
    by (simp add: line_ok_def tab_def newline_def stamp_beyond_future_tolerance_def)
  then show ?thesis
    using saved_file_loads_back [of "[(''a'', \<lparr>pa_addrs = [V6 1], pa_resolved_at_unix = 7\<rparr>)]" 9 "fresh_dns 1"]
    by (simp add: fresh_dns_def)
qed

end
