(* ===== verification/BridgeProbe.thy ===== *)
theory BridgeProbe
  imports ProbeDns OrdMap "HOL-Library.Char_ord" "HOL-Library.List_Lexorder"
begin

text \<open>
  Probing bridges (\<open>packages/bridge-probe/src/probe\<close>): which bridge lines are usable, the WebTunnel
  target a line names, the identity lines are deduplicated by, address resolution and candidate
  order, the TCP and the WebTunnel probe, and the rounds built from them.  The bridge-line parser, the
  URL parser, TLS names and the HTTP parser are external; the network is a parameter that says, per
  address, how long an attempt takes and how it ends.
\<close>

section \<open>Bridge lines and WebTunnel targets\<close>

text \<open>The public fields of a parsed bridge line; the parameters are an ordered map.\<close>

record bridge_line =
  bl_transport :: "str option"
  bl_addr :: socket_addr
  bl_fingerprint :: "str option"
  bl_params :: "(str, str) omap"

definition usable_for_tor :: "bridge_line \<Rightarrow> bool" where
  "usable_for_tor bridge \<longleftrightarrow>
     (if bl_transport bridge = Some ''webtunnel''
      then om_lookup (bl_params bridge) ''url'' \<noteq> None \<or> om_lookup (bl_params bridge) ''addr'' \<noteq> None
      else case sa_ip (bl_addr bridge) of
             V4 _ \<Rightarrow> True
           | V6 ip \<Rightarrow> take 4 (v6_octets ip) \<noteq> [0x20, 0x01, 0x0d, 0xb8])"

text \<open>What the URL library reports about a parsed URL, and why parsing fails.\<close>

record url =
  u_scheme :: str
  u_host :: "str option"
  u_port :: "u16 option"
  u_port_or_default :: "u16 option"
  u_path :: str
  u_query :: "str option"

datatype url_error = RelativeUrlWithoutBase | OtherUrlError

datatype target_error =
  MissingUrl | InvalidUrl | UnsupportedScheme | NoHost | InvalidServername
| AddrMissingColon | AddrBadHost | AddrBadPort | NoPort

record prepared_target =
  dial_host :: str
  dial_port :: u16
  pt_sni :: str
  host_header :: str
  request_target :: str
  use_tls :: bool

definition parse_webtunnel_url :: "(str \<Rightarrow> (url_error, url) result) \<Rightarrow> str \<Rightarrow> (target_error, url) result" where
  "parse_webtunnel_url url_parse url_str =
     (case url_parse url_str of
        Inr url \<Rightarrow> Inr url
      | Inl RelativeUrlWithoutBase \<Rightarrow>
          (case url_parse (''https://'' @ url_str) of Inr url \<Rightarrow> Inr url | Inl _ \<Rightarrow> Inl InvalidUrl)
      | Inl OtherUrlError \<Rightarrow> Inl InvalidUrl)"

definition unbracket :: "str \<Rightarrow> str" where
  "unbracket s = trim_end_matches CHR '']'' (trim_start_matches CHR ''['' s)"

definition url_host :: "url \<Rightarrow> (target_error, str) result" where
  "url_host url = ok_or NoHost (map_option unbracket (u_host url))"

definition dial_target :: "(str, str) omap \<Rightarrow> url \<Rightarrow> (target_error, str \<times> u16) result" where
  "dial_target params parsed =
     (case om_lookup params ''addr'' of
        Some addr \<Rightarrow>
          (case socket_from_str addr of
             Some socket \<Rightarrow> Inr (show_ip (sa_ip socket), sa_port socket)
           | None \<Rightarrow>
               (case rsplit_once CHR '':'' addr of
                  None \<Rightarrow> Inl AddrMissingColon
                | Some (host, port) \<Rightarrow>
                    if host = [] \<or> list_ex (\<lambda>c. c \<in> set '':[]'') host then Inl AddrBadHost
                    else case parse_uint 10 (2 ^ 16) port of
                           None \<Rightarrow> Inl AddrBadPort
                         | Some n \<Rightarrow> Inr (host, of_nat n)))
      | None \<Rightarrow>
          and_then (url_host parsed) (\<lambda>host.
          and_then (ok_or NoPort (u_port_or_default parsed)) (\<lambda>port.
          Inr (host, port))))"

definition http_target :: "url \<Rightarrow> str" where
  "http_target parsed =
     (let path = (if u_path parsed = [] then ''/'' else u_path parsed) in
      case u_query parsed of
        Some q \<Rightarrow> if q \<noteq> [] then path @ ''?'' @ q else path
      | None \<Rightarrow> path)"

definition http_host :: "str \<Rightarrow> url \<Rightarrow> str" where
  "http_host sni parsed =
     (let h = (if ipv6_from_str sni \<noteq> None then ''['' @ sni @ '']'' else sni) in
      case u_port parsed of Some p \<Rightarrow> h @ '':'' @ show_nat (unat p) | None \<Rightarrow> h)"

definition prepared_target_new ::
  "(str \<Rightarrow> (url_error, url) result) \<Rightarrow> (str \<Rightarrow> bool) \<Rightarrow> (str, str) omap \<Rightarrow> (target_error, prepared_target) result" where
  "prepared_target_new url_parse server_name_ok params =
     and_then (ok_or MissingUrl (om_lookup params ''url'')) (\<lambda>url_str.
     and_then (parse_webtunnel_url url_parse url_str) (\<lambda>parsed.
     if \<not> eq_ignore_ascii_case (u_scheme parsed) ''http'' \<and> \<not> eq_ignore_ascii_case (u_scheme parsed) ''https''
     then Inl UnsupportedScheme
     else
       and_then (case om_lookup params ''servername'' of Some s \<Rightarrow> Inr (unbracket s) | None \<Rightarrow> url_host parsed) (\<lambda>sni.
       if \<not> server_name_ok sni then Inl InvalidServername
       else
         and_then (dial_target params parsed) (\<lambda>(host, port).
         Inr \<lparr>dial_host = host, dial_port = port, pt_sni = sni, host_header = http_host sni parsed,
              request_target = http_target parsed,
              use_tls = eq_ignore_ascii_case (u_scheme parsed) ''https''\<rparr>))))"

section \<open>Identities\<close>

text \<open>
  The WebTunnel identity has the fields of the prepared target.  External libraries are bundled:
  \<open>x_url\<close> parses URLs and \<open>x_name\<close> accepts server names.
\<close>

record externals =
  x_url :: "str \<Rightarrow> (url_error, url) result"
  x_name :: "str \<Rightarrow> bool"

definition plan_of :: "externals \<Rightarrow> bridge_line \<Rightarrow> (target_error, prepared_target) result" where
  "plan_of x bridge = prepared_target_new (x_url x) (x_name x) (bl_params bridge)"

definition webtunnel_endpoint_identity :: "externals \<Rightarrow> bridge_line \<Rightarrow> prepared_target option" where
  "webtunnel_endpoint_identity x bridge =
     (if bl_transport bridge \<noteq> Some ''webtunnel'' then None else ok (plan_of x bridge))"

record bridge_identity =
  bi_transport :: "str option"
  bi_addr :: socket_addr
  bi_fingerprint :: "str option"
  bi_webtunnel :: "prepared_target option"
  bi_cert :: "str option"

definition bridge_identity_of :: "externals \<Rightarrow> bridge_line \<Rightarrow> bridge_identity" where
  "bridge_identity_of x bridge =
     \<lparr>bi_transport = bl_transport bridge, bi_addr = bl_addr bridge, bi_fingerprint = bl_fingerprint bridge,
      bi_webtunnel = webtunnel_endpoint_identity x bridge, bi_cert = om_lookup (bl_params bridge) ''cert''\<rparr>"

definition resolve_probe_target :: "externals \<Rightarrow> bridge_line \<Rightarrow> (target_error, str \<times> u16) result" where
  "resolve_probe_target x bridge =
     (if bl_transport bridge = Some ''webtunnel''
      then and_then (plan_of x bridge) (\<lambda>t. Inr (dial_host t, dial_port t))
      else Inr (show_ip (sa_ip (bl_addr bridge)), sa_port (bl_addr bridge)))"

definition dns_hostname_of :: "externals \<Rightarrow> bridge_line \<Rightarrow> str option" where
  "dns_hostname_of x bridge =
     (case resolve_probe_target x bridge of
        Inl _ \<Rightarrow> None
      | Inr (host, _) \<Rightarrow> if ip_from_str host \<noteq> None then None else Some host)"

section \<open>Candidates\<close>

definition MAX_PROBE_ADDRS :: nat where "MAX_PROBE_ADDRS = 3"

definition first_seen :: "'a list \<Rightarrow> 'a list" where
  "first_seen xs = rev (fold (\<lambda>x seen. if x \<in> set seen then seen else x # seen) xs [])"

definition order_candidates_with_limit :: "ip_addr list \<Rightarrow> u16 \<Rightarrow> nat \<Rightarrow> socket_addr list" where
  "order_candidates_with_limit ips port limit =
     (let sorted = sort_key (\<lambda>ip. if is_ipv4 ip then 0 else 1 :: nat) (first_seen ips);
          v4_count = length (filter is_ipv4 sorted);
          v6_count = length sorted - v4_count;
          socket = (\<lambda>ip. \<lparr>sa_ip = ip, sa_port = port, sa_scope = 0\<rparr>)
      in if limit < 2 \<or> v4_count = 0 \<or> v6_count = 0 then map socket (take limit sorted)
         else let v4_take = min (limit - 1) v4_count;
                  v6_take = min (limit - v4_take) v6_count
              in map socket (take v4_take sorted @ take v6_take (drop v4_count sorted)))"

definition order_candidates :: "ip_addr list \<Rightarrow> u16 \<Rightarrow> socket_addr list" where
  "order_candidates ips port = order_candidates_with_limit ips port MAX_PROBE_ADDRS"

section \<open>Resolution\<close>

record resolver_policy =
  doh_enabled :: bool
  system_fallback :: bool

text \<open>
  \<open>wave\<close> is what the providers' race returns for a name, \<open>system\<close> what the operating system's resolver
  returns, and \<open>during\<close> is whatever the rest of the process did to the cache while the race ran.
\<close>

record resolvers =
  r_wave :: "str \<Rightarrow> (ip_addr list \<times> nat) option"
  r_system :: "str \<Rightarrow> u16 \<Rightarrow> ip_addr list option"

datatype resolve_error = SystemLookupFailed | SystemNoAddresses | NoResolver

type_synonym resolved_addrs = "socket_addr list \<times> cache_identity option"

definition coalesced_doh_lookup_observed ::
  "resolvers \<Rightarrow> nat \<Rightarrow> u64 \<Rightarrow> dns_op list \<Rightarrow> str \<Rightarrow> dns_state
   \<Rightarrow> (ip_addr list \<times> cache_identity option) option \<times> dns_state" where
  "coalesced_doh_lookup_observed r now unix during query st =
     (let gen = ds_generation st; st = run_ops during st in
      case r_wave r query of
        Some (ips, ttl) \<Rightarrow>
          (case remember_doh_answer_if_generation_observed now unix query ips ttl gen st of
             (identity, st) \<Rightarrow> (Some (ips, identity), st))
      | None \<Rightarrow> (None, st))"

definition resolve_with_doh ::
  "resolvers \<Rightarrow> nat \<Rightarrow> u64 \<Rightarrow> dns_op list \<Rightarrow> str \<Rightarrow> u16 \<Rightarrow> dns_state \<Rightarrow> resolved_addrs option \<times> dns_state" where
  "resolve_with_doh r now unix during query port st =
     (case cached_doh_answer_observed query now st of
        Some (ips, identity) \<Rightarrow>
          if ips \<noteq> [] then (Some (order_candidates ips port, Some identity), st) else (None, st)
      | None \<Rightarrow>
          (case coalesced_doh_lookup_observed r now unix during query st of
             (Some (ips, identity), st') \<Rightarrow> (Some (order_candidates ips port, identity), st')
           | (None, st') \<Rightarrow>
               (case stale_fallback_answer_observed query now st' of
                  Some (stale, identity) \<Rightarrow> (Some (order_candidates stale port, Some identity), st')
                | None \<Rightarrow>
                    (case disk_fallback_answer query unix st' of
                       Some persisted \<Rightarrow> (Some (order_candidates persisted port, None), st')
                     | None \<Rightarrow> (None, snd (remember_doh_failure_if_generation now unix query (ds_generation st) st'))))))"

definition resolve_addrs_observed ::
  "resolvers \<Rightarrow> nat \<Rightarrow> u64 \<Rightarrow> dns_op list \<Rightarrow> resolver_policy \<Rightarrow> str \<Rightarrow> u16 \<Rightarrow> dns_state
   \<Rightarrow> (resolve_error, resolved_addrs) result \<times> dns_state" where
  "resolve_addrs_observed r now unix during policy host port st =
     (let query = trim_end_matches CHR ''.'' host;
          (found, st) = (if doh_enabled policy then resolve_with_doh r now unix during query port st else (None, st))
      in case found of
           Some resolved \<Rightarrow> (Inr resolved, st)
         | None \<Rightarrow>
             (if system_fallback policy then
                (case r_system r host port of
                   None \<Rightarrow> (Inl SystemLookupFailed, st)
                 | Some ips \<Rightarrow>
                     if ips = [] then (Inl SystemNoAddresses, st)
                     else (Inr (order_candidates ips port, None), st))
              else (Inl NoResolver, st)))"

text \<open>The providers' race: waves of providers, best first, each won by its first non-empty answer.\<close>

definition DOH_FANOUT :: nat where "DOH_FANOUT = 4"
definition DOH_MAX_WAVES :: nat where "DOH_MAX_WAVES = 2"

text \<open>One attempt: the provider's score is updated, and an empty answer is no win.\<close>

definition doh_provider_attempt ::
  "nat \<Rightarrow> (ip_addr list \<times> nat) option \<Rightarrow> dns_state \<Rightarrow> (ip_addr list \<times> nat) option \<times> dns_state" where
  "doh_provider_attempt index response st =
     ((case response of Some (ips, ttl) \<Rightarrow> if ips = [] then None else Some (ips, ttl) | None \<Rightarrow> None),
      note_doh_result index (response \<noteq> None) st)"

fun race_first_answer :: "(ip_addr list \<times> nat) option list \<Rightarrow> (ip_addr list \<times> nat) option" where
  "race_first_answer [] = None"
| "race_first_answer (Some answer # _) = Some answer"
| "race_first_answer (None # rest) = race_first_answer rest"

function chunks :: "nat \<Rightarrow> 'a list \<Rightarrow> 'a list list" where
  "chunks n xs = (if xs = [] \<or> n = 0 then [] else take n xs # chunks n (drop n xs))"
  by pat_completeness auto
termination
  by (relation "measure (\<lambda>(n, xs). length xs)") auto

declare chunks.simps [simp del]

fun first_wave :: "(nat list \<Rightarrow> (ip_addr list \<times> nat) option) \<Rightarrow> nat list list \<Rightarrow> (ip_addr list \<times> nat) option" where
  "first_wave race [] = None"
| "first_wave race (wave # waves) =
     (case race wave of Some answer \<Rightarrow> Some answer | None \<Rightarrow> first_wave race waves)"

definition doh_wave_search :: "(nat list \<Rightarrow> (ip_addr list \<times> nat) option) \<Rightarrow> dns_state \<Rightarrow> (ip_addr list \<times> nat) option" where
  "doh_wave_search race st = first_wave race (take DOH_MAX_WAVES (chunks DOH_FANOUT (doh_order st)))"

section \<open>Probes\<close>

datatype reason =
  UnusableAddress | BadTarget target_error | NoUsableAddress
| ConnectFailed socket_addr | UpgradeFailed socket_addr | UpgradeTimedOut

datatype outcome = Reachable nat | Unreachable reason | Unmeasured

text \<open>
  One read of the response: bytes, or an error; no further reads means the peer closed.  \<open>n_connect\<close>
  says how long a TCP connect takes and whether it succeeds; \<open>n_upgrade\<close> how long the rest of an upgrade
  takes, whether the TLS handshake succeeds, whether the request could be written, and the reads.
\<close>

datatype http_parse = HttpComplete "nat option" | HttpPartial | HttpError

record network =
  n_connect :: "socket_addr \<Rightarrow> nat \<times> bool"
  n_upgrade :: "socket_addr \<Rightarrow> prepared_target \<Rightarrow> nat \<times> bool \<times> bool \<times> str option list"
  n_parse :: "str \<Rightarrow> http_parse"

fun tcp_probe_from :: "network \<Rightarrow> nat \<Rightarrow> nat \<Rightarrow> socket_addr list \<Rightarrow> reason \<Rightarrow> socket_addr list \<Rightarrow> outcome \<times> socket_addr list" where
  "tcp_probe_from net limit elapsed tried last_reason [] = (Unreachable last_reason, tried)"
| "tcp_probe_from net limit elapsed tried last_reason (addr # addrs) =
     (let (t, connected) = n_connect net addr in
      if t \<le> limit \<and> connected then (Reachable (elapsed + t), [])
      else tcp_probe_from net limit (elapsed + min t limit) (tried @ [addr]) (ConnectFailed addr) addrs)"

definition tcp_probe_observed :: "network \<Rightarrow> socket_addr list \<Rightarrow> nat \<Rightarrow> outcome \<times> socket_addr list" where
  "tcp_probe_observed net addrs per_bridge_timeout =
     tcp_probe_from net per_bridge_timeout 0 [] NoUsableAddress addrs"

definition WEBTUNNEL_HEAD_LIMIT :: nat where "WEBTUNNEL_HEAD_LIMIT = 8 * 1024"
definition MIN_WEBTUNNEL_TIMEOUT :: nat where "MIN_WEBTUNNEL_TIMEOUT = secs 12"
definition MIN_DNS_RESOLVE_TIMEOUT :: nat where "MIN_DNS_RESOLVE_TIMEOUT = secs 15"

fun read_response :: "(str \<Rightarrow> http_parse) \<Rightarrow> str \<Rightarrow> str option list \<Rightarrow> bool" where
  "read_response parse buf [] = False"
| "read_response parse buf (None # _) = False"
| "read_response parse buf (Some chunk # reads) =
     (if chunk = [] then False
      else let buf = buf @ chunk in
           case parse buf of
             HttpComplete code \<Rightarrow> code = Some 101
           | HttpPartial \<Rightarrow> if WEBTUNNEL_HEAD_LIMIT \<le> length buf then False else read_response parse buf reads
           | HttpError \<Rightarrow> False)"

definition send_upgrade_request :: "(str \<Rightarrow> http_parse) \<Rightarrow> bool \<Rightarrow> str option list \<Rightarrow> bool" where
  "send_upgrade_request parse written reads \<longleftrightarrow> written \<and> read_response parse [] reads"

definition upgrade_after_connect :: "externals \<Rightarrow> network \<Rightarrow> prepared_target \<Rightarrow> bool \<Rightarrow> bool \<Rightarrow> str option list \<Rightarrow> bool" where
  "upgrade_after_connect x net plan tls_ok written reads =
     (if use_tls plan
      then (if \<not> x_name x (pt_sni plan) then False
            else if \<not> tls_ok then False else send_upgrade_request (n_parse net) written reads)
      else send_upgrade_request (n_parse net) written reads)"

datatype upgrade_end = UpgradeOk | ConnectionFailure | ProtocolFailure

definition webtunnel_upgrade_attempt ::
  "externals \<Rightarrow> network \<Rightarrow> prepared_target \<Rightarrow> nat \<Rightarrow> socket_addr \<Rightarrow> upgrade_end \<times> nat" where
  "webtunnel_upgrade_attempt x net plan budget addr =
     (let (tc, connected) = n_connect net addr in
      if budget < tc then (ConnectionFailure, budget)
      else if \<not> connected then (ConnectionFailure, tc)
      else let (tu, tls_ok, written, reads) = n_upgrade net addr plan in
           if budget < tc + tu then (ProtocolFailure, budget)
           else (if upgrade_after_connect x net plan tls_ok written reads then UpgradeOk else ProtocolFailure, tc + tu))"

text \<open>The loop's result with the time it took: success, or the last reason and the addresses to blame.\<close>

fun upgrade_loop ::
  "externals \<Rightarrow> network \<Rightarrow> prepared_target \<Rightarrow> nat \<Rightarrow> nat \<Rightarrow> socket_addr list \<Rightarrow> bool \<Rightarrow> reason \<Rightarrow> socket_addr list
   \<Rightarrow> (reason \<times> socket_addr list) option \<times> nat" where
  "upgrade_loop x net plan share elapsed tried saw_protocol last_reason [] =
     (Some (last_reason, if saw_protocol then [] else tried), elapsed)"
| "upgrade_loop x net plan share elapsed tried saw_protocol last_reason (addr # addrs) =
     (case webtunnel_upgrade_attempt x net plan share addr of
        (UpgradeOk, t) \<Rightarrow> (None, elapsed + t)
      | (ConnectionFailure, t) \<Rightarrow>
          upgrade_loop x net plan share (elapsed + t) (tried @ [addr]) saw_protocol (UpgradeFailed addr) addrs
      | (ProtocolFailure, t) \<Rightarrow>
          upgrade_loop x net plan share (elapsed + t) (tried @ [addr]) True (UpgradeFailed addr) addrs)"

definition webtunnel_upgrade_probe_observed ::
  "externals \<Rightarrow> network \<Rightarrow> prepared_target \<Rightarrow> nat \<Rightarrow> socket_addr list \<Rightarrow> outcome \<times> socket_addr list" where
  "webtunnel_upgrade_probe_observed x net plan budget addrs =
     (let per_addr_budget = budget div max (length addrs) 1;
          (res, elapsed) = upgrade_loop x net plan per_addr_budget 0 [] False NoUsableAddress addrs
      in if budget < elapsed then (Unreachable UpgradeTimedOut, [])
         else case res of
                None \<Rightarrow> (Reachable elapsed, [])
              | Some (reason, failed) \<Rightarrow> (Unreachable reason, failed))"

text \<open>
  The surroundings of one probe: libraries, network, resolvers, clocks, how long resolution takes and
  what happens to the cache meanwhile.
\<close>

record surroundings =
  w_externals :: externals
  w_network :: network
  w_resolvers :: resolvers
  w_now :: nat
  w_unix :: u64
  w_during :: "dns_op list"
  w_dns_time :: nat
  w_gen_seen :: u64

definition probe_plan :: "externals \<Rightarrow> bridge_line \<Rightarrow> (target_error, prepared_target option) result" where
  "probe_plan x bridge =
     (if bl_transport bridge = Some ''webtunnel'' then and_then (plan_of x bridge) (\<lambda>p. Inr (Some p)) else Inr None)"

definition resolve_for_probe ::
  "surroundings \<Rightarrow> resolver_policy \<Rightarrow> nat \<Rightarrow> str \<Rightarrow> u16 \<Rightarrow> dns_state \<Rightarrow> resolved_addrs option \<times> dns_state" where
  "resolve_for_probe w policy per_bridge_timeout host port st =
     (case ip_from_str host of
        Some ip \<Rightarrow> (Some ([\<lparr>sa_ip = ip, sa_port = port, sa_scope = 0\<rparr>], None), st)
      | None \<Rightarrow>
          if max per_bridge_timeout MIN_DNS_RESOLVE_TIMEOUT < w_dns_time w then (None, run_ops (w_during w) st)
          else case resolve_addrs_observed (w_resolvers w) (w_now w) (w_unix w) (w_during w) policy host port st of
                 (Inr resolved, st) \<Rightarrow> (Some resolved, st)
               | (Inl _, st) \<Rightarrow> (None, st))"

definition blame ::
  "surroundings \<Rightarrow> str \<Rightarrow> cache_identity option \<Rightarrow> socket_addr list \<Rightarrow> dns_state \<Rightarrow> dns_state" where
  "blame w host identity tried st =
     (if ip_from_str host \<noteq> None then st
      else case identity of
             None \<Rightarrow> st
           | Some i \<Rightarrow> snd (invalidate_if_current (w_gen_seen w) (trim_end_matches CHR ''.'' host) i (map sa_ip tried) st))"

definition resolve_and_probe ::
  "surroundings \<Rightarrow> resolver_policy \<Rightarrow> nat \<Rightarrow> bridge_line \<Rightarrow> dns_state \<Rightarrow> outcome \<times> dns_state" where
  "resolve_and_probe w policy per_bridge_timeout bridge st =
     (if \<not> usable_for_tor bridge then (Unreachable UnusableAddress, st)
      else case probe_plan (w_externals w) bridge of
        Inl e \<Rightarrow> (Unreachable (BadTarget e), st)
      | Inr plan \<Rightarrow>
          (case (case plan of Some p \<Rightarrow> Inr (dial_host p, dial_port p)
                            | None \<Rightarrow> resolve_probe_target (w_externals w) bridge) of
             Inl e \<Rightarrow> (Unreachable (BadTarget e), st)
           | Inr (host, port) \<Rightarrow>
               (case resolve_for_probe w policy per_bridge_timeout host port st of
                  (None, st) \<Rightarrow> (Unmeasured, st)
                | (Some (addrs, identity), st) \<Rightarrow>
                    (let (outcome, tried) =
                       (case plan of
                          Some p \<Rightarrow> webtunnel_upgrade_probe_observed (w_externals w) (w_network w) p
                                     (max per_bridge_timeout MIN_WEBTUNNEL_TIMEOUT) addrs
                        | None \<Rightarrow> tcp_probe_observed (w_network w) addrs per_bridge_timeout)
                     in (outcome, blame w host identity tried st)))))"

section \<open>Rounds\<close>

type_synonym report = "bridge_line \<times> outcome"

fun report_latency :: "report \<Rightarrow> nat option" where
  "report_latency (_, Reachable t) = Some t"
| "report_latency (_, _) = None"

record probe_round =
  pr_alive :: "(bridge_line \<times> nat) list"
  pr_unmeasured :: "bridge_line list"

text \<open>The reports arrive in completion order, which is not the input order.\<close>

definition collect_report :: "report \<Rightarrow> probe_round \<Rightarrow> probe_round" where
  "collect_report rep round =
     (case snd rep of
        Reachable latency \<Rightarrow> round\<lparr>pr_alive := pr_alive round @ [(fst rep, latency)]\<rparr>
      | Unmeasured \<Rightarrow> round\<lparr>pr_unmeasured := pr_unmeasured round @ [fst rep]\<rparr>
      | Unreachable _ \<Rightarrow> round)"

definition probe_round_of :: "report list \<Rightarrow> probe_round" where
  "probe_round_of reports =
     (let round = fold collect_report reports \<lparr>pr_alive = [], pr_unmeasured = []\<rparr>
      in round\<lparr>pr_alive := sort_key snd (pr_alive round)\<rparr>)"

fun probe_until_loop ::
  "(bridge_line \<Rightarrow> 's \<Rightarrow> outcome \<times> 's) \<Rightarrow> nat \<Rightarrow> nat \<Rightarrow> nat \<Rightarrow> (bridge_line \<times> nat) list \<Rightarrow> bridge_line list \<Rightarrow> 's
   \<Rightarrow> (bridge_line \<times> nat) list \<times> nat" where
  "probe_until_loop probe target max_attempts attempts live [] st = (live, attempts)"
| "probe_until_loop probe target max_attempts attempts live (bridge # bridges) st =
     (if target \<le> length live \<or> max_attempts \<le> attempts then (live, attempts)
      else case probe bridge st of
             (Reachable latency, st) \<Rightarrow>
               probe_until_loop probe target max_attempts (attempts + 1) (live @ [(bridge, latency)]) bridges st
           | (_, st) \<Rightarrow> probe_until_loop probe target max_attempts (attempts + 1) live bridges st)"

definition probe_until ::
  "(bridge_line \<Rightarrow> 's \<Rightarrow> outcome \<times> 's) \<Rightarrow> bridge_line list \<Rightarrow> nat \<Rightarrow> nat \<Rightarrow> 's \<Rightarrow> (bridge_line \<times> nat) list" where
  "probe_until probe bridges target max_attempts st =
     (if target = 0 then [] else fst (probe_until_loop probe target max_attempts 0 [] bridges st))"

section \<open>Candidate order\<close>

lemma sort_key_two:
  "sort_key (\<lambda>x. if P x then 0 else 1 :: nat) xs = filter P xs @ filter (\<lambda>x. \<not> P x) xs"
proof (induction xs)
  case (Cons x xs)
  have front: "insort_key (\<lambda>x. if P x then 0 else 1 :: nat) x ys = x # ys" if "P x" for ys
    using that by (cases ys) auto
  have behind: "insort_key (\<lambda>x. if P x then 0 else 1 :: nat) x (ys @ zs) = ys @ x # zs"
    if "\<not> P x" "list_all P ys" "list_all (\<lambda>x. \<not> P x) zs" for ys zs
    using that(2,1,3) by (induction ys) (cases zs, auto)
  show ?case using Cons front behind [of "filter P xs" "filter (\<lambda>x. \<not> P x) xs"] by (simp add: list_all_iff)
qed simp

lemma first_seen_fold:
  assumes "distinct acc"
  shows "distinct (fold (\<lambda>x seen. if x \<in> set seen then seen else x # seen) xs acc) \<and>
    set (fold (\<lambda>x seen. if x \<in> set seen then seen else x # seen) xs acc) = set xs \<union> set acc"
  using assms by (induction xs arbitrary: acc) auto

lemma first_seen_facts [simp]: "distinct (first_seen xs)" "set (first_seen xs) = set xs"
  using first_seen_fold [of "[]" xs] by (simp_all add: first_seen_def)

text \<open>The families in order, and how many of each are kept.\<close>

definition v4s :: "ip_addr list \<Rightarrow> ip_addr list" where
  "v4s ips = filter is_ipv4 (first_seen ips)"

definition v6s :: "ip_addr list \<Rightarrow> ip_addr list" where
  "v6s ips = filter (\<lambda>ip. \<not> is_ipv4 ip) (first_seen ips)"

definition kept_v4 :: "ip_addr list \<Rightarrow> nat \<Rightarrow> nat" where
  "kept_v4 ips limit = (if limit < 2 \<or> v6s ips = [] then min limit (length (v4s ips)) else min (limit - 1) (length (v4s ips)))"

lemma take_min_length: "take (min n (length xs)) xs = take n xs" "take (min (length xs) n) xs = take n xs"
  by (cases "n \<le> length xs"; simp add: min_absorb1 min_absorb2)+

lemma candidates_eq:
  "map sa_ip (order_candidates_with_limit ips port limit) =
     take (kept_v4 ips limit) (v4s ips) @ take (limit - kept_v4 ips limit) (v6s ips)"
proof -
  have sorted: "sort_key (\<lambda>ip. if is_ipv4 ip then 0 else 1 :: nat) (first_seen ips) = v4s ips @ v6s ips"
    by (simp add: sort_key_two v4s_def v6s_def)
  have count: "filter is_ipv4 (v4s ips @ v6s ips) = v4s ips" by (simp add: v4s_def v6s_def)
  have eq: "map sa_ip (order_candidates_with_limit ips port limit) =
      (if limit < 2 \<or> v4s ips = [] \<or> v6s ips = [] then take limit (v4s ips) @ take (limit - length (v4s ips)) (v6s ips)
       else take (min (limit - 1) (length (v4s ips))) (v4s ips) @
            take (limit - min (limit - 1) (length (v4s ips))) (v6s ips))"
    unfolding order_candidates_with_limit_def sorted count Let_def
    by (simp add: comp_def take_min_length)
  have rest: "limit - min limit n = limit - n" for n :: nat by simp
  show ?thesis unfolding eq kept_v4_def by (auto simp: take_min_length rest)
qed

lemma list_all_split:
  "list_all P xs \<Longrightarrow> list_all Q ys \<Longrightarrow> \<exists>k. list_all P (take k (xs @ ys)) \<and> list_all Q (drop k (xs @ ys))"
  by (rule exI [of _ "length xs"]) simp

text \<open>
  The addresses tried for a host are distinct answers of the resolver, IPv4 before IPv6, as many
  as the limit allows; and with room for two, a host that resolves in both families is tried in both.
\<close>

theorem candidates_cover_both_families:
  "let tried = map sa_ip (order_candidates_with_limit ips port limit) in
     distinct tried \<and> set tried \<subseteq> set ips \<and> length tried = min limit (card (set ips)) \<and>
     (\<exists>k. list_all is_ipv4 (take k tried) \<and> list_all (\<lambda>ip. \<not> is_ipv4 ip) (drop k tried)) \<and>
     (2 \<le> limit \<longrightarrow> is_ipv4 ` set tried = is_ipv4 ` set ips) \<and>
     list_all (\<lambda>sa. sa_port sa = port) (order_candidates_with_limit ips port limit)"
proof -
  let ?k = "kept_v4 ips limit"
  let ?a = "take ?k (v4s ips)" and ?b = "take (limit - ?k) (v6s ips)"
  have d: "distinct (v4s ips)" "distinct (v6s ips)" "set (v4s ips) \<inter> set (v6s ips) = {}"
    and set: "set (v4s ips) \<union> set (v6s ips) = set ips"
    and fam: "\<forall>ip \<in> set (v4s ips). is_ipv4 ip" "\<forall>ip \<in> set (v6s ips). \<not> is_ipv4 ip"
    by (auto simp: v4s_def v6s_def)
  have sub: "set ?a \<subseteq> set (v4s ips)" "set ?b \<subseteq> set (v6s ips)" by (auto dest: in_set_takeD)
  have n: "length (v4s ips) + length (v6s ips) = card (set ips)"
    using d distinct_card [of "v4s ips"] distinct_card [of "v6s ips"] card_Un_disjoint [of "set (v4s ips)" "set (v6s ips)"]
    by (simp add: set [symmetric])
  have len: "length (?a @ ?b) = min limit (card (set ips))"
  proof -
    have "v6s ips = [] \<or> 1 \<le> length (v6s ips)" by (cases "v6s ips") auto
    then show ?thesis unfolding n [symmetric] by (auto simp: kept_v4_def min_def)
  qed
  have split: "\<exists>k. list_all is_ipv4 (take k (?a @ ?b)) \<and> list_all (\<lambda>ip. \<not> is_ipv4 ip) (drop k (?a @ ?b))"
    by (rule list_all_split) (use fam sub in \<open>auto simp: list_all_iff\<close>)
  have both: "is_ipv4 ` set (?a @ ?b) = is_ipv4 ` set ips" if "2 \<le> limit"
  proof -
    have a: "?a = [] \<longleftrightarrow> v4s ips = []" and b: "?b = [] \<longleftrightarrow> v6s ips = []"
      using that by (auto simp: kept_v4_def min_def)
    have img: "is_ipv4 ` set xs = (if xs = [] then {} else {True})" if "set xs \<subseteq> set (v4s ips)" for xs
      using that fam by (cases xs) auto
    have img': "is_ipv4 ` set xs = (if xs = [] then {} else {False})" if "set xs \<subseteq> set (v6s ips)" for xs
      using that fam by (cases xs) auto
    show ?thesis
      unfolding set [symmetric] set_append image_Un
      using img [OF sub(1)] img [of "v4s ips"] img' [OF sub(2)] img' [of "v6s ips"] a b by simp
  qed
  have port: "list_all (\<lambda>sa. sa_port sa = port) (order_candidates_with_limit ips port limit)"
    by (auto simp: order_candidates_with_limit_def Let_def list_all_iff)
  show ?thesis
    unfolding Let_def candidates_eq
    using len split both port
  proof (intro conjI)
    show "distinct (?a @ ?b)" using d sub by (simp add: disjoint_iff) blast
    show "set (?a @ ?b) \<subseteq> set ips" using sub set by auto
  qed auto
qed

theorem candidates_cover_both_families_witness:
  "is_ipv4 ` set (map sa_ip (order_candidates_with_limit [V4 1, V4 2, V4 3, V6 1] 443 2)) = {True, False}"
  using candidates_cover_both_families [where ips = "[V4 1, V4 2, V4 3, V6 1]" and port = 443 and limit = 2]
  by (auto simp: Let_def)

end
