(* ===== verification/ProbeVerdict.thy ===== *)
theory ProbeVerdict
  imports BridgeProbe
begin

text \<open>
  What a probe's verdict means: when a bridge counts as reachable, unreachable or not measured, that
  lines with one identity get one verdict, and which resolvers a probe may consult.
\<close>

section \<open>The TCP probe\<close>

definition tcp_answers :: "network \<Rightarrow> nat \<Rightarrow> socket_addr \<Rightarrow> bool" where
  "tcp_answers net limit addr \<longleftrightarrow> (case n_connect net addr of (t, connected) \<Rightarrow> t \<le> limit \<and> connected)"

lemma tcp_probe_from_spec:
  "tcp_probe_from net limit elapsed tried rsn addrs = (o', blamed) \<Longrightarrow>
    (if list_ex (tcp_answers net limit) addrs then (\<exists>t. o' = Reachable t \<and> t \<le> elapsed + length addrs * limit) \<and> blamed = []
     else (\<exists>r. o' = Unreachable r) \<and> blamed = tried @ addrs)"
proof (induction addrs arbitrary: elapsed tried rsn)
  case (Cons a addrs)
  obtain t c where n: "n_connect net a = (t, c)" by (cases "n_connect net a")
  show ?case
  proof (cases "t \<le> limit \<and> c")
    case True
    then show ?thesis using Cons.prems by (auto simp: n tcp_answers_def)
  next
    case False
    then have "tcp_probe_from net limit (elapsed + min t limit) (tried @ [a]) (ConnectFailed a) addrs = (o', blamed)"
      using Cons.prems by (auto simp: n)
    from Cons.IH [OF this] False show ?thesis
      by (fastforce simp: n tcp_answers_def split: if_splits)
  qed
qed auto

section \<open>The WebTunnel probe\<close>

definition upgrade_answers :: "externals \<Rightarrow> network \<Rightarrow> prepared_target \<Rightarrow> nat \<Rightarrow> socket_addr \<Rightarrow> bool" where
  "upgrade_answers x net plan share addr \<longleftrightarrow> fst (webtunnel_upgrade_attempt x net plan share addr) = UpgradeOk"

lemma attempt_time: "snd (webtunnel_upgrade_attempt x net plan share addr) \<le> share"
  by (auto simp: webtunnel_upgrade_attempt_def Let_def split: prod.split)

lemma upgrade_loop_spec:
  "upgrade_loop x net plan share elapsed tried saw rsn addrs = (res, spent) \<Longrightarrow>
    spent \<le> elapsed + length addrs * share \<and>
    (res = None \<longleftrightarrow> list_ex (upgrade_answers x net plan share) addrs)"
proof (induction addrs arbitrary: elapsed tried saw rsn)
  case (Cons a addrs)
  obtain e t where at: "webtunnel_upgrade_attempt x net plan share a = (e, t)" by (cases "webtunnel_upgrade_attempt x net plan share a")
  then have t: "t \<le> share" using attempt_time [of x net plan share a] by simp
  show ?case
  proof (cases "e = UpgradeOk")
    case True
    then show ?thesis using Cons.prems t by (auto simp: at upgrade_answers_def)
  next
    case False
    then obtain saw' where "upgrade_loop x net plan share (elapsed + t) (tried @ [a]) saw' (UpgradeFailed a) addrs = (res, spent)"
      using Cons.prems by (cases e) (auto simp: at)
    from Cons.IH [OF this] t False show ?thesis by (auto simp: at upgrade_answers_def)
  qed
qed auto

lemma upgrade_probe_spec:
  assumes "webtunnel_upgrade_probe_observed x net plan budget addrs = (o', blamed)"
  shows "if list_ex (upgrade_answers x net plan (budget div max (length addrs) 1)) addrs
    then (\<exists>t. o' = Reachable t \<and> t \<le> budget) \<and> blamed = [] else \<exists>r. o' = Unreachable r"
proof -
  let ?share = "budget div max (length addrs) 1"
  obtain res spent where l: "upgrade_loop x net plan ?share 0 [] False NoUsableAddress addrs = (res, spent)"
    by (cases "upgrade_loop x net plan ?share 0 [] False NoUsableAddress addrs")
  have "length addrs * ?share \<le> max (length addrs) 1 * ?share" by (intro mult_right_mono) auto
  also have "\<dots> \<le> budget" by simp
  finally have "spent \<le> budget" using upgrade_loop_spec [OF l] by simp
  then show ?thesis
    using assms upgrade_loop_spec [OF l] by (auto simp: webtunnel_upgrade_probe_observed_def l [unfolded One_nat_def] Let_def split: option.splits)
qed

text \<open>Only a complete response with status 101 counts as an upgrade.\<close>

lemma read_response_sound:
  "read_response parse buf reads \<Longrightarrow>
     \<exists>cs rest. reads = map Some cs @ rest \<and> parse (buf @ concat cs) = HttpComplete (Some 101)"
proof (induction parse buf reads rule: read_response.induct)
  case (3 parse buf chunk reads)
  show ?case
  proof (cases "parse (buf @ chunk)")
    case HttpPartial
    then obtain cs rest where "reads = map Some cs @ rest" "parse ((buf @ chunk) @ concat cs) = HttpComplete (Some 101)"
      using 3 by (auto simp: Let_def split: if_splits)
    then show ?thesis by (intro exI [of _ "chunk # cs"] exI [of _ rest]) auto
  next
    case (HttpComplete code)
    then show ?thesis using "3.prems" by (intro exI [of _ "[chunk]"] exI [of _ reads]) (auto split: if_splits)
  qed (use "3.prems" in \<open>auto split: if_splits\<close>)
qed auto

section \<open>Verdicts\<close>

text \<open>An address answers a plan: the TCP probe, or the WebTunnel upgrade within the address's share.\<close>

definition answers :: "surroundings \<Rightarrow> nat \<Rightarrow> prepared_target option \<Rightarrow> socket_addr list \<Rightarrow> socket_addr \<Rightarrow> bool" where
  "answers w limit plan addrs addr =
     (case plan of
        Some p \<Rightarrow> upgrade_answers (w_externals w) (w_network w) p
                    (max limit MIN_WEBTUNNEL_TIMEOUT div max (length addrs) 1) addr
      | None \<Rightarrow> tcp_answers (w_network w) limit addr)"

lemma resolve_literal:
  "ip_from_str host = Some ip \<Longrightarrow> fst (resolve_for_probe w policy limit host port st) \<noteq> None"
  by (simp add: resolve_for_probe_def)

lemma resolve_probe_target_plan:
  "probe_plan x bridge = Inr plan \<Longrightarrow>
   (case plan of Some p \<Rightarrow> Inr (dial_host p, dial_port p) | None \<Rightarrow> resolve_probe_target x bridge) = resolve_probe_target x bridge"
  by (auto simp: probe_plan_def resolve_probe_target_def split: if_splits option.split)

lemma probe_eqs:
  assumes "usable_for_tor bridge" and "probe_plan (w_externals w) bridge = Inr plan"
    and "resolve_probe_target (w_externals w) bridge = Inr (host, port)"
  shows "resolve_for_probe w policy limit host port st = (None, st') \<Longrightarrow>
      fst (resolve_and_probe w policy limit bridge st) = Unmeasured"
    and "resolve_for_probe w policy limit host port st = (Some (addrs, identity), st') \<Longrightarrow>
      (if list_ex (answers w limit plan addrs) addrs
       then \<exists>t. fst (resolve_and_probe w policy limit bridge st) = Reachable t
       else \<exists>r. fst (resolve_and_probe w policy limit bridge st) = Unreachable r)"
proof -
  have target: "(case plan of Some p \<Rightarrow> Inr (dial_host p, dial_port p) | None \<Rightarrow> resolve_probe_target (w_externals w) bridge) = Inr (host, port)"
    using resolve_probe_target_plan [OF assms(2)] assms(3) by simp
  show "resolve_for_probe w policy limit host port st = (None, st') \<Longrightarrow>
      fst (resolve_and_probe w policy limit bridge st) = Unmeasured"
    by (simp add: resolve_and_probe_def assms(1,2) target)
  assume r: "resolve_for_probe w policy limit host port st = (Some (addrs, identity), st')"
  let ?probe = "case plan of
        Some p \<Rightarrow> webtunnel_upgrade_probe_observed (w_externals w) (w_network w) p (max limit MIN_WEBTUNNEL_TIMEOUT) addrs
      | None \<Rightarrow> tcp_probe_observed (w_network w) addrs limit"
  obtain o' tried where o: "?probe = (o', tried)" by (cases ?probe)
  have "fst (resolve_and_probe w policy limit bridge st) = o'"
    by (simp add: resolve_and_probe_def assms(1,2) target r o)
  moreover have "if list_ex (answers w limit plan addrs) addrs then \<exists>t. o' = Reachable t else \<exists>r. o' = Unreachable r"
  proof (cases plan)
    case None
    then show ?thesis
      using o tcp_probe_from_spec [of "w_network w" limit 0 "[]" NoUsableAddress addrs o' tried]
      by (auto simp: answers_def [abs_def] tcp_probe_observed_def split: if_splits)
  next
    case (Some p)
    then show ?thesis
      using o upgrade_probe_spec [of "w_externals w" "w_network w" p "max limit MIN_WEBTUNNEL_TIMEOUT" addrs o' tried]
      by (auto simp: answers_def [abs_def] split: if_splits)
  qed
  ultimately show "if list_ex (answers w limit plan addrs) addrs
       then \<exists>t. fst (resolve_and_probe w policy limit bridge st) = Reachable t
       else \<exists>r. fst (resolve_and_probe w policy limit bridge st) = Unreachable r" by simp
qed

text \<open>
  C16: A verdict is earned.  A usable line with a valid target is not measured exactly when its host
  has to be resolved and no resolver answered; otherwise it is reachable exactly when one of the
  resolved addresses answers within its own share of the budget (a candidate that hangs never uses up
  the others'), and unreachable when every one of them failed.  A line that is unusable or names no
  valid target is unreachable without any lookup.
\<close>

theorem verdicts_are_earned:
  "case (usable_for_tor bridge, probe_plan (w_externals w) bridge, resolve_probe_target (w_externals w) bridge) of
     (True, Inr plan, Inr (host, port)) \<Rightarrow>
       (case fst (resolve_for_probe w policy limit host port st) of
          None \<Rightarrow> ip_from_str host = None \<and> fst (resolve_and_probe w policy limit bridge st) = Unmeasured
        | Some (addrs, _) \<Rightarrow>
            if list_ex (answers w limit plan addrs) addrs
            then \<exists>t. fst (resolve_and_probe w policy limit bridge st) = Reachable t
            else \<exists>r. fst (resolve_and_probe w policy limit bridge st) = Unreachable r)
   | _ \<Rightarrow> \<exists>r. resolve_and_probe w policy limit bridge st = (Unreachable r, st)"
proof (cases "usable_for_tor bridge")
  case usable: True
  show ?thesis
  proof (cases "probe_plan (w_externals w) bridge")
    case (Inl e)
    then show ?thesis using usable by (simp add: resolve_and_probe_def)
  next
    case (Inr plan)
    show ?thesis
    proof (cases "resolve_probe_target (w_externals w) bridge")
      case (Inl e)
      then show ?thesis
        using usable Inr resolve_probe_target_plan [OF Inr] by (simp add: resolve_and_probe_def)
    next
      case t: (Inr hp)
      obtain host port where hp: "hp = (host, port)" by (cases hp)
      obtain found st' where r: "resolve_for_probe w policy limit host port st = (found, st')"
        by (cases "resolve_for_probe w policy limit host port st")
      have lit: "ip_from_str host = None" if "found = None"
        using resolve_literal [of host _ w policy limit port st] r that by (cases "ip_from_str host") simp_all
      show ?thesis
      proof (cases found)
        case None
        then show ?thesis
          using lit probe_eqs(1) [OF usable Inr t [unfolded hp] r [unfolded None]] by (simp add: usable Inr t hp r)
      next
        case (Some p)
        obtain addrs identity where p: "p = (addrs, identity)" by (cases p)
        show ?thesis
          using probe_eqs(2) [OF usable Inr t [unfolded hp] r [unfolded Some p]] by (simp add: usable Inr t hp r Some p)
      qed
    qed
  qed
qed (simp add: resolve_and_probe_def)

section \<open>One identity, one verdict\<close>

fun verdict :: "outcome \<Rightarrow> nat option option" where
  "verdict (Reachable t) = Some (Some t)"
| "verdict (Unreachable _) = Some None"
| "verdict Unmeasured = None"

lemma plan_has_url: "plan_of x bridge = Inr p \<Longrightarrow> om_lookup (bl_params bridge) ''url'' \<noteq> None"
  by (auto simp: plan_of_def prepared_target_new_def)

lemma webtunnel_without_plan:
  assumes "bl_transport bridge = Some ''webtunnel''" and "plan_of (w_externals w) bridge = Inl e"
  shows "\<exists>r. resolve_and_probe w policy limit bridge st = (Unreachable r, st)"
  using assms by (simp add: resolve_and_probe_def probe_plan_def)

lemma webtunnel_with_plan:
  assumes "bl_transport a = Some ''webtunnel''" and "plan_of (w_externals w) a = Inr p"
    and "bl_transport b = Some ''webtunnel''" and "plan_of (w_externals w) b = Inr p"
  shows "resolve_and_probe w policy limit a st = resolve_and_probe w policy limit b st"
  using assms plan_has_url [OF assms(2)] plan_has_url [OF assms(4)]
  by (simp add: resolve_and_probe_def probe_plan_def usable_for_tor_def)

text \<open>
  Lines that share an identity are interchangeable for probing: dropping one of them as a
  duplicate loses nothing, since both get the same verdict with the same latency and leave the DNS
  cache in the same state.
\<close>

theorem same_identity_same_verdict:
  assumes "bridge_identity_of (w_externals w) a = bridge_identity_of (w_externals w) b"
  shows "verdict (fst (resolve_and_probe w policy limit a st)) = verdict (fst (resolve_and_probe w policy limit b st)) \<and>
    snd (resolve_and_probe w policy limit a st) = snd (resolve_and_probe w policy limit b st)"
proof (cases "bl_transport a = Some ''webtunnel''")
  case True
  then have b: "bl_transport b = Some ''webtunnel''"
    and plans: "ok (plan_of (w_externals w) a) = ok (plan_of (w_externals w) b)"
    using assms by (auto simp: bridge_identity_of_def webtunnel_endpoint_identity_def)
  show ?thesis
  proof (cases "plan_of (w_externals w) a")
    case (Inl e)
    then obtain e' where "plan_of (w_externals w) b = Inl e'" using plans by (cases "plan_of (w_externals w) b") auto
    then show ?thesis
      using webtunnel_without_plan [OF True Inl, of policy limit st] webtunnel_without_plan [OF b, of w e' policy limit st]
      by auto
  next
    case (Inr p)
    then have "plan_of (w_externals w) b = Inr p" using plans by (cases "plan_of (w_externals w) b") auto
    then show ?thesis using webtunnel_with_plan [OF True Inr b] by simp
  qed
next
  case False
  then have "bl_transport b = bl_transport a" "bl_addr b = bl_addr a"
    using assms by (auto simp: bridge_identity_of_def)
  then have "resolve_and_probe w policy limit a st = resolve_and_probe w policy limit b st"
    using False by (simp add: resolve_and_probe_def usable_for_tor_def probe_plan_def resolve_probe_target_def)
  then show ?thesis by simp
qed

text \<open>A sample world: one URL parses, every connect takes 3 ms and succeeds, upgrades are refused.\<close>

definition sample_url_parse :: "str \<Rightarrow> (url_error, url) result" where
  "sample_url_parse s =
     (if s = ''https://h/p'' then Inr \<lparr>u_scheme = ''https'', u_host = Some ''h'', u_port = None,
        u_port_or_default = Some 443, u_path = ''/p'', u_query = None\<rparr>
      else Inl RelativeUrlWithoutBase)"

definition sample_world :: surroundings where
  "sample_world =
     \<lparr>w_externals = \<lparr>x_url = sample_url_parse, x_name = (\<lambda>_. True)\<rparr>,
      w_network = \<lparr>n_connect = (\<lambda>_. (3, True)), n_upgrade = (\<lambda>_ _. (4, False, False, [])), n_parse = (\<lambda>_. HttpError)\<rparr>,
      w_resolvers = \<lparr>r_wave = (\<lambda>_. None), r_system = (\<lambda>_ _. Some [V4 9])\<rparr>,
      w_now = 5, w_unix = 7, w_during = [], w_dns_time = 1, w_gen_seen = 0\<rparr>"

definition sample_line :: "(str, str) omap \<Rightarrow> bridge_line" where
  "sample_line params = \<lparr>bl_transport = Some ''webtunnel'', bl_addr = \<lparr>sa_ip = V4 1, sa_port = 443, sa_scope = 0\<rparr>,
     bl_fingerprint = None, bl_params = params\<rparr>"

theorem same_identity_same_verdict_witness:
  "(let a = sample_line [(''url'', ''h/p'')]; b = sample_line [(''url'', ''https://h/p''), (''ver'', ''0.0.1'')];
        policy = \<lparr>doh_enabled = True, system_fallback = True\<rparr>
    in a \<noteq> b \<and> verdict (fst (resolve_and_probe sample_world policy 3000 a (fresh_dns 2))) =
       verdict (fst (resolve_and_probe sample_world policy 3000 b (fresh_dns 2))))"
proof -
  have "bridge_identity_of (w_externals sample_world) (sample_line [(''url'', ''h/p'')]) =
      bridge_identity_of (w_externals sample_world) (sample_line [(''url'', ''https://h/p''), (''ver'', ''0.0.1'')])"
    by code_simp
  from same_identity_same_verdict [OF this, of "\<lparr>doh_enabled = True, system_fallback = True\<rparr>" 3000 "fresh_dns 2"]
  show ?thesis by (simp add: sample_line_def)
qed

section \<open>Which resolvers are consulted\<close>

lemma probe_cong:
  assumes "w_externals w' = w_externals w" and "w_network w' = w_network w" and "w_gen_seen w' = w_gen_seen w"
    and "w_during w' = w_during w" and "w_dns_time w' = w_dns_time w" and "w_now w' = w_now w" and "w_unix w' = w_unix w"
    and "\<And>host port. resolve_addrs_observed (w_resolvers w') (w_now w) (w_unix w) (w_during w) policy host port st =
      resolve_addrs_observed (w_resolvers w) (w_now w) (w_unix w) (w_during w) policy host port st"
  shows "resolve_and_probe w' policy limit bridge st = resolve_and_probe w policy limit bridge st"
  unfolding resolve_and_probe_def blame_def resolve_for_probe_def assms ..

lemma resolve_with_doh_cong:
  assumes "r_wave r' = r_wave r"
  shows "resolve_with_doh r' now unix during query port st = resolve_with_doh r now unix during query port st"
  unfolding resolve_with_doh_def coalesced_doh_lookup_observed_def assms ..

lemma no_system_resolution:
  assumes "\<not> system_fallback policy"
  shows "resolve_addrs_observed (r\<lparr>r_system := system\<rparr>) now unix during policy host port st =
    resolve_addrs_observed r now unix during policy host port st"
  using assms resolve_with_doh_cong [of "r\<lparr>r_system := system\<rparr>" r]
  by (simp add: resolve_addrs_observed_def split: option.split prod.split)

lemma no_encrypted_resolution:
  assumes "\<not> doh_enabled policy"
  shows "resolve_addrs_observed (r\<lparr>r_wave := wave\<rparr>) now unix during policy host port st =
      resolve_addrs_observed r now unix during policy host port st"
    and "resolve_addrs_observed r now unix during policy host port st = (Inr (addrs, identity), st') \<Longrightarrow> identity = None"
    and "snd (resolve_addrs_observed r now unix during policy host port st) = st"
  using assms by (auto simp: resolve_addrs_observed_def split: option.splits if_splits)

lemma state_after_plain_resolution:
  assumes "\<not> doh_enabled policy"
  shows "snd (resolve_for_probe w policy limit host port st) \<in> {st, run_ops (w_during w) st}"
    and "resolve_for_probe w policy limit host port st = (Some (addrs, identity), st') \<Longrightarrow> identity = None"
  using no_encrypted_resolution(2,3) [OF assms, of "w_resolvers w" "w_now w" "w_unix w" "w_during w" host port st]
  by (auto simp: resolve_for_probe_def split: option.splits prod.splits sum.splits if_splits)

text \<open>
  C19: A probe asks only the resolvers its policy permits.  Without system fallback, its outcome and
  the cache do not depend on the operating system's resolver at all.  With encrypted resolution
  disabled they do not depend on the providers, and the probe itself changes nothing in the cache.
\<close>

theorem probes_respect_resolver_policy:
  "(\<not> system_fallback policy \<longrightarrow>
      resolve_and_probe (w\<lparr>w_resolvers := (w_resolvers w)\<lparr>r_system := system\<rparr>\<rparr>) policy limit bridge st =
      resolve_and_probe w policy limit bridge st) \<and>
   (\<not> doh_enabled policy \<longrightarrow>
      resolve_and_probe (w\<lparr>w_resolvers := (w_resolvers w)\<lparr>r_wave := wave\<rparr>\<rparr>) policy limit bridge st =
        resolve_and_probe w policy limit bridge st \<and>
      snd (resolve_and_probe w policy limit bridge st) \<in> {st, run_ops (w_during w) st})"
proof (intro conjI impI)
  assume no: "\<not> system_fallback policy"
  show "resolve_and_probe (w\<lparr>w_resolvers := (w_resolvers w)\<lparr>r_system := system\<rparr>\<rparr>) policy limit bridge st =
      resolve_and_probe w policy limit bridge st"
    by (rule probe_cong) (simp_all add: no_system_resolution [OF no])
next
  assume no: "\<not> doh_enabled policy"
  show "resolve_and_probe (w\<lparr>w_resolvers := (w_resolvers w)\<lparr>r_wave := wave\<rparr>\<rparr>) policy limit bridge st =
      resolve_and_probe w policy limit bridge st"
    by (rule probe_cong) (simp_all add: no_encrypted_resolution(1) [OF no])
  have "snd (case resolve_for_probe w policy limit host port st of
      (None, st) \<Rightarrow> (Unmeasured, st)
    | (Some (addrs, identity), st) \<Rightarrow> (let (outcome, tried) = f addrs in (outcome, blame w host identity tried st)))
    \<in> {st, run_ops (w_during w) st}" for host port and f :: "socket_addr list \<Rightarrow> outcome \<times> socket_addr list"
    using state_after_plain_resolution [OF no, of w limit host port st]
    by (cases "resolve_for_probe w policy limit host port st") (auto simp: blame_def Let_def split: option.split prod.split)
  then show "snd (resolve_and_probe w policy limit bridge st) \<in> {st, run_ops (w_during w) st}"
    unfolding resolve_and_probe_def by (auto split: sum.split prod.split simp del: insert_iff)
qed

theorem probes_respect_resolver_policy_witness:
  "let a = sample_line [(''url'', ''h/p'')]; no_system = \<lparr>doh_enabled = True, system_fallback = False\<rparr>;
       no_doh = \<lparr>doh_enabled = False, system_fallback = True\<rparr>
   in resolve_and_probe (sample_world\<lparr>w_resolvers := (w_resolvers sample_world)\<lparr>r_system := \<lambda>_ _. None\<rparr>\<rparr>) no_system 3000 a
        (fresh_dns 2) = resolve_and_probe sample_world no_system 3000 a (fresh_dns 2) \<and>
      snd (resolve_and_probe sample_world no_doh 3000 a (fresh_dns 2)) = fresh_dns 2"
  using probes_respect_resolver_policy [where policy = "\<lparr>doh_enabled = True, system_fallback = False\<rparr>" and w = sample_world
      and system = "\<lambda>_ _. None" and limit = 3000 and bridge = "sample_line [(''url'', ''h/p'')]" and st = "fresh_dns 2"]
    probes_respect_resolver_policy [where policy = "\<lparr>doh_enabled = False, system_fallback = True\<rparr>" and w = sample_world
      and limit = 3000 and bridge = "sample_line [(''url'', ''h/p'')]" and st = "fresh_dns 2"]
  by (simp add: Let_def sample_world_def)

text \<open>
  A WebTunnel line that gives an \<open>addr=\<close> but no \<open>url=\<close> passes the usability check, and yet no
  probe can ever measure it: every probe reports it unreachable for a missing target.
\<close>

theorem addr_only_webtunnel_is_never_probed:
  assumes "bl_transport bridge = Some ''webtunnel''" and "om_lookup (bl_params bridge) ''url'' = None"
    and "om_lookup (bl_params bridge) ''addr'' = Some addr"
  shows "usable_for_tor bridge \<and> resolve_and_probe w policy limit bridge st = (Unreachable (BadTarget MissingUrl), st)"
  using assms by (simp add: usable_for_tor_def resolve_and_probe_def probe_plan_def plan_of_def prepared_target_new_def ok_or_def)

theorem addr_only_webtunnel_is_never_probed_witness:
  "usable_for_tor (sample_line [(''addr'', ''192.0.2.1:443'')]) \<and>
   fst (resolve_and_probe sample_world \<lparr>doh_enabled = True, system_fallback = True\<rparr> 3000
     (sample_line [(''addr'', ''192.0.2.1:443'')]) (fresh_dns 2)) = Unreachable (BadTarget MissingUrl)"
  using addr_only_webtunnel_is_never_probed [where bridge = "sample_line [(''addr'', ''192.0.2.1:443'')]"
      and w = sample_world and policy = "\<lparr>doh_enabled = True, system_fallback = True\<rparr>" and limit = 3000 and st = "fresh_dns 2"]
  by (simp add: sample_line_def)

section \<open>Rounds\<close>

lemma fold_collect:
  "fold collect_report reports round =
     \<lparr>pr_alive = pr_alive round @ List.map_filter (\<lambda>r. map_option (Pair (fst r)) (report_latency r)) reports,
      pr_unmeasured = pr_unmeasured round @ map fst (filter (\<lambda>r. snd r = Unmeasured) reports)\<rparr>"
proof (induction reports arbitrary: round)
  case (Cons r reports)
  then show ?case by (cases r; cases "snd r") (auto simp: collect_report_def map_filter_def)
qed (simp add: map_filter_def)

lemma probe_until_loop_spec:
  assumes "probe_until_loop probe target max_attempts attempts live bridges st = (live', attempts')"
    and "length live \<le> target" and "attempts \<le> max_attempts"
  shows "\<exists>n found. attempts' = attempts + n \<and> n \<le> length bridges \<and> attempts' \<le> max_attempts \<and>
    live' = live @ found \<and> length live' \<le> target \<and> subseq (map fst found) (take n bridges) \<and>
    (length live' < target \<longrightarrow> attempts' = min max_attempts (attempts + length bridges))"
  using assms
proof (induction bridges arbitrary: attempts live st)
  case (Cons b bridges)
  show ?case
  proof (cases "target \<le> length live \<or> max_attempts \<le> attempts")
    case True
    then show ?thesis using Cons.prems by (intro exI [of _ 0] exI [of _ "[]"]) auto
  next
    case False
    obtain o' st' where p: "probe b st = (o', st')" by force
    obtain new where run: "probe_until_loop probe target max_attempts (attempts + 1) (live @ new) bridges st' = (live', attempts')"
      and le: "length (live @ new) \<le> target" and new: "subseq (map fst new) [b]"
    proof (cases o')
      case (Reachable t)
      then show ?thesis using that [of "[(b, t)]"] Cons.prems False p by simp
    qed (use that [of "[]"] Cons.prems False p in simp_all)
    obtain n found where *: "attempts' = attempts + 1 + n" "n \<le> length bridges" "attempts' \<le> max_attempts"
        "live' = (live @ new) @ found" "length live' \<le> target" "subseq (map fst found) (take n bridges)"
        "length live' < target \<longrightarrow> attempts' = min max_attempts (attempts + 1 + length bridges)"
      using Cons.IH [OF run le] False by (metis Suc_eq_plus1 Suc_leI not_le)
    have "subseq (map fst (new @ found)) (take (Suc n) (b # bridges))"
      using list_emb_append_mono [OF new *(6)] by simp
    with * show ?thesis by (intro exI [of _ "Suc n"] exI [of _ "new @ found"]) auto
  qed
qed auto

lemma probe_until_spec:
  "\<exists>n \<le> length bridges. n \<le> max_attempts \<and>
     subseq (map fst (probe_until probe bridges target max_attempts st)) (take n bridges) \<and>
     length (probe_until probe bridges target max_attempts st) \<le> target \<and>
     (length (probe_until probe bridges target max_attempts st) < target \<longrightarrow> n = min max_attempts (length bridges))"
proof (cases "target = 0")
  case False
  obtain live attempts where run: "probe_until_loop probe target max_attempts 0 [] bridges st = (live, attempts)" by force
  show ?thesis using probe_until_loop_spec [OF run] run False by (auto simp: probe_until_def)
qed (auto simp: probe_until_def)

text \<open>
  A round reports every bridge that answered, once, fastest first, with its measured latency, and
  lists exactly the bridges it could not test.  Lazy probing walks its list in order within the
  permitted attempts, never returns more live bridges than wanted, and returns fewer only after
  spending every attempt or the whole list.
\<close>

theorem rounds_report_what_was_measured:
  "mset (pr_alive (probe_round_of reports)) =
     mset (List.map_filter (\<lambda>r. map_option (Pair (fst r)) (report_latency r)) reports) \<and>
   sorted (map snd (pr_alive (probe_round_of reports))) \<and>
   pr_unmeasured (probe_round_of reports) = map fst (filter (\<lambda>r. snd r = Unmeasured) reports) \<and>
   (let live = probe_until probe bridges target max_attempts st in
    \<exists>n. n \<le> min max_attempts (length bridges) \<and> subseq (map fst live) (take n bridges) \<and>
      (length live = target \<or> length live < target \<and> n = min max_attempts (length bridges)))"
proof -
  have "mset (pr_alive (probe_round_of reports)) =
      mset (List.map_filter (\<lambda>r. map_option (Pair (fst r)) (report_latency r)) reports)"
    and "sorted (map snd (pr_alive (probe_round_of reports)))"
    and "pr_unmeasured (probe_round_of reports) = map fst (filter (\<lambda>r. snd r = Unmeasured) reports)"
    by (simp_all add: probe_round_of_def Let_def fold_collect)
  moreover have "\<exists>n. n \<le> min max_attempts (length bridges) \<and>
      subseq (map fst (probe_until probe bridges target max_attempts st)) (take n bridges) \<and>
      (length (probe_until probe bridges target max_attempts st) = target \<or>
       length (probe_until probe bridges target max_attempts st) < target \<and> n = min max_attempts (length bridges))"
    using probe_until_spec [of bridges max_attempts probe target st] by (metis le_neq_implies_less min.bounded_iff)
  ultimately show ?thesis unfolding Let_def by blast
qed

end
