(* ===== verification/ProxyServer.thy ===== *)
theory ProxyServer
  imports Auth Socks5Adapter
begin

text \<open>
  The proxy's listener runtime (\<open>apps/socks5-proxy/src/server\<close>): the per-connection handler with its
  policy gates, the classification of failures, the health counters, listener binding and the choice
  of an upstream.  A connection is a list of effects and a result.  The inbound handshake, the target
  parser and the egress dial belong to libraries and the network; they are the fields of \<open>conn_env\<close>.
\<close>

section \<open>Errors\<close>

datatype io_kind =
  ConnectionReset | ConnectionAborted | BrokenPipe | UnexpectedEof
| AddrInUse | PermissionDenied | AddrNotAvailable | OtherIo

datatype tor_error = TorConnect | TorOther

text \<open>An \<open>anyhow\<close> error is the chain of its causes, outermost first; \<open>context\<close> adds one that has only a text.\<close>

record cause =
  c_text :: str
  c_io :: "io_kind option"
  c_tor :: "tor_error option"

type_synonym chain = "cause list"

definition with_context :: "str \<Rightarrow> chain \<Rightarrow> chain" where
  "with_context tag err = \<lparr>c_text = tag, c_io = None, c_tor = None\<rparr> # err"

definition message :: "str \<Rightarrow> chain" where
  "message m = [\<lparr>c_text = m, c_io = None, c_tor = None\<rparr>]"

definition STAGE_HANDSHAKE :: str where "STAGE_HANDSHAKE = ''SOCKS5 handshake''"
definition STAGE_CONNECT_TOR :: str where "STAGE_CONNECT_TOR = ''tor connect''"
definition STAGE_CONNECT_UPSTREAM :: str where "STAGE_CONNECT_UPSTREAM = ''upstream connect''"
definition STAGE_RELAY :: str where "STAGE_RELAY = ''relay''"

datatype conn_error_kind = KindClient | KindTor | KindRelay | KindOther
datatype conn_stage = StageHandshake | StageConnect | StageRelay | StageOther

definition stage_of :: "chain \<Rightarrow> conn_stage" where
  "stage_of err =
     (if list_ex (\<lambda>c. c_text c = STAGE_RELAY) err then StageRelay
      else if list_ex (\<lambda>c. c_text c = STAGE_HANDSHAKE) err then StageHandshake
      else if list_ex (\<lambda>c. c_text c = STAGE_CONNECT_TOR \<or> c_text c = STAGE_CONNECT_UPSTREAM) err then StageConnect
      else StageOther)"

definition is_dropish_io :: "chain \<Rightarrow> bool" where
  "is_dropish_io err \<longleftrightarrow>
     list_ex (\<lambda>c. case c_io c of
                    Some k \<Rightarrow> k \<in> set [ConnectionReset, ConnectionAborted, BrokenPipe, UnexpectedEof]
                  | None \<Rightarrow> False) err"

definition classify_conn_failure :: "chain \<Rightarrow> conn_stage \<times> conn_error_kind" where
  "classify_conn_failure err =
     (let stage = stage_of err in
      if list_ex (\<lambda>c. c_tor c = Some TorConnect) err then (stage, KindTor)
      else (stage, case stage of
              StageHandshake \<Rightarrow> KindClient
            | StageRelay \<Rightarrow> if is_dropish_io err then KindRelay else KindOther
            | StageConnect \<Rightarrow> KindOther
            | StageOther \<Rightarrow> if is_dropish_io err then KindClient else KindOther))"

section \<open>Health counters\<close>

record counters =
  h_started :: u64
  h_pending :: u64
  h_connect_ok :: u64
  h_connect_failed :: u64
  h_relay_closed :: u64
  h_relay_errors :: u64
  h_client_errors :: u64
  h_tor_errors :: u64
  h_other_errors :: u64

definition record_started :: "counters \<Rightarrow> counters" where
  "record_started h = h\<lparr>h_started := h_started h + 1, h_pending := h_pending h + 1\<rparr>"

definition drop_pending_guard :: "counters \<Rightarrow> counters" where
  "drop_pending_guard h = h\<lparr>h_pending := h_pending h - 1\<rparr>"

definition record_connect_ok :: "counters \<Rightarrow> counters" where
  "record_connect_ok h = h\<lparr>h_connect_ok := h_connect_ok h + 1\<rparr>"

definition record_connect_failed :: "counters \<Rightarrow> counters" where
  "record_connect_failed h = h\<lparr>h_connect_failed := h_connect_failed h + 1\<rparr>"

definition record_relay_closed :: "counters \<Rightarrow> counters" where
  "record_relay_closed h = h\<lparr>h_relay_closed := h_relay_closed h + 1\<rparr>"

definition record_error :: "conn_error_kind \<Rightarrow> counters \<Rightarrow> counters" where
  "record_error kind h =
     (case kind of
        KindClient \<Rightarrow> h\<lparr>h_client_errors := h_client_errors h + 1\<rparr>
      | KindTor \<Rightarrow> h\<lparr>h_tor_errors := h_tor_errors h + 1\<rparr>
      | KindRelay \<Rightarrow> h\<lparr>h_relay_errors := h_relay_errors h + 1\<rparr>
      | KindOther \<Rightarrow> h\<lparr>h_other_errors := h_other_errors h + 1\<rparr>)"

definition record_failure :: "conn_stage \<Rightarrow> conn_error_kind \<Rightarrow> counters \<Rightarrow> counters" where
  "record_failure stage kind h =
     (let h = record_error kind h in if stage = StageConnect then record_connect_failed h else h)"

definition snapshot_and_reset :: "counters \<Rightarrow> counters \<times> counters" where
  "snapshot_and_reset h =
     (h, \<lparr>h_started = 0, h_pending = h_pending h, h_connect_ok = 0, h_connect_failed = 0, h_relay_closed = 0,
          h_relay_errors = 0, h_client_errors = 0, h_tor_errors = 0, h_other_errors = 0\<rparr>)"

definition is_empty :: "counters \<Rightarrow> bool" where
  "is_empty h \<longleftrightarrow> h_started h = 0 \<and> h_connect_ok h = 0 \<and> h_connect_failed h = 0 \<and> h_relay_closed h = 0 \<and>
     h_relay_errors h = 0 \<and> h_client_errors h = 0 \<and> h_tor_errors h = 0 \<and> h_other_errors h = 0"

definition connect_success_rate_pct :: "counters \<Rightarrow> u8 option" where
  "connect_success_rate_pct h =
     (if 2 ^ 64 \<le> unat (h_connect_ok h) + unat (h_connect_failed h) then None
      else let completed = unat (h_connect_ok h) + unat (h_connect_failed h) in
           if completed = 0 then None
           else Some (of_nat (min (unat (h_connect_ok h) * 100 div completed) 100)))"

section \<open>One connection\<close>

datatype egress = EgressTor | EgressUpstream
datatype reply = Established | Forbidden | GeneralFailure

record request =
  rq_target :: str
  rq_username :: "str option"
  rq_pipeline :: str

datatype counter_event = ConnectOk | ConnectFailed | RelayClosed

datatype effect =
  Replied reply
| RefreshRequested
| RefreshAfterFailure chain
| Attempted
| FailureClassified chain
| Succeeded str u16
| Dialled egress str u16
| SentToEgress str
| Relayed
| Counted counter_event

text \<open>
  What surrounds one connection: the outcome of the handshake, the target parser, the peer address of
  the socket, whether a reply can be written, whether the tunnel slot is filled, and how the dial, the
  first write and the relay end.
\<close>

record conn_env =
  cx_handshake :: "(chain, request) result"
  cx_host_port :: "str \<Rightarrow> (str \<times> u16) option"
  cx_peer :: "ip_addr option"
  cx_reply :: "reply \<Rightarrow> chain option"
  cx_tunnel :: bool
  cx_dial :: "str \<Rightarrow> u16 \<Rightarrow> chain option"
  cx_write :: "chain option"
  cx_relay :: "chain option"

definition onion_permitted :: "auth_state option \<Rightarrow> str option \<Rightarrow> bool" where
  "onion_permitted auth authed_user =
     (case (auth, authed_user) of
        (None, _) \<Rightarrow> True
      | (Some state, Some name) \<Rightarrow> allowed_onion state name
      | (Some _, None) \<Rightarrow> False)"

definition user_allowed :: "auth_state option \<Rightarrow> str option \<Rightarrow> ip_addr option \<Rightarrow> bool" where
  "user_allowed auth username peer =
     (case (auth, username, peer) of
        (Some state, Some name, Some ip) \<Rightarrow> client_allowed state name ip
      | (Some _, _, _) \<Rightarrow> False
      | (None, _, _) \<Rightarrow> True)"

text \<open>What follows a successful dial: the reply, the client's pipelined bytes, then the relay.\<close>

definition relay_stage :: "conn_env \<Rightarrow> str \<Rightarrow> effect list \<times> chain option" where
  "relay_stage w pipeline =
     (case cx_reply w Established of
        Some e \<Rightarrow> ([Replied Established], Some e)
      | None \<Rightarrow>
          (case cx_write w of
             Some e \<Rightarrow> ([Replied Established, SentToEgress pipeline], Some (with_context STAGE_RELAY e))
           | None \<Rightarrow>
               (case cx_relay w of
                  Some e \<Rightarrow> ([Replied Established, SentToEgress pipeline, Relayed], Some (with_context STAGE_RELAY e))
                | None \<Rightarrow> ([Replied Established, SentToEgress pipeline, Relayed, Counted RelayClosed], None))))"

definition before_stage :: "effect list \<Rightarrow> effect list \<times> chain option \<Rightarrow> effect list \<times> chain option" where
  "before_stage es r = (es @ fst r, snd r)"

definition tor_egress :: "conn_env \<Rightarrow> str \<Rightarrow> u16 \<Rightarrow> str \<Rightarrow> effect list \<times> chain option" where
  "tor_egress w host port pipeline =
     (if \<not> cx_tunnel w then
        ([RefreshRequested, Replied GeneralFailure, Counted ConnectFailed],
         Some (with_context STAGE_CONNECT_TOR (message ''tor tunnel unavailable (shutting down?)'')))
      else case cx_dial w host port of
        None \<Rightarrow>
          before_stage [RefreshRequested, Attempted, Dialled EgressTor host port, Succeeded host port, Counted ConnectOk]
            (relay_stage w pipeline)
      | Some e \<Rightarrow>
          ([RefreshRequested, Attempted, Dialled EgressTor host port, FailureClassified e, RefreshAfterFailure e,
            Replied GeneralFailure, Counted ConnectFailed],
           Some (with_context STAGE_CONNECT_TOR e)))"

definition upstream_egress :: "conn_env \<Rightarrow> str \<Rightarrow> u16 \<Rightarrow> str \<Rightarrow> effect list \<times> chain option" where
  "upstream_egress w host port pipeline =
     (case cx_dial w host port of
        None \<Rightarrow> before_stage [Dialled EgressUpstream host port, Counted ConnectOk] (relay_stage w pipeline)
      | Some e \<Rightarrow>
          ([Dialled EgressUpstream host port, Replied GeneralFailure, Counted ConnectFailed],
           Some (with_context STAGE_CONNECT_UPSTREAM e)))"

definition handle_client ::
  "conn_env \<Rightarrow> egress \<Rightarrow> auth_state option \<Rightarrow> bool \<Rightarrow> effect list \<times> chain option" where
  "handle_client w egress auth block_onion =
     (case cx_handshake w of
        Inl e \<Rightarrow> ([], Some (with_context STAGE_HANDSHAKE e))
      | Inr req \<Rightarrow>
          (case cx_host_port w (rq_target req) of
             None \<Rightarrow> ([], Some (with_context STAGE_HANDSHAKE (message ''SDK returned an invalid target authority'')))
           | Some (host, port) \<Rightarrow>
               if block_onion \<and> is_onion host then ([Replied Forbidden], None)
               else if is_onion host \<and> \<not> onion_permitted auth (rq_username req) then ([Replied Forbidden], None)
               else if \<not> user_allowed auth (rq_username req) (cx_peer w) then ([Replied Forbidden], None)
               else case egress of
                      EgressTor \<Rightarrow> tor_egress w host port (rq_pipeline req)
                    | EgressUpstream \<Rightarrow> upstream_egress w host port (rq_pipeline req)))"

fun count_effect :: "effect \<Rightarrow> counters \<Rightarrow> counters" where
  "count_effect (Counted ConnectOk) h = record_connect_ok h"
| "count_effect (Counted ConnectFailed) h = record_connect_failed h"
| "count_effect (Counted RelayClosed) h = record_relay_closed h"
| "count_effect _ h = h"

text \<open>The spawned task of one connection, as far as the counters see it.\<close>

definition serve_connection ::
  "conn_env \<Rightarrow> egress \<Rightarrow> auth_state option \<Rightarrow> bool \<Rightarrow> counters \<Rightarrow> counters" where
  "serve_connection w egress auth block_onion h =
     (let (effects, result) = handle_client w egress auth block_onion;
          h = fold count_effect effects h
      in case result of
           Some e \<Rightarrow> (case classify_conn_failure e of (stage, kind) \<Rightarrow> record_failure stage kind h)
         | None \<Rightarrow> h)"

definition connection_task ::
  "conn_env \<Rightarrow> egress \<Rightarrow> auth_state option \<Rightarrow> bool \<Rightarrow> counters \<Rightarrow> counters" where
  "connection_task w egress auth block_onion h =
     drop_pending_guard (serve_connection w egress auth block_onion (record_started h))"

section \<open>Bridge deficit\<close>

definition compute_deficit :: "nat \<Rightarrow> nat \<Rightarrow> nat \<Rightarrow> nat" where
  "compute_deficit min_alive tcp_alive circuit_healthy = min_alive - min tcp_alive circuit_healthy"

section \<open>Upstream selection (upstream.rs)\<close>

record upstream_config =
  up_enabled :: bool
  up_address :: str
  up_username :: str
  up_password :: str

record upstream =
  us_address :: str
  us_credentials :: "(str \<times> str) option"
  us_proxy :: "(str \<times> u16 \<times> (str \<times> str) option) option"

definition upstream_new :: "(str \<Rightarrow> (str \<times> u16) option) \<Rightarrow> str \<Rightarrow> (str \<times> str) option \<Rightarrow> upstream" where
  "upstream_new host_port address creds =
     \<lparr>us_address = address, us_credentials = creds,
      us_proxy = map_option (\<lambda>(h, p). (h, p, creds)) (host_port address)\<rparr>"

datatype upstream_error = UpstreamNoAddress | UpstreamBadAddress

definition pick_upstream ::
  "(str \<Rightarrow> (str \<times> u16) option) \<Rightarrow> upstream_config \<Rightarrow> str option \<Rightarrow> str option \<Rightarrow> str option \<Rightarrow> bool
   \<Rightarrow> (upstream_error, upstream option) result" where
  "pick_upstream host_port cfg cli_address cli_user cli_pass no_upstream =
     (if no_upstream then Inr None
      else if \<not> (cli_address \<noteq> None \<or> up_enabled cfg) then Inr None
      else
        let address = (case cli_address of Some a \<Rightarrow> a | None \<Rightarrow> up_address cfg) in
        if trim address = [] then Inl UpstreamNoAddress
        else
          let username = (case cli_user of Some u \<Rightarrow> Some u
                                         | None \<Rightarrow> if up_username cfg = [] then None else Some (up_username cfg));
              password = (case cli_pass of Some p \<Rightarrow> Some p
                                         | None \<Rightarrow> if up_password cfg = [] then None else Some (up_password cfg));
              creds = map_option (\<lambda>u. (u, case password of Some p \<Rightarrow> p | None \<Rightarrow> [])) username;
              up = upstream_new host_port address creds
          in if us_proxy up = None then Inl UpstreamBadAddress else Inr (Some up))"

section \<open>Listeners (server_binding.rs, retry.rs)\<close>

definition skippable :: "io_kind \<Rightarrow> bool" where
  "skippable kind \<longleftrightarrow> kind \<in> set [AddrInUse, PermissionDenied, AddrNotAvailable]"

record bound_listeners =
  bl_listeners :: "str list"
  bl_skipped :: "(str \<times> io_kind) list"

datatype bind_error = NoAddresses | BindFailed str io_kind | NothingBound "(str \<times> io_kind) list"

fun bind_each :: "(str \<Rightarrow> io_kind option) \<Rightarrow> str list \<Rightarrow> bound_listeners \<Rightarrow> (bind_error, bound_listeners) result" where
  "bind_each bind_addr [] bound = Inr bound"
| "bind_each bind_addr (address # addresses) bound =
     (case bind_addr address of
        None \<Rightarrow> bind_each bind_addr addresses (bound\<lparr>bl_listeners := bl_listeners bound @ [address]\<rparr>)
      | Some kind \<Rightarrow>
          if skippable kind
          then bind_each bind_addr addresses (bound\<lparr>bl_skipped := bl_skipped bound @ [(address, kind)]\<rparr>)
          else Inl (BindFailed address kind))"

definition bind_listeners :: "(str \<Rightarrow> io_kind option) \<Rightarrow> str list \<Rightarrow> (bind_error, bound_listeners) result" where
  "bind_listeners bind_addr addresses =
     (if addresses = [] then Inl NoAddresses
      else and_then (bind_each bind_addr addresses \<lparr>bl_listeners = [], bl_skipped = []\<rparr>) (\<lambda>bound.
           if bl_listeners bound = [] then Inl (NothingBound (bl_skipped bound)) else Inr bound))"

definition retry_addresses :: "bound_listeners \<Rightarrow> str list" where
  "retry_addresses bound = map fst (filter (\<lambda>(_, kind). kind = AddrNotAvailable) (bl_skipped bound))"

text \<open>The retry loop: \<open>try_bind n\<close> is the outcome of the \<open>n\<close>-th attempt, each after a pause.\<close>

partial_function (option) retry_address_with :: "(nat \<Rightarrow> (io_kind, 't) result) \<Rightarrow> nat \<Rightarrow> ('t \<times> nat) option" where
  "retry_address_with try_bind n =
     (case try_bind n of
        Inr resource \<Rightarrow> Some (resource, n)
      | Inl _ \<Rightarrow> retry_address_with try_bind (Suc n))"

section \<open>What a connection may do\<close>

text \<open>The gates of a connection, read off the handshake: where the client may be connected to.\<close>

definition gate_open :: "conn_env \<Rightarrow> auth_state option \<Rightarrow> bool \<Rightarrow> request \<Rightarrow> str \<Rightarrow> bool" where
  "gate_open w auth block_onion req host \<longleftrightarrow>
     \<not> (block_onion \<and> is_onion host) \<and>
     (case auth of
        None \<Rightarrow> True
      | Some st \<Rightarrow>
          (case (rq_username req, cx_peer w) of
             (Some name, Some ip) \<Rightarrow> client_allowed st name ip \<and> (is_onion host \<longrightarrow> allowed_onion st name)
           | _ \<Rightarrow> False))"

datatype conn_verdict = BadHandshake | Refused | NoEgress | Connected

definition verdict_of :: "conn_env \<Rightarrow> egress \<Rightarrow> auth_state option \<Rightarrow> bool \<Rightarrow> conn_verdict" where
  "verdict_of w egress auth block_onion =
     (case cx_handshake w of
        Inl _ \<Rightarrow> BadHandshake
      | Inr req \<Rightarrow>
          (case cx_host_port w (rq_target req) of
             None \<Rightarrow> BadHandshake
           | Some (host, port) \<Rightarrow>
               if \<not> gate_open w auth block_onion req host then Refused
               else if egress = EgressTor \<and> \<not> cx_tunnel w \<or> cx_dial w host port \<noteq> None then NoEgress
               else Connected))"

lemma gates:
  "gate_open w auth block_onion req host \<longleftrightarrow>
     \<not> (block_onion \<and> is_onion host) \<and> (is_onion host \<longrightarrow> onion_permitted auth (rq_username req)) \<and>
     user_allowed auth (rq_username req) (cx_peer w)"
  by (auto simp: gate_open_def onion_permitted_def user_allowed_def split: option.splits)

lemma handle_client_eq:
  "handle_client w egress auth block_onion =
     (case cx_handshake w of
        Inl e \<Rightarrow> ([], Some (with_context STAGE_HANDSHAKE e))
      | Inr req \<Rightarrow>
          (case cx_host_port w (rq_target req) of
             None \<Rightarrow> ([], Some (with_context STAGE_HANDSHAKE (message ''SDK returned an invalid target authority'')))
           | Some (host, port) \<Rightarrow>
               if gate_open w auth block_onion req host
               then (case egress of EgressTor \<Rightarrow> tor_egress w host port (rq_pipeline req)
                                  | EgressUpstream \<Rightarrow> upstream_egress w host port (rq_pipeline req))
               else ([Replied Forbidden], None)))"
  by (auto simp: handle_client_def gates split: sum.split option.split prod.split)

lemmas egress_defs = tor_egress_def upstream_egress_def before_stage_def relay_stage_def

fun reply_of :: "effect \<Rightarrow> reply option" where
  "reply_of (Replied r) = Some r"
| "reply_of _ = None"

fun sent_of :: "effect \<Rightarrow> str option" where
  "sent_of (SentToEgress b) = Some b"
| "sent_of _ = None"

definition untagged :: "chain \<Rightarrow> bool" where
  "untagged e \<longleftrightarrow>
     list_all (\<lambda>c. c_text c \<notin> {STAGE_HANDSHAKE, STAGE_CONNECT_TOR, STAGE_CONNECT_UPSTREAM, STAGE_RELAY}) e"

definition env_untagged :: "conn_env \<Rightarrow> bool" where
  "env_untagged w \<longleftrightarrow>
     (case cx_handshake w of Inl e \<Rightarrow> untagged e | Inr _ \<Rightarrow> True) \<and>
     (\<forall>host port e. cx_dial w host port = Some e \<longrightarrow> untagged e) \<and>
     (\<forall>r e. cx_reply w r = Some e \<longrightarrow> untagged e) \<and>
     (\<forall>e. cx_write w = Some e \<longrightarrow> untagged e) \<and> (\<forall>e. cx_relay w = Some e \<longrightarrow> untagged e)"

lemmas stage_tags = STAGE_HANDSHAKE_def STAGE_CONNECT_TOR_def STAGE_CONNECT_UPSTREAM_def STAGE_RELAY_def

lemma stage_of_untagged: "untagged e \<Longrightarrow> stage_of e = StageOther"
  by (auto simp: untagged_def stage_of_def list_ex_iff list_all_iff)

lemma stage_of_tagged:
  assumes "untagged e"
  shows "stage_of (with_context STAGE_HANDSHAKE e) = StageHandshake"
    "stage_of (with_context STAGE_CONNECT_TOR e) = StageConnect"
    "stage_of (with_context STAGE_CONNECT_UPSTREAM e) = StageConnect"
    "stage_of (with_context STAGE_RELAY e) = StageRelay"
  using assms
  by (auto simp: untagged_def stage_of_def with_context_def list_ex_iff list_all_iff stage_tags)

lemma untagged_messages [simp]:
  "untagged (message ''SDK returned an invalid target authority'')"
  "untagged (message ''tor tunnel unavailable (shutting down?)'')"
  by (simp_all add: untagged_def message_def stage_tags)

lemma fst_classify: "fst (classify_conn_failure e) = stage_of e"
  by (simp add: classify_conn_failure_def Let_def)

definition complete :: "conn_env \<Rightarrow> bool" where
  "complete w \<longleftrightarrow> cx_reply w Established = None \<and> cx_write w = None \<and> cx_relay w = None"

text \<open>The contract of one connection: replies, bytes sent, counters and blame, by verdict.\<close>

definition conn_spec :: "conn_env \<Rightarrow> conn_verdict \<Rightarrow> effect list \<Rightarrow> chain option \<Rightarrow> bool" where
  "conn_spec w verdict es result \<longleftrightarrow>
     List.map_filter reply_of es =
       (case verdict of BadHandshake \<Rightarrow> [] | Refused \<Rightarrow> [Forbidden] | NoEgress \<Rightarrow> [GeneralFailure] | Connected \<Rightarrow> [Established]) \<and>
     List.map_filter sent_of es =
       (case cx_handshake w of
          Inl _ \<Rightarrow> []
        | Inr req \<Rightarrow> if verdict = Connected \<and> cx_reply w Established = None then [rq_pipeline req] else []) \<and>
     (List.map_filter sent_of es = [] \<or> Replied Established \<in> set (takeWhile (\<lambda>e. sent_of e = None) es)) \<and>
     (\<forall>h. fold count_effect es h =
       (case verdict of
          NoEgress \<Rightarrow> record_connect_failed h
        | Connected \<Rightarrow> if complete w then record_relay_closed (record_connect_ok h) else record_connect_ok h
        | _ \<Rightarrow> h)) \<and>
     (result = None \<longleftrightarrow> verdict = Refused \<or> verdict = Connected \<and> complete w) \<and>
     (env_untagged w \<longrightarrow> map_option stage_of result =
       (case verdict of
          BadHandshake \<Rightarrow> Some StageHandshake
        | Refused \<Rightarrow> None
        | NoEgress \<Rightarrow> Some StageConnect
        | Connected \<Rightarrow>
            if cx_reply w Established \<noteq> None then Some StageOther else if complete w then None else Some StageRelay))"

lemma handle_client_spec:
  "conn_spec w (verdict_of w egress auth block_onion) (fst (handle_client w egress auth block_onion))
     (snd (handle_client w egress auth block_onion))"
proof -
  note eqs = conn_spec_def handle_client_eq verdict_of_def map_filter_def env_untagged_def stage_of_tagged
    stage_of_untagged complete_def
  show ?thesis
  proof (cases "cx_handshake w")
    case (Inr req)
    show ?thesis
    proof (cases "cx_host_port w (rq_target req)")
      case (Some target)
      obtain host port where target: "target = (host, port)" by force
      show ?thesis
      proof (cases "gate_open w auth block_onion req host")
        case True
        with Inr Some target show ?thesis
          by (cases egress; cases "cx_dial w host port"; cases "cx_tunnel w"; cases "cx_reply w Established";
              cases "cx_write w"; cases "cx_relay w") (simp_all add: eqs egress_defs)
      qed (use Inr Some target in \<open>simp add: eqs\<close>)
    qed (use Inr in \<open>simp add: eqs\<close>)
  qed (simp add: eqs)
qed

lemmas conn_facts = handle_client_spec [unfolded conn_spec_def]

lemma gate_open_iff:
  "gate_open w auth block_onion req host \<longleftrightarrow>
     \<not> (block_onion \<and> is_onion host) \<and>
     (case auth of
        None \<Rightarrow> True
      | Some st \<Rightarrow>
          \<exists>name ip. rq_username req = Some name \<and> cx_peer w = Some ip \<and> client_allowed st name ip \<and>
            (is_onion host \<longrightarrow> allowed_onion st name))"
  by (auto simp: gate_open_def split: option.splits)

lemma dialled_gates:
  "Dialled e host port \<in> set (fst (handle_client w egress auth block_onion)) \<longleftrightarrow>
     e = egress \<and> (egress = EgressTor \<longrightarrow> cx_tunnel w) \<and>
     (\<exists>req. cx_handshake w = Inr req \<and> cx_host_port w (rq_target req) = Some (host, port) \<and>
       gate_open w auth block_onion req host)"
  unfolding handle_client_eq by (cases egress) (auto simp: egress_defs split: sum.splits option.splits)

text \<open>
  C2: The server opens an egress connection exactly when the handshake succeeded, its target parsed,
  the Tor slot is filled (for Tor egress) and every gate is open: no onion address when those are blocked,
  and, when accounts exist, a named account whose own client list admits this peer and which may use
  onion addresses if the target is one.  It dials exactly the requested target.
\<close>

theorem egress_only_through_the_gates:
  "Dialled e host port \<in> set (fst (handle_client w egress auth block_onion)) \<longleftrightarrow>
     e = egress \<and> (egress = EgressTor \<longrightarrow> cx_tunnel w) \<and>
     (\<exists>req. cx_handshake w = Inr req \<and> cx_host_port w (rq_target req) = Some (host, port) \<and>
       \<not> (block_onion \<and> is_onion host) \<and>
       (case auth of
          None \<Rightarrow> True
        | Some st \<Rightarrow>
            \<exists>name ip. rq_username req = Some name \<and> cx_peer w = Some ip \<and> client_allowed st name ip \<and>
              (is_onion host \<longrightarrow> allowed_onion st name)))"
  unfolding dialled_gates gate_open_iff by blast

text \<open>
  C15: Every connection whose handshake succeeds is answered exactly once, with the reply its verdict
  calls for; and the client's pipelined bytes go to the egress exactly once, unchanged, and only after
  the client has been told that the tunnel is established.
\<close>

theorem client_is_answered_once:
  "let es = fst (handle_client w egress auth block_onion) in
   List.map_filter reply_of es =
     (case verdict_of w egress auth block_onion of
        BadHandshake \<Rightarrow> [] | Refused \<Rightarrow> [Forbidden] | NoEgress \<Rightarrow> [GeneralFailure] | Connected \<Rightarrow> [Established]) \<and>
   List.map_filter sent_of es =
     (case cx_handshake w of
        Inl _ \<Rightarrow> []
      | Inr req \<Rightarrow> if verdict_of w egress auth block_onion = Connected \<and> cx_reply w Established = None
                   then [rq_pipeline req] else []) \<and>
   (List.map_filter sent_of es = [] \<or> Replied Established \<in> set (takeWhile (\<lambda>e. sent_of e = None) es))"
  using conn_facts [of w egress auth block_onion] unfolding Let_def by blast

text \<open>
  A failed connection is attributed to the stage it failed in: a bad handshake or target to the
  handshake, a missing tunnel or failed dial to the connect stage, an unwritable success reply to no
  stage, and everything after it to the relay.  A refused or completed connection is no failure.
\<close>

theorem failures_are_attributed_to_their_stage:
  assumes "env_untagged w"
  shows "map_option (fst \<circ> classify_conn_failure) (snd (handle_client w egress auth block_onion)) =
    (case verdict_of w egress auth block_onion of
       BadHandshake \<Rightarrow> Some StageHandshake
     | Refused \<Rightarrow> None
     | NoEgress \<Rightarrow> Some StageConnect
     | Connected \<Rightarrow>
         if cx_reply w Established \<noteq> None then Some StageOther else if complete w then None else Some StageRelay)"
  using conn_facts [of w egress auth block_onion] assms unfolding comp_def fst_classify by blast

definition error_total :: "counters \<Rightarrow> u64" where
  "error_total h = h_client_errors h + h_tor_errors h + h_relay_errors h + h_other_errors h"

lemma error_total_simps [simp]:
  "error_total (h\<lparr>h_started := n\<rparr>) = error_total h" "error_total (h\<lparr>h_pending := n\<rparr>) = error_total h"
  "error_total (h\<lparr>h_connect_ok := n\<rparr>) = error_total h" "error_total (h\<lparr>h_connect_failed := n\<rparr>) = error_total h"
  "error_total (h\<lparr>h_relay_closed := n\<rparr>) = error_total h"
  by (simp_all add: error_total_def)

lemma record_failure_fields:
  "h_started (record_failure stage kind h) = h_started h" "h_pending (record_failure stage kind h) = h_pending h"
  "h_connect_ok (record_failure stage kind h) = h_connect_ok h"
  "h_relay_closed (record_failure stage kind h) = h_relay_closed h"
  "error_total (record_failure stage kind h) = error_total h + 1"
  "h_connect_failed (record_failure stage kind h) = h_connect_failed h + (if stage = StageConnect then 1 else 0)"
  by (cases kind; simp add: record_failure_def record_error_def record_connect_failed_def error_total_def Let_def)+

lemmas counter_defs = record_started_def drop_pending_guard_def record_connect_ok_def record_connect_failed_def
  record_relay_closed_def

text \<open>
  The health counters see each connection as it was: one start, the pending gauge back where it
  was, one success exactly when the egress was dialled successfully, one closed relay exactly when it
  ran to its end, and one error exactly when the connection failed.
\<close>

theorem connections_are_counted:
  "let h' = connection_task w egress auth block_onion h; verdict = verdict_of w egress auth block_onion in
   h_started h' = h_started h + 1 \<and> h_pending h' = h_pending h \<and>
   h_connect_ok h' = h_connect_ok h + (if verdict = Connected then 1 else 0) \<and>
   h_relay_closed h' = h_relay_closed h + (if verdict = Connected \<and> complete w then 1 else 0) \<and>
   error_total h' = error_total h + (if verdict = Refused \<or> verdict = Connected \<and> complete w then 0 else 1)"
proof -
  let ?r = "handle_client w egress auth block_onion"
  have "fold count_effect (fst ?r) (record_started h) =
      (case verdict_of w egress auth block_onion of
          NoEgress \<Rightarrow> record_connect_failed (record_started h)
        | Connected \<Rightarrow> if complete w then record_relay_closed (record_connect_ok (record_started h)) else record_connect_ok (record_started h)
        | _ \<Rightarrow> record_started h)"
    and "snd ?r = None \<longleftrightarrow> verdict_of w egress auth block_onion = Refused \<or>
      verdict_of w egress auth block_onion = Connected \<and> complete w"
    using conn_facts [of w egress auth block_onion] by blast+
  then show ?thesis
    by (cases ?r; cases "snd ?r"; cases "verdict_of w egress auth block_onion")
      (auto simp: connection_task_def serve_connection_def Let_def record_failure_fields counter_defs split: prod.splits if_splits)
qed

text \<open>
  A failed dial is counted as two connect failures: the handler counts it, and so does the
  recording of its error.  One success and one failure are therefore reported as a success rate of 33
  percent.
\<close>

theorem connect_failure_is_counted_twice:
  assumes "env_untagged w" and "verdict_of w egress auth block_onion = NoEgress"
    and "h_connect_ok h = 1" and "h_connect_failed h = 0"
  shows "h_connect_failed (connection_task w egress auth block_onion h) = 2 \<and>
    connect_success_rate_pct (connection_task w egress auth block_onion h) = Some 33"
proof -
  let ?r = "handle_client w egress auth block_onion"
  obtain es e where r: "?r = (es, Some e)"
    using conn_facts [of w egress auth block_onion] assms(2) by (cases ?r; cases "snd ?r") auto
  have count: "fold count_effect es (record_started h) = record_connect_failed (record_started h)"
    and stage: "stage_of e = StageConnect"
    using conn_facts [of w egress auth block_onion] assms(1,2) r by simp_all
  obtain kind where k: "classify_conn_failure e = (StageConnect, kind)"
    using stage fst_classify [of e] by (cases "classify_conn_failure e") simp
  have "connection_task w egress auth block_onion h =
      drop_pending_guard (record_failure StageConnect kind (record_connect_failed (record_started h)))"
    using r count k by (simp add: connection_task_def serve_connection_def)
  then show ?thesis
    using assms(3,4) by (simp add: connect_success_rate_pct_def Let_def record_failure_fields counter_defs)
qed

definition sample_env :: conn_env where
  "sample_env = \<lparr>cx_handshake = Inr \<lparr>rq_target = ''h:1'', rq_username = None, rq_pipeline = ''x''\<rparr>,
     cx_host_port = (\<lambda>_. Some (''h'', 1)), cx_peer = Some (V4 1), cx_reply = (\<lambda>_. None), cx_tunnel = True,
     cx_dial = (\<lambda>_ _. Some [\<lparr>c_text = ''no circuit'', c_io = None, c_tor = Some TorConnect\<rparr>]),
     cx_write = None, cx_relay = None\<rparr>"

lemma sample_env_untagged: "env_untagged sample_env"
  by (auto simp: env_untagged_def sample_env_def untagged_def stage_tags)

theorem connect_failure_is_counted_twice_witness:
  "connect_success_rate_pct (connection_task sample_env EgressTor None True
     \<lparr>h_started = 1, h_pending = 0, h_connect_ok = 1, h_connect_failed = 0, h_relay_closed = 1, h_relay_errors = 0,
      h_client_errors = 0, h_tor_errors = 0, h_other_errors = 0\<rparr>) = Some 33"
proof -
  have "verdict_of sample_env EgressTor None True = NoEgress" by code_simp
  then show ?thesis
    using connect_failure_is_counted_twice [OF sample_env_untagged, of EgressTor None True
      "\<lparr>h_started = 1, h_pending = 0, h_connect_ok = 1, h_connect_failed = 0, h_relay_closed = 1, h_relay_errors = 0,
      h_client_errors = 0, h_tor_errors = 0, h_other_errors = 0\<rparr>"] by simp
qed

theorem failures_are_attributed_to_their_stage_witness:
  "map_option (fst \<circ> classify_conn_failure) (snd (handle_client sample_env EgressTor None True)) = Some StageConnect"
proof -
  have "verdict_of sample_env EgressTor None True = NoEgress" by code_simp
  then show ?thesis using failures_are_attributed_to_their_stage [OF sample_env_untagged, of EgressTor None True] by simp
qed

theorem egress_only_through_the_gates_witness:
  "Dialled EgressTor ''h'' 1 \<in> set (fst (handle_client sample_env EgressTor None True))"
proof -
  have "\<not> is_onion ''h''" by code_simp
  then show ?thesis
    using egress_only_through_the_gates [of EgressTor "''h''" 1 sample_env EgressTor None True] by (simp add: sample_env_def)
qed

section \<open>Listeners and upstreams\<close>

lemma bind_each_spec:
  "bind_each bind_addr addresses bound =
     (case filter (\<lambda>a. case bind_addr a of Some k \<Rightarrow> \<not> skippable k | None \<Rightarrow> False) addresses of
        a # _ \<Rightarrow> Inl (BindFailed a (the (bind_addr a)))
      | [] \<Rightarrow> Inr \<lparr>bl_listeners = bl_listeners bound @ filter (\<lambda>a. bind_addr a = None) addresses,
                 bl_skipped = bl_skipped bound @ List.map_filter (\<lambda>a. map_option (Pair a) (bind_addr a)) addresses\<rparr>)"
proof (induction addresses arbitrary: bound)
  case (Cons a addresses)
  then show ?case by (cases "bind_addr a") (auto simp: map_filter_def split: list.splits)
qed (simp add: map_filter_def)

lemma retry_from:
  assumes "\<forall>m \<in> {n..<k}. \<exists>e. try_bind m = Inl e" and "n \<le> k" and "try_bind k = Inr r"
  shows "retry_address_with try_bind n = Some (r, k)"
  using assms
proof (induction "k - n" arbitrary: n)
  case 0
  then show ?case by (simp add: retry_address_with.simps)
next
  case (Suc d)
  then obtain e where "try_bind n = Inl e" by force
  moreover have "retry_address_with try_bind (Suc n) = Some (r, k)" using Suc by (intro Suc.hyps(1)) auto
  ultimately show ?case by (simp add: retry_address_with.simps)
qed

lemma retry_ends: "retry_address_with try_bind n = Some y \<Longrightarrow> \<exists>k r. try_bind k = Inr r"
  by (erule retry_address_with.raw_induct [rotated]) (auto split: sum.splits)

lemma retry_first:
  "case retry_address_with try_bind 0 of
     None \<Rightarrow> \<forall>n. \<exists>e. try_bind n = Inl e
   | Some (r, n) \<Rightarrow> try_bind n = Inr r \<and> (\<forall>m < n. \<exists>e. try_bind m = Inl e)"
proof (cases "\<exists>k r. try_bind k = Inr r")
  case True
  define k where "k = (LEAST k. \<exists>r. try_bind k = Inr r)"
  obtain r where r: "try_bind k = Inr r" unfolding k_def using LeastI_ex [OF True] by blast
  have before: "\<exists>e. try_bind m = Inl e" if "m < k" for m
    using not_less_Least [of m "\<lambda>k. \<exists>r. try_bind k = Inr r"] that unfolding k_def by (cases "try_bind m") auto
  then have "retry_address_with try_bind 0 = Some (r, k)" using r by (intro retry_from) auto
  then show ?thesis using r before by simp
next
  case False
  then have "retry_address_with try_bind 0 = None" using retry_ends [of try_bind 0]
    by (cases "retry_address_with try_bind 0") blast+
  moreover have "\<exists>e. try_bind n = Inl e" for n using False by (cases "try_bind n") auto
  ultimately show ?thesis by simp
qed

text \<open>
  Startup binds every configured address it can: it fails exactly when there is no address, an
  address fails for another reason than being unavailable, or none binds; otherwise it listens on
  exactly the addresses that bound, in order.  Retrying an unavailable address ends exactly when some
  attempt succeeds, and then with the first that does.
\<close>

theorem listeners_bind_or_are_retried:
  "(case bind_listeners bind_addr addresses of
      Inl _ \<Rightarrow> list_ex (\<lambda>a. \<exists>k. bind_addr a = Some k \<and> \<not> skippable k) addresses \<or> list_all (\<lambda>a. bind_addr a \<noteq> None) addresses
    | Inr bound \<Rightarrow>
        bl_listeners bound = filter (\<lambda>a. bind_addr a = None) addresses \<and> bl_listeners bound \<noteq> [] \<and>
        list_all (\<lambda>a. \<exists>k. bind_addr a = Some k \<and> skippable k) (map fst (bl_skipped bound)) \<and>
        set (retry_addresses bound) = {a \<in> set addresses. bind_addr a = Some AddrNotAvailable}) \<and>
   (case retry_address_with try_bind 0 of
      None \<Rightarrow> \<forall>n. \<exists>e. try_bind n = Inl e
    | Some (r, n) \<Rightarrow> try_bind n = Inr r \<and> (\<forall>m < n. \<exists>e. try_bind m = Inl e))"
proof (rule conjI [OF _ retry_first])
  let ?bad = "filter (\<lambda>a. case bind_addr a of Some k \<Rightarrow> \<not> skippable k | None \<Rightarrow> False) addresses"
  let ?skipped = "List.map_filter (\<lambda>a. map_option (Pair a) (bind_addr a)) addresses"
  show "case bind_listeners bind_addr addresses of
      Inl _ \<Rightarrow> list_ex (\<lambda>a. \<exists>k. bind_addr a = Some k \<and> \<not> skippable k) addresses \<or> list_all (\<lambda>a. bind_addr a \<noteq> None) addresses
    | Inr bound \<Rightarrow>
        bl_listeners bound = filter (\<lambda>a. bind_addr a = None) addresses \<and> bl_listeners bound \<noteq> [] \<and>
        list_all (\<lambda>a. \<exists>k. bind_addr a = Some k \<and> skippable k) (map fst (bl_skipped bound)) \<and>
        set (retry_addresses bound) = {a \<in> set addresses. bind_addr a = Some AddrNotAvailable}"
  proof (cases ?bad)
    case (Cons a r)
    then have "a \<in> set ?bad" by simp
    then have "list_ex (\<lambda>a. \<exists>k. bind_addr a = Some k \<and> \<not> skippable k) addresses"
      by (auto simp: list_ex_iff split: option.splits)
    with Cons show ?thesis by (auto simp: bind_listeners_def bind_each_spec)
  next
    case Nil
    then have skip: "skippable k" if "a \<in> set addresses" "bind_addr a = Some k" for a k
      using that by (fastforce simp: filter_empty_conv)
    have "set (retry_addresses \<lparr>bl_listeners = filter (\<lambda>a. bind_addr a = None) addresses, bl_skipped = ?skipped\<rparr>) =
        {a \<in> set addresses. bind_addr a = Some AddrNotAvailable}"
      by (force simp: retry_addresses_def map_filter_def)
    moreover have "list_all (\<lambda>a. \<exists>k. bind_addr a = Some k \<and> skippable k) (map fst ?skipped)"
      using skip by (auto simp: list_all_iff map_filter_def)
    ultimately show ?thesis
      using Nil by (auto simp: bind_listeners_def bind_each_spec filter_empty_conv list_all_iff)
  qed
qed

theorem listeners_bind_or_are_retried_witness:
  "retry_address_with (\<lambda>n. if n < 3 then Inl AddrNotAvailable else Inr ''socket'') 0 = Some (''socket'', 3)"
proof -
  let ?f = "\<lambda>n :: nat. if n < 3 then Inl AddrNotAvailable else Inr ''socket''"
  have *: "case retry_address_with ?f 0 of None \<Rightarrow> \<forall>n. \<exists>e. ?f n = Inl e
      | Some (r, n) \<Rightarrow> ?f n = Inr r \<and> (\<forall>m < n. \<exists>e. ?f m = Inl e)"
    using listeners_bind_or_are_retried [where try_bind = ?f and bind_addr = "\<lambda>_. None" and addresses = "[''a'']"] by blast
  show ?thesis
  proof (cases "retry_address_with ?f 0")
    case None
    then have "\<forall>n. \<exists>e. ?f n = Inl e" using * by simp
    then have "\<exists>e. ?f 3 = Inl e" by (rule spec)
    then show ?thesis by simp
  next
    case (Some y)
    obtain r n where y: "y = (r, n)" by force
    have r: "?f n = Inr r" and m: "m < n \<Longrightarrow> \<exists>e. ?f m = Inl e" for m using * Some y by auto
    have "\<not> n < 3" "r = ''socket''" using r by (auto split: if_splits)
    moreover have "\<not> 3 < n" using m [of 3] by auto
    ultimately show ?thesis using Some y by simp
  qed
qed

text \<open>
  The command line decides over the configuration: \<open>--no-upstream\<close> forces Tor, a command-line
  address turns the upstream on and replaces the configured one, and the same holds for user name and
  password.  A selected upstream always has an address the dialler can parse.
\<close>

theorem upstream_follows_the_command_line:
  "pick_upstream host_port cfg addr user pass True = Inr None \<and>
   pick_upstream host_port cfg (Some a) user pass False =
     pick_upstream host_port (cfg\<lparr>up_enabled := True, up_address := a\<rparr>) None user pass False \<and>
   (pick_upstream host_port cfg addr user pass flag = Inr (Some up) \<longrightarrow>
      \<not> flag \<and> host_port (us_address up) \<noteq> None \<and> us_address up = (case addr of Some a \<Rightarrow> a | None \<Rightarrow> up_address cfg) \<and>
      map_option fst (us_credentials up) = (case user of Some u \<Rightarrow> Some u
        | None \<Rightarrow> if up_username cfg = [] then None else Some (up_username cfg)))"
  by (auto simp: pick_upstream_def upstream_new_def Let_def split: if_splits option.splits)

theorem upstream_follows_the_command_line_witness:
  "\<exists>up. pick_upstream (\<lambda>_. Some (''h'', 1)) \<lparr>up_enabled = False, up_address = [], up_username = ''u'', up_password = []\<rparr>
     (Some ''h:1'') None None False = Inr (Some up) \<and> us_address up = ''h:1'' \<and> map_option fst (us_credentials up) = Some ''u''"
proof -
  let ?cfg = "\<lparr>up_enabled = False, up_address = [], up_username = ''u'', up_password = []\<rparr>"
  have "trim ''h:1'' \<noteq> []" by code_simp
  then obtain up where up: "pick_upstream (\<lambda>_. Some (''h'', 1)) ?cfg (Some ''h:1'') None None False = Inr (Some up)"
    by (simp add: pick_upstream_def upstream_new_def Let_def)
  then show ?thesis
    using upstream_follows_the_command_line [where host_port = "\<lambda>_. Some (''h'', 1)" and cfg = ?cfg
        and addr = "Some ''h:1''" and user = None and pass = None and flag = False and up = up] by simp
qed

end
