(* ===== verification/AcceptLoop.thy ===== *)
theory AcceptLoop
  imports ProxyServer
begin

text \<open>
  The accept loops of the proxy server (\<open>accept_loop\<close> in \<open>apps/socks5-proxy/src/server/server.rs\<close>) as a
  step relation: several listeners share one pool of connection permits, the connection counter and
  the health counters.  A connection waits in its loop for a permit, then runs as a task that gives
  the permit back before it leaves the pending gauge, or the other way round when it panics.  The account
  registry changes while connections are served, and a task's gates read the registry of that moment.
\<close>

section \<open>States\<close>

definition MAX_CONCURRENT_CONNECTIONS :: nat where
  "MAX_CONCURRENT_CONNECTIONS = 256"

text \<open>
  A running task passes its gates at some moment, against the registry of that moment (\<open>Gated\<close>).  The
  task carries the number of the registry that was current when it began.
\<close>

datatype conn_phase = Spawned | Running | Gated "auth_state option" | Released | Unwinding

record task =
  t_id :: u64
  t_peer :: ip_addr
  t_phase :: conn_phase
  t_since :: nat

fun holds_permit :: "task \<Rightarrow> bool" where
  "holds_permit t \<longleftrightarrow> t_phase t \<noteq> Released"

fun is_pending :: "task \<Rightarrow> bool" where
  "is_pending t \<longleftrightarrow> t_phase t \<noteq> Spawned \<and> t_phase t \<noteq> Unwinding"

text \<open>
  What a task did: for which peer and request, and the numbers of the registries that were current
  when it began and when this was done.
\<close>

record deed =
  d_peer :: ip_addr
  d_since :: nat
  d_until :: nat
  d_request :: "request option"
  d_effect :: effect

text \<open>
  \<open>al_registries\<close> holds the account registries the server has had, the current one last;
  \<open>al_admitted\<close> counts the connections admitted so far, and \<open>al_log\<close> is what tasks did.
\<close>

record accept_state =
  al_available :: nat
  al_next_id :: u64
  al_admitted :: nat
  al_waiting :: "nat \<rightharpoonup> u64 \<times> ip_addr"
  al_tasks :: "task list"
  al_health :: counters
  al_registries :: "auth_state option list"
  al_log :: "deed list"

record server_config =
  sc_allowed :: allowed_clients
  sc_block_onion :: bool
  sc_egress :: egress
  sc_auth :: "auth_state option"

definition no_counts :: counters where
  "no_counts = \<lparr>h_started = 0, h_pending = 0, h_connect_ok = 0, h_connect_failed = 0, h_relay_closed = 0,
     h_relay_errors = 0, h_client_errors = 0, h_tor_errors = 0, h_other_errors = 0\<rparr>"

definition listening :: "server_config \<Rightarrow> accept_state" where
  "listening c = \<lparr>al_available = MAX_CONCURRENT_CONNECTIONS, al_next_id = 1, al_admitted = 0, al_waiting = Map.empty,
     al_tasks = [], al_health = no_counts, al_registries = [sc_auth c], al_log = []\<rparr>"

definition deeds :: "nat \<Rightarrow> task \<Rightarrow> conn_env \<Rightarrow> effect list \<Rightarrow> deed list" where
  "deeds until t w es =
     map (\<lambda>e. \<lparr>d_peer = t_peer t, d_since = t_since t, d_until = until,
       d_request = (case cx_handshake w of Inl _ \<Rightarrow> None | Inr req \<Rightarrow> Some req), d_effect = e\<rparr>) es"

section \<open>Steps\<close>

text \<open>
  A server with accounts may get any other registry at any time (\<open>registry_changed\<close>: a first login claims
  its account, an administrator edits the file); one without accounts never gets any.  A task may panic at
  any point, before or after its gates, having done any part of what it would have done.
\<close>

inductive accept_step :: "server_config \<Rightarrow> accept_state \<Rightarrow> accept_state \<Rightarrow> bool" for c where
  accept_fails: "al_waiting s i = None \<Longrightarrow> accept_step c s s"
| refused: "al_waiting s i = None \<Longrightarrow> \<not> ac_allows (sc_allowed c) peer \<Longrightarrow> accept_step c s s"
| admitted: "al_waiting s i = None \<Longrightarrow> ac_allows (sc_allowed c) peer \<Longrightarrow>
    accept_step c s (s\<lparr>al_waiting := (al_waiting s)(i \<mapsto> (al_next_id s, peer)), al_next_id := al_next_id s + 1,
      al_admitted := Suc (al_admitted s)\<rparr>)"
| spawned: "al_waiting s i = Some (cid, peer) \<Longrightarrow> al_available s = Suc n \<Longrightarrow>
    accept_step c s (s\<lparr>al_waiting := (al_waiting s)(i := None), al_available := n,
      al_tasks := al_tasks s @ [\<lparr>t_id = cid, t_peer = peer, t_phase = Spawned, t_since = 0\<rparr>]\<rparr>)"
| started: "al_tasks s = xs @ t # ys \<Longrightarrow> t_phase t = Spawned \<Longrightarrow>
    accept_step c s (s\<lparr>al_tasks := xs @ t\<lparr>t_phase := Running, t_since := length (al_registries s) - 1\<rparr> # ys,
      al_health := record_started (al_health s)\<rparr>)"
| registry_changed: "last (al_registries s) = Some st \<Longrightarrow>
    accept_step c s (s\<lparr>al_registries := al_registries s @ [Some st']\<rparr>)"
| gated: "al_tasks s = xs @ t # ys \<Longrightarrow> t_phase t = Running \<Longrightarrow>
    accept_step c s (s\<lparr>al_tasks := xs @ t\<lparr>t_phase := Gated (last (al_registries s))\<rparr> # ys\<rparr>)"
| served: "al_tasks s = xs @ t # ys \<Longrightarrow> t_phase t = Gated auth \<Longrightarrow>
    cx_peer w = None \<or> cx_peer w = Some (t_peer t) \<Longrightarrow>
    accept_step c s (s\<lparr>al_tasks := xs @ t\<lparr>t_phase := Released\<rparr> # ys, al_available := Suc (al_available s),
      al_health := serve_connection w (sc_egress c) auth (sc_block_onion c) (al_health s),
      al_log := al_log s @ deeds (length (al_registries s) - 1) t w
        (fst (handle_client w (sc_egress c) auth (sc_block_onion c)))\<rparr>)"
| guard_dropped: "al_tasks s = xs @ t # ys \<Longrightarrow> t_phase t = Released \<Longrightarrow>
    accept_step c s (s\<lparr>al_tasks := xs @ ys, al_health := drop_pending_guard (al_health s)\<rparr>)"
| panicked: "al_tasks s = xs @ t # ys \<Longrightarrow> t_phase t = Running \<Longrightarrow>
    accept_step c s (s\<lparr>al_tasks := xs @ t\<lparr>t_phase := Unwinding\<rparr> # ys, al_health := drop_pending_guard (al_health s)\<rparr>)"
| panicked_gated: "al_tasks s = xs @ t # ys \<Longrightarrow> t_phase t = Gated auth \<Longrightarrow>
    cx_peer w = None \<or> cx_peer w = Some (t_peer t) \<Longrightarrow>
    es = take n (fst (handle_client w (sc_egress c) auth (sc_block_onion c))) \<Longrightarrow>
    accept_step c s (s\<lparr>al_tasks := xs @ t\<lparr>t_phase := Unwinding\<rparr> # ys,
      al_health := drop_pending_guard (fold count_effect es (al_health s)),
      al_log := al_log s @ deeds (length (al_registries s) - 1) t w es\<rparr>)"
| unwound: "al_tasks s = xs @ t # ys \<Longrightarrow> t_phase t = Unwinding \<Longrightarrow>
    accept_step c s (s\<lparr>al_tasks := xs @ ys, al_available := Suc (al_available s)\<rparr>)"
| summarised: "accept_step c s (s\<lparr>al_health := snd (snapshot_and_reset (al_health s))\<rparr>)"

inductive accept_reach :: "server_config \<Rightarrow> accept_state \<Rightarrow> bool" for c where
  boot: "accept_reach c (listening c)"
| step: "accept_reach c s \<Longrightarrow> accept_step c s s' \<Longrightarrow> accept_reach c s'"

section \<open>Permits and the pending gauge\<close>

definition permits_ok :: "accept_state \<Rightarrow> bool" where
  "permits_ok s \<longleftrightarrow> al_available s + length (filter holds_permit (al_tasks s)) = MAX_CONCURRENT_CONNECTIONS \<and>
     h_pending (al_health s) = of_nat (length (filter is_pending (al_tasks s)))"

lemma pending_effects [simp]: "h_pending (fold count_effect es h) = h_pending h"
proof (induction es arbitrary: h)
  case (Cons e es)
  have "h_pending (count_effect e h) = h_pending h" by (cases "(e, h)" rule: count_effect.cases) (auto simp: counter_defs)
  then show ?case using Cons by simp
qed simp

lemma pending_serve [simp]: "h_pending (serve_connection w egress auth block_onion h) = h_pending h"
  by (simp add: serve_connection_def Let_def record_failure_fields split: prod.split option.split)

lemma permits_step: "accept_step c s s' \<Longrightarrow> permits_ok s \<Longrightarrow> permits_ok s'"
  by (induction rule: accept_step.induct)
    (auto simp: permits_ok_def record_started_def drop_pending_guard_def snapshot_and_reset_def)

lemma permits_reach: "accept_reach c s \<Longrightarrow> permits_ok s"
  by (induction rule: accept_reach.induct)
    (auto intro: permits_step, simp add: permits_ok_def listening_def no_counts_def)

section \<open>Who is served\<close>













text \<open>
  C7: However the listeners, connections, panics and summaries interleave, the server never serves
  more than 256 connections at once and loses no permit, and its pending gauge is the number of
  connections in flight.
\<close>

theorem connections_stay_within_permits:
  assumes "accept_reach c s"
  shows "length (filter holds_permit (al_tasks s)) \<le> 256 \<and>
    al_available s + length (filter holds_permit (al_tasks s)) = 256 \<and>
    h_pending (al_health s) = of_nat (length (filter is_pending (al_tasks s)))"
  using permits_reach [OF assms] by (simp add: permits_ok_def MAX_CONCURRENT_CONNECTIONS_def)


text \<open>
  A server with one account, open to everybody: one connection has been served, during which the
  registry changed, and another is waiting.
\<close>

definition member :: user where
  "member = (demo_user ''h'')\<lparr>u_allowed_clients := Some default_allowed\<rparr>"

definition registry :: "user list \<Rightarrow> auth_state" where
  "registry us = \<lparr>as_users = \<lparr>uc_users = us\<rparr>, as_cache = Map.empty, as_server_secret = ''s'', as_users_path = None\<rparr>"

definition member_env :: conn_env where
  "member_env = sample_env\<lparr>cx_handshake := Inr \<lparr>rq_target = ''h:1'', rq_username = Some ''alice'', rq_pipeline = ''x''\<rparr>\<rparr>"

definition open_server :: server_config where
  "open_server = \<lparr>sc_allowed = default_allowed, sc_block_onion = True, sc_egress = EgressTor,
     sc_auth = Some (registry [member])\<rparr>"

lemma open_to_all: "ac_allows default_allowed peer"
  by (simp add: default_allowed_def ac_allows_def allows_def Let_def)

lemma member_dials:
  "Dialled EgressTor ''h'' 1 \<in> set (fst (handle_client member_env EgressTor (Some (registry [member])) True))"
proof -
  have "\<not> is_onion ''h''" by code_simp
  then show ?thesis
    unfolding dialled_gates
    by (simp add: member_env_def sample_env_def gate_open_def client_allowed_def find_user_def registry_def member_def demo_user_def open_to_all)
qed

definition member_dial :: deed where
  "member_dial = \<lparr>d_peer = V4 1, d_since = 0, d_until = 1,
     d_request = Some \<lparr>rq_target = ''h:1'', rq_username = Some ''alice'', rq_pipeline = ''x''\<rparr>, d_effect = Dialled EgressTor ''h'' 1\<rparr>"

lemma open_server_run:
  "\<exists>s. accept_reach open_server s \<and> al_waiting s 0 = Some (2, V4 2) \<and> al_tasks s \<noteq> [] \<and>
     al_registries s = [Some (registry [member]), Some (registry [])] \<and> member_dial \<in> set (al_log s)"
proof -
  let ?s0 = "listening open_server"
  let ?s1 = "?s0\<lparr>al_waiting := [0 \<mapsto> (1, V4 1)], al_next_id := 2, al_admitted := 1\<rparr>"
  have "accept_step open_server ?s0 ?s1"
    using accept_step.admitted [of ?s0 0 open_server "V4 1"] open_to_all by (simp add: listening_def open_server_def)
  note r1 = accept_reach.step [OF accept_reach.boot this]
  let ?t = "\<lparr>t_id = 1, t_peer = V4 1, t_phase = Spawned, t_since = 0\<rparr>"
  let ?s2 = "?s1\<lparr>al_waiting := Map.empty, al_available := 255, al_tasks := [?t]\<rparr>"
  have "accept_step open_server ?s1 ?s2"
    using accept_step.spawned [of ?s1 0 1 "V4 1" 255 open_server] by (simp add: listening_def MAX_CONCURRENT_CONNECTIONS_def)
  note r2 = accept_reach.step [OF r1 this]
  let ?s3 = "?s2\<lparr>al_tasks := [?t\<lparr>t_phase := Running\<rparr>], al_health := record_started (al_health ?s2)\<rparr>"
  have "accept_step open_server ?s2 ?s3"
    using accept_step.started [of ?s2 "[]" ?t "[]" open_server] by (simp add: listening_def)
  note r3 = accept_reach.step [OF r2 this]
  let ?a = "Some (registry [member])"
  let ?s4 = "?s3\<lparr>al_tasks := [?t\<lparr>t_phase := Gated ?a\<rparr>]\<rparr>"
  have "accept_step open_server ?s3 ?s4"
    using accept_step.gated [of ?s3 "[]" "?t\<lparr>t_phase := Running\<rparr>" "[]" open_server] by (simp add: listening_def open_server_def)
  note r4 = accept_reach.step [OF r3 this]
  let ?s5 = "?s4\<lparr>al_registries := [?a, Some (registry [])]\<rparr>"
  have "accept_step open_server ?s4 ?s5"
    using accept_step.registry_changed [of ?s4 "registry [member]" open_server "registry []"]
    by (simp add: listening_def open_server_def)
  note r5 = accept_reach.step [OF r4 this]
  let ?s6 = "?s5\<lparr>al_tasks := [?t\<lparr>t_phase := Released\<rparr>], al_available := Suc (al_available ?s5),
      al_health := serve_connection member_env EgressTor ?a True (al_health ?s5),
      al_log := deeds 1 ?t member_env (fst (handle_client member_env EgressTor ?a True))\<rparr>"
  have "accept_step open_server ?s5 ?s6"
    using accept_step.served [of ?s5 "[]" "?t\<lparr>t_phase := Gated ?a\<rparr>" "[]" ?a member_env open_server]
    by (simp add: open_server_def member_env_def sample_env_def listening_def deeds_def)
  note r6 = accept_reach.step [OF r5 this]
  let ?s7 = "?s6\<lparr>al_waiting := [0 \<mapsto> (2, V4 2)], al_next_id := 3, al_admitted := Suc 1\<rparr>"
  have "accept_step open_server ?s6 ?s7"
    using accept_step.admitted [of ?s6 0 open_server "V4 2"] open_to_all by (simp add: listening_def open_server_def)
  note r7 = accept_reach.step [OF r6 this]
  have "member_dial \<in> set (al_log ?s7)"
    using member_dials by (auto simp: deeds_def member_dial_def member_env_def)
  with r7 show ?thesis by (intro exI [of _ ?s7]) simp
qed

theorem connections_stay_within_permits_witness:
  "\<exists>s. accept_reach open_server s \<and> al_tasks s \<noteq> [] \<and>
     al_available s + length (filter holds_permit (al_tasks s)) = 256"
proof -
  obtain s where s: "accept_reach open_server s" "al_tasks s \<noteq> []" using open_server_run by blast
  with connections_stay_within_permits [OF s(1)] show ?thesis by blast
qed


end
