(* ===== verification/BridgePersist.thy ===== *)
theory BridgePersist
  imports BridgeRank BridgeProbe
begin

text \<open>
  The bridge store's file (\<open>packages/bridge-store/src/persistence.rs\<close>) over real bridge lines: the map is
  keyed by the probe's bridge identity, each entry is a comment with its health followed by its line,
  and source labels are percent-encoded.  The printer and parser of bridge lines and of ISO 8601
  times belong to external crates and are the fields of \<open>line_codec\<close>.
\<close>

section \<open>Keys\<close>

text \<open>The derived \<open>Ord\<close> of \<open>BridgeIdentity\<close>: the fields in order, as a tuple of the library's lexicographic order.\<close>

type_synonym socket_key = "bool \<times> nat \<times> nat \<times> nat"
type_synonym target_key = "str \<times> nat \<times> str \<times> str \<times> str \<times> bool"
type_synonym identity_key = "str option \<times> socket_key \<times> str option \<times> target_key option \<times> str option"

definition socket_key_of :: "socket_addr \<Rightarrow> socket_key" where
  "socket_key_of a =
     (case sa_ip a of V4 ip \<Rightarrow> (False, unat ip, unat (sa_port a), unat (sa_scope a))
                    | V6 ip \<Rightarrow> (True, unat ip, unat (sa_port a), unat (sa_scope a)))"

definition target_key_of :: "prepared_target \<Rightarrow> target_key" where
  "target_key_of t = (dial_host t, unat (dial_port t), pt_sni t, host_header t, request_target t, use_tls t)"

definition identity_key_of :: "bridge_identity \<Rightarrow> identity_key" where
  "identity_key_of i =
     (bi_transport i, socket_key_of (bi_addr i), bi_fingerprint i, map_option target_key_of (bi_webtunnel i), bi_cert i)"

definition line_key :: "externals \<Rightarrow> bridge_line \<Rightarrow> identity_key" where
  "line_key x bridge = identity_key_of (bridge_identity_of x bridge)"

lemma socket_key_inject [simp]: "socket_key_of a = socket_key_of b \<longleftrightarrow> a = b"
  by (cases a; cases b) (auto simp: socket_key_of_def word_unat_eq_iff split: ip_addr.splits)

lemma target_key_inject [simp]: "target_key_of a = target_key_of b \<longleftrightarrow> a = b"
  by (cases a; cases b) (auto simp: target_key_of_def word_unat_eq_iff)

lemma identity_key_inject [simp]: "identity_key_of a = identity_key_of b \<longleftrightarrow> a = b"
proof
  assume eq: "identity_key_of a = identity_key_of b"
  then have "map_option target_key_of (bi_webtunnel a) = map_option target_key_of (bi_webtunnel b)"
    by (simp add: identity_key_of_def)
  then have "bi_webtunnel a = bi_webtunnel b" by (cases "bi_webtunnel a"; cases "bi_webtunnel b") auto
  with eq show "a = b" by (cases a; cases b) (auto simp: identity_key_of_def)
qed simp

section \<open>Source labels\<close>

definition percent_byte :: "char \<Rightarrow> str" where
  "percent_byte c = [CHR ''%'', digit_char (of_char c div 16), digit_char (of_char c mod 16)]"

function encode_source :: "str \<Rightarrow> str" where
  "encode_source s =
     (case s of
        [] \<Rightarrow> []
      | c # r \<Rightarrow>
          if c = CHR ''%'' then ''%25'' @ encode_source r
          else if c = CHR '','' then ''%2C'' @ encode_source r
          else (case ws_prefix s of
                  Some w \<Rightarrow> concat (map percent_byte w) @ encode_source (drop (length w) s)
                | None \<Rightarrow> c # encode_source r))"
  by pat_completeness auto
termination
  by (relation "measure length") (auto dest!: ws_prefix_SomeD)

declare encode_source.simps [simp del]

fun percent_decode :: "str \<Rightarrow> str" where
  "percent_decode (c # h # l # s) =
     (case (if c = CHR ''%'' then (to_digit 16 h, to_digit 16 l) else (None, None)) of
        (Some hi, Some lo) \<Rightarrow> char_of (hi * 16 + lo) # percent_decode s
      | _ \<Rightarrow> c # percent_decode (h # l # s))"
| "percent_decode (c # s) = c # percent_decode s"
| "percent_decode [] = []"

definition decode_source :: "str \<Rightarrow> str" where
  "decode_source token = from_utf8_lossy (percent_decode token)"

section \<open>The metadata comment\<close>

record line_codec =
  iso_show :: "instant \<Rightarrow> str option"
  iso_parse :: "str \<Rightarrow> instant option"
  line_show :: "bridge_line \<Rightarrow> str"
  line_parse :: "str \<Rightarrow> bridge_line option"

record meta =
  m_last_ok :: "instant option"
  m_last_attempt :: instant
  m_last_latency :: duration
  m_fails :: u32
  m_ok_count :: u32
  m_channel_ok_count :: u32
  m_last_channel_ok :: "instant option"
  m_verified_count :: u32
  m_last_verified :: "instant option"
  m_last_verification_attempt :: "instant option"
  m_circuit_fails :: u32
  m_last_circuit_observation :: instant
  m_sources :: "str list"

definition meta_default :: meta where
  "meta_default =
     \<lparr>m_last_ok = None, m_last_attempt = 0, m_last_latency = 0, m_fails = 0, m_ok_count = 0,
      m_channel_ok_count = 0, m_last_channel_ok = None, m_verified_count = 0, m_last_verified = None,
      m_last_verification_attempt = None, m_circuit_fails = 0, m_last_circuit_observation = 0, m_sources = []\<rparr>"

definition MILLI :: nat where "MILLI = 1000000"

definition parse_u32 :: "str \<Rightarrow> u32 option" where
  "parse_u32 v = map_option of_nat (parse_uint 10 (2 ^ 32) v)"

definition parse_time_or_dash :: "line_codec \<Rightarrow> str \<Rightarrow> instant option option" where
  "parse_time_or_dash io v = (if v = ''-'' then Some None else map_option Some (iso_parse io v))"

definition parse_latency :: "str \<Rightarrow> duration option" where
  "parse_latency v =
     Option.bind (strip_suffix ''ms'' v) (\<lambda>n. map_option (\<lambda>ms. ms * MILLI) (parse_uint 10 (2 ^ 64) n))"

definition parse_sources :: "(str \<Rightarrow> str) \<Rightarrow> str \<Rightarrow> str list" where
  "parse_sources f v = sort (remdups (map f (filter (\<lambda>s. s \<noteq> []) (split_on CHR '','' v))))"

definition parse_meta_token :: "line_codec \<Rightarrow> str \<Rightarrow> meta \<Rightarrow> meta option" where
  "parse_meta_token io tok m =
     (case strip_prefix ''fails='' tok of Some v \<Rightarrow> map_option (\<lambda>n. m\<lparr>m_fails := n\<rparr>) (parse_u32 v) | None \<Rightarrow>
     (case strip_prefix ''seen='' tok of Some v \<Rightarrow> map_option (\<lambda>n. m\<lparr>m_ok_count := n\<rparr>) (parse_u32 v) | None \<Rightarrow>
     (case strip_prefix ''attempt='' tok of Some v \<Rightarrow> map_option (\<lambda>t. m\<lparr>m_last_attempt := t\<rparr>) (iso_parse io v) | None \<Rightarrow>
     (case strip_prefix ''ok='' tok of Some v \<Rightarrow> map_option (\<lambda>t. m\<lparr>m_last_ok := t\<rparr>) (parse_time_or_dash io v) | None \<Rightarrow>
     (case strip_prefix ''latency='' tok of Some v \<Rightarrow> map_option (\<lambda>d. m\<lparr>m_last_latency := d\<rparr>) (parse_latency v) | None \<Rightarrow>
     (case strip_prefix ''chseen='' tok of Some v \<Rightarrow> map_option (\<lambda>n. m\<lparr>m_channel_ok_count := n\<rparr>) (parse_u32 v) | None \<Rightarrow>
     (case strip_prefix ''chok='' tok of Some v \<Rightarrow> map_option (\<lambda>t. m\<lparr>m_last_channel_ok := t\<rparr>) (parse_time_or_dash io v) | None \<Rightarrow>
     (case strip_prefix ''evseen='' tok of Some v \<Rightarrow> map_option (\<lambda>n. m\<lparr>m_verified_count := n\<rparr>) (parse_u32 v) | None \<Rightarrow>
     (case strip_prefix ''evok='' tok of Some v \<Rightarrow> map_option (\<lambda>t. m\<lparr>m_last_verified := t\<rparr>) (parse_time_or_dash io v) | None \<Rightarrow>
     (case strip_prefix ''evtry='' tok of Some v \<Rightarrow> map_option (\<lambda>t. m\<lparr>m_last_verification_attempt := Some t\<rparr>) (iso_parse io v) | None \<Rightarrow>
     (case strip_prefix ''cfails='' tok of Some v \<Rightarrow> map_option (\<lambda>n. m\<lparr>m_circuit_fails := n\<rparr>) (parse_u32 v) | None \<Rightarrow>
     (case strip_prefix ''cobs='' tok of Some v \<Rightarrow> map_option (\<lambda>t. m\<lparr>m_last_circuit_observation := t\<rparr>) (iso_parse io v) | None \<Rightarrow>
     (case strip_prefix ''srcenc='' tok of Some v \<Rightarrow> Some (m\<lparr>m_sources := parse_sources decode_source v\<rparr>) | None \<Rightarrow>
     (case strip_prefix ''src='' tok of Some v \<Rightarrow> Some (m\<lparr>m_sources := parse_sources (\<lambda>s. s) v\<rparr>) | None \<Rightarrow> Some m))))))))))))))"

fun parse_meta_tokens :: "line_codec \<Rightarrow> str list \<Rightarrow> meta \<Rightarrow> meta option" where
  "parse_meta_tokens io [] m = Some m"
| "parse_meta_tokens io (tok # toks) m = Option.bind (parse_meta_token io tok m) (parse_meta_tokens io toks)"

definition parse_legacy_comment :: "line_codec \<Rightarrow> str \<Rightarrow> meta option" where
  "parse_legacy_comment io s =
     Option.bind (split_once CHR '' '' s) (\<lambda>(when_part, rest).
     Option.bind (iso_parse io when_part) (\<lambda>when_ok.
     Option.bind (strip_prefix ''latency='' (trim rest)) (\<lambda>v.
     map_option (\<lambda>d. meta_default\<lparr>m_last_ok := Some when_ok, m_last_attempt := when_ok, m_last_latency := d,
        m_ok_count := 1, m_last_circuit_observation := when_ok\<rparr>) (parse_latency v))))"

definition parse_meta_comment :: "line_codec \<Rightarrow> str \<Rightarrow> meta option" where
  "parse_meta_comment io s =
     (if starts_with ''fails='' s then parse_meta_tokens io (split_whitespace s) meta_default
      else parse_legacy_comment io s)"

definition format_iso :: "line_codec \<Rightarrow> instant \<Rightarrow> str" where
  "format_iso io t = (case iso_show io t of Some s \<Rightarrow> s | None \<Rightarrow> ''0000-00-00T00:00:00Z'')"

definition show_u32 :: "u32 \<Rightarrow> str" where
  "show_u32 n = show_nat (unat n)"

definition iso_or_dash :: "line_codec \<Rightarrow> instant option \<Rightarrow> str" where
  "iso_or_dash io t = (case t of Some t \<Rightarrow> format_iso io t | None \<Rightarrow> ''-'')"

definition meta_comment :: "line_codec \<Rightarrow> bridge_line entry \<Rightarrow> str" where
  "meta_comment io e =
     ''# fails='' @ show_u32 (e_fails e) @ '' seen='' @ show_u32 (e_ok_count e) @
     '' attempt='' @ format_iso io (e_last_attempt e) @ '' ok='' @ iso_or_dash io (e_last_ok e) @
     '' latency='' @ show_nat (e_last_latency e div MILLI) @ ''ms chseen='' @ show_u32 (e_channel_ok_count e) @
     '' chok='' @ iso_or_dash io (e_last_channel_ok e) @ '' evseen='' @ show_u32 (e_verified_count e) @
     '' evok='' @ iso_or_dash io (e_last_verified e) @
     (case e_last_verification_attempt e of Some t \<Rightarrow> '' evtry='' @ format_iso io t | None \<Rightarrow> []) @
     '' cfails='' @ show_u32 (e_circuit_fails e) @ '' cobs='' @ format_iso io (e_last_circuit_observation e) @
     (if e_sources e = [] then [] else '' srcenc='' @ join '','' (map encode_source (e_sources e)))"

section \<open>The file\<close>

definition entry_of_meta :: "bridge_line \<Rightarrow> meta \<Rightarrow> bridge_line entry" where
  "entry_of_meta bridge m =
     \<lparr>e_bridge = bridge, e_last_ok = m_last_ok m, e_last_attempt = m_last_attempt m,
      e_last_latency = m_last_latency m, e_fails = m_fails m, e_ok_count = m_ok_count m,
      e_channel_ok_count = m_channel_ok_count m, e_last_channel_ok = m_last_channel_ok m,
      e_verified_count = m_verified_count m, e_last_verified = m_last_verified m,
      e_last_verification_attempt = m_last_verification_attempt m, e_circuit_fails = m_circuit_fails m,
      e_last_circuit_observation = m_last_circuit_observation m, e_sources = m_sources m\<rparr>"

type_synonym line_store = "(identity_key, bridge_line) store"

definition load_line ::
  "externals \<Rightarrow> line_codec \<Rightarrow> str \<Rightarrow> line_store \<times> meta option \<Rightarrow> line_store \<times> meta option" where
  "load_line x io raw = (\<lambda>(entries, pending).
     let line = trim raw in
     if line = [] then (entries, pending)
     else case strip_prefix ''# '' line of
       Some rest \<Rightarrow> (entries, case parse_meta_comment io rest of Some m \<Rightarrow> Some m | None \<Rightarrow> pending)
     | None \<Rightarrow>
         if starts_with ''#'' line then (entries, pending)
         else case line_parse io line of
           Some bridge \<Rightarrow>
             if \<not> usable_for_tor bridge then (entries, None)
             else (om_insert (line_key x bridge)
                     (entry_of_meta bridge (case pending of Some m \<Rightarrow> m | None \<Rightarrow> meta_default)) entries, None)
         | None \<Rightarrow> (entries, None))"

definition load_text :: "externals \<Rightarrow> line_codec \<Rightarrow> str \<Rightarrow> line_store" where
  "load_text x io file_text = fst (fold (load_line x io) (lines file_text) ([], None))"

datatype read_outcome = ReadText str | FileMissing | ReadFailed

definition load_store :: "externals \<Rightarrow> line_codec \<Rightarrow> read_outcome \<Rightarrow> line_store option" where
  "load_store x io r = (case r of ReadText t \<Rightarrow> Some (load_text x io t) | FileMissing \<Rightarrow> Some [] | ReadFailed \<Rightarrow> None)"

definition save_cmp :: "'b entry \<Rightarrow> 'b entry \<Rightarrow> ordering" where
  "save_cmp a b = then_with (cmp_of (e_fails a) (e_fails b)) (cmp_of (e_last_ok b) (e_last_ok a))"

definition HEADER_LINE1 :: str where
  "HEADER_LINE1 = ''# Auto-generated by tor-socks5. Bridge reachability health.''"
definition HEADER_LINE2_PREFIX :: str where
  "HEADER_LINE2_PREFIX = ''# Last updated at ''"

definition entry_text :: "line_codec \<Rightarrow> bridge_line entry \<Rightarrow> str" where
  "entry_text io e = meta_comment io e @ [newline] @ line_show io (e_bridge e) @ [newline] @ [newline]"

definition save_text :: "line_codec \<Rightarrow> instant \<Rightarrow> line_store \<Rightarrow> str" where
  "save_text io now s =
     HEADER_LINE1 @ [newline] @ HEADER_LINE2_PREFIX @ format_iso io now @ ''.'' @ [newline] @ [newline] @
     concat (map (entry_text io) (sort_cmp save_cmp (om_values s)))"

section \<open>Labels survive encoding\<close>

lemma percent_decode_plain: "c \<noteq> CHR ''%'' \<Longrightarrow> percent_decode (c # s) = c # percent_decode s"
  by (cases s rule: percent_decode.cases) auto

lemma percent_decode_byte: "percent_decode (percent_byte c @ s) = c # percent_decode s"
proof -
  have "of_char c div 16 < (16 :: nat)" "of_char c mod 16 < (16 :: nat)"
    by (rule less_mult_imp_div_less, simp) simp
  then have "to_digit 16 (digit_char (of_char c div 16)) = Some (of_char c div 16)"
      "to_digit 16 (digit_char (of_char c mod 16)) = Some (of_char c mod 16)"
    by (simp_all add: to_digit_digit_char)
  then show ?thesis by (simp add: percent_byte_def)
qed

lemma percent_decode_bytes: "percent_decode (concat (map percent_byte w) @ s) = w @ percent_decode s"
  by (induction w) (simp_all add: percent_decode_byte)

lemma escapes: "''%25'' = percent_byte CHR ''%''" "''%2C'' = percent_byte CHR '',''"
  by code_simp+

lemma encode_source_Nil [simp]: "encode_source [] = []"
  by (simp add: encode_source.simps)

lemma encode_source_Cons:
  "encode_source (c # r) =
     (if c = CHR ''%'' \<or> c = CHR '','' then percent_byte c @ encode_source r
      else case ws_prefix (c # r) of
             Some w \<Rightarrow> concat (map percent_byte w) @ encode_source (drop (length w) (c # r))
           | None \<Rightarrow> c # encode_source r)"
  by (subst encode_source.simps) (simp add: escapes)

lemma encode_induct [case_names Nil delim space plain]:
  assumes "P []"
    and "\<And>c r. c = CHR ''%'' \<or> c = CHR '','' \<Longrightarrow> P r \<Longrightarrow> P (c # r)"
    and "\<And>w r. w \<in> set ws_chars \<Longrightarrow> encode_source (w @ r) = concat (map percent_byte w) @ encode_source r \<Longrightarrow> P r \<Longrightarrow> P (w @ r)"
    and "\<And>c r. c \<noteq> CHR ''%'' \<Longrightarrow> c \<noteq> CHR '','' \<Longrightarrow> ws_prefix (c # r) = None \<Longrightarrow> P r \<Longrightarrow> P (c # r)"
  shows "P s"
proof (induction s rule: length_induct)
  case (1 s)
  show ?case
  proof (cases s)
    case (Cons c r)
    show ?thesis
    proof (cases "c = CHR ''%'' \<or> c = CHR '',''")
      case False
      show ?thesis
      proof (cases "ws_prefix s")
        case (Some w)
        then obtain r' where w: "w \<in> set ws_chars" "w \<noteq> []" "s = w @ r'" using ws_prefix_SomeD by blast
        have "encode_source (w @ r') = concat (map percent_byte w) @ encode_source r'"
          using False Some w Cons encode_source_Cons [of c r] by simp
        then show ?thesis using assms(3) [OF w(1)] 1 w by simp
      next
        case None
        then show ?thesis using assms(4) [of c r] 1 False Cons by simp
      qed
    qed (use assms(2) [of c r] 1 Cons in simp)
  qed (simp add: assms(1))
qed

lemma percent_decode_encode: "percent_decode (encode_source s) = s"
proof (induction s rule: encode_induct)
  case (space w r)
  then show ?case by (simp add: percent_decode_bytes)
qed (simp_all add: encode_source_Cons percent_decode_byte percent_decode_plain)

lemma decode_encode_source: "is_utf8 s \<Longrightarrow> decode_source (encode_source s) = s"
  by (simp add: decode_source_def percent_decode_encode from_utf8_lossy_id)

lemma hex_digit_visible: "n < 16 \<Longrightarrow> visible (digit_char n) \<and> digit_char n \<noteq> CHR '',''"
proof -
  have "list_all (\<lambda>n. visible (digit_char n) \<and> digit_char n \<noteq> CHR '','') [0..<16]" by code_simp
  then show "n < 16 \<Longrightarrow> visible (digit_char n) \<and> digit_char n \<noteq> CHR '',''" by (auto simp: list_all_iff)
qed

lemma visible_percent: "visible CHR ''%''"
  by code_simp

lemma percent_byte_chars: "list_all (\<lambda>c. visible c \<and> c \<noteq> CHR '','') (percent_byte c)"
proof -
  have "of_char c div 16 < (16 :: nat)" "of_char c mod 16 < (16 :: nat)"
    by (rule less_mult_imp_div_less, simp) simp
  then show ?thesis by (simp add: percent_byte_def hex_digit_visible visible_percent)
qed

lemma percent_bytes_chars: "list_all (\<lambda>c. visible c \<and> c \<noteq> CHR '','') (concat (map percent_byte w))"
  using percent_byte_chars by (induction w) (auto simp: list_all_iff)

lemma encode_source_comma: "CHR '','' \<notin> set (encode_source s)"
proof (induction s rule: encode_induct)
  case (delim c r)
  then show ?case using percent_byte_chars [of c] by (auto simp: encode_source_Cons list_all_iff)
next
  case (space w r)
  then show ?case using percent_bytes_chars [of w] by (auto simp: list_all_iff)
qed (simp_all add: encode_source_Cons)

lemma encode_source_raw_prefix:
  assumes "encode_source s = w @ t" and "list_all (\<lambda>c. \<not> visible c) w"
  shows "\<exists>t'. s = w @ t'"
  using assms
proof (induction s arbitrary: w t rule: encode_induct)
  case (delim c r)
  then show ?case using visible_percent by (cases w) (auto simp: encode_source_Cons percent_byte_def)
next
  case (space v r)
  then have "v \<noteq> []" using ws_chars_nonempty by blast
  then obtain c v' where v: "v = c # v'" by (cases v) auto
  then show ?case using space visible_percent by (cases w) (auto simp: percent_byte_def)
next
  case (plain c r)
  then show ?case by (cases w) (auto simp: encode_source_Cons)
qed simp

lemma ws_char_invisible: "w \<in> set ws_chars \<Longrightarrow> list_all (\<lambda>c. \<not> visible c) w"
  using visible_not_in_ws by (auto simp: list_all_iff)

lemma encode_source_ws_free: "ws_free (encode_source s)"
proof (induction s rule: encode_induct)
  case (delim c r)
  have "list_all visible (percent_byte c)" using percent_byte_chars [of c] by (simp add: list_all_iff)
  from ws_free_append_visible [OF delim(2) this] show ?case using delim(1) by (simp add: encode_source_Cons)
next
  case (space w r)
  have "list_all visible (concat (map percent_byte w))" using percent_bytes_chars [of w] by (simp add: list_all_iff)
  from ws_free_append_visible [OF space(3) this] show ?case by (simp only: space(2))
next
  case (plain c r)
  have "ws_prefix (c # encode_source r) = None"
    unfolding ws_prefix_None_iff
  proof (intro ballI notI, elim exE)
    fix w t assume w: "w \<in> set ws_chars" and eq: "c # encode_source r = w @ t"
    obtain w' where w': "w = c # w'" using eq ws_chars_nonempty [OF w] by (cases w) auto
    then obtain t' where "r = w' @ t'"
      using encode_source_raw_prefix [of r w' t] eq ws_char_invisible [OF w] by auto
    then have "c # r = w @ t'" using w' by simp
    then show False using plain.hyps(3) w unfolding ws_prefix_None_iff by blast
  qed
  with plain show ?case by (simp add: encode_source_Cons)
qed simp

lemma encode_source_not_Nil: "s \<noteq> [] \<Longrightarrow> encode_source s \<noteq> []"
  using percent_decode_encode [of s] by (cases "encode_source s") auto

section \<open>Comments read back\<close>

definition iso_ok :: "line_codec \<Rightarrow> instant \<Rightarrow> bool" where
  "iso_ok io t \<longleftrightarrow>
     (case iso_show io t of
        Some s \<Rightarrow> iso_parse io s = Some t \<and> list_all visible s \<and> s \<noteq> [] \<and> s \<noteq> ''-''
      | None \<Rightarrow> False)"

definition opt_iso_ok :: "line_codec \<Rightarrow> instant option \<Rightarrow> bool" where
  "opt_iso_ok io t \<longleftrightarrow> (case t of Some t \<Rightarrow> iso_ok io t | None \<Rightarrow> True)"

definition line_ok :: "line_codec \<Rightarrow> bridge_line \<Rightarrow> bool" where
  "line_ok io bridge \<longleftrightarrow>
     (let l = line_show io bridge in
      line_parse io l = Some bridge \<and> l \<noteq> [] \<and> \<not> starts_with ''#'' l \<and>
      ws_prefix l = None \<and> ws_suffix l = None \<and> newline \<notin> set l)"

definition label_ok :: "str \<Rightarrow> bool" where
  "label_ok s \<longleftrightarrow> s \<noteq> [] \<and> is_utf8 s"

definition storable :: "line_codec \<Rightarrow> bridge_line entry \<Rightarrow> bool" where
  "storable io e \<longleftrightarrow>
     line_ok io (e_bridge e) \<and> iso_ok io (e_last_attempt e) \<and> iso_ok io (e_last_circuit_observation e) \<and>
     opt_iso_ok io (e_last_ok e) \<and> opt_iso_ok io (e_last_channel_ok e) \<and>
     opt_iso_ok io (e_last_verified e) \<and> opt_iso_ok io (e_last_verification_attempt e) \<and>
     e_last_latency e div MILLI < 2 ^ 64 \<and>
     sorted (e_sources e) \<and> distinct (e_sources e) \<and> list_all label_ok (e_sources e)"

definition whole_millis :: "'b entry \<Rightarrow> 'b entry" where
  "whole_millis e = e\<lparr>e_last_latency := e_last_latency e div MILLI * MILLI\<rparr>"

definition meta_tokens :: "line_codec \<Rightarrow> bridge_line entry \<Rightarrow> str list" where
  "meta_tokens io e =
     [''fails='' @ show_u32 (e_fails e), ''seen='' @ show_u32 (e_ok_count e),
      ''attempt='' @ format_iso io (e_last_attempt e), ''ok='' @ iso_or_dash io (e_last_ok e),
      ''latency='' @ show_nat (e_last_latency e div MILLI) @ ''ms'',
      ''chseen='' @ show_u32 (e_channel_ok_count e), ''chok='' @ iso_or_dash io (e_last_channel_ok e),
      ''evseen='' @ show_u32 (e_verified_count e), ''evok='' @ iso_or_dash io (e_last_verified e)] @
     (case e_last_verification_attempt e of Some t \<Rightarrow> [''evtry='' @ format_iso io t] | None \<Rightarrow> []) @
     [''cfails='' @ show_u32 (e_circuit_fails e), ''cobs='' @ format_iso io (e_last_circuit_observation e)] @
     (if e_sources e = [] then [] else [''srcenc='' @ join '','' (map encode_source (e_sources e))])"

lemma meta_comment_tokens: "meta_comment io e = ''# '' @ join '' '' (meta_tokens io e)"
  by (simp add: meta_comment_def meta_tokens_def split: option.split)

lemma parse_u32_show [simp]: "parse_u32 (show_u32 n) = Some n"
  using unsigned_less [of n, where 'a = nat] by (simp add: parse_u32_def show_u32_def parse_uint_show_nat)

lemma iso_ok_format:
  assumes "iso_ok io t"
  shows "iso_parse io (format_iso io t) = Some t" "list_all visible (format_iso io t)" "format_iso io t \<noteq> []"
    "format_iso io t \<noteq> ''-''"
  using assms by (auto simp: iso_ok_def format_iso_def split: option.splits)

lemma iso_or_dash_reads:
  assumes "opt_iso_ok io t"
  shows "parse_time_or_dash io (iso_or_dash io t) = Some t" "list_all visible (iso_or_dash io t)" "iso_or_dash io t \<noteq> []"
  using assms iso_ok_format by (auto simp: opt_iso_ok_def parse_time_or_dash_def iso_or_dash_def visible_def split: option.splits)

lemma latency_reads: "n < 2 ^ 64 \<Longrightarrow> parse_latency (show_nat n @ ''ms'') = Some (n * MILLI)"
  by (simp add: parse_latency_def strip_suffix_Some_iff [THEN iffD2, OF refl] parse_uint_show_nat)

lemma sources_read:
  assumes "sorted ls" and "distinct ls" and "list_all label_ok ls"
  shows "ls \<noteq> [] \<Longrightarrow> parse_sources decode_source (join '','' (map encode_source ls)) = ls"
proof -
  assume "ls \<noteq> []"
  then have "split_on CHR '','' (join '','' (map encode_source ls)) = map encode_source ls"
    by (intro split_on_join) (auto simp: encode_source_comma)
  moreover have "filter (\<lambda>s. s \<noteq> []) (map encode_source ls) = map encode_source ls"
    using assms(3) by (auto simp: filter_id_conv list_all_iff label_ok_def dest: encode_source_not_Nil)
  moreover have "map decode_source (map encode_source ls) = ls"
    using assms(3) by (auto simp: list_all_iff label_ok_def decode_encode_source intro!: map_idI)
  ultimately show ?thesis using assms(1,2) by (simp add: parse_sources_def sorted_sort_id)
qed

lemma token_reads:
  "parse_meta_token io (''fails='' @ v) m = map_option (\<lambda>n. m\<lparr>m_fails := n\<rparr>) (parse_u32 v)"
  "parse_meta_token io (''seen='' @ v) m = map_option (\<lambda>n. m\<lparr>m_ok_count := n\<rparr>) (parse_u32 v)"
  "parse_meta_token io (''attempt='' @ v) m = map_option (\<lambda>t. m\<lparr>m_last_attempt := t\<rparr>) (iso_parse io v)"
  "parse_meta_token io (''ok='' @ v) m = map_option (\<lambda>t. m\<lparr>m_last_ok := t\<rparr>) (parse_time_or_dash io v)"
  "parse_meta_token io (''latency='' @ v) m = map_option (\<lambda>d. m\<lparr>m_last_latency := d\<rparr>) (parse_latency v)"
  "parse_meta_token io (''chseen='' @ v) m = map_option (\<lambda>n. m\<lparr>m_channel_ok_count := n\<rparr>) (parse_u32 v)"
  "parse_meta_token io (''chok='' @ v) m = map_option (\<lambda>t. m\<lparr>m_last_channel_ok := t\<rparr>) (parse_time_or_dash io v)"
  "parse_meta_token io (''evseen='' @ v) m = map_option (\<lambda>n. m\<lparr>m_verified_count := n\<rparr>) (parse_u32 v)"
  "parse_meta_token io (''evok='' @ v) m = map_option (\<lambda>t. m\<lparr>m_last_verified := t\<rparr>) (parse_time_or_dash io v)"
  "parse_meta_token io (''evtry='' @ v) m = map_option (\<lambda>t. m\<lparr>m_last_verification_attempt := Some t\<rparr>) (iso_parse io v)"
  "parse_meta_token io (''cfails='' @ v) m = map_option (\<lambda>n. m\<lparr>m_circuit_fails := n\<rparr>) (parse_u32 v)"
  "parse_meta_token io (''cobs='' @ v) m = map_option (\<lambda>t. m\<lparr>m_last_circuit_observation := t\<rparr>) (iso_parse io v)"
  "parse_meta_token io (''srcenc='' @ v) m = Some (m\<lparr>m_sources := parse_sources decode_source v\<rparr>)"
  by (simp_all add: parse_meta_token_def)

lemmas tokens_read = token_reads [unfolded append_Cons append_Nil]

lemma visible_show_u32: "list_all visible (show_u32 n)" "show_u32 n \<noteq> []"
  by (simp_all add: show_u32_def visible_digits show_nat_not_Nil)

lemma meta_comment_reads:
  assumes "storable io e"
  shows "\<exists>m. parse_meta_tokens io (meta_tokens io e) meta_default = Some m \<and> entry_of_meta (e_bridge e) m = whole_millis e"
proof -
  note facts = assms [unfolded storable_def]
  have sources: "e_sources e \<noteq> [] \<Longrightarrow> parse_sources decode_source (join '','' (map encode_source (e_sources e))) = e_sources e"
    using facts by (intro sources_read) auto
  show ?thesis
    using facts sources
    by (cases "e_last_verification_attempt e"; cases "e_sources e = []")
      (simp_all add: meta_tokens_def tokens_read iso_ok_format iso_or_dash_reads latency_reads meta_default_def
        entry_of_meta_def whole_millis_def opt_iso_ok_def)
qed

lemma ws_free_Cons_visible: "visible c \<Longrightarrow> ws_free (c # s) \<longleftrightarrow> ws_free s"
  by (simp add: ws_prefix_visible)

lemma ws_free_labels: "ws_free (join '','' (map encode_source ls))"
proof -
  have "visible CHR '',''" by code_simp
  then show ?thesis by (rule ws_free_join) (simp add: list_all_iff encode_source_ws_free)
qed

lemma meta_tokens_ws_free:
  assumes "storable io e"
  shows "list_all (\<lambda>t. ws_free t \<and> t \<noteq> []) (meta_tokens io e)"
proof -
  note facts = assms [unfolded storable_def]
  have plain: "ws_free (show_u32 n)" for n by (intro ws_free_visible visible_show_u32)
  have iso: "ws_free (format_iso io t)" if "iso_ok io t" for t using iso_ok_format(2) [OF that] by (rule ws_free_visible)
  have dash: "ws_free (iso_or_dash io t)" if "opt_iso_ok io t" for t
    using iso_or_dash_reads(2) [OF that] by (rule ws_free_visible)
  have ms: "ws_free (show_nat n @ ''ms'')" for n
    using visible_digits [of n] by (intro ws_free_visible) (simp add: visible_def)
  show ?thesis
    using facts
    by (cases "e_last_verification_attempt e")
      (simp_all del: ws_free.simps(2) add: meta_tokens_def ws_free_Cons_visible visible_def plain iso dash ms ws_free_labels opt_iso_ok_def)
qed

section \<open>The file reads back\<close>

lemma comment_last:
  assumes "ts \<noteq> []"
  shows "\<exists>p. ''# '' @ join '' '' ts = p @ CHR '' '' # last ts"
  using assms
proof (induction ts rule: rev_induct)
  case (snoc t ts)
  show ?case
  proof (cases "ts = []")
    case False
    then have "join '' '' (ts @ [t]) = join '' '' ts @ '' '' @ t"
      by (induction "'' ''" ts rule: join.induct) auto
    then show ?thesis by (intro exI [of _ "''# '' @ join '' '' ts"]) simp
  qed simp
qed simp

lemma ws_suffix_last: "ws_suffix l = None \<Longrightarrow> l = [] \<or> last l \<noteq> carriage_return"
proof -
  have "[carriage_return] \<in> set ws_chars" by code_simp
  then show "ws_suffix l = None \<Longrightarrow> l = [] \<or> last l \<noteq> carriage_return"
    unfolding ws_suffix_None_iff by (metis append_butlast_last_id)
qed

lemma ws_free_newline: "ws_free s \<Longrightarrow> newline \<notin> set s"
proof (induction s)
  case (Cons c s)
  have "[newline] \<in> set ws_chars" by code_simp
  with Cons show ?case by (auto simp: ws_prefix_None_iff)
qed simp

lemma ws_suffix_visible:
  assumes "visible c"
  shows "ws_suffix (s @ [c]) = None"
  unfolding ws_suffix_None_iff
proof (intro ballI notI, elim exE)
  fix w r assume w: "w \<in> set ws_chars" and eq: "s @ [c] = r @ w"
  obtain w' d where "w = w' @ [d]" using ws_chars_nonempty [OF w] by (cases w rule: rev_cases) auto
  then show False using eq visible_not_in_ws [OF assms w] by simp
qed

lemma comment_trimmed:
  assumes "list_all (\<lambda>t. ws_free t \<and> t \<noteq> []) ts" and "ts \<noteq> []"
  shows "ws_prefix (''# '' @ join '' '' ts) = None" "ws_suffix (''# '' @ join '' '' ts) = None"
    "newline \<notin> set (''# '' @ join '' '' ts)"
proof -
  have "visible CHR ''#''" by code_simp
  then show "ws_prefix (''# '' @ join '' '' ts) = None" by (simp add: ws_prefix_visible)
  obtain p where "''# '' @ join '' '' ts = p @ CHR '' '' # last ts" using comment_last [OF assms(2)] by blast
  moreover have "ws_free (last ts)" "last ts \<noteq> []" using assms by (auto simp: list_all_iff)
  ultimately show "ws_suffix (''# '' @ join '' '' ts) = None" using ws_suffix_after_sep [of "last ts"] by simp
  have "newline \<notin> set (join '' '' ts)"
    using assms(1) by (induction "'' ''" ts rule: join.induct) (auto simp: ws_free_newline, auto simp: newline_def)
  then show "newline \<notin> set (''# '' @ join '' '' ts)" by (simp add: newline_def)
qed

lemma load_comment:
  assumes "storable io e"
  shows "\<exists>m. load_line x io (meta_comment io e) (entries, pending) = (entries, Some m) \<and>
    entry_of_meta (e_bridge e) m = whole_millis e"
proof -
  let ?ts = "meta_tokens io e"
  have ts: "list_all (\<lambda>t. ws_free t \<and> t \<noteq> []) ?ts" "?ts \<noteq> []"
    using meta_tokens_ws_free [OF assms] by (simp_all add: meta_tokens_def)
  obtain m where m: "parse_meta_tokens io ?ts meta_default = Some m" "entry_of_meta (e_bridge e) m = whole_millis e"
    using meta_comment_reads [OF assms] by blast
  have "starts_with ''fails='' (join '' '' ?ts)" by (simp add: meta_tokens_def starts_with_def)
  then have "parse_meta_comment io (join '' '' ?ts) = Some m"
    using m(1) by (simp add: parse_meta_comment_def split_whitespace_join [OF ts(1)])
  moreover have "trim (meta_comment io e) = ''# '' @ join '' '' ?ts"
    unfolding meta_comment_tokens by (rule trim_id) (use comment_trimmed [OF ts] in auto)
  ultimately show ?thesis using m(2) by (simp add: load_line_def)
qed

lemma load_bridge:
  assumes "line_ok io bridge"
  shows "load_line x io (line_show io bridge) (entries, Some m) =
    (if usable_for_tor bridge then om_insert (line_key x bridge) (entry_of_meta bridge m) entries else entries, None)"
proof -
  let ?l = "line_show io bridge"
  have ok: "line_parse io ?l = Some bridge" "?l \<noteq> []" "\<not> starts_with ''#'' ?l" "trim ?l = ?l"
    using assms by (simp_all add: line_ok_def Let_def trim_id)
  then have "strip_prefix ''# '' ?l = None" by (cases ?l) (auto simp: starts_with_def)
  with ok show ?thesis by (simp add: load_line_def)
qed

lemma trim_Nil: "trim [] = []"
  by code_simp

lemma load_blank: "load_line x io [] st = st"
  by (cases st) (simp add: load_line_def trim_Nil)

definition entry_lines :: "line_codec \<Rightarrow> bridge_line entry \<Rightarrow> str list" where
  "entry_lines io e = [meta_comment io e, line_show io (e_bridge e), []]"

definition keep_entry :: "externals \<Rightarrow> bridge_line entry \<Rightarrow> line_store \<Rightarrow> line_store" where
  "keep_entry x e s = (if usable_for_tor (e_bridge e) then om_insert (line_key x (e_bridge e)) (whole_millis e) s else s)"

lemma load_entry:
  assumes "storable io e"
  shows "fold (load_line x io) (entry_lines io e) (entries, None) = (keep_entry x e entries, None)"
proof -
  have "line_ok io (e_bridge e)" using assms by (simp add: storable_def)
  then show ?thesis
    using load_comment [OF assms, of x entries None] by (auto simp: entry_lines_def keep_entry_def load_bridge load_blank)
qed

lemma load_entries:
  assumes "list_all (storable io) es"
  shows "fold (load_line x io) (concat (map (entry_lines io) es)) (entries, None) = (fold (keep_entry x) es entries, None)"
  using assms by (induction es arbitrary: entries) (auto simp: load_entry)

definition codec_rejects_words :: "line_codec \<Rightarrow> bool" where
  "codec_rejects_words io \<longleftrightarrow> iso_parse io ''Auto-generated'' = None \<and> iso_parse io ''Last'' = None"

lemma load_header:
  assumes "codec_rejects_words io"
  shows "load_line x io HEADER_LINE1 (entries, None) = (entries, None)"
    "load_line x io (HEADER_LINE2_PREFIX @ s @ ''.'') (entries, None) = (entries, None)"
proof -
  have "trim HEADER_LINE1 = HEADER_LINE1" by code_simp
  moreover have "visible CHR ''#''" "visible CHR ''.''" by code_simp+
  then have "trim (HEADER_LINE2_PREFIX @ s @ ''.'') = HEADER_LINE2_PREFIX @ s @ ''.''"
    using ws_suffix_visible [of "CHR ''.''" "HEADER_LINE2_PREFIX @ s"]
    by (intro trim_id) (simp_all add: HEADER_LINE2_PREFIX_def ws_prefix_visible)
  ultimately show "load_line x io HEADER_LINE1 (entries, None) = (entries, None)"
    "load_line x io (HEADER_LINE2_PREFIX @ s @ ''.'') (entries, None) = (entries, None)"
    using assms
    by (simp_all add: load_line_def HEADER_LINE1_def HEADER_LINE2_PREFIX_def parse_meta_comment_def starts_with_def
        parse_legacy_comment_def codec_rejects_words_def)
qed

lemma save_lines:
  assumes "list_all (storable io) es" and "iso_ok io now"
  shows "lines (HEADER_LINE1 @ [newline] @ HEADER_LINE2_PREFIX @ format_iso io now @ ''.'' @ [newline] @ [newline] @
      concat (map (entry_text io) es)) =
    [HEADER_LINE1, HEADER_LINE2_PREFIX @ format_iso io now @ ''.'', []] @ concat (map (entry_lines io) es)"
proof -
  let ?ls = "[HEADER_LINE1, HEADER_LINE2_PREFIX @ format_iso io now @ ''.'', []] @ concat (map (entry_lines io) es)"
  have entry: "list_all (\<lambda>l. newline \<notin> set l \<and> (l = [] \<or> last l \<noteq> carriage_return)) (entry_lines io e)"
    if "storable io e" for e
  proof -
    have ts: "list_all (\<lambda>t. ws_free t \<and> t \<noteq> []) (meta_tokens io e)" "meta_tokens io e \<noteq> []"
      using meta_tokens_ws_free [OF that] by (simp_all add: meta_tokens_def)
    have "newline \<notin> set (meta_comment io e)" "meta_comment io e = [] \<or> last (meta_comment io e) \<noteq> carriage_return"
      unfolding meta_comment_tokens using comment_trimmed(2,3) [OF ts] ws_suffix_last by blast+
    then show ?thesis
      using ws_suffix_last [of "line_show io (e_bridge e)"] that
      by (simp add: entry_lines_def storable_def line_ok_def Let_def)
  qed
  have "newline \<notin> set (format_iso io now)"
    using iso_ok_format(2) [OF assms(2)] by (intro ws_free_newline ws_free_visible)
  then have "list_all (\<lambda>l. newline \<notin> set l \<and> (l = [] \<or> last l \<noteq> carriage_return)) ?ls"
    using entry assms(1) by (auto simp: list_all_iff HEADER_LINE1_def HEADER_LINE2_PREFIX_def newline_def carriage_return_def)
  moreover have "concat (map (\<lambda>l. l @ [newline]) (concat (map (entry_lines io) es))) = concat (map (entry_text io) es)"
    by (induction es) (simp_all add: entry_text_def entry_lines_def)
  ultimately show ?thesis using lines_unlines [of ?ls] by simp
qed

lemma om_lookup_map_of: "om_lookup m = map_of m"
  by (induction m) auto

lemma om_ok_keys: "om_ok m \<Longrightarrow> sorted (map fst m) \<and> distinct (map fst m)"
  by (auto simp: om_ok_def strict_sorted_iff)

lemma om_eqI:
  assumes "om_ok m" and "om_ok m'" and "set m = set m'"
  shows "m = m'"
proof (rule map_sorted_distinct_set_unique [where f = fst])
  show "inj_on fst (set m \<union> set m')" using om_ok_keys [OF assms(1)] assms(3) by (simp add: distinct_map)
qed (use assms om_ok_keys in auto)

lemma set_om_insert: "k \<notin> fst ` set m \<Longrightarrow> set (om_insert k v m) = insert (k, v) (set m)"
  by (induction k v m rule: om_insert.induct) auto

lemma fold_insert_entries:
  assumes "om_ok m" and "distinct (map key es)" and "\<forall>e \<in> set es. key e \<notin> fst ` set m"
  shows "om_ok (fold (\<lambda>e. om_insert (key e) (f e)) es m) \<and>
    set (fold (\<lambda>e. om_insert (key e) (f e)) es m) = set m \<union> (\<lambda>e. (key e, f e)) ` set es"
  using assms
proof (induction es arbitrary: m)
  case (Cons e es)
  have new: "set (om_insert (key e) (f e) m) = insert (key e, f e) (set m)"
    using Cons.prems(3) by (intro set_om_insert) simp
  have "\<forall>e' \<in> set es. key e' \<notin> fst ` set (om_insert (key e) (f e) m)"
    unfolding new using Cons.prems(2,3) by (auto simp: image_iff)
  then show ?case
    using Cons.IH [of "om_insert (key e) (f e) m"] Cons.prems(1,2) by (auto simp: new om_ok_insert)
qed simp

lemma store_ok_keys: "store_ok key s \<Longrightarrow> (k, e) \<in> set s \<Longrightarrow> key (e_bridge e) = k"
  by (simp add: store_ok_def om_entries_lookup)

lemma fold_keep_entry:
  "fold (keep_entry x) es s =
     fold (\<lambda>e. om_insert (line_key x (e_bridge e)) (whole_millis e)) (filter (\<lambda>e. usable_for_tor (e_bridge e)) es) s"
  by (induction es arbitrary: s) (simp_all add: keep_entry_def)

lemma mset_sort_cmp: "mset (sort_cmp cmp xs) = mset xs"
proof -
  have "mset (insort_cmp cmp x xs) = add_mset x (mset xs)" for x and xs :: "'a list"
    by (induction xs) auto
  then show ?thesis by (induction xs) (auto simp: sort_cmp_def)
qed

lemma rebuilt_map:
  assumes "store_ok key s" and "mset es = mset (om_values s)"
  shows "fold (\<lambda>e. om_insert (key (e_bridge e)) (f e)) (filter P es) [] = map (\<lambda>(k, e). (k, f e)) (filter (\<lambda>(k, e). P e) s)"
proof (rule om_eqI)
  let ?s' = "map (\<lambda>(k, e). (k, f e)) (filter (\<lambda>(k, e). P e) s)"
  have ok: "om_ok s" and keys: "\<And>k e. (k, e) \<in> set s \<Longrightarrow> key (e_bridge e) = k"
    using assms(1) store_ok_keys by (auto simp: store_ok_def)
  have "map (\<lambda>e. key (e_bridge e)) (om_values s) = map fst s" using keys by (auto simp: om_values_def)
  then have "distinct (map (\<lambda>e. key (e_bridge e)) es)"
    using om_ok_keys [OF ok] assms(2) by (metis mset_eq_imp_distinct_iff mset_map)
  then have "distinct (map (\<lambda>e. key (e_bridge e)) (filter P es))" by (rule distinct_map_filter)
  from fold_insert_entries [OF _ this, of "[]" f]
  have folded: "om_ok (fold (\<lambda>e. om_insert (key (e_bridge e)) (f e)) (filter P es) [])"
      "set (fold (\<lambda>e. om_insert (key (e_bridge e)) (f e)) (filter P es) []) = (\<lambda>e. (key (e_bridge e), f e)) ` set (filter P es)"
    by (simp_all add: om_ok_def)
  then show "om_ok (fold (\<lambda>e. om_insert (key (e_bridge e)) (f e)) (filter P es) [])" by simp
  show "om_ok ?s'" using ok by (simp add: om_ok_def sorted_wrt_map sorted_wrt_filter case_prod_beta)
  have "set es = snd ` set s" using mset_eq_setD [OF assms(2)] by (simp add: om_values_def)
  then show "set (fold (\<lambda>e. om_insert (key (e_bridge e)) (f e)) (filter P es) []) = set ?s'"
    unfolding folded(2) using keys by force
qed

definition lines_ok :: "externals \<Rightarrow> line_store \<Rightarrow> bool" where
  "lines_ok x s \<longleftrightarrow> store_ok (line_key x) s \<and> list_all (\<lambda>e. usable_for_tor (e_bridge e)) (om_values s)"

lemma set_om_insert_subset: "set (om_insert k v m) \<subseteq> insert (k, v) (set m)"
  by (induction k v m rule: om_insert.induct) auto

lemma lines_ok_insert:
  assumes "lines_ok x s" and "usable_for_tor b"
  shows "lines_ok x (om_insert (line_key x b) (entry_of_meta b m) s)"
proof -
  have b: "e_bridge (entry_of_meta b m) = b" by (simp add: entry_of_meta_def)
  then have "store_ok (line_key x) (om_insert (line_key x b) (entry_of_meta b m) s)"
    using assms(1) by (intro store_ok_insert) (simp_all add: lines_ok_def)
  moreover have "list_all (\<lambda>e. usable_for_tor (e_bridge e)) (om_values (om_insert (line_key x b) (entry_of_meta b m) s))"
    using assms b set_om_insert_subset [of "line_key x b" "entry_of_meta b m" s]
    by (fastforce simp: lines_ok_def om_values_def list_all_iff)
  ultimately show ?thesis by (simp add: lines_ok_def)
qed

lemma lines_ok_load_line: "lines_ok x (fst st) \<Longrightarrow> lines_ok x (fst (load_line x io raw st))"
  by (cases st) (simp add: load_line_def Let_def lines_ok_insert split: option.split)

lemma lines_ok_load: "lines_ok x (fst st) \<Longrightarrow> lines_ok x (fst (fold (load_line x io) ls st))"
  by (induction ls arbitrary: st) (simp_all add: lines_ok_load_line)

text \<open>
  C37: Whatever bytes the file holds, loading them gives a well-formed store: one entry per identity,
  filed under the identity of its own line, and only lines that are usable for Tor.
\<close>

theorem loaded_store_is_well_formed:
  "case load_store x io r of
     None \<Rightarrow> r = ReadFailed
   | Some s \<Rightarrow> store_ok (line_key x) s \<and> list_all (\<lambda>e. usable_for_tor (e_bridge e)) (om_values s)"
proof -
  have "lines_ok x []" by (simp add: lines_ok_def store_ok_def om_ok_def om_values_def)
  then have "lines_ok x (load_text x io t)" for t
    unfolding load_text_def by (intro lines_ok_load) simp
  with \<open>lines_ok x []\<close> show ?thesis
    by (simp add: load_store_def lines_ok_def split: read_outcome.split)
qed

text \<open>
  C20: What \<open>save\<close> writes, \<open>load\<close> reads back: for every well-formed store whose times and lines their
  printers can express, the loaded store has the same bridges under the same identities with the same
  health, latencies cut to whole milliseconds; only lines that are not usable for Tor are left out.
\<close>

theorem saved_store_loads_back:
  assumes "store_ok (line_key x) s" and "list_all (storable io) (om_values s)" and "iso_ok io now"
    and "codec_rejects_words io"
  shows "load_store x io (ReadText (save_text io now s)) =
    Some (map (\<lambda>(k, e). (k, whole_millis e)) (filter (\<lambda>(k, e). usable_for_tor (e_bridge e)) s))"
proof -
  let ?es = "sort_cmp save_cmp (om_values s)"
  have mset: "mset ?es = mset (om_values s)" by (rule mset_sort_cmp)
  then have es: "list_all (storable io) ?es" using assms(2) mset_eq_setD [OF mset] by (simp add: list_all_iff)
  have "load_store x io (ReadText (save_text io now s)) = Some (fold (keep_entry x) ?es [])"
    by (simp add: load_store_def load_text_def save_text_def save_lines [OF es assms(3), simplified]
        load_header [OF assms(4), simplified] load_blank load_entries [OF es])
  then show ?thesis unfolding fold_keep_entry rebuilt_map [OF assms(1) mset] .
qed

text \<open>A concrete codec: times as decimal seconds, and one bridge line.\<close>

definition sample_bridge :: bridge_line where
  "sample_bridge = \<lparr>bl_transport = None, bl_addr = \<lparr>sa_ip = V4 16909060, sa_port = 443, sa_scope = 0\<rparr>,
     bl_fingerprint = None, bl_params = []\<rparr>"

definition sample_codec :: line_codec where
  "sample_codec =
     \<lparr>iso_show = (\<lambda>t. if t = 5 then Some ''5'' else if t = 7 then Some ''7'' else None),
      iso_parse = (\<lambda>s. if s = ''5'' then Some 5 else if s = ''7'' then Some 7 else None),
      line_show = (\<lambda>_. ''1.2.3.4:443''), line_parse = (\<lambda>s. if s = ''1.2.3.4:443'' then Some sample_bridge else None)\<rparr>"

definition sample_store :: "externals \<Rightarrow> line_store" where
  "sample_store x =
     note_source_at (line_key x) sample_bridge ''my list, two'' 7 (record_at (line_key x) sample_bridge 3500000 5 [])"

theorem saved_store_loads_back_witness:
  "let x = \<lparr>x_url = (\<lambda>_. Inl OtherUrlError), x_name = (\<lambda>_. True)\<rparr> in
   map_option (map (\<lambda>(k, e). (e_last_latency e, e_sources e))) (load_store x sample_codec (ReadText (save_text sample_codec 7 (sample_store x)))) =
   Some [(3000000, [''my list, two''])]"
proof -
  let ?x = "\<lparr>x_url = (\<lambda>_. Inl OtherUrlError), x_name = (\<lambda>_. True)\<rparr>"
  have "store_ok (line_key ?x) []" by (simp add: store_ok_def om_ok_def)
  then have "store_ok (line_key ?x) (sample_store ?x)"
    unfolding sample_store_def note_source_at_def by (intro store_ok_upsert store_ok_record) simp_all
  moreover have "list_all (storable sample_codec) (om_values (sample_store ?x))" by code_simp
  moreover have "iso_ok sample_codec 7" "codec_rejects_words sample_codec" by code_simp+
  ultimately have "load_store ?x sample_codec (ReadText (save_text sample_codec 7 (sample_store ?x))) =
      Some (map (\<lambda>(k, e). (k, whole_millis e)) (filter (\<lambda>(k, e). usable_for_tor (e_bridge e)) (sample_store ?x)))"
    by (rule saved_store_loads_back)
  moreover have "map (\<lambda>(k, e). (e_last_latency e, e_sources e)) (map (\<lambda>(k, e). (k, whole_millis e))
      (filter (\<lambda>(k, e). usable_for_tor (e_bridge e)) (sample_store ?x))) = [(3000000, [''my list, two''])]" by code_simp
  ultimately show ?thesis unfolding Let_def by simp
qed

end
