(* ===== verification/StoreWriter.thy ===== *)
theory StoreWriter
  imports BridgePersist
begin

text \<open>
  The single writer of the bridge health store (\<open>apps/socks5-proxy/src/bridges/bridge_store_writer.rs\<close>) and
  the command-line processes it shares the file with, as a step relation.  The actor keeps one snapshot
  in memory while it holds the path lock, absorbs mutations into it, has at most one publish in flight
  and retries failed publishes with backoff; a command-line transaction loads, mutates and saves under
  the same lock.  A mutation is known by a number; what it does to the store, and how the store is
  loaded from and saved to the file, are parameters.
\<close>

section \<open>Retry bookkeeping\<close>

definition INITIAL_BACKOFF :: nat where "INITIAL_BACKOFF = 1000"
definition MAX_BACKOFF :: nat where "MAX_BACKOFF = 30000"

text \<open>Times in milliseconds.  \<open>failed_attempts\<close> only feeds the log.\<close>

record retry_state =
  rs_dirty :: bool
  rs_failed_attempts :: u32
  rs_retry_at :: "nat option"
  rs_backoff :: nat

definition retry_new :: "nat \<Rightarrow> retry_state" where
  "retry_new initial_backoff =
     \<lparr>rs_dirty = False, rs_failed_attempts = 0, rs_retry_at = None, rs_backoff = initial_backoff\<rparr>"

definition record_success :: "retry_state \<Rightarrow> retry_state" where
  "record_success r = \<lparr>rs_dirty = False, rs_failed_attempts = 0, rs_retry_at = None, rs_backoff = INITIAL_BACKOFF\<rparr>"

definition record_publish_failure :: "nat \<Rightarrow> retry_state \<Rightarrow> retry_state" where
  "record_publish_failure now r =
     \<lparr>rs_dirty = True, rs_failed_attempts = rs_failed_attempts r + 1, rs_retry_at = Some (now + rs_backoff r),
      rs_backoff = min (rs_backoff r * 2) MAX_BACKOFF\<rparr>"

section \<open>The actor\<close>

datatype lock_owner = Unlocked | ActorHolds | CliHolds

datatype 's publish_job = NoJob | InFlight 's | Reported bool

text \<open>
  \<open>wr_since\<close> counts the mutations absorbed since the last publish was started, in 32 bits: it wraps
  around, and then a snapshot with unpublished mutations looks clean.  The ghost fields follow the mutations: \<open>wr_ops\<close> those in the snapshot, \<open>wr_job_ops\<close> those in the
  snapshot being published, \<open>wr_base\<close> the file the snapshot was loaded from, \<open>wr_landed\<close> what the actor
  last put in the file in this window and when, \<open>wr_windows\<close> the finished read-modify-write windows with
  their save times, and \<open>wr_acked\<close> the mutations acknowledged to their callers.
\<close>

record ('f, 's) writer =
  wr_file :: 'f
  wr_lock :: lock_owner
  wr_store :: "'s option"
  wr_retry :: retry_state
  wr_job :: "'s publish_job"
  wr_since :: u32
  wr_now :: nat
  wr_closing :: bool
  wr_closed :: "bool option"
  wr_base :: 'f
  wr_ops :: "nat list"
  wr_job_ops :: "nat list"
  wr_landed :: "(nat \<times> nat list) option"
  wr_windows :: "(nat \<times> nat list) list"
  wr_acked :: "nat list"

definition writer_start :: "'f \<Rightarrow> ('f, 's) writer" where
  "writer_start f =
     \<lparr>wr_file = f, wr_lock = Unlocked, wr_store = None, wr_retry = retry_new INITIAL_BACKOFF, wr_job = NoJob,
      wr_since = 0, wr_now = 0, wr_closing = False, wr_closed = None, wr_base = f, wr_ops = [], wr_job_ops = [],
      wr_landed = None, wr_windows = [], wr_acked = []\<rparr>"

definition retry_pending :: "nat \<Rightarrow> retry_state \<Rightarrow> bool" where
  "retry_pending now r \<longleftrightarrow> (case rs_retry_at r of Some t \<Rightarrow> now < t | None \<Rightarrow> False)"

definition try_start_publish :: "('f, 's) writer \<Rightarrow> ('f, 's) writer" where
  "try_start_publish w =
     (case wr_store w of
        None \<Rightarrow> w
      | Some snapshot \<Rightarrow>
          if wr_job w \<noteq> NoJob \<or> \<not> rs_dirty (wr_retry w) then w
          else if retry_pending (wr_now w) (wr_retry w) then w
          else w\<lparr>wr_job := InFlight snapshot, wr_since := 0, wr_job_ops := wr_ops w\<rparr>)"

text \<open>Giving the lock back ends a window: what landed last in the file is its outcome.\<close>

definition end_window :: "('f, 's) writer \<Rightarrow> ('f, 's) writer" where
  "end_window w =
     w\<lparr>wr_store := None, wr_lock := Unlocked, wr_ops := [], wr_landed := None,
       wr_windows := wr_windows w @ (case wr_landed w of Some l \<Rightarrow> [l] | None \<Rightarrow> [])\<rparr>"

definition absorb_publish_result :: "bool \<Rightarrow> ('f, 's) writer \<Rightarrow> ('f, 's) writer" where
  "absorb_publish_result res w =
     (if res then
        (let routine = (wr_since w = 0);
             w = w\<lparr>wr_retry := record_success (wr_retry w)\<rparr>
         in if routine then end_window w
            else w\<lparr>wr_retry := (wr_retry w)\<lparr>rs_dirty := True\<rparr>\<rparr>)
      else w\<lparr>wr_retry := record_publish_failure (wr_now w) (wr_retry w)\<rparr>)\<lparr>wr_since := 0\<rparr>"

definition absorb_mutation :: "(nat \<Rightarrow> 's \<Rightarrow> 's) \<Rightarrow> nat \<Rightarrow> 's \<Rightarrow> ('f, 's) writer \<Rightarrow> ('f, 's) writer" where
  "absorb_mutation f op s w =
     try_start_publish (w\<lparr>wr_store := Some (f op s), wr_ops := wr_ops w @ [op], wr_acked := wr_acked w @ [op],
       wr_retry := (wr_retry w)\<lparr>rs_dirty := True\<rparr>, wr_since := wr_since w + 1\<rparr>)"

definition take_snapshot :: "'s \<Rightarrow> ('f, 's) writer \<Rightarrow> ('f, 's) writer" where
  "take_snapshot s w = w\<lparr>wr_lock := ActorHolds, wr_store := Some s, wr_base := wr_file w, wr_ops := [], wr_landed := None\<rparr>"

section \<open>Steps\<close>

text \<open>
  \<open>f\<close> interprets mutations, \<open>load\<close> and \<open>save\<close> the file; \<open>save t\<close> is a save at time \<open>t\<close>.  A publish may put
  the new file in place and still report an error (the directory could not be synced).
\<close>

inductive actor_step ::
  "(nat \<Rightarrow> 's \<Rightarrow> 's) \<Rightarrow> ('f \<Rightarrow> 's) \<Rightarrow> (nat \<Rightarrow> 's \<Rightarrow> 'f) \<Rightarrow> ('f, 's) writer \<Rightarrow> ('f, 's) writer \<Rightarrow> bool"
  for f load save where
  tick: "actor_step f load save w (w\<lparr>wr_now := Suc (wr_now w)\<rparr>)"
| mutate_unreadable: "\<not> wr_closing w \<Longrightarrow> wr_store w = None \<Longrightarrow> actor_step f load save w w"
| mutate_clean: "\<not> wr_closing w \<Longrightarrow> wr_store w = None \<Longrightarrow> wr_lock w = Unlocked \<Longrightarrow>
    actor_step f load save w (absorb_mutation f op (load (wr_file w)) (take_snapshot (load (wr_file w)) w))"
| mutate: "\<not> wr_closing w \<Longrightarrow> wr_store w = Some s \<Longrightarrow> actor_step f load save w (absorb_mutation f op s w)"
| panic_clean: "\<not> wr_closing w \<Longrightarrow> wr_store w = None \<Longrightarrow> wr_lock w = Unlocked \<Longrightarrow>
    actor_step f load save w (take_snapshot (load (wr_file w)) w)"
| panic: "\<not> wr_closing w \<Longrightarrow> wr_store w = Some s \<Longrightarrow> actor_step f load save w w"
| job_lands: "wr_job w = InFlight s \<Longrightarrow>
    actor_step f load save w (w\<lparr>wr_file := save (wr_now w) s, wr_job := Reported res,
      wr_landed := Some (wr_now w, wr_job_ops w)\<rparr>)"
| job_fails: "wr_job w = InFlight s \<Longrightarrow> actor_step f load save w (w\<lparr>wr_job := Reported False\<rparr>)"
| job_reports: "wr_job w = Reported res \<Longrightarrow>
    actor_step f load save w (try_start_publish (absorb_publish_result res (w\<lparr>wr_job := NoJob\<rparr>)))"
| retry_timer: "\<not> wr_closing w \<Longrightarrow> rs_dirty (wr_retry w) \<Longrightarrow> rs_retry_at (wr_retry w) = Some t \<Longrightarrow> t \<le> wr_now w \<Longrightarrow>
    wr_job w = NoJob \<Longrightarrow> actor_step f load save w (try_start_publish w)"
| close: "actor_step f load save w (w\<lparr>wr_closing := True\<rparr>)"
| close_clean: "wr_closing w \<Longrightarrow> wr_closed w = None \<Longrightarrow> wr_job w = NoJob \<Longrightarrow> \<not> rs_dirty (wr_retry w) \<Longrightarrow>
    actor_step f load save w ((if wr_lock w = ActorHolds then end_window w else w)\<lparr>wr_closed := Some True\<rparr>)"
| close_flushed: "wr_closing w \<Longrightarrow> wr_closed w = None \<Longrightarrow> wr_job w = NoJob \<Longrightarrow> rs_dirty (wr_retry w) \<Longrightarrow> wr_store w = Some s \<Longrightarrow>
    actor_step f load save w ((end_window (w\<lparr>wr_file := save (wr_now w) s, wr_landed := Some (wr_now w, wr_ops w)\<rparr>))
      \<lparr>wr_retry := (if res then record_success (wr_retry w) else record_publish_failure (wr_now w) (wr_retry w)),
       wr_closed := Some res\<rparr>)"
| close_failed: "wr_closing w \<Longrightarrow> wr_closed w = None \<Longrightarrow> wr_job w = NoJob \<Longrightarrow> rs_dirty (wr_retry w) \<Longrightarrow> wr_store w = Some s \<Longrightarrow>
    actor_step f load save w ((end_window w)\<lparr>wr_retry := record_publish_failure (wr_now w) (wr_retry w), wr_closed := Some False\<rparr>)"
| cli_locks: "wr_lock w = Unlocked \<Longrightarrow> actor_step f load save w (w\<lparr>wr_lock := CliHolds\<rparr>)"
| cli_saves: "wr_lock w = CliHolds \<Longrightarrow>
    actor_step f load save w (w\<lparr>wr_file := save (wr_now w) (f op (load (wr_file w))), wr_lock := Unlocked,
      wr_windows := wr_windows w @ [(wr_now w, [op])],
      wr_acked := wr_acked w @ (if res then [op] else [])\<rparr>)"
| cli_fails: "wr_lock w = CliHolds \<Longrightarrow> actor_step f load save w (w\<lparr>wr_lock := Unlocked\<rparr>)"

inductive actor_reach ::
  "(nat \<Rightarrow> 's \<Rightarrow> 's) \<Rightarrow> ('f \<Rightarrow> 's) \<Rightarrow> (nat \<Rightarrow> 's \<Rightarrow> 'f) \<Rightarrow> 'f \<Rightarrow> ('f, 's) writer \<Rightarrow> bool" for f load save f0 where
  start: "actor_reach f load save f0 (writer_start f0)"
| step: "actor_reach f load save f0 w \<Longrightarrow> actor_step f load save w w' \<Longrightarrow> actor_reach f load save f0 w'"

section \<open>No update is lost\<close>

text \<open>One window after the other: each loads what the previous one left, applies its mutations and saves.\<close>

definition replay :: "(nat \<Rightarrow> 's \<Rightarrow> 's) \<Rightarrow> ('f \<Rightarrow> 's) \<Rightarrow> (nat \<Rightarrow> 's \<Rightarrow> 'f) \<Rightarrow> (nat \<times> nat list) list \<Rightarrow> 'f \<Rightarrow> 'f" where
  "replay f load save = fold (\<lambda>(t, ops) file. save t (fold f ops (load file)))"

lemma replay_snoc [simp]:
  "replay f load save (ws @ [(t, ops)]) file = save t (fold f ops (load (replay f load save ws file)))"
  by (simp add: replay_def)

text \<open>The file within a window, and what a job may carry or report.\<close>

definition window_file ::
  "(nat \<Rightarrow> 's \<Rightarrow> 's) \<Rightarrow> ('f \<Rightarrow> 's) \<Rightarrow> (nat \<Rightarrow> 's \<Rightarrow> 'f) \<Rightarrow> 'f \<Rightarrow> (nat \<times> nat list) option \<Rightarrow> 'f" where
  "window_file f load save base landed =
     (case landed of None \<Rightarrow> base | Some (t, ops) \<Rightarrow> save t (fold f ops (load base)))"

fun job_snapshot_ok :: "(nat \<Rightarrow> 's \<Rightarrow> 's) \<Rightarrow> 's \<Rightarrow> nat list \<Rightarrow> (nat \<times> nat list) option \<Rightarrow> 's publish_job \<Rightarrow> bool" where
  "job_snapshot_ok f loaded ops landed NoJob = True"
| "job_snapshot_ok f loaded ops landed (InFlight s) \<longleftrightarrow> s = fold f ops loaded"
| "job_snapshot_ok f loaded ops landed (Reported res) \<longleftrightarrow> (res \<longrightarrow> map_option snd landed = Some ops)"

definition history_ok ::
  "(nat \<Rightarrow> 's \<Rightarrow> 's) \<Rightarrow> ('f \<Rightarrow> 's) \<Rightarrow> (nat \<Rightarrow> 's \<Rightarrow> 'f) \<Rightarrow> 'f \<Rightarrow> ('f, 's) writer \<Rightarrow> bool" where
  "history_ok f load save f0 w \<longleftrightarrow>
     (if wr_lock w = ActorHolds
      then wr_store w = Some (fold f (wr_ops w) (load (wr_base w))) \<and>
        wr_file w = window_file f load save (wr_base w) (wr_landed w) \<and>
        wr_base w = replay f load save (wr_windows w) f0
      else wr_store w = None \<and> wr_ops w = [] \<and> wr_file w = replay f load save (wr_windows w) f0)"

definition job_ok :: "(nat \<Rightarrow> 's \<Rightarrow> 's) \<Rightarrow> ('f \<Rightarrow> 's) \<Rightarrow> ('f, 's) writer \<Rightarrow> bool" where
  "job_ok f load w \<longleftrightarrow>
     job_snapshot_ok f (load (wr_base w)) (wr_job_ops w) (wr_landed w) (wr_job w) \<and>
     (wr_job w = NoJob \<or> wr_lock w = ActorHolds \<and> rs_dirty (wr_retry w) \<and>
        (\<exists>tail. wr_ops w = wr_job_ops w @ tail \<and> of_nat (length tail) = wr_since w))"

definition acks_ok :: "('f, 's) writer \<Rightarrow> bool" where
  "acks_ok w \<longleftrightarrow>
     (wr_closed w \<noteq> Some False \<longrightarrow> subseq (wr_acked w) (concat (map snd (wr_windows w)) @ wr_ops w) \<and>
        (rs_dirty (wr_retry w) \<or> wr_ops w = [])) \<and>
     (wr_closed w \<noteq> None \<longrightarrow> wr_closing w \<and> wr_lock w \<noteq> ActorHolds)"

definition writer_ok ::
  "(nat \<Rightarrow> 's \<Rightarrow> 's) \<Rightarrow> ('f \<Rightarrow> 's) \<Rightarrow> (nat \<Rightarrow> 's \<Rightarrow> 'f) \<Rightarrow> 'f \<Rightarrow> ('f, 's) writer \<Rightarrow> bool" where
  "writer_ok f load save f0 w \<longleftrightarrow> history_ok f load save f0 w \<and> job_ok f load w \<and> acks_ok w"

lemmas ok_defs = writer_ok_def history_ok_def job_ok_def acks_ok_def

lemma try_start_ok: "writer_ok f load save f0 w \<Longrightarrow> writer_ok f load save f0 (try_start_publish w)"
  by (cases "wr_store w") (auto simp: try_start_publish_def ok_defs split: if_splits)

lemma no_tail:
  assumes "of_nat (length tail) = (0 :: u32)" and "length tail < 2 ^ 32"
  shows "tail = []"
proof -
  have "unat (of_nat (length tail) :: u32) = length tail"
    using assms(2) by (simp add: unsigned_of_nat take_bit_nat_eq_self)
  then show ?thesis using assms(1) by simp
qed

lemma absorb_result_ok:
  assumes "writer_ok f load save f0 w" and "wr_job w = Reported res" and "length (wr_ops w) < 2 ^ 32"
  shows "writer_ok f load save f0 (absorb_publish_result res (w\<lparr>wr_job := NoJob\<rparr>))"
proof (cases "res \<and> wr_since w = 0")
  case True
  obtain tail where tail: "wr_ops w = wr_job_ops w @ tail" "of_nat (length tail) = wr_since w"
    using assms by (auto simp: ok_defs)
  with True have "tail = []" using assms(3) by (intro no_tail) simp_all
  with tail have "wr_job_ops w = wr_ops w" by simp
  with True obtain t where "wr_landed w = Some (t, wr_ops w)" and held: "wr_lock w = ActorHolds"
    using assms by (cases "wr_landed w") (auto simp: ok_defs)
  then show ?thesis
    using assms True held
    by (auto simp: ok_defs absorb_publish_result_def end_window_def record_success_def window_file_def)
next
  case False
  then show ?thesis
    using assms by (auto simp: ok_defs absorb_publish_result_def record_success_def record_publish_failure_def)
qed

lemma absorb_mutation_ok:
  assumes "writer_ok f load save f0 w" and "wr_store w = Some s" and "\<not> wr_closing w"
  shows "writer_ok f load save f0 (absorb_mutation f op s w)"
proof -
  have held: "wr_lock w = ActorHolds" and s: "s = fold f (wr_ops w) (load (wr_base w))" and open_: "wr_closed w = None"
    using assms by (auto simp: ok_defs split: if_splits)
  have acked: "subseq (wr_acked w @ [op]) (concat (map snd (wr_windows w)) @ wr_ops w @ [op])"
  proof -
    have "subseq (wr_acked w) (concat (map snd (wr_windows w)) @ wr_ops w)" using assms(1) open_ by (simp add: ok_defs)
    from list_emb_append_mono [OF this, of "[op]" "[op]"] show ?thesis by simp
  qed
  have "writer_ok f load save f0 (w\<lparr>wr_store := Some (f op s), wr_ops := wr_ops w @ [op], wr_acked := wr_acked w @ [op],
       wr_retry := (wr_retry w)\<lparr>rs_dirty := True\<rparr>, wr_since := wr_since w + 1\<rparr>)"
    using assms held s open_ acked by (auto simp: ok_defs)
  then show ?thesis unfolding absorb_mutation_def by (rule try_start_ok)
qed

lemma take_snapshot_ok:
  assumes "writer_ok f load save f0 w" and "wr_lock w = Unlocked" and "wr_store w = None" and "\<not> wr_closing w"
  shows "writer_ok f load save f0 (take_snapshot (load (wr_file w)) w)"
  using assms by (auto simp: ok_defs take_snapshot_def window_file_def)

lemma end_window_ok:
  assumes "writer_ok f load save f0 w" and "wr_lock w = ActorHolds"
  shows "history_ok f load save f0 (end_window w)"
  using assms by (cases "wr_landed w") (auto simp: ok_defs end_window_def window_file_def)

lemma writer_step_ok:
  assumes "actor_step f load save w w'" and "writer_ok f load save f0 w" and "length (wr_ops w) < 2 ^ 32"
  shows "writer_ok f load save f0 w'"
  using assms
proof cases
  case (mutate_clean op)
  then show ?thesis using assms(2)
    by (auto intro!: absorb_mutation_ok take_snapshot_ok) (simp_all add: take_snapshot_def)
next
  case (panic_clean)
  then show ?thesis using assms(2) by (auto intro: take_snapshot_ok)
next
  case (mutate s op)
  then show ?thesis using assms(2) by (simp add: absorb_mutation_ok)
next
  case (job_reports res)
  then show ?thesis using assms(2,3) by (simp add: absorb_result_ok try_start_ok)
next
  case (retry_timer t)
  then show ?thesis using assms(2) by (simp add: try_start_ok)
next
  case (job_lands s res)
  then show ?thesis using assms(2) by (auto simp: ok_defs window_file_def)
next
  case (close_flushed s res)
  then show ?thesis using assms(2) by (auto simp: ok_defs end_window_def window_file_def record_success_def record_publish_failure_def split: if_splits)
next
  case (close_failed s)
  then show ?thesis using assms(2) end_window_ok [of f load save f0 w] by (auto simp: ok_defs end_window_def split: if_splits)
next
  case close_clean
  then show ?thesis using assms(2) by (auto simp: ok_defs end_window_def window_file_def split: if_splits option.splits)
qed (use assms(2) in \<open>auto simp: ok_defs\<close>)

text \<open>Every mutation of the snapshot has been acknowledged, and acknowledgements only grow.\<close>

lemma acked_absorb: "wr_acked (absorb_mutation f op s w) = wr_acked w @ [op]"
  by (simp add: absorb_mutation_def try_start_publish_def split: option.split)

lemma ops_simps [simp]:
  "wr_ops (try_start_publish w) = wr_ops w" "wr_acked (try_start_publish w) = wr_acked w"
  "wr_ops (end_window w) = []" "wr_acked (end_window w) = wr_acked w"
  "wr_ops (take_snapshot s w) = []" "wr_acked (take_snapshot s w) = wr_acked w"
  "wr_ops (absorb_mutation f op s w) = wr_ops w @ [op]"
  "wr_acked (absorb_publish_result res w) = wr_acked w"
  by (simp_all add: try_start_publish_def end_window_def take_snapshot_def absorb_mutation_def
      absorb_publish_result_def Let_def split: option.split)

lemma ops_absorb: "length (wr_ops (absorb_publish_result res w)) \<le> length (wr_ops w)"
  by (simp add: absorb_publish_result_def Let_def)

lemma acked_step: "actor_step f load save w w' \<Longrightarrow> length (wr_acked w) \<le> length (wr_acked w')"
  by (induction rule: actor_step.induct) (auto simp: acked_absorb)

lemma ops_step:
  "actor_step f load save w w' \<Longrightarrow> length (wr_ops w) \<le> length (wr_acked w) \<Longrightarrow> length (wr_ops w') \<le> length (wr_acked w')"
  by (induction rule: actor_step.induct) (auto simp: acked_absorb intro: order_trans [OF ops_absorb])

lemma ops_reach: "actor_reach f load save f0 w \<Longrightarrow> length (wr_ops w) \<le> length (wr_acked w)"
proof (induction rule: actor_reach.induct)
  case (step w w')
  then show ?case using ops_step by metis
qed (simp add: writer_start_def)

lemma writer_reach_ok: "actor_reach f load save f0 w \<Longrightarrow> length (wr_acked w) < 2 ^ 32 \<Longrightarrow> writer_ok f load save f0 w"
proof (induction rule: actor_reach.induct)
  case start
  show ?case by (simp add: ok_defs writer_start_def retry_new_def replay_def)
next
  case (step w w')
  have few: "length (wr_acked w) < 2 ^ 32" using step.prems acked_step [OF step.hyps(2)] by simp
  then have "length (wr_ops w) < 2 ^ 32" using ops_reach [OF step.hyps(1)] by simp
  then show ?case using writer_step_ok [OF step.hyps(2) step.IH [OF few]] by simp
qed

text \<open>
  C5: No acknowledged update is lost.  However mutations, panics, publishes, failures and
  command-line transactions interleave, unless the writer was closed with an unpublished snapshot and
  as long as fewer than \<open>2 ^ 32\<close> mutations have been acknowledged (the tail counter is 32 bits wide),
  every acknowledged mutation is, in order, in a finished read-modify-write window or in the snapshot
  the writer holds.  Without a snapshot, the file is exactly what those windows make of it one after the
  other.  With one, which only the lock holder has, the snapshot is what the windows left, under the
  mutations absorbed since, and the file is what the windows left or what this window last saved over it.
\<close>

theorem no_acknowledged_update_is_lost:
  assumes "actor_reach f load save f0 w" and "wr_closed w \<noteq> Some False" and "length (wr_acked w) < 2 ^ 32"
  shows "subseq (wr_acked w) (concat (map snd (wr_windows w)) @ wr_ops w) \<and>
    (case wr_store w of
       None \<Rightarrow> wr_file w = replay f load save (wr_windows w) f0 \<and> wr_ops w = [] \<and> wr_lock w \<noteq> ActorHolds
     | Some s \<Rightarrow> s = fold f (wr_ops w) (load (replay f load save (wr_windows w) f0)) \<and> wr_lock w = ActorHolds \<and>
         wr_file w = window_file f load save (replay f load save (wr_windows w) f0) (wr_landed w)) \<and>
    (wr_closed w = Some True \<longrightarrow> wr_store w = None)"
  using writer_reach_ok [OF assms(1,3)] assms(2) by (cases "wr_store w") (auto simp: ok_defs split: if_splits)

section \<open>Backoff\<close>

definition backoff_ok :: "('f, 's) writer \<Rightarrow> bool" where
  "backoff_ok w \<longleftrightarrow> INITIAL_BACKOFF \<le> rs_backoff (wr_retry w) \<and> rs_backoff (wr_retry w) \<le> MAX_BACKOFF \<and>
     (case rs_retry_at (wr_retry w) of Some t \<Rightarrow> t \<le> wr_now w + MAX_BACKOFF | None \<Rightarrow> True)"

lemma retry_simps [simp]:
  "wr_retry (try_start_publish w) = wr_retry w" "wr_now (try_start_publish w) = wr_now w"
  "wr_retry (end_window w) = wr_retry w" "wr_now (end_window w) = wr_now w"
  "wr_retry (take_snapshot s w) = wr_retry w" "wr_now (take_snapshot s w) = wr_now w"
  "wr_now (absorb_publish_result res w) = wr_now w"
  by (simp_all add: try_start_publish_def end_window_def take_snapshot_def absorb_publish_result_def Let_def split: option.split)

lemma retry_absorb:
  "wr_retry (absorb_publish_result res w) =
     (if res then (if wr_since w = 0 then record_success (wr_retry w) else (record_success (wr_retry w))\<lparr>rs_dirty := True\<rparr>)
      else record_publish_failure (wr_now w) (wr_retry w))"
  by (simp add: absorb_publish_result_def Let_def)

lemmas backoff_defs = backoff_ok_def retry_absorb record_success_def record_publish_failure_def INITIAL_BACKOFF_def
  MAX_BACKOFF_def absorb_mutation_def

lemma backoff_step: "actor_step f load save w w' \<Longrightarrow> backoff_ok w \<Longrightarrow> backoff_ok w'"
  by (induction rule: actor_step.induct) (auto simp: backoff_defs split: option.splits)

lemma backoff_reach: "actor_reach f load save f0 w \<Longrightarrow> backoff_ok w"
proof (induction rule: actor_reach.induct)
  case (step w w')
  then show ?case using backoff_step by metis
qed (simp add: backoff_ok_def writer_start_def retry_new_def INITIAL_BACKOFF_def MAX_BACKOFF_def)

text \<open>
  Retries are paced: the backoff always lies between one and thirty seconds, a pending retry is
  at most thirty seconds away, and no new publish is started while one is pending.
\<close>

theorem retries_are_paced:
  assumes "actor_reach f load save f0 w" and "actor_step f load save w w'"
  shows "1000 \<le> rs_backoff (wr_retry w) \<and> rs_backoff (wr_retry w) \<le> 30000 \<and>
    (\<forall>t. rs_retry_at (wr_retry w) = Some t \<longrightarrow> t \<le> wr_now w + 30000 \<and>
       (wr_now w < t \<longrightarrow> wr_job w = NoJob \<longrightarrow> wr_job w' = NoJob))"
proof -
  have "backoff_ok w" using assms(1) by (rule backoff_reach)
  moreover have "wr_job w' = NoJob" if "rs_retry_at (wr_retry w) = Some t" "wr_now w < t" "wr_job w = NoJob" for t
    using assms(2) that
    by (cases; auto simp: try_start_publish_def absorb_mutation_def take_snapshot_def retry_pending_def end_window_def
        split: option.splits)
  ultimately show ?thesis by (auto simp: backoff_ok_def INITIAL_BACKOFF_def MAX_BACKOFF_def)
qed

section \<open>A panic on a clean store\<close>

definition idle_locked :: "('f, 's) writer \<Rightarrow> bool" where
  "idle_locked w \<longleftrightarrow> wr_lock w = ActorHolds \<and> wr_store w \<noteq> None \<and> wr_job w = NoJob \<and> \<not> rs_dirty (wr_retry w) \<and> \<not> wr_closing w"

text \<open>A step in which no mutation is absorbed and nobody closes the writer.\<close>

definition quiet_step ::
  "(nat \<Rightarrow> 's \<Rightarrow> 's) \<Rightarrow> ('f \<Rightarrow> 's) \<Rightarrow> (nat \<Rightarrow> 's \<Rightarrow> 'f) \<Rightarrow> ('f, 's) writer \<Rightarrow> ('f, 's) writer \<Rightarrow> bool" where
  "quiet_step f load save w w' \<longleftrightarrow> actor_step f load save w w' \<and> wr_acked w' = wr_acked w \<and> \<not> wr_closing w'"

lemma idle_locked_stays:
  assumes "quiet_step f load save w w'" and "idle_locked w"
  shows "idle_locked w'"
proof -
  have "actor_step f load save w w'" "wr_acked w' = wr_acked w" "\<not> wr_closing w'"
    using assms(1) by (auto simp: quiet_step_def)
  then show ?thesis using assms(2) by cases (auto simp: idle_locked_def acked_absorb)
qed

text \<open>
  C40: A mutation that panics right after the writer loaded a clean store leaves the path lock held
  with nothing to publish, and no amount of time gives it back: until another mutation or a close, no
  command-line process can take the lock.
\<close>

theorem panic_on_clean_store_keeps_the_lock:
  "\<exists>w. actor_reach f load save f0 w \<and> wr_acked w = [] \<and>
     (\<forall>w'. (quiet_step f load save)\<^sup>*\<^sup>* w w' \<longrightarrow> wr_lock w' = ActorHolds \<and> wr_file w' = f0)"
proof -
  let ?w = "take_snapshot (load f0) (writer_start f0)"
  have "actor_step f load save (writer_start f0) ?w"
    using actor_step.panic_clean [of "writer_start f0" f load save] by (simp add: writer_start_def)
  then have reach: "actor_reach f load save f0 ?w" by (rule actor_reach.step [OF actor_reach.start])
  have idle: "idle_locked ?w" by (simp add: idle_locked_def take_snapshot_def writer_start_def retry_new_def)
  have "idle_locked w' \<and> wr_file w' = f0" if "(quiet_step f load save)\<^sup>*\<^sup>* ?w w'" for w'
    using that
  proof (induction rule: rtranclp_induct)
    case base
    then show ?case using idle by (simp add: take_snapshot_def writer_start_def)
  next
    case (step a b)
    then have ab: "actor_step f load save a b" "wr_acked b = wr_acked a" by (auto simp: quiet_step_def)
    have "wr_file b = wr_file a" using ab step.IH by cases (auto simp: idle_locked_def acked_absorb)
    with step idle_locked_stays show ?case by metis
  qed
  with reach show ?thesis by (intro exI [of _ ?w]) (auto simp: idle_locked_def take_snapshot_def writer_start_def)
qed

text \<open>A concrete writer: the store is the list of its mutations, and so is the file.\<close>

abbreviation demo_reach :: "(nat list, nat list) writer \<Rightarrow> bool" where
  "demo_reach \<equiv> actor_reach (\<lambda>op s. s @ [op]) (\<lambda>file. file) (\<lambda>t s. s) []"

abbreviation demo_step :: "(nat list, nat list) writer \<Rightarrow> (nat list, nat list) writer \<Rightarrow> bool" where
  "demo_step \<equiv> actor_step (\<lambda>op s. s @ [op]) (\<lambda>file. file) (\<lambda>t s. s)"

definition demo_writer :: "(nat list, nat list) writer" where
  "demo_writer = absorb_mutation (\<lambda>op s. s @ [op]) 7 [] (take_snapshot [] (writer_start []))"

lemma demo_writer_reach: "demo_reach demo_writer"
proof -
  have "demo_step (writer_start []) demo_writer"
    using actor_step.mutate_clean [of "writer_start [] :: (nat list, nat list) writer" "\<lambda>op s. s @ [op]" "\<lambda>file. file" "\<lambda>t s. s" 7]
    by (simp add: demo_writer_def writer_start_def)
  then show ?thesis by (rule actor_reach.step [OF actor_reach.start])
qed

lemma demo_writer_simps:
  "wr_acked demo_writer = [7]" "wr_ops demo_writer = [7]" "wr_windows demo_writer = []" "wr_closed demo_writer = None"
  "wr_store demo_writer = Some [7]" "wr_job demo_writer = InFlight [7]" "wr_now demo_writer = 0"
  by (simp_all add: demo_writer_def absorb_mutation_def take_snapshot_def writer_start_def try_start_publish_def retry_new_def
      retry_pending_def)

theorem no_acknowledged_update_is_lost_witness:
  "demo_reach demo_writer \<and> wr_acked demo_writer = [7] \<and> wr_store demo_writer = Some [7] \<and> wr_lock demo_writer = ActorHolds"
  using no_acknowledged_update_is_lost [OF demo_writer_reach] demo_writer_reach by (simp add: demo_writer_simps)

theorem retries_are_paced_witness:
  "demo_reach demo_writer \<and> rs_backoff (wr_retry demo_writer) \<le> 30000"
  using retries_are_paced [OF demo_writer_reach actor_step.tick] demo_writer_reach by simp

theorem panic_on_clean_store_keeps_the_lock_witness:
  "\<exists>w. demo_reach w \<and> wr_lock w = ActorHolds \<and> wr_acked w = []"
  using panic_on_clean_store_keeps_the_lock [of "\<lambda>op s. s @ [op]" "\<lambda>file. file" "\<lambda>t s. s" "[]"] by blast

end
