(* ===== verification/HttpFraming.thy ===== *)
theory HttpFraming
  imports Text_Tokens IpText
begin

text \<open>
  The chunked-body decoder of the bridge fetcher (\<open>bridge-fetcher/src/http/framing.rs\<close>): the block reader
  with its refill buffer, line and exact reads, and the decoding loop.  The peer's stream is the list of
  what successive reads of the socket can return.  The decoder is proved equal to a reference decoder on
  the bytes as one sequence, and to invert the chunked encoding.
\<close>

section \<open>Streams\<close>

text \<open>A segment is handed out in as many reads as the caller's buffers need; an empty read is the end of the stream.\<close>

datatype read_event = Data str | ReadFails str

type_synonym stream = "read_event list"

fun stream_read :: "nat \<Rightarrow> stream \<Rightarrow> (str, str) result \<times> stream" where
  "stream_read k [] = (Inr [], [])"
| "stream_read k (ReadFails e # s) = (Inl e, s)"
| "stream_read k (Data bs # s) = (Inr (take k bs), if length bs \<le> k then s else Data (drop k bs) # s)"

datatype ending = Eof | Fails str

fun wire :: "stream \<Rightarrow> str" where
  "wire [] = []"
| "wire (ReadFails e # s) = []"
| "wire (Data bs # s) = (if bs = [] then [] else bs @ wire s)"

fun ends :: "stream \<Rightarrow> ending" where
  "ends [] = Eof"
| "ends (ReadFails e # s) = Fails e"
| "ends (Data bs # s) = (if bs = [] then Eof else ends s)"

fun stream_size :: "stream \<Rightarrow> nat" where
  "stream_size [] = 0"
| "stream_size (ReadFails e # s) = Suc (stream_size s)"
| "stream_size (Data bs # s) = Suc (length bs + stream_size s)"

lemma stream_read_Inl:
  "stream_read k s = (Inl e, s') \<Longrightarrow> wire s = [] \<and> ends s = Fails e"
  by (cases "(k, s)" rule: stream_read.cases) auto

lemma stream_read_Nil:
  "0 < k \<Longrightarrow> stream_read k s = (Inr [], s') \<Longrightarrow> wire s = [] \<and> ends s = Eof"
  by (cases "(k, s)" rule: stream_read.cases) auto

lemma stream_read_bytes:
  "stream_read k s = (Inr bs, s') \<Longrightarrow> bs \<noteq> [] \<Longrightarrow>
     wire s = bs @ wire s' \<and> ends s = ends s' \<and> length bs \<le> k \<and> stream_size s' < stream_size s"
  by (cases "(k, s)" rule: stream_read.cases) auto

section \<open>Errors\<close>

datatype line_kind = SizeLine | TrailerLine

text \<open>The messages of \<open>FetchError\<close>'s variants, one constructor for each.\<close>

datatype framing_fault =
  LineTooLong line_kind | ClosedInLine line_kind | ClosedMidChunk | SizeNotAscii | InvalidSize str
| TrailersTooLarge | ClosedBeforeCrlf | MissingCrlf

datatype url_fault = UrlUnparsable str | UrlScheme str | UrlNoHost | UrlNoPort

datatype http_fault = HeadInvalid str | NoStatusCode | ClosedInHead | NoLocation | UnsupportedLocation str | BodyNotUtf8

datatype fetch_error =
  BadUrl url_fault | TorConnectFailed str | Resolve str | Tls str | Http http_fault | Non200 u16
| TooLarge nat | IncompleteBody nat nat | ChunkedEncoding framing_fault | TooManyRedirects
| Timeout nat | Io str str

section \<open>The reader\<close>

definition MAX_SIZE_LINE :: nat where "MAX_SIZE_LINE = 1024"
definition MAX_TRAILER_LINE :: nat where "MAX_TRAILER_LINE = 8192"
definition MAX_TRAILERS_TOTAL :: nat where "MAX_TRAILERS_TOTAL = 64 * 1024"

record chunked_reader =
  cr_stream :: stream
  cr_pre :: str
  cr_pos :: nat

definition reader_new :: "stream \<Rightarrow> str \<Rightarrow> chunked_reader" where
  "reader_new stream pre = \<lparr>cr_stream = stream, cr_pre = pre, cr_pos = 0\<rparr>"

definition read_stream_block :: "nat \<Rightarrow> chunked_reader \<Rightarrow> (fetch_error, str) result \<times> chunked_reader" where
  "read_stream_block k r =
     (case stream_read k (cr_stream r) of
        (Inl e, s) \<Rightarrow> (Inl (Io ''read chunked body'' e), r\<lparr>cr_stream := s\<rparr>)
      | (Inr bs, s) \<Rightarrow> (Inr bs, r\<lparr>cr_stream := s\<rparr>))"

definition read_some :: "nat \<Rightarrow> chunked_reader \<Rightarrow> (fetch_error, str) result \<times> chunked_reader" where
  "read_some k r =
     (if cr_pos r < length (cr_pre r)
      then let avail = min (length (cr_pre r) - cr_pos r) k
           in (Inr (take avail (drop (cr_pos r) (cr_pre r))), r\<lparr>cr_pos := cr_pos r + avail\<rparr>)
      else read_stream_block k r)"

function read_exact_into :: "nat \<Rightarrow> chunked_reader \<Rightarrow> (fetch_error, str) result \<times> chunked_reader" where
  "read_exact_into n r =
     (if n = 0 then (Inr [], r)
      else case read_some n r of
        (Inl e, r) \<Rightarrow> (Inl e, r)
      | (Inr bs, r) \<Rightarrow>
          if bs = [] then (Inl (ChunkedEncoding ClosedMidChunk), r)
          else (case read_exact_into (n - length bs) r of
                  (Inl e, r) \<Rightarrow> (Inl e, r)
                | (Inr rest, r) \<Rightarrow> (Inr (bs @ rest), r)))"
  by pat_completeness auto
termination
  by (relation "measure fst") auto

declare read_exact_into.simps [simp del]

fun position :: "('a \<Rightarrow> bool) \<Rightarrow> 'a list \<Rightarrow> nat option" where
  "position P [] = None"
| "position P (x # xs) = (if P x then Some 0 else map_option Suc (position P xs))"

text \<open>
  The loop of \<open>read_line\<close>: only bytes from \<open>scan_from\<close> on are searched, the consumed prefix is dropped
  before the buffer is refilled, and \<open>scan_from\<close> moves with it.
\<close>

function read_line_loop ::
  "nat \<Rightarrow> line_kind \<Rightarrow> nat \<Rightarrow> chunked_reader \<Rightarrow> (fetch_error, str) result \<times> chunked_reader" where
  "read_line_loop limit what scan_from r =
     (case position (\<lambda>b. b = newline) (drop scan_from (cr_pre r)) of
        Some off \<Rightarrow>
          let nl = scan_from + off in
          if limit < nl - cr_pos r then (Inl (ChunkedEncoding (LineTooLong what)), r)
          else (Inr (strip_cr (take (nl - cr_pos r) (drop (cr_pos r) (cr_pre r)))), r\<lparr>cr_pos := nl + 1\<rparr>)
      | None \<Rightarrow>
          if limit < length (cr_pre r) - cr_pos r then (Inl (ChunkedEncoding (LineTooLong what)), r)
          else
            let scan_from = length (cr_pre r) in
            case stream_read 4096 (cr_stream r) of
              (Inl e, s) \<Rightarrow> (Inl (Io ''read chunked body'' e), r\<lparr>cr_stream := s\<rparr>)
            | (Inr block, s) \<Rightarrow>
                if block = [] then (Inl (ChunkedEncoding (ClosedInLine what)), r\<lparr>cr_stream := s\<rparr>)
                else if 0 < cr_pos r
                then read_line_loop limit what (scan_from - cr_pos r)
                       \<lparr>cr_stream = s, cr_pre = drop (cr_pos r) (cr_pre r) @ block, cr_pos = 0\<rparr>
                else read_line_loop limit what scan_from
                       \<lparr>cr_stream = s, cr_pre = cr_pre r @ block, cr_pos = cr_pos r\<rparr>)"
  by pat_completeness auto
termination
  by (relation "measure (\<lambda>(_, _, _, r). stream_size (cr_stream r))") (auto dest!: stream_read_bytes [OF sym])

declare read_line_loop.simps [simp del]

definition read_line :: "nat \<Rightarrow> line_kind \<Rightarrow> chunked_reader \<Rightarrow> (fetch_error, str) result \<times> chunked_reader" where
  "read_line limit what r =
     (let r = (if length (cr_pre r) \<le> cr_pos r then r\<lparr>cr_pre := [], cr_pos := 0\<rparr> else r)
      in read_line_loop limit what (cr_pos r) r)"

section \<open>What the reader has before it\<close>

text \<open>The unread bytes, buffered or still to come; and the two reads on them as one sequence.\<close>

definition view :: "chunked_reader \<Rightarrow> str" where
  "view r = drop (cr_pos r) (cr_pre r) @ wire (cr_stream r)"

definition closed :: "ending \<Rightarrow> framing_fault \<Rightarrow> fetch_error" where
  "closed en fault = (case en of Eof \<Rightarrow> ChunkedEncoding fault | Fails e \<Rightarrow> Io ''read chunked body'' e)"

definition ref_exact :: "nat \<Rightarrow> ending \<Rightarrow> str \<Rightarrow> (fetch_error, str \<times> str) result" where
  "ref_exact n en w = (if n \<le> length w then Inr (take n w, drop n w) else Inl (closed en ClosedMidChunk))"

definition ref_line :: "nat \<Rightarrow> line_kind \<Rightarrow> ending \<Rightarrow> str \<Rightarrow> (fetch_error, str \<times> str) result" where
  "ref_line limit what en w =
     (case split_once newline w of
        Some (l, rest) \<Rightarrow> if limit < length l then Inl (ChunkedEncoding (LineTooLong what)) else Inr (strip_cr l, rest)
      | None \<Rightarrow> if limit < length w then Inl (ChunkedEncoding (LineTooLong what)) else Inl (closed en (ClosedInLine what)))"

text \<open>A read of the reader does what the reference read does on its view.\<close>

definition simulates ::
  "(fetch_error, str) result \<times> chunked_reader \<Rightarrow> ending \<Rightarrow> (fetch_error, str \<times> str) result \<Rightarrow> bool" where
  "simulates c en ref \<longleftrightarrow>
     (case c of
        (Inl e, r) \<Rightarrow> ref = Inl e
      | (Inr bs, r) \<Rightarrow> ref = Inr (bs, view r) \<and> ends (cr_stream r) = en)"

lemma read_some_fails:
  "0 < k \<Longrightarrow> read_some k r = (Inl e, r') \<Longrightarrow>
     view r = [] \<and> (\<exists>m. e = Io ''read chunked body'' m \<and> ends (cr_stream r) = Fails m)"
  by (auto simp: read_some_def read_stream_block_def view_def Let_def split: if_splits prod.splits sum.splits
      dest!: stream_read_Inl)

lemma read_some_end:
  "0 < k \<Longrightarrow> read_some k r = (Inr [], r') \<Longrightarrow> view r = [] \<and> ends (cr_stream r) = Eof"
  using stream_read_Nil [of k "cr_stream r"]
  by (auto simp: read_some_def read_stream_block_def view_def Let_def min_def split: if_splits prod.splits sum.splits)

lemma read_some_bytes:
  assumes "read_some k r = (Inr bs, r')" and "bs \<noteq> []"
  shows "view r = bs @ view r' \<and> length bs \<le> k \<and> ends (cr_stream r') = ends (cr_stream r)
    \<and> cr_pre r' = cr_pre r"
proof (cases "cr_pos r < length (cr_pre r)")
  case True
  define n where "n = min (length (cr_pre r) - cr_pos r) k"
  have bs: "bs = take n (drop (cr_pos r) (cr_pre r))" and r': "r' = r\<lparr>cr_pos := cr_pos r + n\<rparr>"
    using assms(1) True by (auto simp: read_some_def Let_def n_def)
  have "drop (cr_pos r) (cr_pre r) = bs @ drop (cr_pos r + n) (cr_pre r)"
    unfolding bs by (metis append_take_drop_id drop_drop add.commute)
  then show ?thesis using bs r' True by (auto simp: view_def n_def)
next
  case False
  then show ?thesis using assms
    by (auto simp: read_some_def read_stream_block_def view_def split: prod.splits sum.splits
        dest!: stream_read_bytes)
qed

lemma read_exact_simulates:
  "simulates (read_exact_into n r) (ends (cr_stream r)) (ref_exact n (ends (cr_stream r)) (view r))"
proof (induction n r rule: read_exact_into.induct)
  case (1 n r)
  show ?case
  proof (cases "n = 0")
    case True
    then show ?thesis by (simp add: read_exact_into.simps [of 0] simulates_def ref_exact_def)
  next
    case False
    obtain c r' where rs: "read_some n r = (c, r')" by fastforce
    show ?thesis
    proof (cases c)
      case (Inl e)
      then show ?thesis using rs False read_some_fails [of n r e r']
        by (auto simp: read_exact_into.simps [of n] simulates_def ref_exact_def closed_def)
    next
      case (Inr bs)
      show ?thesis
      proof (cases "bs = []")
        case True
        then show ?thesis using rs Inr False read_some_end [of n r r']
          by (auto simp: read_exact_into.simps [of n] simulates_def ref_exact_def closed_def)
      next
        case ne: False
        note b = read_some_bytes [OF rs [unfolded Inr] ne]
        have "simulates (read_exact_into (n - length bs) r') (ends (cr_stream r'))
            (ref_exact (n - length bs) (ends (cr_stream r')) (view r'))"
          by (rule "1.IH" [OF False rs [symmetric] Inr ne])
        then show ?thesis using b rs Inr False ne
          by (auto simp: read_exact_into.simps [of n] simulates_def ref_exact_def split: prod.splits sum.splits if_splits)
      qed
    qed
  qed
qed

text \<open>The bytes before \<open>scan_from\<close> have been searched.\<close>

lemma position_split_once: "position (\<lambda>b. b = c) xs = map_option (\<lambda>(l, r). length l) (split_once c xs)"
  by (induction xs) (auto simp: option.map_comp comp_def case_prod_unfold)

lemma split_once_from:
  assumes "newline \<notin> set (take p xs)"
  shows "position (\<lambda>b. b = newline) (drop p xs) = Some off \<Longrightarrow>
      split_once newline (xs @ ys) = Some (take (p + off) xs, drop (Suc (p + off)) xs @ ys)"
    and "position (\<lambda>b. b = newline) (drop p xs) = None \<Longrightarrow> newline \<notin> set xs"
proof -
  have xs: "xs = take p xs @ drop p xs" by simp
  show "newline \<notin> set xs" if "position (\<lambda>b. b = newline) (drop p xs) = None"
    using that assms by (subst xs, auto simp: position_split_once split_once_None_iff simp del: append_take_drop_id)
  assume "position (\<lambda>b. b = newline) (drop p xs) = Some off"
  then obtain l r where "split_once newline (drop p xs) = Some (l, r)" "off = length l"
    by (auto simp: position_split_once)
  then have d: "drop p xs = l @ newline # r" "newline \<notin> set l" by (simp_all add: split_once_Some_iff)
  have len: "p \<le> length xs" using d(1) by (cases "p \<le> length xs") auto
  define a where "a = take p xs"
  have xs': "xs = a @ l @ newline # r" using xs d(1) by (simp add: a_def)
  have "length a = p" using len by (simp add: a_def)
  with assms d(2) \<open>off = length l\<close> show
    "split_once newline (xs @ ys) = Some (take (p + off) xs, drop (Suc (p + off)) xs @ ys)"
    by (subst split_once_Some_iff, simp add: xs')
qed

lemma ref_line_long:
  assumes "newline \<notin> set buf" and "limit < length buf"
  shows "ref_line limit what en (buf @ w) = Inl (ChunkedEncoding (LineTooLong what))"
proof (cases "split_once newline (buf @ w)")
  case None
  with assms show ?thesis by (simp add: ref_line_def)
next
  case (Some lr)
  then obtain l rest where lr: "lr = (l, rest)" "buf @ w = l @ newline # rest"
    by (cases lr) (simp add: split_once_Some_iff)
  have "length buf \<le> length l"
  proof (rule ccontr)
    assume "\<not> length buf \<le> length l"
    then have "buf ! length l = newline" using arg_cong [OF lr(2), of "\<lambda>x. x ! length l"] by (simp add: nth_append)
    with \<open>\<not> length buf \<le> length l\<close> assms(1) show False by (metis not_le nth_mem)
  qed
  with assms Some lr show ?thesis by (simp add: ref_line_def)
qed

lemma ref_line_end:
  "newline \<notin> set buf \<Longrightarrow> length buf \<le> limit \<Longrightarrow> ref_line limit what en buf = Inl (closed en (ClosedInLine what))"
  using split_once_None_iff [of newline buf] by (simp add: ref_line_def)

text \<open>The loop in terms of the unread buffer alone.\<close>

lemma read_line_loop_unfold:
  assumes "cr_pos r \<le> scan_from" and "newline \<notin> set (take (scan_from - cr_pos r) (drop (cr_pos r) (cr_pre r)))"
  defines "buf \<equiv> drop (cr_pos r) (cr_pre r)"
  shows "read_line_loop limit what scan_from r =
    (case split_once newline buf of
       Some (l, rest) \<Rightarrow>
         if limit < length l then (Inl (ChunkedEncoding (LineTooLong what)), r)
         else (Inr (strip_cr l), r\<lparr>cr_pos := cr_pos r + length l + 1\<rparr>)
     | None \<Rightarrow>
         if limit < length buf then (Inl (ChunkedEncoding (LineTooLong what)), r)
         else case stream_read 4096 (cr_stream r) of
           (Inl e, s) \<Rightarrow> (Inl (Io ''read chunked body'' e), r\<lparr>cr_stream := s\<rparr>)
         | (Inr block, s) \<Rightarrow>
             if block = [] then (Inl (ChunkedEncoding (ClosedInLine what)), r\<lparr>cr_stream := s\<rparr>)
             else read_line_loop limit what (length buf) \<lparr>cr_stream = s, cr_pre = buf @ block, cr_pos = 0\<rparr>)"
proof -
  have dr: "drop scan_from (cr_pre r) = drop (scan_from - cr_pos r) buf" using assms(1) by (simp add: buf_def)
  note eq = read_line_loop.simps [of limit what scan_from r, unfolded dr]
  have free: "newline \<notin> set (take (scan_from - cr_pos r) buf)" using assms(2) by (simp add: buf_def)
  show ?thesis
  proof (cases "position (\<lambda>b. b = newline) (drop (scan_from - cr_pos r) buf)")
    case (Some off)
    have "scan_from - cr_pos r + off < length buf"
      using Some by (auto simp: position_split_once split_once_Some_iff dest!: arg_cong [of "drop _ _" _ length])
    then show ?thesis
      unfolding eq Some using split_once_from(1) [OF free Some, of "[]"] assms(1) by (simp add: Let_def buf_def [symmetric])
  next
    case None
    have "split_once newline buf = None" using split_once_from(2) [OF free None] by (simp add: split_once_None_iff)
    moreover have "length (cr_pre r) - cr_pos r = length buf" by (simp add: buf_def)
    moreover have "cr_pos r = 0 \<Longrightarrow> cr_pre r = buf" by (simp add: buf_def)
    ultimately show ?thesis
      unfolding eq None by (simp add: Let_def buf_def [symmetric] split: prod.split sum.split)
  qed
qed

text \<open>
  A line read is the reference read, and the buffer never outgrows the longest line and one block, unless
  it started larger.
\<close>

lemma read_line_loop_simulates:
  assumes "cr_pos r \<le> scan_from" and "newline \<notin> set (take (scan_from - cr_pos r) (drop (cr_pos r) (cr_pre r)))"
  shows "simulates (read_line_loop limit what scan_from r) (ends (cr_stream r))
      (ref_line limit what (ends (cr_stream r)) (view r)) \<and>
    length (cr_pre (snd (read_line_loop limit what scan_from r))) \<le> max (length (cr_pre r)) (limit + 4096)"
  using assms
proof (induction "stream_size (cr_stream r)" arbitrary: r scan_from rule: less_induct)
  case less
  define buf where "buf = drop (cr_pos r) (cr_pre r)"
  note eq = read_line_loop_unfold [OF less.prems, folded buf_def, of limit what]
  have view: "view r = buf @ wire (cr_stream r)" by (simp add: view_def buf_def)
  show ?case
  proof (cases "split_once newline buf")
    case (Some lr)
    then obtain l rest where lr: "lr = (l, rest)" "buf = l @ newline # rest" "newline \<notin> set l"
      by (cases lr) (simp add: split_once_Some_iff)
    have sp: "split_once newline (view r) = Some (l, rest @ wire (cr_stream r))"
      using lr by (simp add: view split_once_Some_iff)
    have "drop (cr_pos r + length l + 1) (cr_pre r) = drop (Suc (length l)) buf" by (simp add: buf_def add.commute)
    then show ?thesis
      unfolding eq Some using lr sp by (simp add: simulates_def ref_line_def view_def)
  next
    case None
    then have nonl: "newline \<notin> set buf" by (simp add: split_once_None_iff)
    show ?thesis
    proof (cases "limit < length buf")
      case True
      then show ?thesis unfolding eq None view by (simp add: simulates_def ref_line_long [OF nonl True])
    next
      case short: False
      note fin = ref_line_end [OF nonl, of limit what "ends (cr_stream r)"]
      obtain c s where rd: "stream_read 4096 (cr_stream r) = (c, s)" by fastforce
      show ?thesis
      proof (cases "c = Inr [] \<or> (\<exists>e. c = Inl e)")
        case True
        then show ?thesis
          unfolding eq None view using short rd fin stream_read_Inl [of 4096 "cr_stream r" _ s] stream_read_Nil [of 4096 "cr_stream r" s]
          by (auto simp: simulates_def closed_def)
      next
        case False
        then obtain block where c: "c = Inr block" "block \<noteq> []" by (cases c) auto
        note b = stream_read_bytes [OF rd [unfolded c(1)] c(2)]
        define r2 where "r2 = \<lparr>cr_stream = s, cr_pre = buf @ block, cr_pos = 0\<rparr>"
        have step: "read_line_loop limit what scan_from r = read_line_loop limit what (length buf) r2"
          unfolding eq None using short rd c by (simp add: r2_def)
        have "view r2 = view r" "ends (cr_stream r2) = ends (cr_stream r)" "length (cr_pre r2) \<le> limit + 4096"
          using b short by (simp_all add: r2_def view_def buf_def)
        moreover note less.hyps [of r2 "length buf"]
        ultimately show ?thesis
          unfolding step using b nonl by (fastforce simp: r2_def)
      qed
    qed
  qed
qed

lemma read_line_simulates:
  shows "simulates (read_line limit what r) (ends (cr_stream r)) (ref_line limit what (ends (cr_stream r)) (view r))"
    and "length (cr_pre (snd (read_line limit what r))) \<le> max (length (cr_pre r)) (limit + 4096)"
proof -
  define r2 where "r2 = (if length (cr_pre r) \<le> cr_pos r then r\<lparr>cr_pre := [], cr_pos := 0\<rparr> else r)"
  have rl: "read_line limit what r = read_line_loop limit what (cr_pos r2) r2" by (simp add: read_line_def r2_def Let_def)
  have v: "view r2 = view r" "cr_stream r2 = cr_stream r" "length (cr_pre r2) \<le> length (cr_pre r)"
    by (auto simp: r2_def view_def)
  note sim = read_line_loop_simulates [of r2 "cr_pos r2" limit what, folded rl, unfolded v(1,2)]
  show "simulates (read_line limit what r) (ends (cr_stream r)) (ref_line limit what (ends (cr_stream r)) (view r))"
    using sim by simp
  show "length (cr_pre (snd (read_line limit what r))) \<le> max (length (cr_pre r)) (limit + 4096)"
    using sim v(3) by auto
qed

text \<open>
  What the decoder needs of a read: on every reader it does what its reference does on the unread bytes,
  and hands back no more of them than there were.
\<close>

locale simulated_read =
  fixes rd :: "chunked_reader \<Rightarrow> (fetch_error, str) result \<times> chunked_reader"
    and ref :: "ending \<Rightarrow> str \<Rightarrow> (fetch_error, str \<times> str) result"
  assumes simulated: "simulates (rd r) (ends (cr_stream r)) (ref (ends (cr_stream r)) (view r))"
    and ref_shrinks: "ref en w = Inr (bs, rest) \<Longrightarrow> length rest \<le> length w"
begin

lemma fails: "rd r = (Inl e, r') \<Longrightarrow> ref (ends (cr_stream r)) (view r) = Inl e"
  using simulated [of r] by (simp add: simulates_def)

lemma returns:
  "rd r = (Inr bs, r') \<Longrightarrow> ref (ends (cr_stream r)) (view r) = Inr (bs, view r') \<and> ends (cr_stream r') = ends (cr_stream r)"
  using simulated [of r] by (simp add: simulates_def)

lemma shrinks: "rd r = (Inr bs, r') \<Longrightarrow> length (view r') \<le> length (view r)"
  using returns ref_shrinks by blast

end

lemma ref_line_shrinks: "ref_line limit what en w = Inr (l, rest) \<Longrightarrow> length rest < length w"
  by (auto simp: ref_line_def split_once_Some_iff split: option.splits if_splits)

interpretation line_read: simulated_read "read_line limit what" "ref_line limit what" for limit what
  by unfold_locales (auto intro: read_line_simulates(1) less_imp_le dest: ref_line_shrinks)

interpretation exact_read: simulated_read "read_exact_into n" "ref_exact n" for n
  by unfold_locales (rule read_exact_simulates, auto simp: ref_exact_def split: if_splits)

lemma read_line_shrinks: "read_line limit what r = (Inr l, r') \<Longrightarrow> length (view r') < length (view r)"
  using line_read.returns [of limit what r l r'] ref_line_shrinks by blast

section \<open>The decoder\<close>

function drain_trailers :: "nat \<Rightarrow> str \<Rightarrow> chunked_reader \<Rightarrow> (fetch_error, str) result" where
  "drain_trailers trailers_total body r =
     (case read_line MAX_TRAILER_LINE TrailerLine r of
        (Inl e, r) \<Rightarrow> Inl e
      | (Inr t, r) \<Rightarrow>
          let trailers_total = trailers_total + (length t + 2) in
          if MAX_TRAILERS_TOTAL < trailers_total then Inl (ChunkedEncoding TrailersTooLarge)
          else if t = [] then Inr body
          else drain_trailers trailers_total body r)"
  by pat_completeness auto
termination
  by (relation "measure (\<lambda>(_, _, r). length (view r))") (auto dest!: read_line_shrinks [OF sym])

declare drain_trailers.simps [simp del]

text \<open>The size of a chunk: the text before a semicolon, read as a hexadecimal number of 64 bits.\<close>

definition chunk_size :: "str \<Rightarrow> (fetch_error, nat) result" where
  "chunk_size line =
     (let digits = hd (split_on (CHR '';'') line) in
      if \<not> is_utf8 digits then Inl (ChunkedEncoding SizeNotAscii)
      else case parse_uint 16 (2 ^ 64) (trim digits) of
             None \<Rightarrow> Inl (ChunkedEncoding (InvalidSize (trim digits)))
           | Some n \<Rightarrow> Inr n)"

definition before_crlf :: "fetch_error \<Rightarrow> fetch_error" where
  "before_crlf e = (case e of ChunkedEncoding _ \<Rightarrow> ChunkedEncoding ClosedBeforeCrlf | _ \<Rightarrow> e)"

definition read_chunk :: "nat \<Rightarrow> chunked_reader \<Rightarrow> (fetch_error, str) result \<times> chunked_reader" where
  "read_chunk n r =
     (case read_exact_into n r of
        (Inl e, r) \<Rightarrow> (Inl e, r)
      | (Inr bytes, r) \<Rightarrow>
          (case read_exact_into 2 r of
             (Inl e, r) \<Rightarrow> (Inl (before_crlf e), r)
           | (Inr sep, r) \<Rightarrow>
               if sep \<noteq> [carriage_return, newline] then (Inl (ChunkedEncoding MissingCrlf), r) else (Inr bytes, r)))"

definition ref_chunk :: "nat \<Rightarrow> ending \<Rightarrow> str \<Rightarrow> (fetch_error, str \<times> str) result" where
  "ref_chunk n en w =
     (if length w < n then Inl (closed en ClosedMidChunk)
      else if length w < n + 2 then Inl (closed en ClosedBeforeCrlf)
      else if take 2 (drop n w) \<noteq> [carriage_return, newline] then Inl (ChunkedEncoding MissingCrlf)
      else Inr (take n w, drop (n + 2) w))"

lemma read_chunk_simulates: "simulates (read_chunk n r) (ends (cr_stream r)) (ref_chunk n (ends (cr_stream r)) (view r))"
proof -
  obtain c r2 where r2: "read_exact_into n r = (c, r2)" by fastforce
  show ?thesis
  proof (cases c)
    case (Inl e)
    then show ?thesis using exact_read.fails [of n r e r2] r2
      by (auto simp: simulates_def read_chunk_def ref_chunk_def ref_exact_def split: if_splits)
  next
    case (Inr bs)
    obtain c3 r3 where r3: "read_exact_into 2 r2 = (c3, r3)" by fastforce
    have n: "n \<le> length (view r)" "bs = take n (view r)" "view r2 = drop n (view r)" "ends (cr_stream r2) = ends (cr_stream r)"
      using exact_read.returns [of n r bs r2] r2 Inr by (auto simp: ref_exact_def split: if_splits)
    have e: "drop (Suc (Suc n)) (view r) = drop 2 (drop n (view r))" by simp
    show ?thesis
      using exact_read.simulated [of 2 r2, unfolded r3] r2 r3 Inr n
      by (cases c3) (auto simp: simulates_def read_chunk_def ref_chunk_def ref_exact_def closed_def before_crlf_def e
          simp del: drop_drop split: if_splits ending.splits)
  qed
qed

lemma ref_chunk_shrinks: "ref_chunk n en w = Inr (bs, rest) \<Longrightarrow> length rest \<le> length w"
  by (auto simp: ref_chunk_def split: if_splits)

interpretation chunk_read: simulated_read "read_chunk n" "ref_chunk n" for n
  by unfold_locales (auto intro: read_chunk_simulates ref_chunk_shrinks)

function decode_chunks :: "nat \<Rightarrow> str \<Rightarrow> chunked_reader \<Rightarrow> (fetch_error, str) result" where
  "decode_chunks max_body_bytes body r =
     (case read_line MAX_SIZE_LINE SizeLine r of
        (Inl e, r) \<Rightarrow> Inl e
      | (Inr line, r) \<Rightarrow>
          (case chunk_size line of
             Inl e \<Rightarrow> Inl e
           | Inr n \<Rightarrow>
               if n = 0 then drain_trailers 0 body r
               else if 2 ^ 64 \<le> length body + n then Inl (TooLarge max_body_bytes)
               else if max_body_bytes < length body + n then Inl (TooLarge max_body_bytes)
               else (case read_chunk n r of
                       (Inl e, r) \<Rightarrow> Inl e
                     | (Inr bytes, r) \<Rightarrow> decode_chunks max_body_bytes (body @ bytes) r)))"
  by pat_completeness auto
termination
  by (relation "measure (\<lambda>(_, _, r). length (view r))")
    (auto dest!: read_line_shrinks [OF sym] chunk_read.shrinks [OF sym])

declare decode_chunks.simps [simp del]

definition decode_chunked_body :: "stream \<Rightarrow> str \<Rightarrow> nat \<Rightarrow> (fetch_error, str) result" where
  "decode_chunked_body stream preloaded max_body_bytes = decode_chunks max_body_bytes [] (reader_new stream preloaded)"

section \<open>The reference decoder\<close>

text \<open>The same grammar on the bytes as one sequence, without a buffer.\<close>

function ref_trailers :: "nat \<Rightarrow> str \<Rightarrow> ending \<Rightarrow> str \<Rightarrow> (fetch_error, str) result" where
  "ref_trailers tot body en w =
     (case ref_line MAX_TRAILER_LINE TrailerLine en w of
        Inl e \<Rightarrow> Inl e
      | Inr (t, w) \<Rightarrow>
          if MAX_TRAILERS_TOTAL < tot + (length t + 2) then Inl (ChunkedEncoding TrailersTooLarge)
          else if t = [] then Inr body
          else ref_trailers (tot + (length t + 2)) body en w)"
  by pat_completeness auto
termination
  by (relation "measure (\<lambda>(_, _, _, w). length w)") (auto dest: ref_line_shrinks)

function ref_chunks :: "nat \<Rightarrow> str \<Rightarrow> ending \<Rightarrow> str \<Rightarrow> (fetch_error, str) result" where
  "ref_chunks max_body_bytes body en w =
     (case ref_line MAX_SIZE_LINE SizeLine en w of
        Inl e \<Rightarrow> Inl e
      | Inr (line, w) \<Rightarrow>
          (case chunk_size line of
             Inl e \<Rightarrow> Inl e
           | Inr n \<Rightarrow>
               if n = 0 then ref_trailers 0 body en w
               else if 2 ^ 64 \<le> length body + n \<or> max_body_bytes < length body + n then Inl (TooLarge max_body_bytes)
               else (case ref_chunk n en w of
                       Inl e \<Rightarrow> Inl e
                     | Inr (bytes, w) \<Rightarrow> ref_chunks max_body_bytes (body @ bytes) en w)))"
  by pat_completeness auto
termination
  by (relation "measure (\<lambda>(_, _, _, w). length w)") (auto dest!: ref_line_shrinks ref_chunk_shrinks)

declare ref_trailers.simps [simp del] ref_chunks.simps [simp del]

lemma drain_trailers_ref:
  "drain_trailers tot body r = ref_trailers tot body (ends (cr_stream r)) (view r)"
proof (induction tot body r rule: drain_trailers.induct)
  case (1 tot body r)
  obtain c r' where rl: "read_line MAX_TRAILER_LINE TrailerLine r = (c, r')" by fastforce
  note eqs = drain_trailers.simps [of tot body r] ref_trailers.simps [of tot body _ "view r"]
  show ?case
  proof (cases c)
    case (Inl e)
    then show ?thesis using line_read.fails [of _ _ r e r'] rl by (simp add: eqs)
  next
    case (Inr t)
    then show ?thesis using line_read.returns [of _ _ r t r'] rl "1.IH" [OF rl [symmetric] Inr refl]
      by (simp add: eqs Let_def)
  qed
qed

lemma decode_chunks_ref:
  "decode_chunks limit body r = ref_chunks limit body (ends (cr_stream r)) (view r)"
proof (induction limit body r rule: decode_chunks.induct)
  case (1 limit body r)
  obtain c r1 where rl: "read_line MAX_SIZE_LINE SizeLine r = (c, r1)" by fastforce
  note eqs = decode_chunks.simps [of limit body r] ref_chunks.simps [of limit body _ "view r"]
  show ?case
  proof (cases c)
    case (Inl e)
    then show ?thesis using line_read.fails [of _ _ r e r1] rl by (simp add: eqs)
  next
    case (Inr line)
    have ref1: "ref_line MAX_SIZE_LINE SizeLine (ends (cr_stream r)) (view r) = Inr (line, view r1)"
      "ends (cr_stream r1) = ends (cr_stream r)"
      using line_read.returns [of _ _ r line r1] rl Inr by simp_all
    show ?thesis
    proof (cases "chunk_size line")
      case (Inr n)
      obtain c2 r2 where r2: "read_chunk n r1 = (c2, r2)" by fastforce
      note IH = "1.IH" [OF rl [symmetric] \<open>c = Inr line\<close> Inr _ _ _ r2 [symmetric]]
      show ?thesis
        using ref1 rl \<open>c = Inr line\<close> Inr r2 chunk_read.fails [of n r1 _ r2] chunk_read.returns [of n r1 _ r2] IH
          drain_trailers_ref [of 0 body r1]
        by (cases c2) (auto simp: eqs)
    qed (use ref1 rl Inr in \<open>simp add: eqs\<close>)
  qed
qed

section \<open>Any segmentation\<close>

lemma ref_trailers_body: "ref_trailers tot b en w = Inr body \<Longrightarrow> body = b"
  by (induction tot b en w rule: ref_trailers.induct)
    (subst (asm) ref_trailers.simps, auto split: sum.splits prod.splits if_splits)

lemma ref_chunks_bounded: "length b \<le> limit \<Longrightarrow> ref_chunks limit b en w = Inr body \<Longrightarrow> length body \<le> limit"
proof (induction limit b en w rule: ref_chunks.induct)
  case (1 limit b en w)
  have "ref_chunk n en w' = Inr (bytes, w'') \<Longrightarrow> length bytes \<le> n" for n w' bytes w''
    by (auto simp: ref_chunk_def split: if_splits)
  with "1.IH" "1.prems"(1) "1.prems"(2) [unfolded ref_chunks.simps [of limit b en w]] show ?case
    by (fastforce split: sum.splits prod.splits if_splits dest: ref_trailers_body)
qed

text \<open>
  C11: The decoder's result depends on the bytes alone: however they are cut into reads and however many
  came with the response head, it is that of the reference decoder on the whole sequence, and a body it
  returns is within the limit.
\<close>

theorem chunked_decoding_ignores_segmentation:
  "decode_chunked_body stream preloaded limit = ref_chunks limit [] (ends stream) (preloaded @ wire stream) \<and>
   (case decode_chunked_body stream preloaded limit of Inr body \<Rightarrow> length body \<le> limit | Inl _ \<Rightarrow> True)"
  using ref_chunks_bounded [of "[]" limit "ends stream" "preloaded @ wire stream"]
  by (simp add: decode_chunked_body_def decode_chunks_ref reader_new_def view_def split: sum.split)

section \<open>The encoding\<close>

text \<open>A chunk with its extension, the trailer lines, and what the decoder accepts of them.\<close>

definition crlf :: str where "crlf = [carriage_return, newline]"

definition encode_chunk :: "str \<times> str \<Rightarrow> str" where
  "encode_chunk c = show_hex (length (snd c)) @ fst c @ crlf @ snd c @ crlf"

definition encode_body :: "(str \<times> str) list \<Rightarrow> str list \<Rightarrow> str" where
  "encode_body chunks trailers =
     concat (map encode_chunk chunks) @ ''0'' @ crlf @ concat (map (\<lambda>t. t @ crlf) trailers) @ crlf"

definition chunk_ok :: "str \<times> str \<Rightarrow> bool" where
  "chunk_ok c \<longleftrightarrow> snd c \<noteq> [] \<and> newline \<notin> set (fst c) \<and> (fst c = [] \<or> hd (fst c) = CHR '';'') \<and>
     length (show_hex (length (snd c)) @ fst c) < MAX_SIZE_LINE"

definition trailers_ok :: "str list \<Rightarrow> bool" where
  "trailers_ok ts \<longleftrightarrow> list_all (\<lambda>t. t \<noteq> [] \<and> newline \<notin> set t \<and> length t < MAX_TRAILER_LINE) ts \<and>
     sum_list (map (\<lambda>t. length t + 2) ts) + 2 \<le> MAX_TRAILERS_TOTAL"

lemma size_digit_visible: "is_digit 16 c \<Longrightarrow> visible c"
  by (auto simp: is_digit_def to_digit_def visible_def Let_def split: if_splits)

lemma chunk_size_hex:
  assumes "n < 2 ^ 64" and "e = [] \<or> hd e = CHR '';''"
  shows "chunk_size (show_hex n @ e) = Inr n"
proof -
  note digits = show_hex_digits [of n]
  have vis: "list_all visible (show_hex n)" using digits size_digit_visible by (auto simp: list_all_iff)
  have "\<not> is_digit 16 (CHR '';'')" by code_simp
  with digits have "CHR '';'' \<notin> set (show_hex n)" by (auto simp: list_all_iff)
  then have hd: "hd (split_on (CHR '';'') (show_hex n @ e)) = show_hex n"
    using assms(2) by (cases e) (auto simp: split_on_append split_on_free)
  have "list_all (\<lambda>c. (of_char c :: nat) < 128) (show_hex n)" using vis by (auto simp: list_all_iff visible_def)
  then have "is_utf8 (show_hex n)" by (rule is_utf8_ascii)
  then show ?thesis
    using assms(1) by (simp add: chunk_size_def hd Let_def trim_visible [OF vis] parse_uint_digits digits digits_value_show_hex)
qed

lemma ref_line_crlf:
  assumes "newline \<notin> set l" and "length l < limit"
  shows "ref_line limit what en (l @ crlf @ w) = Inr (l, w)"
proof -
  have "split_once newline ((l @ [carriage_return]) @ newline # w) = Some (l @ [carriage_return], w)"
    using assms(1) by (subst split_once_Some_iff) (simp add: newline_def carriage_return_def)
  then show ?thesis using assms(2) by (simp add: ref_line_def crlf_def strip_cr_def)
qed

lemma ref_trailers_encoded:
  assumes "list_all (\<lambda>t. t \<noteq> [] \<and> newline \<notin> set t \<and> length t < MAX_TRAILER_LINE) ts"
    and "tot + sum_list (map (\<lambda>t. length t + 2) ts) + 2 \<le> MAX_TRAILERS_TOTAL"
  shows "ref_trailers tot body en (concat (map (\<lambda>t. t @ crlf) ts) @ crlf @ w) = Inr body"
  using assms
proof (induction ts arbitrary: tot)
  case Nil
  have "ref_line MAX_TRAILER_LINE TrailerLine en ([] @ crlf @ w) = Inr ([], w)"
    by (rule ref_line_crlf) (simp_all add: MAX_TRAILER_LINE_def)
  with Nil show ?case by (simp add: ref_trailers.simps [of tot])
next
  case (Cons t ts)
  have "ref_line MAX_TRAILER_LINE TrailerLine en (t @ crlf @ concat (map (\<lambda>t. t @ crlf) ts) @ crlf @ w) =
      Inr (t, concat (map (\<lambda>t. t @ crlf) ts) @ crlf @ w)"
    by (rule ref_line_crlf) (use Cons.prems in simp_all)
  with Cons show ?case by (simp add: ref_trailers.simps [of tot])
qed

lemma ref_chunks_encoded:
  assumes "list_all chunk_ok chunks" and "trailers_ok trailers" and "limit < 2 ^ 64"
    and "length body + length (concat (map snd chunks)) \<le> limit"
  shows "ref_chunks limit body en (encode_body chunks trailers @ w) = Inr (body @ concat (map snd chunks))"
  using assms
proof (induction chunks arbitrary: body)
  case Nil
  define rest where "rest = concat (map (\<lambda>t. t @ crlf) trailers) @ crlf @ w"
  have "ref_line MAX_SIZE_LINE SizeLine en (''0'' @ crlf @ rest) = Inr (''0'', rest)"
    by (rule ref_line_crlf) (simp_all add: MAX_SIZE_LINE_def newline_def)
  moreover have "chunk_size ''0'' = Inr 0" by code_simp
  moreover have "ref_trailers 0 body en rest = Inr body"
    unfolding rest_def by (rule ref_trailers_encoded) (use Nil in \<open>simp_all add: trailers_ok_def\<close>)
  ultimately show ?case by (simp add: ref_chunks.simps [of limit body] encode_body_def rest_def)
next
  case (Cons c chunks)
  define rest where "rest = encode_body chunks trailers @ w"
  obtain e d where c: "c = (e, d)" by (cases c)
  have ok: "d \<noteq> []" "newline \<notin> set e" "e = [] \<or> hd e = CHR '';''" "length (show_hex (length d) @ e) < MAX_SIZE_LINE"
    using Cons.prems(1) by (simp_all add: c chunk_ok_def)
  have enc: "encode_body (c # chunks) trailers @ w = (show_hex (length d) @ e) @ crlf @ d @ crlf @ rest"
    by (simp add: encode_body_def encode_chunk_def c rest_def)
  have "\<not> is_digit 16 newline" by code_simp
  then have "newline \<notin> set (show_hex (length d))" using show_hex_digits [of "length d"] by (auto simp: list_all_iff)
  then have l: "ref_line MAX_SIZE_LINE SizeLine en ((show_hex (length d) @ e) @ crlf @ d @ crlf @ rest) =
      Inr (show_hex (length d) @ e, d @ crlf @ rest)"
    by (intro ref_line_crlf) (use ok in simp_all)
  have lim: "length body + length d \<le> limit" using Cons.prems(4) by (simp add: c)
  have size: "chunk_size (show_hex (length d) @ e) = Inr (length d)"
    by (rule chunk_size_hex) (use ok lim Cons.prems(3) in simp_all)
  have ch: "ref_chunk (length d) en (d @ crlf @ rest) = Inr (d, rest)" by (simp add: ref_chunk_def crlf_def)
  have "ref_chunks limit (body @ d) en rest = Inr ((body @ d) @ concat (map snd chunks))"
    unfolding rest_def by (rule Cons.IH) (use Cons.prems in \<open>simp_all add: c\<close>)
  then show ?case
    unfolding enc ref_chunks.simps [of limit body] l using size ch lim ok(1) Cons.prems(3) by (simp add: c)
qed

text \<open>
  Chunked bodies decode: if the bytes are the encoding of some chunks, with extensions and trailers
  within the line limits and a total within the body limit, then in whatever pieces they arrive, and
  whatever follows them, the decoder returns exactly the chunks' contents.
\<close>

theorem encoded_chunks_decode:
  assumes "list_all chunk_ok chunks" and "trailers_ok trailers" and "limit < 2 ^ 64"
    and "length (concat (map snd chunks)) \<le> limit"
    and "preloaded @ wire stream = encode_body chunks trailers @ rest"
  shows "decode_chunked_body stream preloaded limit = Inr (concat (map snd chunks))"
  using ref_chunks_encoded [OF assms(1-3), of "[]" "ends stream" rest] assms(4,5)
  by (simp add: decode_chunked_body_def decode_chunks_ref reader_new_def view_def)

theorem encoded_chunks_decode_witness:
  "let body = encode_body [(''; last=no'', ''ab''), ([], ''c'')] [''Expires: never''] in
   decode_chunked_body [Data (drop 3 (take 9 body)), Data (drop 9 body), ReadFails ''reset''] (take 3 body) 3 = Inr ''abc''"
proof -
  define body where "body = encode_body [(''; last=no'', ''ab''), ([], ''c'')] [''Expires: never'']"
  have "list_all chunk_ok [(''; last=no'', ''ab''), ([], ''c'')]" "trailers_ok [''Expires: never'']" by code_simp+
  moreover have "take 3 body @ wire [Data (drop 3 (take 9 body)), Data (drop 9 body), ReadFails ''reset''] = body @ []"
    unfolding body_def by code_simp
  ultimately show ?thesis
    using encoded_chunks_decode [of "[(''; last=no'', ''ab''), ([], ''c'')]" "[''Expires: never'']" 3 "take 3 body"
        "[Data (drop 3 (take 9 body)), Data (drop 9 body), ReadFails ''reset'']" "[]"]
    by (simp add: body_def)
qed

text \<open>A size with a plus sign is taken, although it is not a hexadecimal number of the protocol.\<close>

lemma chunk_size_takes_plus: "chunk_size ''+5'' = Inr 5"
  by code_simp

end
