(* ===== verification/HttpFetch.thy ===== *)
theory HttpFetch
  imports HttpFraming BridgePersist
begin

text \<open>
  Fetching bridge lists over HTTPS (\<open>bridge-fetcher/src\<close>: \<open>http.rs\<close>, \<open>parse\<close>, \<open>fetch\<close>): request building,
  the response head and the three body framings, redirects with the credential boundary, the direct
  dial with pinned addresses, and the extraction and deduplication of bridge lines.  The URL library,
  the head parser, Tor, TLS and the sockets are the fields of a record.
\<close>

section \<open>URLs (url_parse.rs)\<close>

record url_target =
  ut_dial_host :: str
  ut_port :: u16
  ut_host_header :: str
  ut_path_and_query :: str

definition bracketed_if_ipv6 :: "str \<Rightarrow> str" where
  "bracketed_if_ipv6 host = (case ipv6_from_str host of Some v6 \<Rightarrow> ''['' @ show_v6 v6 @ '']'' | None \<Rightarrow> host)"

definition bracketed_host :: "url_target \<Rightarrow> str" where
  "bracketed_host t = bracketed_if_ipv6 (ut_dial_host t)"

definition parse_https_url :: "(str \<Rightarrow> (str, url) result) \<Rightarrow> str \<Rightarrow> (fetch_error, url_target) result" where
  "parse_https_url url_parse url_str =
     (case url_parse url_str of
        Inl e \<Rightarrow> Inl (BadUrl (UrlUnparsable e))
      | Inr parsed \<Rightarrow>
          if u_scheme parsed \<noteq> ''https'' then Inl (BadUrl (UrlScheme (u_scheme parsed)))
          else
            and_then (ok_or (BadUrl UrlNoHost) (u_host parsed)) (\<lambda>host.
            let dial = trim_end_matches (CHR '']'') (trim_start_matches (CHR ''['') host) in
            and_then (ok_or (BadUrl UrlNoPort) (u_port_or_default parsed)) (\<lambda>port.
            let bracketed = bracketed_if_ipv6 dial;
                header = (case u_port parsed of
                            Some p \<Rightarrow> bracketed @ '':'' @ show_nat (unat p)
                          | None \<Rightarrow> bracketed);
                path = (if u_path parsed = [] then ''/'' else u_path parsed);
                path = (case u_query parsed of Some query \<Rightarrow> path @ ''?'' @ query | None \<Rightarrow> path)
            in Inr \<lparr>ut_dial_host = dial, ut_port = port, ut_host_header = header, ut_path_and_query = path\<rparr>)))"

section \<open>Requests and response heads (http.rs)\<close>

definition MAX_REDIRECTS :: nat where "MAX_REDIRECTS = 3"
definition READ_BUF_SIZE :: nat where "READ_BUF_SIZE = 8192"

definition sanitize_header_value :: "str \<Rightarrow> str" where
  "sanitize_header_value s = trim (filter (\<lambda>c. c \<noteq> carriage_return \<and> c \<noteq> newline) s)"

definition build_get_request :: "str \<Rightarrow> str \<Rightarrow> str list \<Rightarrow> str list \<Rightarrow> str" where
  "build_get_request host path headers cookies =
     (let req = ''GET '' @ path @ '' HTTP/1.1'' @ crlf @ ''Host: '' @ host @ crlf @ ''Connection: close'' @ crlf @
                ''User-Agent: tor-socks5/0.1'' @ crlf @ ''Accept: */*'' @ crlf;
          req = fold (\<lambda>h req. let line = sanitize_header_value h in if line \<noteq> [] then req @ line @ crlf else req) headers req;
          cookie_jar = filter (\<lambda>c. c \<noteq> []) (map sanitize_header_value cookies);
          req = (if cookie_jar \<noteq> [] then req @ ''Cookie: '' @ join ''; '' cookie_jar @ crlf else req)
      in req @ crlf)"

record http_response =
  hr_status :: u16
  hr_location :: "str option"
  hr_content_length :: "nat option"
  hr_chunked :: bool
  hr_header_len :: nat

text \<open>What the head parser reports: a complete head of a length with its code and headers, or not yet, or never.\<close>

datatype head_parse = HeadComplete nat "u16 option" "(str \<times> str) list" | HeadPartial | HeadBad str

definition is_chunked_value :: "str \<Rightarrow> bool" where
  "is_chunked_value s =
     list_ex (\<lambda>c. eq_ignore_ascii_case (trim (hd (split_on (CHR '';'') c))) ''chunked'') (split_on (CHR '','') s)"

definition note_header :: "str \<times> str \<Rightarrow> http_response \<Rightarrow> http_response" where
  "note_header h r =
     (case h of (name, val) \<Rightarrow>
      let r = (if eq_ignore_ascii_case name ''location'' then r\<lparr>hr_location := Some (from_utf8_lossy val)\<rparr> else r);
          r = (if eq_ignore_ascii_case name ''content-length'' \<and> is_utf8 val
               then r\<lparr>hr_content_length := parse_uint 10 (2 ^ 64) (trim val)\<rparr> else r)
      in if eq_ignore_ascii_case name ''transfer-encoding'' \<and> is_utf8 val \<and> is_chunked_value val
         then r\<lparr>hr_chunked := True\<rparr> else r)"

definition parse_response_headers :: "(str \<Rightarrow> head_parse) \<Rightarrow> str \<Rightarrow> (fetch_error, http_response option) result" where
  "parse_response_headers head_parser buf =
     (case head_parser buf of
        HeadComplete header_len code headers \<Rightarrow>
          and_then (ok_or (Http NoStatusCode) code) (\<lambda>status.
          Inr (Some (fold note_header headers
            \<lparr>hr_status = status, hr_location = None, hr_content_length = None, hr_chunked = False,
             hr_header_len = header_len\<rparr>)))
      | HeadPartial \<Rightarrow> Inr None
      | HeadBad e \<Rightarrow> Inl (Http (HeadInvalid e)))"

section \<open>Reading a response\<close>

datatype response_body = BodyText str | RedirectTo str

text \<open>The head: the buffer of \<open>cap\<close> bytes is doubled whenever it is full.\<close>

function read_head ::
  "(str \<Rightarrow> head_parse) \<Rightarrow> nat \<Rightarrow> nat \<Rightarrow> str \<Rightarrow> stream \<Rightarrow> (fetch_error, http_response \<times> str \<times> stream) result" where
  "read_head head_parser max_body_bytes cap buf s =
     (let full = cap \<le> length buf; cap = (if full then cap * 2 else cap) in
      if full \<and> max_body_bytes < cap then Inl (TooLarge max_body_bytes)
      else case stream_read (cap - length buf) s of
        (Inl e, s) \<Rightarrow> Inl (Io ''read headers'' e)
      | (Inr bs, s) \<Rightarrow>
          if bs = [] then Inl (Http ClosedInHead)
          else (case parse_response_headers head_parser (buf @ bs) of
                  Inl e \<Rightarrow> Inl e
                | Inr (Some info) \<Rightarrow> Inr (info, buf @ bs, s)
                | Inr None \<Rightarrow> read_head head_parser max_body_bytes cap (buf @ bs) s))"
  by pat_completeness auto
termination
  by (relation "measure (\<lambda>(_, _, _, _, s). stream_size s)") (auto dest!: stream_read_bytes [OF sym])

declare read_head.simps [simp del]

function read_length_body :: "nat \<Rightarrow> str \<Rightarrow> stream \<Rightarrow> (fetch_error, str) result" where
  "read_length_body cl body s =
     (if cl \<le> length body then Inr body
      else case stream_read (min READ_BUF_SIZE (cl - length body)) s of
        (Inl e, s) \<Rightarrow> Inl (Io ''read body (content-length)'' e)
      | (Inr chunk, s) \<Rightarrow>
          if chunk = [] then Inl (IncompleteBody cl (length body)) else read_length_body cl (body @ chunk) s)"
  by pat_completeness auto
termination
  by (relation "measure (\<lambda>(_, _, s). stream_size s)") (auto dest!: stream_read_bytes [OF sym])

function read_eof_body :: "nat \<Rightarrow> str \<Rightarrow> stream \<Rightarrow> (fetch_error, str) result" where
  "read_eof_body max_body_bytes body s =
     (case stream_read READ_BUF_SIZE s of
        (Inl e, s) \<Rightarrow> Inl (Io ''read body (eof)'' e)
      | (Inr chunk, s) \<Rightarrow>
          if chunk = [] then Inr body
          else if max_body_bytes < length (body @ chunk) then Inl (TooLarge max_body_bytes)
          else read_eof_body max_body_bytes (body @ chunk) s)"
  by pat_completeness auto
termination
  by (relation "measure (\<lambda>(_, _, s). stream_size s)") (auto dest!: stream_read_bytes [OF sym])

declare read_length_body.simps [simp del] read_eof_body.simps [simp del]

definition read_plain_body :: "nat \<Rightarrow> nat option \<Rightarrow> str \<Rightarrow> stream \<Rightarrow> (fetch_error, str) result" where
  "read_plain_body max_body_bytes content_length body s =
     (case content_length of
        Some cl \<Rightarrow>
          if max_body_bytes < cl then Inl (TooLarge max_body_bytes)
          else read_length_body cl (if cl < length body then take cl body else body) s
      | None \<Rightarrow>
          if max_body_bytes < length body then Inl (TooLarge max_body_bytes)
          else read_eof_body max_body_bytes body s)"

definition read_http_response ::
  "(str \<Rightarrow> head_parse) \<Rightarrow> stream \<Rightarrow> nat \<Rightarrow> (fetch_error, response_body) result" where
  "read_http_response head_parser s max_body_bytes =
     and_then (read_head head_parser max_body_bytes READ_BUF_SIZE [] s) (\<lambda>(info, buf, s).
     if hr_status info \<in> set [301, 302, 307, 308]
     then and_then (ok_or (Http NoLocation) (hr_location info)) (\<lambda>loc. Inr (RedirectTo loc))
     else if hr_status info \<noteq> 200 then Inl (Non200 (hr_status info))
     else
       let pre = drop (hr_header_len info) buf in
       and_then (if hr_chunked info then decode_chunked_body s pre max_body_bytes
                 else read_plain_body max_body_bytes (hr_content_length info) pre s) (\<lambda>body.
       if is_utf8 body then Inr (BodyText body) else Inl (Http BodyNotUtf8)))"

section \<open>Dialling without Tor (direct.rs)\<close>

definition KNOWN_HOST_PINS :: "(str \<times> str list) list" where
  "KNOWN_HOST_PINS =
     [(''raw.githubusercontent.com'',
       [''185.199.108.133'', ''185.199.109.133'', ''185.199.110.133'', ''185.199.111.133'']),
      (''gitlab.torproject.org'', [''204.8.99.149''])]"

definition socket_addr_new :: "ip_addr \<Rightarrow> u16 \<Rightarrow> socket_addr" where
  "socket_addr_new ip port = \<lparr>sa_ip = ip, sa_port = port, sa_scope = 0\<rparr>"

definition pinned_addrs :: "str \<Rightarrow> u16 \<Rightarrow> socket_addr list" where
  "pinned_addrs host port =
     (case find (\<lambda>(h, _). h = host) KNOWN_HOST_PINS of
        Some (_, ips) \<Rightarrow> map (\<lambda>ip. socket_addr_new ip port) (List.map_filter ip_from_str ips)
      | None \<Rightarrow> [])"

text \<open>A candidate counts only if it connects and the caller's handshake accepts the connection; otherwise its error is remembered.\<close>

definition attempt :: "(socket_addr \<Rightarrow> (str, 'c) result) \<Rightarrow> ('c \<Rightarrow> (fetch_error, 't) result) \<Rightarrow> socket_addr \<Rightarrow> (fetch_error, 't) result" where
  "attempt dial_one accept addr = (case dial_one addr of Inr stream \<Rightarrow> accept stream | Inl error \<Rightarrow> Inl (Resolve error))"

fun try_each :: "(socket_addr \<Rightarrow> (fetch_error, 't) result) \<Rightarrow> socket_addr list \<Rightarrow> fetch_error option \<Rightarrow> (fetch_error option, 't) result" where
  "try_each f [] last_error = Inl last_error"
| "try_each f (addr # addrs) last_error =
     (case f addr of Inr v \<Rightarrow> Inr v | Inl error \<Rightarrow> try_each f addrs (Some error))"

definition connect_candidates_with ::
  "(socket_addr \<Rightarrow> (str, 'c) result) \<Rightarrow> ('c \<Rightarrow> (fetch_error, 't) result) \<Rightarrow> str \<Rightarrow> socket_addr list
   \<Rightarrow> (str, socket_addr list) result option \<Rightarrow> (fetch_error, 't) result" where
  "connect_candidates_with dial_one accept host pins resolve =
     (case try_each (attempt dial_one accept) pins None of
        Inr v \<Rightarrow> Inr v
      | Inl last_error \<Rightarrow>
          and_then (case resolve of
                      Some (Inr addresses) \<Rightarrow> Inr addresses
                    | Some (Inl error) \<Rightarrow> if pins = [] then Inl (Resolve (host @ '': '' @ error)) else Inr []
                    | None \<Rightarrow> Inr []) (\<lambda>dynamic.
          case try_each (attempt dial_one accept) dynamic last_error of
            Inr v \<Rightarrow> Inr v
          | Inl last_error \<Rightarrow>
              Inl (case last_error of
                     Some e \<Rightarrow> e
                   | None \<Rightarrow> Resolve (host @ '': no pinned or resolved address available''))))"

section \<open>One fetch (http.rs)\<close>

text \<open>
  What surrounds a fetch, for each hop: the URL and head parsers, the dial through Tor, the direct dial
  and the resolver, the TLS handshake, and the response to a request or the failure to send it.
\<close>

record ('c, 't) fetch_env =
  fe_url :: "str \<Rightarrow> (str, url) result"
  fe_head :: "str \<Rightarrow> head_parse"
  fe_tor :: "nat \<Rightarrow> str \<Rightarrow> u16 \<Rightarrow> (str, 'c) result"
  fe_dial :: "nat \<Rightarrow> socket_addr \<Rightarrow> (str, 'c) result"
  fe_resolve :: "nat \<Rightarrow> resolver_policy \<Rightarrow> str \<Rightarrow> u16 \<Rightarrow> (str, socket_addr list) result"
  fe_tls :: "nat \<Rightarrow> str \<Rightarrow> 'c \<Rightarrow> (str, 't) result"
  fe_send :: "nat \<Rightarrow> 't \<Rightarrow> str \<Rightarrow> (fetch_error, stream) result"
  fe_took :: "str \<Rightarrow> nat"

datatype connector = ViaTor | ViaDirect resolver_policy

definition connect_direct_with ::
  "('c, 't) fetch_env \<Rightarrow> nat \<Rightarrow> str \<Rightarrow> u16 \<Rightarrow> resolver_policy \<Rightarrow> ('c \<Rightarrow> (fetch_error, 't) result) \<Rightarrow> (fetch_error, 't) result" where
  "connect_direct_with env hop host port policy accept =
     (case ip_from_str host of
        Some ip \<Rightarrow> connect_candidates_with (fe_dial env hop) accept host [socket_addr_new ip port] None
      | None \<Rightarrow>
          connect_candidates_with (fe_dial env hop) accept host (pinned_addrs host port)
            (Some (fe_resolve env hop policy host port)))"

definition tls_connect :: "('c, 't) fetch_env \<Rightarrow> nat \<Rightarrow> str \<Rightarrow> 'c \<Rightarrow> (fetch_error, 't) result" where
  "tls_connect env hop host raw = (case fe_tls env hop host raw of Inl e \<Rightarrow> Inl (Tls e) | Inr t \<Rightarrow> Inr t)"

definition open_tls :: "('c, 't) fetch_env \<Rightarrow> connector \<Rightarrow> nat \<Rightarrow> url_target \<Rightarrow> (fetch_error, 't) result" where
  "open_tls env connector hop target =
     (case connector of
        ViaDirect policy \<Rightarrow>
          connect_direct_with env hop (ut_dial_host target) (ut_port target) policy (tls_connect env hop (ut_dial_host target))
      | ViaTor \<Rightarrow>
          (case fe_tor env hop (ut_dial_host target) (ut_port target) of
             Inl e \<Rightarrow> Inl (TorConnectFailed e)
           | Inr raw \<Rightarrow> tls_connect env hop (ut_dial_host target) raw))"

definition redirect_target :: "url_target \<Rightarrow> str \<Rightarrow> (fetch_error, str) result" where
  "redirect_target target loc =
     (if starts_with ''https://'' loc then Inr loc
      else if starts_with ''/'' loc
      then Inr (''https://'' @ bracketed_host target @ '':'' @ show_nat (unat (ut_port target)) @ loc)
      else Inl (Http (UnsupportedLocation loc)))"

text \<open>The credentials that go to a target: all of them to the original origin, none elsewhere unless allowed.\<close>

definition hop_request :: "bool \<Rightarrow> str \<times> u16 \<Rightarrow> str list \<Rightarrow> str list \<Rightarrow> url_target \<Rightarrow> str" where
  "hop_request allow origin headers cookies target =
     (let same_origin = (allow \<or> (ut_dial_host target = fst origin \<and> ut_port target = snd origin));
          (hop_headers, hop_cookies) = (if same_origin then (headers, cookies) else ([], []))
      in build_get_request (ut_host_header target) (ut_path_and_query target) hop_headers hop_cookies)"

text \<open>The loop over the hops, with the requests it sent; \<open>left\<close> counts the hops that may still be fetched.\<close>

fun fetch_hops ::
  "('c, 't) fetch_env \<Rightarrow> connector \<Rightarrow> nat \<Rightarrow> str list \<Rightarrow> str list \<Rightarrow> bool \<Rightarrow> str \<times> u16 \<Rightarrow> nat \<Rightarrow> str
   \<Rightarrow> (url_target \<times> str) list \<times> (fetch_error, str) result" where
  "fetch_hops env connector max_body_bytes headers cookies allow origin 0 current_url = ([], Inl TooManyRedirects)"
| "fetch_hops env connector max_body_bytes headers cookies allow origin (Suc left) current_url =
     (let hop = MAX_REDIRECTS - Suc left in
      case parse_https_url (fe_url env) current_url of
        Inl e \<Rightarrow> ([], Inl e)
      | Inr target \<Rightarrow>
          (case open_tls env connector hop target of
             Inl e \<Rightarrow> ([], Inl e)
           | Inr tls \<Rightarrow>
               let req = hop_request allow origin headers cookies target in
               (case and_then (fe_send env hop tls req) (\<lambda>s. read_http_response (fe_head env) s max_body_bytes) of
                  Inl e \<Rightarrow> ([(target, req)], Inl e)
                | Inr (BodyText body) \<Rightarrow> ([(target, req)], Inr body)
                | Inr (RedirectTo loc) \<Rightarrow>
                    (case redirect_target target loc of
                       Inl e \<Rightarrow> ([(target, req)], Inl e)
                     | Inr next_url \<Rightarrow>
                         (case fetch_hops env connector max_body_bytes headers cookies allow origin left next_url of
                            (sent, r) \<Rightarrow> ((target, req) # sent, r))))))"

definition fetch_one_inner ::
  "('c, 't) fetch_env \<Rightarrow> connector \<Rightarrow> str \<Rightarrow> nat \<Rightarrow> str list \<Rightarrow> str list \<Rightarrow> bool
   \<Rightarrow> (url_target \<times> str) list \<times> (fetch_error, str) result" where
  "fetch_one_inner env connector url_str max_body_bytes headers cookies allow =
     (case parse_https_url (fe_url env) url_str of
        Inl e \<Rightarrow> ([], Inl e)
      | Inr t \<Rightarrow>
          fetch_hops env connector max_body_bytes headers cookies allow (ut_dial_host t, ut_port t) MAX_REDIRECTS url_str)"

definition with_timeout :: "nat \<Rightarrow> nat \<Rightarrow> (fetch_error, 'a) result \<Rightarrow> (fetch_error, 'a) result" where
  "with_timeout timeout took r = (if timeout < took then Inl (Timeout timeout) else r)"

definition fetch_one ::
  "('c, 't) fetch_env \<Rightarrow> str \<Rightarrow> nat \<Rightarrow> nat \<Rightarrow> str list \<Rightarrow> str list \<Rightarrow> bool \<Rightarrow> (fetch_error, str) result" where
  "fetch_one env url_str timeout max_body_bytes headers cookies allow =
     with_timeout timeout (fe_took env url_str) (snd (fetch_one_inner env ViaTor url_str max_body_bytes headers cookies allow))"

definition fetch_one_direct ::
  "('c, 't) fetch_env \<Rightarrow> resolver_policy \<Rightarrow> str \<Rightarrow> nat \<Rightarrow> nat \<Rightarrow> str list \<Rightarrow> str list \<Rightarrow> bool \<Rightarrow> (fetch_error, str) result" where
  "fetch_one_direct env policy url_str timeout max_body_bytes headers cookies allow =
     with_timeout timeout (fe_took env url_str) (snd (fetch_one_inner env (ViaDirect policy) url_str max_body_bytes headers cookies allow))"

section \<open>Bridge lines (parse.rs, dedup.rs, fetch.rs)\<close>

definition parse_bridges_from_body :: "line_codec \<Rightarrow> str \<Rightarrow> bridge_line list" where
  "parse_bridges_from_body io body =
     filter usable_for_tor
       (List.map_filter (\<lambda>line. line_parse io (trim line))
         (filter (\<lambda>line. trim line \<noteq> [] \<and> \<not> starts_with ''#'' (trim line)) (Text_Tokens.lines body)))"

definition dedup_step ::
  "externals \<Rightarrow> bridge_line \<Rightarrow> bridge_identity set \<times> bridge_line list \<times> nat \<Rightarrow> bridge_identity set \<times> bridge_line list \<times> nat" where
  "dedup_step x b st =
     (case st of (seen, unique, dups) \<Rightarrow>
      let key = bridge_identity_of x b in
      if key \<notin> seen then (insert key seen, unique @ [b], dups) else (seen, unique, dups + 1))"

definition dedup_bridges :: "externals \<Rightarrow> bridge_line list \<Rightarrow> bridge_line list \<times> nat" where
  "dedup_bridges x bridges = snd (fold (dedup_step x) bridges ({}, [], 0))"

record source =
  so_label :: str
  so_url :: str
  so_headers :: "str list"
  so_cookies :: "str list"
  so_allow_credentials_cross_origin :: bool

record fetch_outcome =
  fo_label :: str
  fo_bridges_extracted :: nat
  fo_error :: "fetch_error option"
  fo_bridges :: "bridge_line list"

text \<open>A task's result; \<open>None\<close> when it panicked.\<close>

type_synonym task_result = "(str \<times> (fetch_error, str) result) option"

definition collect_step ::
  "line_codec \<Rightarrow> task_result \<Rightarrow> bridge_line list \<times> fetch_outcome list \<Rightarrow> bridge_line list \<times> fetch_outcome list" where
  "collect_step io handle acc =
     (case acc of (all_bridges, outcomes) \<Rightarrow>
      case handle of
        None \<Rightarrow> (all_bridges, outcomes)
      | Some (label, Inr body) \<Rightarrow>
          let bridges = parse_bridges_from_body io body in
          (all_bridges @ bridges,
           outcomes @ [\<lparr>fo_label = label, fo_bridges_extracted = length bridges, fo_error = None, fo_bridges = bridges\<rparr>])
      | Some (label, Inl e) \<Rightarrow>
          (all_bridges, outcomes @ [\<lparr>fo_label = label, fo_bridges_extracted = 0, fo_error = Some e, fo_bridges = []\<rparr>]))"

definition collect_fetch_results :: "line_codec \<Rightarrow> task_result list \<Rightarrow> bridge_line list \<times> fetch_outcome list" where
  "collect_fetch_results io handles = fold (collect_step io) handles ([], [])"

definition spawned :: "(source \<Rightarrow> bool) \<Rightarrow> (source \<Rightarrow> (fetch_error, str) result) \<Rightarrow> source \<Rightarrow> task_result" where
  "spawned panics fetch src = (if panics src then None else Some (so_label src, fetch src))"

definition fetch_all ::
  "('c, 't) fetch_env \<Rightarrow> line_codec \<Rightarrow> (source \<Rightarrow> bool) \<Rightarrow> source list \<Rightarrow> nat \<Rightarrow> nat \<Rightarrow> bridge_line list \<times> fetch_outcome list" where
  "fetch_all env io panics sources timeout max_body_bytes =
     collect_fetch_results io (map (spawned panics (\<lambda>src.
       fetch_one env (so_url src) timeout max_body_bytes (so_headers src) (so_cookies src)
         (so_allow_credentials_cross_origin src))) sources)"

definition fetch_all_direct ::
  "('c, 't) fetch_env \<Rightarrow> line_codec \<Rightarrow> (source \<Rightarrow> bool) \<Rightarrow> source list \<Rightarrow> resolver_policy \<Rightarrow> nat \<Rightarrow> nat
   \<Rightarrow> bridge_line list \<times> fetch_outcome list" where
  "fetch_all_direct env io panics sources policy timeout max_body_bytes =
     collect_fetch_results io (map (spawned panics (\<lambda>src.
       fetch_one_direct env policy (so_url src) timeout max_body_bytes (so_headers src) (so_cookies src)
         (so_allow_credentials_cross_origin src))) sources)"

section \<open>The response as one sequence of bytes\<close>

text \<open>
  What the head parser is relied on for: nothing is decided on no input, a decision is not changed by
  more input, and the head lies within it.
\<close>

definition head_parser_ok :: "(str \<Rightarrow> head_parse) \<Rightarrow> bool" where
  "head_parser_ok p \<longleftrightarrow> p [] = HeadPartial \<and>
     (\<forall>w n c hs w'. p w = HeadComplete n c hs \<longrightarrow> n \<le> length w \<and> p (w @ w') = HeadComplete n c hs) \<and>
     (\<forall>w e w'. p w = HeadBad e \<longrightarrow> p (w @ w') = HeadBad e)"

definition cut_off :: "ending \<Rightarrow> fetch_error \<Rightarrow> str \<Rightarrow> fetch_error" where
  "cut_off en at_eof op = (case en of Eof \<Rightarrow> at_eof | Fails e \<Rightarrow> Io op e)"

function ref_head :: "(str \<Rightarrow> head_parse) \<Rightarrow> nat \<Rightarrow> nat \<Rightarrow> ending \<Rightarrow> str \<Rightarrow> (fetch_error, http_response) result" where
  "ref_head p limit cap en w =
     (case parse_response_headers p (take cap w) of
        Inl e \<Rightarrow> Inl e
      | Inr (Some info) \<Rightarrow> Inr info
      | Inr None \<Rightarrow>
          if length w < cap \<or> cap = 0 then Inl (cut_off en (Http ClosedInHead) ''read headers'')
          else if limit < cap * 2 then Inl (TooLarge limit)
          else ref_head p limit (cap * 2) en w)"
  by pat_completeness auto
termination
  by (relation "measure (\<lambda>(_, _, cap, _, w). Suc (length w) - cap)") auto

declare ref_head.simps [simp del]

definition ref_plain :: "nat \<Rightarrow> nat option \<Rightarrow> ending \<Rightarrow> str \<Rightarrow> (fetch_error, str) result" where
  "ref_plain limit content_length en w =
     (case content_length of
        Some cl \<Rightarrow>
          if limit < cl then Inl (TooLarge limit)
          else if cl \<le> length w then Inr (take cl w)
          else Inl (cut_off en (IncompleteBody cl (length w)) ''read body (content-length)'')
      | None \<Rightarrow>
          if limit < length w then Inl (TooLarge limit)
          else case en of Eof \<Rightarrow> Inr w | Fails e \<Rightarrow> Inl (Io ''read body (eof)'' e))"

definition ref_response :: "(str \<Rightarrow> head_parse) \<Rightarrow> nat \<Rightarrow> ending \<Rightarrow> str \<Rightarrow> (fetch_error, response_body) result" where
  "ref_response p limit en w =
     and_then (ref_head p limit READ_BUF_SIZE en w) (\<lambda>info.
     if hr_status info \<in> set [301, 302, 307, 308]
     then and_then (ok_or (Http NoLocation) (hr_location info)) (\<lambda>loc. Inr (RedirectTo loc))
     else if hr_status info \<noteq> 200 then Inl (Non200 (hr_status info))
     else
       let rest = drop (hr_header_len info) w in
       and_then (if hr_chunked info then ref_chunks limit [] en rest
                 else ref_plain limit (hr_content_length info) en rest) (\<lambda>body.
       if is_utf8 body then Inr (BodyText body) else Inl (Http BodyNotUtf8)))"

lemma parse_headers_stable:
  "head_parser_ok p \<Longrightarrow> parse_response_headers p b \<noteq> Inr None \<Longrightarrow> parse_response_headers p (b @ x) = parse_response_headers p b"
  by (cases "p b") (auto simp: head_parser_ok_def parse_response_headers_def)

lemma fold_note_header_len: "hr_header_len (fold note_header hs r) = hr_header_len r"
proof (induction hs arbitrary: r)
  case (Cons h hs)
  have "hr_header_len (note_header h r) = hr_header_len r"
    by (cases h) (simp add: note_header_def Let_def)
  with Cons show ?case by simp
qed simp

lemma parse_headers_len:
  assumes "head_parser_ok p" and "parse_response_headers p b = Inr (Some info)"
  shows "hr_header_len info \<le> length b"
proof (cases "p b")
  case (HeadComplete n c hs)
  with assms(1) have "n \<le> length b" by (simp add: head_parser_ok_def)
  with HeadComplete assms(2) show ?thesis by (auto simp: parse_response_headers_def fold_note_header_len)
qed (use assms in \<open>auto simp: parse_response_headers_def\<close>)

definition head_sim where
  "head_sim s w c ref \<longleftrightarrow>
     (case c of
        Inl e \<Rightarrow> ref = Inl e
      | Inr (info, b, s') \<Rightarrow> ref = Inr info \<and> b @ wire s' = w \<and> ends s' = ends s \<and> hr_header_len info \<le> length b)"

lemma read_head_ref:
  assumes ok: "head_parser_ok p" and "0 < cap" and "length buf \<le> cap" and "parse_response_headers p buf = Inr None"
  shows "head_sim s (buf @ wire s) (read_head p limit cap buf s) (ref_head p limit cap (ends s) (buf @ wire s))"
  using assms(2-)
proof (induction "stream_size s" arbitrary: s cap buf rule: less_induct)
  case less
  define cap2 where "cap2 = (if cap \<le> length buf then cap * 2 else cap)"
  define w where "w = buf @ wire s"
  have room: "length buf < cap2" using less.prems(1,2) by (auto simp: cap2_def)
  have ref: "ref_head p limit cap (ends s) w =
      (if cap \<le> length buf \<and> limit < cap2 then Inl (TooLarge limit) else ref_head p limit cap2 (ends s) w)"
    using less.prems ref_head.simps [of p limit cap "ends s" w] by (auto simp: cap2_def w_def)
  obtain c s' where rd: "stream_read (cap2 - length buf) s = (c, s')" by fastforce
  have rh: "read_head p limit cap buf s =
      (if cap \<le> length buf \<and> limit < cap2 then Inl (TooLarge limit)
       else case c of
         Inl e \<Rightarrow> Inl (Io ''read headers'' e)
       | Inr bs \<Rightarrow>
           if bs = [] then Inl (Http ClosedInHead)
           else (case parse_response_headers p (buf @ bs) of
                   Inl e \<Rightarrow> Inl e
                 | Inr (Some info) \<Rightarrow> Inr (info, buf @ bs, s')
                 | Inr None \<Rightarrow> read_head p limit cap2 (buf @ bs) s'))"
    by (subst read_head.simps) (simp add: Let_def cap2_def [symmetric] rd split: sum.split option.split, simp add: cap2_def)
  note eq = ref_head.simps [of p limit cap2 "ends s" w]
  show ?case
  proof (cases "c = Inr [] \<or> (\<exists>e. c = Inl e)")
    case True
    then have "w = buf \<and> cut_off (ends s) (Http ClosedInHead) ''read headers'' =
        (case c of Inl e \<Rightarrow> Io ''read headers'' e | Inr bs \<Rightarrow> Http ClosedInHead)"
      using stream_read_Inl [of "cap2 - length buf" s _ s'] stream_read_Nil [of "cap2 - length buf" s s'] rd room
      by (auto simp: w_def cut_off_def)
    with True show ?thesis
      unfolding w_def [symmetric] ref rh using room less.prems(3) eq by (auto simp: head_sim_def)
  next
    case False
    then obtain bs where c: "c = Inr bs" "bs \<noteq> []" by (cases c) auto
    note b = stream_read_bytes [OF rd [unfolded c(1)] c(2)]
    have w: "w = (buf @ bs) @ wire s'" using b by (simp add: w_def)
    have len: "length (buf @ bs) \<le> cap2" unfolding length_append using b room by linarith
    then have tk: "take cap2 w = (buf @ bs) @ take (cap2 - length (buf @ bs)) (wire s')" by (simp add: w)
    show ?thesis
    proof (cases "parse_response_headers p (buf @ bs) = Inr None")
      case True
      with less.hyps [of s' cap2 "buf @ bs"] b len room show ?thesis
        unfolding w_def [symmetric] ref rh by (simp add: head_sim_def c w split: sum.splits prod.splits)
    next
      case decided: False
      have "parse_response_headers p (take cap2 w) = parse_response_headers p (buf @ bs)"
        unfolding tk by (rule parse_headers_stable [OF ok decided])
      with decided parse_headers_len [OF ok, of "buf @ bs"] b eq c show ?thesis
        unfolding w_def [symmetric] ref rh
        by (auto simp: head_sim_def w split: sum.splits option.splits)
    qed
  qed
qed

lemma read_length_body_ref:
  "length body \<le> cl \<Longrightarrow> cl \<le> limit \<Longrightarrow> read_length_body cl body s = ref_plain limit (Some cl) (ends s) (body @ wire s)"
proof (induction cl body s rule: read_length_body.induct)
  case (1 cl body s)
  show ?case
  proof (cases "cl \<le> length body")
    case True
    then show ?thesis using "1.prems" by (subst read_length_body.simps) (simp add: ref_plain_def)
  next
    case False
    obtain c s' where rd: "stream_read (min READ_BUF_SIZE (cl - length body)) s = (c, s')" by fastforce
    have k: "0 < min READ_BUF_SIZE (cl - length body)" using False by (simp add: READ_BUF_SIZE_def)
    show ?thesis
    proof (cases "c = Inr [] \<or> (\<exists>e. c = Inl e)")
      case True
      then show ?thesis
        using stream_read_Inl [of "min READ_BUF_SIZE (cl - length body)" s _ s'] stream_read_Nil [OF k, of s s'] rd False "1.prems"
        by (subst read_length_body.simps) (auto simp: ref_plain_def cut_off_def)
    next
      case nonempty: False
      then obtain bs where c: "c = Inr bs" "bs \<noteq> []" by (cases c) auto
      note b = stream_read_bytes [OF rd [unfolded c(1)] c(2)]
      have "length (body @ bs) \<le> cl" unfolding length_append using b False by auto
      with "1.IH" [OF False rd [symmetric] c(1,2)] b "1.prems"(2) have
        "read_length_body cl (body @ bs) s' = ref_plain limit (Some cl) (ends s) (body @ wire s)" by simp
      then show ?thesis using rd c False by (subst read_length_body.simps) simp
    qed
  qed
qed

lemma read_eof_body_ref:
  "length body \<le> limit \<Longrightarrow> read_eof_body limit body s = ref_plain limit None (ends s) (body @ wire s)"
proof (induction limit body s rule: read_eof_body.induct)
  case (1 limit body s)
  obtain c s' where rd: "stream_read READ_BUF_SIZE s = (c, s')" by fastforce
  have k: "0 < READ_BUF_SIZE" by (simp add: READ_BUF_SIZE_def)
  show ?case
  proof (cases "c = Inr [] \<or> (\<exists>e. c = Inl e)")
    case True
    then show ?thesis
      using stream_read_Inl [of READ_BUF_SIZE s _ s'] stream_read_Nil [OF k, of s s'] rd "1.prems"
      by (subst read_eof_body.simps) (auto simp: ref_plain_def)
  next
    case False
    then obtain bs where c: "c = Inr bs" "bs \<noteq> []" by (cases c) auto
    note b = stream_read_bytes [OF rd [unfolded c(1)] c(2)]
    show ?thesis
    proof (cases "limit < length (body @ bs)")
      case True
      then show ?thesis using rd c b by (subst read_eof_body.simps) (simp add: ref_plain_def)
    next
      case fits: False
      with "1.IH" [OF rd [symmetric] c(1,2) fits] b show ?thesis
        using rd c by (subst read_eof_body.simps) simp
    qed
  qed
qed

lemma read_plain_body_ref: "read_plain_body limit cl body s = ref_plain limit cl (ends s) (body @ wire s)"
proof (cases cl)
  case None
  then show ?thesis using read_eof_body_ref [of body limit s] by (auto simp: read_plain_body_def ref_plain_def)
next
  case (Some n)
  have "read_length_body n (if n < length body then take n body else body) s =
      ref_plain limit (Some n) (ends s) ((if n < length body then take n body else body) @ wire s)" if "n \<le> limit"
    by (rule read_length_body_ref) (use that in auto)
  with Some show ?thesis by (auto simp: read_plain_body_def ref_plain_def)
qed

lemma response_ref:
  assumes "head_parser_ok p"
  shows "read_http_response p s limit = ref_response p limit (ends s) (wire s)"
proof -
  have "parse_response_headers p [] = Inr None" using assms by (simp add: head_parser_ok_def parse_response_headers_def)
  from read_head_ref [OF assms _ _ this, of READ_BUF_SIZE s limit]
  have head: "head_sim s (wire s) (read_head p limit READ_BUF_SIZE [] s) (ref_head p limit READ_BUF_SIZE (ends s) (wire s))"
    by (simp add: READ_BUF_SIZE_def)
  have chunked: "decode_chunked_body s' pre limit = ref_chunks limit [] (ends s') (pre @ wire s')" for s' pre
    by (simp add: decode_chunked_body_def decode_chunks_ref reader_new_def view_def)
  show ?thesis
  proof (cases "read_head p limit READ_BUF_SIZE [] s")
    case (Inl e)
    with head show ?thesis by (simp add: head_sim_def read_http_response_def ref_response_def)
  next
    case (Inr r)
    obtain info b s' where r: "r = (info, b, s')" by (cases r) auto
    with head Inr have h: "ref_head p limit READ_BUF_SIZE (ends s) (wire s) = Inr info" "b @ wire s' = wire s"
      "ends s' = ends s" "hr_header_len info \<le> length b" by (simp_all add: head_sim_def)
    have "drop (hr_header_len info) (wire s) = drop (hr_header_len info) b @ wire s'" using h(2,4) by (metis drop_append diff_is_0_eq drop0)
    with Inr r h show ?thesis
      by (simp add: read_http_response_def ref_response_def Let_def chunked read_plain_body_ref)
  qed
qed

lemma ref_response_body:
  assumes "ref_response p limit en w = Inr (BodyText t)"
  shows "length t \<le> limit \<and> is_utf8 t"
proof -
  have plain: "ref_plain limit cl en w = Inr body \<Longrightarrow> length body \<le> limit" for cl en w body
    by (auto simp: ref_plain_def split: option.splits if_splits ending.splits)
  show ?thesis
    using assms [unfolded ref_response_def] ref_chunks_bounded [of "[]" limit]
    by (auto simp: Let_def split: if_splits dest: plain)
qed

text \<open>
  C12: What a response means depends on its bytes alone.  However the connection cuts them into reads,
  the status, the redirect or the body read from it are those of the whole sequence: the head at the
  front, then a chunked body, a body of the announced length or everything up to the end.  A body is
  returned only within the limit and if it is well-formed text.
\<close>

theorem response_ignores_segmentation:
  assumes "head_parser_ok p"
  shows "read_http_response p s limit = ref_response p limit (ends s) (wire s) \<and>
    (case read_http_response p s limit of Inr (BodyText t) \<Rightarrow> length t \<le> limit \<and> is_utf8 t | _ \<Rightarrow> True)"
  using response_ref [OF assms] ref_response_body [of p limit "ends s" "wire s"]
  by (simp split: sum.split response_body.split)

text \<open>A head parser for examples: one line, the coding of the body.\<close>

definition line_head :: "str \<Rightarrow> head_parse" where
  "line_head w = (case split_once newline w of
     Some (l, r) \<Rightarrow> HeadComplete (Suc (length l)) (Some 200) [(''Transfer-Encoding'', l)] | None \<Rightarrow> HeadPartial)"

lemma line_head_ok: "head_parser_ok line_head"
proof -
  have "split_once newline (w @ w') = Some (l, r @ w') \<and> Suc (length l) \<le> length w" if "split_once newline w = Some (l, r)" for w w' l r
    using that by (auto simp: split_once_Some_iff)
  then show ?thesis by (auto simp: head_parser_ok_def line_head_def split: option.splits)
qed

theorem response_ignores_segmentation_witness:
  "let body = ''Chunked '' @ [newline] @ encode_body [([], ''ab'')] [] in
   read_http_response line_head [Data (take 9 body), Data (drop 9 body)] 100 = Inr (BodyText ''ab'')"
proof -
  define body where "body = ''Chunked '' @ [newline] @ encode_body [([], ''ab'')] []"
  have w: "ends [Data (take 9 body), Data (drop 9 body)] = Eof" "wire [Data (take 9 body), Data (drop 9 body)] = body"
    unfolding body_def by code_simp+
  have "ref_response line_head 100 Eof body = Inr (BodyText ''ab'')" unfolding body_def by code_simp
  then have "read_http_response line_head [Data (take 9 body), Data (drop 9 body)] 100 = Inr (BodyText ''ab'')"
    using response_ignores_segmentation [OF line_head_ok, of "[Data (take 9 body), Data (drop 9 body)]" 100, unfolded w]
    by simp
  then show ?thesis unfolding body_def Let_def .
qed

section \<open>Requests\<close>

text \<open>The lines of a request.\<close>

definition request_lines :: "str \<Rightarrow> str \<Rightarrow> str list \<Rightarrow> str list \<Rightarrow> str list" where
  "request_lines host path headers cookies =
     [''GET '' @ path @ '' HTTP/1.1'', ''Host: '' @ host, ''Connection: close'', ''User-Agent: tor-socks5/0.1'', ''Accept: */*''] @
     filter (\<lambda>l. l \<noteq> []) (map sanitize_header_value headers) @
     (let jar = filter (\<lambda>c. c \<noteq> []) (map sanitize_header_value cookies) in
      if jar = [] then [] else [''Cookie: '' @ join ''; '' jar])"

definition breaks_line :: "char \<Rightarrow> bool" where
  "breaks_line c \<longleftrightarrow> c = carriage_return \<or> c = newline"

lemma sanitized_free: "c \<in> set (sanitize_header_value h) \<Longrightarrow> \<not> breaks_line c"
  using set_trim [of "filter (\<lambda>c. c \<noteq> carriage_return \<and> c \<noteq> newline) h"]
  by (auto simp: sanitize_header_value_def breaks_line_def)

lemma fold_headers:
  "fold (\<lambda>h req. let line = sanitize_header_value h in if line \<noteq> [] then req @ line @ crlf else req) headers req =
     req @ concat (map (\<lambda>l. l @ crlf) (filter (\<lambda>l. l \<noteq> []) (map sanitize_header_value headers)))"
  by (induction headers arbitrary: req) (auto simp: Let_def)

lemma build_get_request_lines:
  "build_get_request host path headers cookies = concat (map (\<lambda>l. l @ crlf) (request_lines host path headers cookies)) @ crlf"
  unfolding build_get_request_def fold_headers by (simp add: request_lines_def Let_def)

lemma request_lines_free:
  assumes "\<not> list_ex breaks_line host" and "\<not> list_ex breaks_line path"
  shows "list_all (\<lambda>l. l \<noteq> [] \<and> \<not> list_ex breaks_line l) (request_lines host path headers cookies)"
proof -
  define ok where "ok = (\<lambda>l :: str. l \<noteq> [] \<and> \<not> list_ex breaks_line l)"
  define jar where "jar = filter (\<lambda>c. c \<noteq> []) (map sanitize_header_value cookies)"
  have lit: "\<not> breaks_line c" if "c \<noteq> CHR 0x0A" "c \<noteq> CHR 0x0D" for c
    using that by (simp add: breaks_line_def newline_def carriage_return_def)
  have hdr: "\<not> list_ex breaks_line (sanitize_header_value h)" for h using sanitized_free by (auto simp: list_ex_iff)
  have "\<not> breaks_line c" if "c \<in> set (join ''; '' jar)" for c
  proof -
    have "c \<in> set ''; '' \<union> \<Union> (set ` set jar)" using subsetD [OF set_join that] .
    then consider "c \<in> set ''; ''" | j where "j \<in> set jar" "c \<in> set j" by blast
    then show ?thesis
      by cases (auto simp: lit jar_def dest: sanitized_free)
  qed
  then have "\<not> list_ex breaks_line (join ''; '' jar)" by (auto simp: list_ex_iff)
  then have cookie: "list_all ok (if jar = [] then [] else [''Cookie: '' @ join ''; '' jar])" by (simp add: ok_def lit)
  have fixed: "list_all ok [''GET '' @ path @ '' HTTP/1.1'', ''Host: '' @ host, ''Connection: close'', ''User-Agent: tor-socks5/0.1'', ''Accept: */*'']"
    using assms by (simp add: ok_def lit)
  have "list_all ok (filter (\<lambda>l. l \<noteq> []) (map sanitize_header_value headers))" using hdr by (auto simp: list_all_iff ok_def)
  with fixed cookie show ?thesis
    unfolding request_lines_def jar_def [symmetric] Let_def ok_def [symmetric] by (simp only: list_all_append simp_thms)
qed

text \<open>
  C13: Configured headers and cookies cannot inject lines: whatever they contain, if the host and path
  have no line break then the lines the server sees, splitting at line feeds, are exactly the request
  line, the fixed headers, one line for each non-blank configured header, at most one cookie line, and
  the blank line that ends the head.
\<close>

theorem request_lines_cannot_be_injected:
  assumes "\<not> list_ex breaks_line host" and "\<not> list_ex breaks_line path"
  shows "split_on newline (build_get_request host path headers cookies) =
      map (\<lambda>l. l @ [carriage_return]) (request_lines host path headers cookies) @ [[carriage_return], []] \<and>
    list_all (\<lambda>l. l \<noteq> [] \<and> \<not> list_ex breaks_line l) (request_lines host path headers cookies) \<and>
    length (request_lines host path headers cookies) \<le> 6 + length headers"
proof -
  define ls where "ls = request_lines host path headers cookies"
  have ok: "list_all (\<lambda>l. l \<noteq> [] \<and> \<not> list_ex breaks_line l) ls" unfolding ls_def by (rule request_lines_free [OF assms])
  then have free: "list_all (\<lambda>l. \<not> list_ex breaks_line l) ls" by (simp add: list_all_iff)
  have split: "split_on newline (concat (map (\<lambda>l. l @ crlf) ls) @ crlf) = map (\<lambda>l. l @ [carriage_return]) ls @ [[carriage_return], []]"
    if "list_all (\<lambda>l. \<not> list_ex breaks_line l) ls" for ls
    using that
  proof (induction ls)
    case Nil
    then show ?case by code_simp
  next
    case (Cons l ls)
    have "newline \<notin> set (l @ [carriage_return])"
      using Cons.prems by (auto simp: list_ex_iff breaks_line_def newline_def carriage_return_def)
    then have "split_on newline ((l @ [carriage_return]) @ newline # concat (map (\<lambda>l. l @ crlf) ls) @ crlf) =
        (l @ [carriage_return]) # split_on newline (concat (map (\<lambda>l. l @ crlf) ls) @ crlf)" by (rule split_on_append)
    with Cons show ?case by (simp add: crlf_def)
  qed
  have "length ls \<le> 6 + length headers"
    using length_filter_le [of "\<lambda>l. l \<noteq> []" "map sanitize_header_value headers"]
    by (simp add: ls_def request_lines_def Let_def del: length_filter_le)
  with ok split [OF free] show ?thesis by (simp add: build_get_request_lines ls_def [symmetric])
qed

theorem request_lines_cannot_be_injected_witness:
  "length (split_on newline (build_get_request ''h'' ''/'' [''A: b'' @ crlf @ ''Evil: 1''] [''c=d'' @ [newline]])) = 9"
proof -
  have "\<not> list_ex breaks_line ''h''" "\<not> list_ex breaks_line ''/''"
    "length (request_lines ''h'' ''/'' [''A: b'' @ crlf @ ''Evil: 1''] [''c=d'' @ [newline]]) = 7" by code_simp+
  with request_lines_cannot_be_injected [of "''h''" "''/''" "[''A: b'' @ crlf @ ''Evil: 1'']" "[''c=d'' @ [newline]]"]
  show ?thesis by simp
qed

section \<open>Redirects and credentials\<close>

lemma fetch_hops_sent:
  "fetch_hops env con limit headers cookies allow origin k u = (sent, r) \<Longrightarrow>
     length sent \<le> k \<and> list_all (\<lambda>p. snd p = hop_request allow origin headers cookies (fst p)) sent \<and>
     (sent \<noteq> [] \<longrightarrow> parse_https_url (fe_url env) u = Inr (fst (hd sent)))"
proof (induction k arbitrary: u sent r)
  case (Suc k)
  show ?case
    using Suc.prems by (auto simp: Let_def split: sum.splits response_body.splits prod.splits dest!: Suc.IH)
qed simp

text \<open>
  C10: A source's credentials stay with its origin.  A fetch sends at most three requests, the first to
  the configured URL; every request carries exactly the configured headers and cookies if it goes to that
  URL's host and port, or the source allows it, and none of them otherwise.
\<close>

theorem credentials_stay_with_their_origin:
  "case fetch_one_inner env con url_str limit headers cookies allow of
     (sent, r) \<Rightarrow>
       length sent \<le> 3 \<and>
       (sent = [] \<or> (\<exists>t0. parse_https_url (fe_url env) url_str = Inr t0 \<and> fst (hd sent) = t0 \<and>
          list_all (\<lambda>(t, req). req = build_get_request (ut_host_header t) (ut_path_and_query t)
            (if allow \<or> (ut_dial_host t, ut_port t) = (ut_dial_host t0, ut_port t0) then headers else [])
            (if allow \<or> (ut_dial_host t, ut_port t) = (ut_dial_host t0, ut_port t0) then cookies else [])) sent))"
proof (cases "parse_https_url (fe_url env) url_str")
  case (Inl e)
  then show ?thesis by (simp add: fetch_one_inner_def)
next
  case (Inr t0)
  obtain sent r where h: "fetch_hops env con limit headers cookies allow (ut_dial_host t0, ut_port t0) 3 url_str = (sent, r)" by fastforce
  have req: "hop_request allow (ut_dial_host t0, ut_port t0) headers cookies t =
      build_get_request (ut_host_header t) (ut_path_and_query t)
        (if allow \<or> (ut_dial_host t, ut_port t) = (ut_dial_host t0, ut_port t0) then headers else [])
        (if allow \<or> (ut_dial_host t, ut_port t) = (ut_dial_host t0, ut_port t0) then cookies else [])" for t
    by (simp add: hop_request_def Let_def)
  show ?thesis
    using fetch_hops_sent [OF h, unfolded req] Inr h by (auto simp: fetch_one_inner_def MAX_REDIRECTS_def case_prod_unfold)
qed

section \<open>Direct dialling\<close>

lemma try_each_find:
  "try_each f as e0 = (case find (\<lambda>a. \<exists>v. f a = Inr v) as of
     Some a \<Rightarrow> Inr (projr (f a)) | None \<Rightarrow> Inl (if as = [] then e0 else Some (projl (f (last as)))))"
  by (induction as arbitrary: e0) (auto split: sum.splits option.splits)

text \<open>
  The direct dial takes the first candidate that connects and passes the handshake, pinned addresses
  before resolved ones: if a pinned address does, what the resolver would say is irrelevant; a literal
  address is never resolved; and the dial fails only when no candidate works.
\<close>

theorem direct_dial_takes_first_working_candidate:
  "let pins = (case ip_from_str host of Some ip \<Rightarrow> [socket_addr_new ip port] | None \<Rightarrow> pinned_addrs host port);
       resolved = (case (ip_from_str host, fe_resolve env hop policy host port) of (None, Inr as) \<Rightarrow> as | _ \<Rightarrow> []);
       works = (\<lambda>a. \<exists>v. attempt (fe_dial env hop) accept a = Inr v)
   in case find works (pins @ resolved) of
        Some a \<Rightarrow> connect_direct_with env hop host port policy accept = attempt (fe_dial env hop) accept a
      | None \<Rightarrow> \<exists>e. connect_direct_with env hop host port policy accept = Inl e"
proof -
  have find_append: "find P (xs @ ys) = (case find P xs of Some a \<Rightarrow> Some a | None \<Rightarrow> find P ys)" for P and xs ys :: "socket_addr list"
    by (induction xs) auto
  have found: "find (\<lambda>a. \<exists>v. f a = Inr v) as = Some a \<Longrightarrow> Inr (projr (f a)) = f a"
    for f :: "socket_addr \<Rightarrow> (fetch_error, 'b) result" and as a
    by (induction as) (auto split: if_splits)
  show ?thesis
    unfolding connect_direct_with_def connect_candidates_with_def try_each_find
    by (auto simp: find_append Let_def found split: option.splits sum.splits)
qed

section \<open>Extraction and deduplication\<close>

text \<open>The first line of each identity.\<close>

fun firsts :: "externals \<Rightarrow> bridge_identity set \<Rightarrow> bridge_line list \<Rightarrow> bridge_line list" where
  "firsts x seen [] = []"
| "firsts x seen (b # bs) =
     (if bridge_identity_of x b \<in> seen then firsts x seen bs
      else b # firsts x (insert (bridge_identity_of x b) seen) bs)"

lemma fold_dedup:
  "\<exists>d. snd (fold (dedup_step x) bs (seen, unique, dups)) = (unique @ firsts x seen bs, d) \<and>
     d + length (firsts x seen bs) = dups + length bs"
proof (induction bs arbitrary: seen unique dups)
  case (Cons b bs)
  from Cons [of seen unique "Suc dups"] Cons [of "insert (bridge_identity_of x b) seen" "unique @ [b]" dups]
  show ?case by (auto simp: dedup_step_def Let_def)
qed simp

lemma firsts_facts:
  "distinct (map (bridge_identity_of x) (firsts x seen bs)) \<and>
   bridge_identity_of x ` set (firsts x seen bs) = bridge_identity_of x ` set bs - seen \<and>
   set (firsts x seen bs) \<subseteq> set bs"
proof (induction bs arbitrary: seen)
  case (Cons b bs)
  from Cons [of seen] Cons [of "insert (bridge_identity_of x b) seen"] show ?case by auto
qed simp

lemma dedup_keeps_one_of_each:
  "dedup_bridges x bs = (unique, dups) \<Longrightarrow>
     distinct (map (bridge_identity_of x) unique) \<and>
     bridge_identity_of x ` set unique = bridge_identity_of x ` set bs \<and> set unique \<subseteq> set bs \<and>
     length unique + dups = length bs"
  using fold_dedup [of x bs "{}" "[]" 0] firsts_facts [of x "{}" bs] by (auto simp: dedup_bridges_def)

lemma fold_collect_step:
  "fold (collect_step io) hs (bs, os) =
     (bs @ concat (map fo_bridges (snd (fold (collect_step io) hs ([], [])))), os @ snd (fold (collect_step io) hs ([], [])))"
proof (induction hs arbitrary: bs os)
  case (Cons h hs)
  obtain b1 o1 where h: "collect_step io h (bs, os) = (b1, o1)" by fastforce
  obtain b2 o2 where h0: "collect_step io h ([], []) = (b2, o2)" by fastforce
  have "b1 = bs @ b2" "o1 = os @ o2" "b2 = concat (map fo_bridges o2)"
    using h h0 by (auto simp: collect_step_def Let_def split: option.splits sum.splits prod.splits)
  with Cons [of b1 o1] Cons [of b2 o2] h h0 show ?case by simp
qed simp

lemma collected_outcomes:
  "snd (collect_fetch_results io hs) = List.map_filter (map_option (\<lambda>(label, r).
     (let bridges = (case r of Inr body \<Rightarrow> parse_bridges_from_body io body | Inl _ \<Rightarrow> []) in
      \<lparr>fo_label = label, fo_bridges_extracted = length bridges,
       fo_error = (case r of Inl e \<Rightarrow> Some e | Inr _ \<Rightarrow> None), fo_bridges = bridges\<rparr>))) hs"
proof (induction hs)
  case (Cons h hs)
  have "snd (collect_fetch_results io (h # hs)) = snd (collect_step io h ([], [])) @ snd (collect_fetch_results io hs)"
    unfolding collect_fetch_results_def fold.simps comp_apply
    by (cases "collect_step io h ([], [])") (simp, subst fold_collect_step, simp)
  with Cons show ?case
    by (auto simp: collect_step_def Let_def map_filter_simps split: option.splits sum.splits prod.splits)
qed (simp add: collect_fetch_results_def map_filter_simps)

lemma parsed_bridges_usable: "list_all usable_for_tor (parse_bridges_from_body io body)"
  by (simp add: parse_bridges_from_body_def list_all_iff)

text \<open>
  A batch accounts for what it fetched: there is one outcome per source whose task did not panic, in
  the order of the sources; the batch's bridges are the outcomes' bridges in that order, all of them
  usable for Tor, none of them from a source that failed; and deduplication then keeps one line of each
  identity.
\<close>

theorem fetched_bridges_are_accounted_for:
  "case fetch_all env io panics sources timeout limit of
     (bridges, outcomes) \<Rightarrow>
       map fo_label outcomes = map so_label (filter (\<lambda>src. \<not> panics src) sources) \<and>
       bridges = concat (map fo_bridges outcomes) \<and> list_all usable_for_tor bridges \<and>
       list_all (\<lambda>out. fo_bridges_extracted out = length (fo_bridges out) \<and> (fo_error out = None \<or> fo_bridges out = [])) outcomes \<and>
       (case dedup_bridges x bridges of
          (unique, dups) \<Rightarrow>
            distinct (map (bridge_identity_of x) unique) \<and> set unique \<subseteq> set bridges \<and>
            bridge_identity_of x ` set unique = bridge_identity_of x ` set bridges \<and> length unique + dups = length bridges)"
proof -
  obtain bridges outcomes where f: "fetch_all env io panics sources timeout limit = (bridges, outcomes)" by fastforce
  obtain unique dups where d: "dedup_bridges x bridges = (unique, dups)" by fastforce
  define hs where "hs = map (spawned panics (\<lambda>src.
      fetch_one env (so_url src) timeout limit (so_headers src) (so_cookies src) (so_allow_credentials_cross_origin src))) sources"
  have out: "outcomes = snd (collect_fetch_results io hs)" and br: "bridges = concat (map fo_bridges outcomes)"
    using f fold_collect_step [of io hs "[]" "[]"] by (simp_all add: fetch_all_def hs_def [symmetric] collect_fetch_results_def)
  have good: "list_all (\<lambda>out. fo_bridges_extracted out = length (fo_bridges out) \<and> (fo_error out = None \<or> fo_bridges out = []) \<and>
      list_all usable_for_tor (fo_bridges out)) outcomes"
    unfolding out collected_outcomes
    by (induction hs) (auto simp: map_filter_simps Let_def parsed_bridges_usable split: option.splits sum.splits)
  have "map fo_label outcomes = map so_label (filter (\<lambda>src. \<not> panics src) sources)"
    unfolding out collected_outcomes hs_def
    by (induction sources) (auto simp: map_filter_simps Let_def spawned_def)
  moreover have "list_all usable_for_tor bridges" using good unfolding br by (auto simp: list_all_iff)
  ultimately show ?thesis
    using f d br good dedup_keeps_one_of_each [OF d] by (auto simp: list_all_iff)
qed

section \<open>The redirect limit\<close>

text \<open>
  A server that redirects \<open>n\<close> times before it answers: two redirects are followed, the third ends the fetch.
\<close>

definition redirecting_server :: "nat \<Rightarrow> (unit, unit) fetch_env" where
  "redirecting_server n =
     \<lparr>fe_url = (\<lambda>_. Inr \<lparr>u_scheme = ''https'', u_host = Some ''h'', u_port = None, u_port_or_default = Some 443, u_path = [], u_query = None\<rparr>),
      fe_head = (\<lambda>w. if w = [] then HeadPartial
         else if hd w = CHR ''R'' then HeadComplete 1 (Some 302) [(''Location'', ''/next'')] else HeadComplete 1 (Some 200) []),
      fe_tor = (\<lambda>_ _ _. Inr ()), fe_dial = (\<lambda>_ _. Inr ()), fe_resolve = (\<lambda>_ _ _ _. Inr []), fe_tls = (\<lambda>_ _ _. Inr ()),
      fe_send = (\<lambda>hop _ _. Inr [Data (if hop < n then ''R'' else ''Kbody'')]), fe_took = (\<lambda>_. 0)\<rparr>"

lemma third_redirect_is_refused:
  "snd (fetch_one_inner (redirecting_server 2) ViaTor ''u'' 100 [] [] False) = Inr ''body''"
  "snd (fetch_one_inner (redirecting_server 3) ViaTor ''u'' 100 [] [] False) = Inl TooManyRedirects"
  by code_simp+

end
