(* ===== verification/DnsMessage.thy ===== *)
theory DnsMessage
  imports Bytes NetAddr
begin

text \<open>
  DNS packets as the DNS server sees them (packages/dns-server: \<open>doh/types.rs\<close>, the packet half of
  \<open>doh/doh_client.rs\<close> and \<open>server/server_wire.rs\<close>): how long an answer may be cached, the RFC 2308
  treatment of negative answers, the checks on a response before it is used, the reply a client gets
  and the two-byte framing of DNS over TCP.

  Packets are decoded and encoded by the hickory library, which is not part of the repository.  Its
  structures appear here with the fields the code reads or writes; names are an abstract type, and
  the comparisons on names (\<open>name_ops\<close>) and the packet codec (\<open>packet_codec\<close>) are parameters.
\<close>

section \<open>The structures of the packet library\<close>

datatype record_type =
  TypeA | TypeAAAA | TypePTR | TypeCNAME | TypeSOA | TypeOPT | TypeANY | TypeAXFR | TypeIXFR | TypeOther u16

datatype 'n rdata =
  DataA u32
| DataAAAA u128
| DataPTR 'n
| DataCNAME 'n
| DataSOA (soa_minimum: u32) (soa_rest: bytes)
| DataOther record_type bytes

fun record_type_of :: "'n rdata \<Rightarrow> record_type" where
  "record_type_of (DataA _) = TypeA"
| "record_type_of (DataAAAA _) = TypeAAAA"
| "record_type_of (DataPTR _) = TypePTR"
| "record_type_of (DataCNAME _) = TypeCNAME"
| "record_type_of (DataSOA _ _) = TypeSOA"
| "record_type_of (DataOther t _) = t"

definition class_IN :: u16 where "class_IN = 1"

record 'n query =
  q_name :: 'n
  q_type :: record_type
  q_class :: u16

record 'n rr =
  rr_name :: 'n
  rr_class :: u16
  rr_ttl :: u32
  rr_data :: "'n rdata"

abbreviation rr_type :: "'n rr \<Rightarrow> record_type" where
  "rr_type r \<equiv> record_type_of (rr_data r)"

datatype message_type = MessageQuery | MessageResponse
datatype op_code = OpQuery | OpOther u8
datatype response_code = NoError | FormErr | ServFail | NXDomain | NotImp | RcodeOther u16

record metadata =
  md_id :: u16
  md_message_type :: message_type
  md_op_code :: op_code
  md_authoritative :: bool
  md_truncation :: bool
  md_recursion_desired :: bool
  md_recursion_available :: bool
  md_authentic_data :: bool
  md_checking_disabled :: bool
  md_response_code :: response_code

record 'n message =
  m_metadata :: metadata
  m_queries :: "'n query list"
  m_answers :: "'n rr list"
  m_authorities :: "'n rr list"
  m_additionals :: "'n rr list"
  m_signature :: "bytes option"
  m_edns :: "bytes option"

text \<open>The records of the three sections, in the order the code chains them.\<close>

abbreviation all_records :: "'n message \<Rightarrow> 'n rr list" where
  "all_records m \<equiv> m_answers m @ m_authorities m @ m_additionals m"

text \<open>
  \<open>Name\<close>: equality up to case and the root label (\<open>eq_ignore_root\<close>), \<open>zone_of\<close>, full equality up to
  case, the absolute flag and its setter, and the display form.
\<close>

record 'n name_ops =
  nm_same :: "'n \<Rightarrow> 'n \<Rightarrow> bool"
  nm_zone_of :: "'n \<Rightarrow> 'n \<Rightarrow> bool"
  nm_eq :: "'n \<Rightarrow> 'n \<Rightarrow> bool"
  nm_is_fqdn :: "'n \<Rightarrow> bool"
  nm_set_fqdn :: "'n \<Rightarrow> 'n"
  nm_to_string :: "'n \<Rightarrow> str"

text \<open>What the library documents about these operations.\<close>

definition name_laws :: "'n name_ops \<Rightarrow> bool" where
  "name_laws nm \<longleftrightarrow>
     equivp (nm_same nm) \<and>
     (\<forall>a b. nm_eq nm a b \<longleftrightarrow> nm_same nm a b \<and> (nm_is_fqdn nm a \<longleftrightarrow> nm_is_fqdn nm b)) \<and>
     (\<forall>a. nm_is_fqdn nm (nm_set_fqdn nm a)) \<and>
     (\<forall>a. nm_same nm (nm_set_fqdn nm a) a) \<and>
     (\<forall>z y a b. nm_same nm z y \<longrightarrow> nm_same nm a b \<longrightarrow> nm_zone_of nm z a = nm_zone_of nm y b)"

text \<open>
  \<open>Message::from_vec\<close>, \<open>Message::to_vec\<close> and \<open>Message::truncate\<close>; \<open>pc_eq\<close> is the library's equality on
  messages, which ignores the lifetimes of records, and \<open>pc_decrement_ttl\<close> its \<open>Record::decrement_ttl\<close>.
\<close>

record 'n packet_codec =
  pc_from_vec :: "bytes \<Rightarrow> (str, 'n message) result"
  pc_to_vec :: "'n message \<Rightarrow> (str, bytes) result"
  pc_truncate :: "'n message \<Rightarrow> 'n message"
  pc_eq :: "'n message \<Rightarrow> 'n message \<Rightarrow> bool"
  pc_decrement_ttl :: "u32 \<Rightarrow> u32 \<Rightarrow> u32"

section \<open>Values of the crate\<close>

text \<open>Durations and points in time are nanoseconds; \<open>OffsetDateTime\<close> counts from the epoch.\<close>

definition from_secs :: "nat \<Rightarrow> nat" where
  "from_secs s = s * 1000000000"

record 'n resolved_answer =
  ra_message :: "'n message"
  ra_ttl :: nat
  ra_resolved_at :: int

record doh_provider =
  dp_ip :: ip_addr
  dp_hostname :: str
  dp_path :: str

datatype dns_server_error =
  TorConnect str
| Tls str
| DohExchange str
| Wire str
| CacheIo str str
| PlainDns str
| SystemResolver str
| AllProvidersFailed
| Timeout nat

section \<open>The terminal name of an answer\<close>

text \<open>\<open>positive_at\<close> and \<open>alias_of\<close> are the two closures of the loop in \<open>terminal_answer\<close>.\<close>

definition positive_at :: "'n name_ops \<Rightarrow> 'n query \<Rightarrow> 'n rr list \<Rightarrow> 'n \<Rightarrow> bool" where
  "positive_at nm query answers terminal =
     list_ex (\<lambda>record.
       nm_same nm (rr_name record) terminal \<and> rr_class record = q_class query \<and>
       (rr_type record = q_type query \<or> (q_type query = TypeANY \<and> rr_type record \<noteq> TypeOPT))) answers"

fun find_map :: "('a \<Rightarrow> 'b option) \<Rightarrow> 'a list \<Rightarrow> 'b option" where
  "find_map f [] = None"
| "find_map f (x # xs) = (case f x of Some y \<Rightarrow> Some y | None \<Rightarrow> find_map f xs)"

definition alias_of :: "'n name_ops \<Rightarrow> 'n query \<Rightarrow> 'n rr list \<Rightarrow> 'n \<Rightarrow> 'n option" where
  "alias_of nm query answers terminal =
     find_map (\<lambda>record.
       if nm_same nm (rr_name record) terminal \<and> rr_class record = q_class query then
         (case rr_data record of DataCNAME target \<Rightarrow> Some target | _ \<Rightarrow> None)
       else None) answers"

fun terminal_walk :: "'n name_ops \<Rightarrow> 'n query \<Rightarrow> 'n rr list \<Rightarrow> nat \<Rightarrow> 'n \<Rightarrow> ('n \<times> bool) option" where
  "terminal_walk nm query answers 0 terminal = None"
| "terminal_walk nm query answers (Suc k) terminal =
     (if positive_at nm query answers terminal then Some (terminal, True)
      else case alias_of nm query answers terminal of
             Some target \<Rightarrow> terminal_walk nm query answers k target
           | None \<Rightarrow> Some (terminal, False))"

definition terminal_answer :: "'n name_ops \<Rightarrow> 'n query \<Rightarrow> 'n rr list \<Rightarrow> ('n \<times> bool) option" where
  "terminal_answer nm query answers = terminal_walk nm query answers (length answers + 1) (q_name query)"

section \<open>How long an answer may be cached\<close>

fun list_min :: "u32 list \<Rightarrow> u32 option" where
  "list_min [] = None"
| "list_min (x # xs) = (case list_min xs of None \<Rightarrow> Some x | Some y \<Rightarrow> Some (min x y))"

text \<open>The lifetime a covering SOA record gives a negative answer.\<close>

definition negative_soa_ttl :: "'n name_ops \<Rightarrow> 'n query \<Rightarrow> 'n \<Rightarrow> 'n rr \<Rightarrow> u32 option" where
  "negative_soa_ttl nm query terminal record =
     (if rr_class record = q_class query \<and> nm_zone_of nm (rr_name record) terminal then
        (case rr_data record of DataSOA minimum _ \<Rightarrow> Some (min (rr_ttl record) minimum) | _ \<Rightarrow> None)
      else None)"

definition negative_ttl :: "'n name_ops \<Rightarrow> 'n query \<Rightarrow> 'n \<Rightarrow> 'n message \<Rightarrow> u32 option" where
  "negative_ttl nm query terminal message =
     list_min (List.map_filter (negative_soa_ttl nm query terminal) (m_authorities message))"

definition ordinary_ttl :: "'n message \<Rightarrow> u32 option" where
  "ordinary_ttl message =
     list_min (map rr_ttl (filter (\<lambda>record. rr_type record \<noteq> TypeOPT) (all_records message)))"

definition same_question :: "'n name_ops \<Rightarrow> 'n query \<Rightarrow> 'n query \<Rightarrow> bool" where
  "same_question nm left right \<longleftrightarrow>
     nm_same nm (q_name left) (q_name right) \<and> q_type left = q_type right \<and> q_class left = q_class right"

definition cache_ttl :: "'n name_ops \<Rightarrow> 'n query \<Rightarrow> 'n message \<Rightarrow> nat option" where
  "cache_ttl nm query message =
     (let md = m_metadata message in
      if md_message_type md \<noteq> MessageResponse \<or> md_op_code md \<noteq> OpQuery \<or> md_truncation md \<or>
         m_signature message \<noteq> None \<or> length (m_queries message) \<noteq> 1 \<or>
         \<not> nm_same nm (q_name (m_queries message ! 0)) (q_name query) \<or>
         q_type (m_queries message ! 0) \<noteq> q_type query \<or> q_class (m_queries message ! 0) \<noteq> q_class query then None
      else
        let rcode = md_response_code md in
        if rcode \<noteq> NoError \<and> rcode \<noteq> NXDomain then None
        else case terminal_answer nm query (m_answers message) of
               None \<Rightarrow> None
             | Some (terminal, positive) \<Rightarrow>
                 if positive \<and> rcode = NXDomain then None
                 else
                   let negative = negative_ttl nm query terminal message in
                   if \<not> positive \<and> negative = None then None
                   else case ordinary_ttl message of
                          None \<Rightarrow> None
                        | Some ordinary \<Rightarrow>
                            let ttl = (case (if \<not> positive then negative else None) of
                                         None \<Rightarrow> ordinary
                                       | Some negative \<Rightarrow> min negative ordinary) in
                            if ttl \<noteq> 0 then Some (from_secs (unat ttl)) else None)"

definition normalize_record :: "'n name_ops \<Rightarrow> 'n query \<Rightarrow> 'n \<Rightarrow> 'n rr \<Rightarrow> 'n rr" where
  "normalize_record nm query terminal record =
     (if rr_class record = q_class query \<and> nm_zone_of nm (rr_name record) terminal then
        (case rr_data record of
           DataSOA minimum _ \<Rightarrow> record\<lparr>rr_ttl := min (rr_ttl record) minimum\<rparr>
         | _ \<Rightarrow> record)
      else record)"

definition normalize_negative_soa_ttl :: "'n name_ops \<Rightarrow> 'n query \<Rightarrow> 'n message \<Rightarrow> 'n message" where
  "normalize_negative_soa_ttl nm query message =
     (if md_truncation (m_metadata message) \<or> m_signature message \<noteq> None \<or>
         md_response_code (m_metadata message) \<notin> {NoError, NXDomain} then message
      else case terminal_answer nm query (m_answers message) of
             Some (terminal, False) \<Rightarrow>
               message\<lparr>m_authorities := map (normalize_record nm query terminal) (m_authorities message)\<rparr>
           | _ \<Rightarrow> message)"

section \<open>Queries and responses of a backend\<close>

record 'n dns_query =
  dq_id :: u16
  dq_bytes :: bytes
  dq_question :: "'n query"

text \<open>\<open>Message::query\<close>: a recursive query with the random transaction id the library draws.\<close>

definition query_message :: "u16 \<Rightarrow> 'n query \<Rightarrow> 'n message" where
  "query_message ident question =
     \<lparr>m_metadata = \<lparr>md_id = ident, md_message_type = MessageQuery, md_op_code = OpQuery, md_authoritative = False,
        md_truncation = False, md_recursion_desired = True, md_recursion_available = False,
        md_authentic_data = False, md_checking_disabled = False, md_response_code = NoError\<rparr>,
      m_queries = [question], m_answers = [], m_authorities = [], m_additionals = [],
      m_signature = None, m_edns = None\<rparr>"

definition build_query :: "'n packet_codec \<Rightarrow> u16 \<Rightarrow> 'n query \<Rightarrow> (str, 'n dns_query) result" where
  "build_query pc ident question =
     (case pc_to_vec pc (query_message ident question) of
        Inl e \<Rightarrow> Inl (''encode DNS query: '' @ e)
      | Inr bytes \<Rightarrow> Inr \<lparr>dq_id = ident, dq_bytes = bytes, dq_question = question\<rparr>)"

definition temporary_response :: "'n message \<Rightarrow> bool" where
  "temporary_response message \<longleftrightarrow> md_response_code (m_metadata message) = ServFail"

definition validate_response ::
  "'n name_ops \<Rightarrow> 'n packet_codec \<Rightarrow> 'n dns_query \<Rightarrow> bytes \<Rightarrow> (dns_server_error, 'n message) result" where
  "validate_response nm pc query body =
     (case pc_from_vec pc body of
        Inl e \<Rightarrow> Inl (Wire (''decode DNS response: '' @ e))
      | Inr message \<Rightarrow>
          let md = m_metadata message in
          if md_id md \<noteq> dq_id query \<or> md_message_type md \<noteq> MessageResponse \<or> md_op_code md \<noteq> OpQuery \<or>
             length (m_queries message) \<noteq> 1 then
            Inl (DohExchange ''response transaction/header/question count mismatch'')
          else
            let echoed = m_queries message ! 0 in
            if \<not> nm_same nm (q_name echoed) (q_name (dq_question query)) \<or>
               q_type echoed \<noteq> q_type (dq_question query) \<or> q_class echoed \<noteq> q_class (dq_question query) then
              Inl (DohExchange ''response question mismatch'')
            else Inr message)"

definition parse_response ::
  "'n name_ops \<Rightarrow> 'n packet_codec \<Rightarrow> int \<Rightarrow> 'n dns_query \<Rightarrow> bytes \<Rightarrow> (dns_server_error, 'n resolved_answer) result" where
  "parse_response nm pc now query body =
     and_then (validate_response nm pc query body) (\<lambda>message.
       if md_truncation (m_metadata message) then Inl (DohExchange ''incomplete DNS response (TC)'')
       else
         let message = normalize_negative_soa_ttl nm (dq_question query) message in
         Inr \<lparr>ra_message = message,
              ra_ttl = (case cache_ttl nm (dq_question query) message of Some ttl \<Rightarrow> ttl | None \<Rightarrow> 0),
              ra_resolved_at = now\<rparr>)"

section \<open>Requests of clients and their replies\<close>

definition hostname_of :: "'n name_ops \<Rightarrow> 'n query \<Rightarrow> str" where
  "hostname_of nm question =
     (let host = ascii_lowercase (nm_to_string nm (q_name question)) in
      if ends_with ''.'' host then take (length host - 1) host else host)"

definition parse_query :: "'n packet_codec \<Rightarrow> bytes \<Rightarrow> 'n message option" where
  "parse_query pc bytes =
     (case ok (pc_from_vec pc bytes) of
        None \<Rightarrow> None
      | Some message \<Rightarrow> if md_message_type (m_metadata message) \<noteq> MessageQuery then None else Some message)"

text \<open>\<open>Message::error_msg\<close>: an empty response with the given id, operation and code.\<close>

definition error_msg :: "u16 \<Rightarrow> op_code \<Rightarrow> response_code \<Rightarrow> 'n message" where
  "error_msg ident opc rcode =
     \<lparr>m_metadata = \<lparr>md_id = ident, md_message_type = MessageResponse, md_op_code = opc, md_authoritative = False,
        md_truncation = False, md_recursion_desired = False, md_recursion_available = False,
        md_authentic_data = False, md_checking_disabled = False, md_response_code = rcode\<rparr>,
      m_queries = [], m_answers = [], m_authorities = [], m_additionals = [],
      m_signature = None, m_edns = None\<rparr>"

definition build_response :: "'n message \<Rightarrow> 'n message option \<Rightarrow> response_code \<Rightarrow> 'n message" where
  "build_response request answer failure =
     (let req = m_metadata request;
          reply = (case answer of Some m \<Rightarrow> m | None \<Rightarrow> error_msg (md_id req) OpQuery failure)
      in reply\<lparr>m_metadata := (m_metadata reply)\<lparr>
                 md_id := md_id req,
                 md_message_type := MessageResponse,
                 md_op_code := md_op_code req,
                 md_recursion_available := True,
                 md_recursion_desired := md_recursion_desired req,
                 md_checking_disabled := md_checking_disabled req,
                 md_authentic_data := False\<rparr>,
               m_queries := take 1 (m_queries request),
               m_signature := None,
               m_edns := None\<rparr>)"

definition unsupported_response :: "'n message \<Rightarrow> 'n message option" where
  "unsupported_response request =
     (let transfer = list_ex (\<lambda>question. q_type question \<in> {TypeAXFR, TypeIXFR}) (m_queries request) in
      if md_op_code (m_metadata request) \<noteq> OpQuery \<or> transfer then Some (build_response request None NotImp) else None)"

definition formerr :: "'n message \<Rightarrow> 'n message" where
  "formerr request = build_response request None FormErr"

definition response :: "'n message \<Rightarrow> 'n resolved_answer option \<Rightarrow> 'n message" where
  "response request answer = build_response request (map_option ra_message answer) ServFail"

definition encode_udp_response :: "'n packet_codec \<Rightarrow> 'n message \<Rightarrow> bytes option" where
  "encode_udp_response pc message =
     (case pc_to_vec pc message of
        Inl _ \<Rightarrow> None
      | Inr bytes \<Rightarrow>
          if length bytes \<le> 512 then Some bytes
          else
            let truncated = pc_truncate pc message;
                truncated = truncated\<lparr>m_metadata := (m_metadata truncated)\<lparr>md_authentic_data := False\<rparr>\<rparr>
            in case pc_to_vec pc truncated of
                 Inl _ \<Rightarrow> None
               | Inr bytes \<Rightarrow> if length bytes \<le> 512 then Some bytes else None)"

section \<open>Framing over TCP\<close>

text \<open>
  The bytes a peer sends and what comes after them: the peer closes, the socket reports an error, or
  nothing more arrives before the deadline of the frame.
\<close>

datatype conn_end = ConnClosed | ConnFailed str | ConnSilent

record conn_input =
  ci_bytes :: bytes
  ci_end :: conn_end

datatype frame_error = UnexpectedEof | ConnError str | ZeroLength | DeadlineExpired | FrameTooLong

definition ended :: "conn_end \<Rightarrow> frame_error" where
  "ended e = (case e of ConnClosed \<Rightarrow> UnexpectedEof | ConnFailed s \<Rightarrow> ConnError s | ConnSilent \<Rightarrow> DeadlineExpired)"

definition conn_read_exact :: "nat \<Rightarrow> conn_input \<Rightarrow> (frame_error, bytes \<times> conn_input) result" where
  "conn_read_exact n c =
     (case take_bytes n (ci_bytes c) of
        Some (xs, rest) \<Rightarrow> Inr (xs, c\<lparr>ci_bytes := rest\<rparr>)
      | None \<Rightarrow> Inl (ended (ci_end c)))"

definition read_framed_message :: "conn_input \<Rightarrow> (frame_error, (bytes \<times> conn_input) option) result" where
  "read_framed_message c =
     (if ci_bytes c = [] \<and> ci_end c = ConnClosed then Inr None
      else and_then (conn_read_exact 1 c) (\<lambda>(hi, c).
        and_then (conn_read_exact 1 c) (\<lambda>(lo, c).
          let len = from_be (hi @ lo) in
          if len = 0 then Inl ZeroLength
          else and_then (conn_read_exact len c) (\<lambda>(body, c). Inr (Some (body, c))))))"

definition write_framed_message :: "bytes \<Rightarrow> (frame_error, bytes) result" where
  "write_framed_message body =
     (if 65535 < length body then Inl FrameTooLong else Inr (to_be 2 (length body) @ body))"


section \<open>Chains of aliases\<close>

text \<open>Following a partial function \<open>k\<close> times.\<close>

fun chase :: "('a \<Rightarrow> 'a option) \<Rightarrow> nat \<Rightarrow> 'a \<Rightarrow> 'a option" where
  "chase g 0 x = Some x"
| "chase g (Suc k) x = Option.bind (g x) (chase g k)"

lemma chase_add: "chase g (m + n) x = Option.bind (chase g m x) (chase g n)"
  by (induction m arbitrary: x) (auto split: Option.bind_split)

lemma chase_prefix: "chase g n x \<noteq> None \<Longrightarrow> m \<le> n \<Longrightarrow> chase g m x \<noteq> None"
  using chase_add [of g m "n - m" x] by (cases "chase g m x") auto

lemma chase_in: "chase g (Suc k) x = Some y \<Longrightarrow> \<exists>z. g z = Some y"
proof (induction k arbitrary: x)
  case 0
  then show ?case by (auto split: Option.bind_splits)
next
  case (Suc k)
  then show ?case by (metis bind_eq_Some_conv chase.simps(2))
qed

lemma chase_loop: "chase g d y = Some y \<Longrightarrow> chase g (m * d) y = Some y"
  by (induction m) (simp_all add: chase_add)

lemma chase_cycle_never_ends:
  assumes cyc: "chase g i x = Some y" "chase g d y = Some y" "0 < d"
  shows "chase g k x \<noteq> None"
proof -
  have "chase g (i + k * d) x = Some y" using cyc chase_loop [of g d y k] by (simp add: chase_add)
  moreover have "k \<le> i + k * d" using \<open>0 < d\<close> by (cases d) simp_all
  ultimately show ?thesis using chase_prefix by (metis option.distinct(1))
qed

text \<open>A walk longer than the number of places it can be in has come back to one of them.\<close>

lemma chase_pigeonhole:
  assumes range: "\<And>z y. g z = Some y \<Longrightarrow> y \<in> T" and fin: "finite T" and small: "card T \<le> n"
    and long: "chase g (Suc n) x \<noteq> None"
  shows "chase g k x \<noteq> None"
proof -
  define s where "s i = the (chase g (Suc i) x)" for i
  have walk: "chase g (Suc i) x = Some (s i)" if "i \<le> n" for i
    using chase_prefix [OF long, of "Suc i"] that by (simp add: s_def)
  have "s ` {..n} \<subseteq> T"
  proof
    fix y assume "y \<in> s ` {..n}"
    then obtain i where "i \<le> n" "y = s i" by auto
    then obtain z where "g z = Some y" using chase_in [OF walk] by blast
    then show "y \<in> T" by (rule range)
  qed
  then have "card (s ` {..n}) \<le> n" using card_mono [OF fin] small le_trans by blast
  then have "card (s ` {..n}) < card {..n}" by simp
  then have "\<not> inj_on s {..n}" by (rule pigeonhole)
  then obtain i j where "i \<le> n" "j \<le> n" "i \<noteq> j" "s i = s j" by (auto simp: inj_on_def)
  then obtain i j where ij: "j \<le> n" "i < j" "s i = s j" by (cases i j rule: linorder_cases) auto
  then have "chase g (j - i) (s i) = Some (s i)"
    using walk [of i] walk [of j] chase_add [of g "Suc i" "j - i" x] by simp
  then show ?thesis using chase_cycle_never_ends [of g "Suc i" x "s i" "j - i" k] walk [of i] ij by simp
qed

definition alias_step :: "'n name_ops \<Rightarrow> 'n query \<Rightarrow> 'n rr list \<Rightarrow> 'n \<Rightarrow> 'n option" where
  "alias_step nm query answers t = (if positive_at nm query answers t then None else alias_of nm query answers t)"

definition cname_targets :: "'n rr list \<Rightarrow> 'n list" where
  "cname_targets answers =
     List.map_filter (\<lambda>r. case rr_data r of DataCNAME target \<Rightarrow> Some target | _ \<Rightarrow> None) answers"

lemma length_map_filter: "length (List.map_filter f xs) \<le> length xs"
  by (induction xs) (auto simp: List.map_filter_simps split: option.splits)

lemma find_map_SomeD: "find_map f xs = Some y \<Longrightarrow> \<exists>x \<in> set xs. f x = Some y"
  by (induction xs) (auto split: option.splits)

lemma set_map_filter_iff: "y \<in> set (List.map_filter f xs) \<longleftrightarrow> (\<exists>x \<in> set xs. f x = Some y)"
  by (induction xs) (auto simp: List.map_filter_simps split: option.splits)

lemma alias_step_target: "alias_step nm query answers t = Some u \<Longrightarrow> u \<in> set (cname_targets answers)"
  unfolding alias_step_def alias_of_def cname_targets_def set_map_filter_iff
  by (force dest!: find_map_SomeD split: if_splits rdata.split_asm)

lemma walk_ends_iff: "terminal_walk nm query answers k t = None \<longleftrightarrow> chase (alias_step nm query answers) k t \<noteq> None"
  by (induction k arbitrary: t) (auto simp: alias_step_def split: option.splits)

text \<open>The unbounded chain: \<open>resolves_to\<close> has a rule per way the loop body can end.\<close>

inductive resolves_to :: "'n name_ops \<Rightarrow> 'n query \<Rightarrow> 'n rr list \<Rightarrow> 'n \<Rightarrow> 'n \<times> bool \<Rightarrow> bool"
  for nm query answers where
  found: "positive_at nm query answers t \<Longrightarrow> resolves_to nm query answers t (t, True)"
| missing: "\<not> positive_at nm query answers t \<Longrightarrow> alias_of nm query answers t = None \<Longrightarrow>
    resolves_to nm query answers t (t, False)"
| hop: "\<not> positive_at nm query answers t \<Longrightarrow> alias_of nm query answers t = Some u \<Longrightarrow>
    resolves_to nm query answers u r \<Longrightarrow> resolves_to nm query answers t r"

lemma walk_sound: "terminal_walk nm query answers k t = Some r \<Longrightarrow> resolves_to nm query answers t r"
  by (induction k arbitrary: t) (auto split: if_splits option.splits intro: resolves_to.intros)

lemma walk_complete: "resolves_to nm query answers t r \<Longrightarrow> \<exists>k. terminal_walk nm query answers k t = Some r"
proof (induction rule: resolves_to.induct)
  case (hop t u r)
  then obtain k where "terminal_walk nm query answers k u = Some r" by blast
  with hop.hyps have "terminal_walk nm query answers (Suc k) t = Some r" by simp
  then show ?case ..
qed (auto intro: exI [of _ 1])

lemma walk_mono: "terminal_walk nm query answers k t = Some r \<Longrightarrow> k \<le> l \<Longrightarrow> terminal_walk nm query answers l t = Some r"
proof (induction k arbitrary: t l)
  case (Suc k)
  then obtain l' where "l = Suc l'" by (meson Suc_le_D)
  with Suc show ?case by (auto split: if_splits option.splits)
qed simp

lemma walk_within_bound:
  assumes "terminal_walk nm query answers k t = Some r"
  shows "terminal_walk nm query answers (length answers + 1) t = Some r"
proof (cases "terminal_walk nm query answers (length answers + 1) t")
  case None
  have "card (set (cname_targets answers)) \<le> length answers"
    using card_length length_map_filter le_trans unfolding cname_targets_def by blast
  moreover have "chase (alias_step nm query answers) (Suc (length answers)) t \<noteq> None"
    using None walk_ends_iff by (metis Suc_eq_plus1)
  ultimately have "chase (alias_step nm query answers) k t \<noteq> None"
    using chase_pigeonhole [where g = "alias_step nm query answers" and T = "set (cname_targets answers)" and k = k]
      alias_step_target [of nm query answers] by blast
  then show ?thesis using assms walk_ends_iff by (metis option.distinct(1))
next
  case (Some r')
  then have "terminal_walk nm query answers (max k (length answers + 1)) t = Some r'" by (rule walk_mono) simp
  moreover have "terminal_walk nm query answers (max k (length answers + 1)) t = Some r" using assms by (rule walk_mono) simp
  ultimately show ?thesis using Some by simp
qed

text \<open>
  C25: The bounded loop over aliases is exact.  Walking at most one step more than there are answer records
  finds the terminal name whenever the chain of aliases ends at all, with the same verdict on whether the
  requested record is there; the loop gives up only on chains that never end.
\<close>

theorem terminal_answer_is_exact:
  "terminal_answer nm query answers = Some r \<longleftrightarrow> resolves_to nm query answers (q_name query) r"
  unfolding terminal_answer_def using walk_sound walk_complete walk_within_bound by metis

section \<open>Lifetimes\<close>

lemma list_min_None [simp]: "list_min xs = None \<longleftrightarrow> xs = []"
  by (cases xs) (auto split: option.splits)

lemma list_min_Some: "list_min xs = Some m \<longleftrightarrow> xs \<noteq> [] \<and> m = Min (set xs)"
  by (induction xs arbitrary: m) (auto split: option.splits)

lemma list_min_le: "list_min xs = Some m \<Longrightarrow> x \<in> set xs \<Longrightarrow> m \<le> x"
  by (auto simp: list_min_Some)

lemma from_secs_mono: "a \<le> b \<Longrightarrow> from_secs (unat a) \<le> from_secs (unat b)"
  by (simp add: from_secs_def word_le_nat_alt)

text \<open>The lifetime in seconds, from what the authority section and all records say.\<close>

definition shortest :: "bool \<Rightarrow> u32 option \<Rightarrow> u32 \<Rightarrow> u32" where
  "shortest positive negative ordinary =
     (case (if \<not> positive then negative else None) of None \<Rightarrow> ordinary | Some n \<Rightarrow> min n ordinary)"

lemma shortest_le: "shortest positive negative ordinary \<le> ordinary"
  by (auto simp: shortest_def split: option.splits)

lemma shortest_le_negative: "\<not> positive \<Longrightarrow> negative = Some v \<Longrightarrow> shortest positive negative ordinary \<le> v"
  by (auto simp: shortest_def)

lemma cache_ttl_SomeE:
  assumes "cache_ttl nm query message = Some d"
  obtains terminal positive ordinary where
    "md_message_type (m_metadata message) = MessageResponse" "md_op_code (m_metadata message) = OpQuery"
    "\<not> md_truncation (m_metadata message)" "m_signature message = None"
    "length (m_queries message) = 1" "same_question nm (m_queries message ! 0) query"
    "md_response_code (m_metadata message) = NoError \<or> md_response_code (m_metadata message) = NXDomain \<and> \<not> positive"
    "terminal_answer nm query (m_answers message) = Some (terminal, positive)"
    "\<not> positive \<longrightarrow> negative_ttl nm query terminal message \<noteq> None"
    "ordinary_ttl message = Some ordinary"
    "shortest positive (negative_ttl nm query terminal message) ordinary \<noteq> 0"
    "d = from_secs (unat (shortest positive (negative_ttl nm query terminal message) ordinary))"
proof -
  obtain terminal positive where walk: "terminal_answer nm query (m_answers message) = Some (terminal, positive)"
    using assms by (auto simp: cache_ttl_def Let_def split: if_split_asm option.split_asm)
  obtain ordinary where ord: "ordinary_ttl message = Some ordinary"
    using assms by (auto simp: cache_ttl_def Let_def walk split: if_split_asm option.split_asm)
  show thesis
    by (rule that [OF _ _ _ _ _ _ _ walk _ ord])
      (use assms in \<open>auto simp: cache_ttl_def Let_def walk ord same_question_def shortest_def split: if_split_asm\<close>)
qed

text \<open>
  C26: What the cache policy promises about a cacheable packet: its lifetime is positive and no record of
  the packet outlives its own lifetime in the cache; the packet is a complete, unsigned answer to the
  question asked; and a negative answer is cached only on the word of an SOA record covering the name the
  alias chain ends at, for at most that record's lifetime and its negative-caching minimum.
\<close>

theorem cacheable_packets_are_safe_to_keep:
  assumes "cache_ttl nm query message = Some d"
  shows "0 < d \<and>
    (\<forall>r \<in> set (all_records message). rr_type r \<noteq> TypeOPT \<longrightarrow> d \<le> from_secs (unat (rr_ttl r))) \<and>
    length (m_queries message) = 1 \<and> same_question nm (m_queries message ! 0) query \<and>
    \<not> md_truncation (m_metadata message) \<and> m_signature message = None \<and>
    (\<exists>terminal positive. resolves_to nm query (m_answers message) (q_name query) (terminal, positive) \<and>
       md_response_code (m_metadata message) \<in> {NoError, NXDomain} \<and>
       (positive \<longrightarrow> md_response_code (m_metadata message) = NoError) \<and>
       (\<not> positive \<longrightarrow>
          (\<exists>soa \<in> set (m_authorities message). negative_soa_ttl nm query terminal soa \<noteq> None) \<and>
          (\<forall>soa \<in> set (m_authorities message). \<forall>v. negative_soa_ttl nm query terminal soa = Some v \<longrightarrow> d \<le> from_secs (unat v))))"
  using assms
proof (rule cache_ttl_SomeE)
  fix terminal positive ordinary
  let ?neg = "negative_ttl nm query terminal message"
  assume walk: "terminal_answer nm query (m_answers message) = Some (terminal, positive)"
    and ord: "ordinary_ttl message = Some ordinary"
    and d: "d = from_secs (unat (shortest positive ?neg ordinary))" "shortest positive ?neg ordinary \<noteq> 0"
    and neg: "\<not> positive \<longrightarrow> ?neg \<noteq> None"
    and rcode: "md_response_code (m_metadata message) = NoError \<or> md_response_code (m_metadata message) = NXDomain \<and> \<not> positive"
    and basic: "length (m_queries message) = 1" "same_question nm (m_queries message ! 0) query"
      "\<not> md_truncation (m_metadata message)" "m_signature message = None"
  have chain: "resolves_to nm query (m_answers message) (q_name query) (terminal, positive)"
    using walk walk_sound unfolding terminal_answer_def by metis
  have pos: "0 < d" using d by (simp add: from_secs_def unat_gt_0)
  have each: "d \<le> from_secs (unat (rr_ttl r))" if "r \<in> set (all_records message)" "rr_type r \<noteq> TypeOPT" for r
  proof -
    have "ordinary \<le> rr_ttl r" using list_min_le [OF ord [unfolded ordinary_ttl_def], of "rr_ttl r"] that by auto
    then show ?thesis using d(1) shortest_le [of positive ?neg ordinary] by (auto intro!: from_secs_mono)
  qed
  have some: "\<exists>soa \<in> set (m_authorities message). negative_soa_ttl nm query terminal soa \<noteq> None" if np: "\<not> positive"
  proof -
    have "List.map_filter (negative_soa_ttl nm query terminal) (m_authorities message) \<noteq> []"
      using neg np by (simp add: negative_ttl_def)
    then obtain v where "v \<in> set (List.map_filter (negative_soa_ttl nm query terminal) (m_authorities message))"
      using hd_in_set by blast
    then show ?thesis by (auto simp: set_map_filter_iff)
  qed
  have all: "d \<le> from_secs (unat v)"
    if np: "\<not> positive" and soa: "soa \<in> set (m_authorities message)" "negative_soa_ttl nm query terminal soa = Some v" for soa v
  proof -
    obtain w where w: "?neg = Some w" using neg np by blast
    then have "w \<le> v" using list_min_le [OF w [unfolded negative_ttl_def], of v] soa by (auto simp: set_map_filter_iff)
    then show ?thesis using shortest_le_negative [OF np w, of ordinary] d(1) by (auto intro!: from_secs_mono)
  qed
  have "md_response_code (m_metadata message) \<in> {NoError, NXDomain}"
    "positive \<longrightarrow> md_response_code (m_metadata message) = NoError" using rcode by auto
  then show ?thesis using pos each basic chain some all by (intro conjI exI [of _ terminal] exI [of _ positive]) auto
qed

section \<open>A concrete instance\<close>

text \<open>Names as text: equality ignores the case and a final dot, which marks a name as absolute.\<close>

definition without_dot :: "str \<Rightarrow> str" where
  "without_dot s = (if ends_with ''.'' s then butlast s else s)"

definition folded :: "str \<Rightarrow> str" where
  "folded s = ascii_lowercase (without_dot s)"

definition text_names :: "str name_ops" where
  "text_names =
     \<lparr>nm_same = (\<lambda>a b. folded a = folded b),
      nm_zone_of = (\<lambda>z a. folded z = [] \<or> folded z = folded a \<or> ends_with (CHR ''.'' # folded z) (folded a)),
      nm_eq = (\<lambda>a b. folded a = folded b \<and> (ends_with ''.'' a \<longleftrightarrow> ends_with ''.'' b)),
      nm_is_fqdn = ends_with ''.'', nm_set_fqdn = (\<lambda>a. without_dot a @ ''.''), nm_to_string = (\<lambda>a. a)\<rparr>"

lemma dotted [simp]: "ends_with ''.'' (a @ ''.'')"
  by (simp add: ends_with_def strip_suffix_Some_iff)

lemma folded_set_fqdn [simp]: "folded (without_dot a @ ''.'') = folded a"
  by (simp add: folded_def without_dot_def [of "_ @ _"])

lemma text_names_laws: "name_laws text_names"
  by (auto simp: name_laws_def text_names_def equivp_def fun_eq_iff)

definition sample_query :: "str query" where
  "sample_query = \<lparr>q_name = ''www.example.com.'', q_type = TypeA, q_class = class_IN\<rparr>"

text \<open>The name is an alias of one that has no address; the zone's SOA record limits how long that is remembered.\<close>

definition sample_nodata :: "str message" where
  "sample_nodata =
     (build_response (query_message 7 sample_query) None NoError)
       \<lparr>m_answers := [\<lparr>rr_name = ''WWW.example.com.'', rr_class = class_IN, rr_ttl = 300, rr_data = DataCNAME ''host.example.com.''\<rparr>],
        m_authorities := [\<lparr>rr_name = ''example.com.'', rr_class = class_IN, rr_ttl = 600, rr_data = DataSOA 60 []\<rparr>]\<rparr>"

lemma sample_nodata_ttl: "cache_ttl text_names sample_query sample_nodata = Some (from_secs 60)"
  by code_simp

theorem cacheable_packets_are_safe_to_keep_witness:
  "cache_ttl text_names sample_query sample_nodata = Some (from_secs 60) \<and>
   0 < from_secs 60 \<and> same_question text_names (m_queries sample_nodata ! 0) sample_query \<and>
   \<not> md_truncation (m_metadata sample_nodata)"
  using sample_nodata_ttl cacheable_packets_are_safe_to_keep [OF sample_nodata_ttl] by blast

section \<open>Normalised negative answers\<close>

lemma normalize_record_same [simp]:
  "rr_name (normalize_record nm query t r) = rr_name r"
  "rr_class (normalize_record nm query t r) = rr_class r"
  "rr_data (normalize_record nm query t r) = rr_data r"
  by (auto simp: normalize_record_def split: rdata.splits)

lemma normalize_record_soa_ttl [simp]:
  "negative_soa_ttl nm query t (normalize_record nm query t r) = negative_soa_ttl nm query t r"
  by (auto simp: negative_soa_ttl_def normalize_record_def split: rdata.splits)

lemma normalize_record_ttl:
  "rr_ttl (normalize_record nm query t r) =
     (case negative_soa_ttl nm query t r of Some v \<Rightarrow> v | None \<Rightarrow> rr_ttl r)"
  by (auto simp: negative_soa_ttl_def normalize_record_def split: rdata.splits)

lemma negative_soa_ttl_le: "negative_soa_ttl nm query t r = Some v \<Longrightarrow> v \<le> rr_ttl r"
  by (auto simp: negative_soa_ttl_def split: if_splits rdata.splits)

lemma negative_soa_not_opt: "negative_soa_ttl nm query t r = Some v \<Longrightarrow> rr_type r \<noteq> TypeOPT"
  by (auto simp: negative_soa_ttl_def split: if_splits rdata.splits)

lemma map_filter_map: "List.map_filter f (map g xs) = List.map_filter (f \<circ> g) xs"
  by (induction xs) (auto simp: List.map_filter_simps split: option.splits)

lemma negative_ttl_normalized:
  "negative_ttl nm query t (message\<lparr>m_authorities := map (normalize_record nm query t) (m_authorities message)\<rparr>) =
   negative_ttl nm query t message"
  by (simp add: negative_ttl_def map_filter_map comp_def)

text \<open>\<open>lowered n x y\<close>: \<open>y\<close> is \<open>x\<close>, or below it without going below \<open>n\<close>.\<close>

definition lowered :: "u32 \<Rightarrow> u32 \<Rightarrow> u32 \<Rightarrow> bool" where
  "lowered n x y \<longleftrightarrow> y \<le> x \<and> (y = x \<or> n \<le> y)"

lemma lowered_min: "lowered n x y \<Longrightarrow> lowered n a b \<Longrightarrow> lowered n (min x a) (min y b)"
  unfolding lowered_def min_def by (auto split: if_splits)

lemma list_min_lowered: "list_all2 (lowered n) xs ys \<Longrightarrow> rel_option (lowered n) (list_min xs) (list_min ys)"
proof (induction xs ys rule: list_all2_induct)
  case (Cons x xs y ys)
  then show ?case by (cases "list_min xs"; cases "list_min ys") (simp_all add: lowered_min)
qed simp

lemma normalized_records_lowered:
  assumes "\<And>r v. r \<in> set rs \<Longrightarrow> negative_soa_ttl nm query t r = Some v \<Longrightarrow> n \<le> v"
  shows "list_all2 (lowered n)
     (map rr_ttl (filter (\<lambda>r. rr_type r \<noteq> TypeOPT) rs))
     (map rr_ttl (filter (\<lambda>r. rr_type r \<noteq> TypeOPT) (map (normalize_record nm query t) rs)))"
  using assms
  by (induction rs) (auto simp: lowered_def normalize_record_ttl negative_soa_ttl_le split: option.splits)

text \<open>Normalising the SOA records of a negative answer does not change how long it is cached.\<close>

lemma cache_ttl_normalized: "cache_ttl nm query (normalize_negative_soa_ttl nm query message) = cache_ttl nm query message"
proof (cases "\<exists>t. terminal_answer nm query (m_answers message) = Some (t, False)")
  case False
  then have "normalize_negative_soa_ttl nm query message = message"
    by (auto simp: normalize_negative_soa_ttl_def split: option.splits bool.splits)
  then show ?thesis by simp
next
  case True
  then obtain t where t: "terminal_answer nm query (m_answers message) = Some (t, False)" by blast
  let ?m = "message\<lparr>m_authorities := map (normalize_record nm query t) (m_authorities message)\<rparr>"
  have "cache_ttl nm query ?m = cache_ttl nm query message"
  proof (cases "negative_ttl nm query t message")
    case None
    then show ?thesis using t by (simp add: cache_ttl_def Let_def negative_ttl_normalized)
  next
    case (Some n)
    have low: "n \<le> v" if "r \<in> set (m_authorities message)" "negative_soa_ttl nm query t r = Some v" for r v
      using list_min_le [OF Some [unfolded negative_ttl_def], of v] that by (auto simp: set_map_filter_iff)
    have refl: "list_all2 (lowered n) zs zs" for zs :: "u32 list"
      by (simp add: list_all2_refl lowered_def)
    have all2: "list_all2 (lowered n)
       (map rr_ttl (filter (\<lambda>r. rr_type r \<noteq> TypeOPT) (all_records message)))
       (map rr_ttl (filter (\<lambda>r. rr_type r \<noteq> TypeOPT) (all_records ?m)))"
      using normalized_records_lowered [OF low] refl by (auto intro!: list_all2_appendI)
    have "rel_option (lowered n) (ordinary_ttl message) (ordinary_ttl ?m)"
      unfolding ordinary_ttl_def by (rule list_min_lowered [OF all2])
    then show ?thesis
    proof (cases rule: option.rel_cases)
      case None
      then show ?thesis using t Some by (simp add: cache_ttl_def Let_def negative_ttl_normalized)
    next
      case (Some ord ord')
      then have "min n ord' = min n ord" by (auto simp: lowered_def min_def)
      then show ?thesis
        using t Some \<open>negative_ttl nm query t message = Some n\<close>
        by (simp add: cache_ttl_def Let_def negative_ttl_normalized)
    qed
  qed
  then show ?thesis using t by (simp add: normalize_negative_soa_ttl_def)
qed

section \<open>Accepted responses and replies\<close>

lemma parse_response_InrD:
  assumes "parse_response nm pc now query body = Inr answer"
  shows "md_id (m_metadata (ra_message answer)) = dq_id query \<and>
    length (m_queries (ra_message answer)) = 1 \<and>
    same_question nm (m_queries (ra_message answer) ! 0) (dq_question query) \<and>
    \<not> md_truncation (m_metadata (ra_message answer)) \<and> ra_resolved_at answer = now"
  using assms
  by (auto simp: parse_response_def validate_response_def and_then_Inr_iff normalize_negative_soa_ttl_def
      same_question_def Let_def split: sum.splits if_splits option.splits bool.splits)

lemma build_response_echoes [simp]:
  "md_id (m_metadata (build_response request answer failure)) = md_id (m_metadata request)"
  "m_queries (build_response request answer failure) = take 1 (m_queries request)"
  "md_message_type (m_metadata (build_response request answer failure)) = MessageResponse"
  "\<not> md_authentic_data (m_metadata (build_response request answer failure))"
  "m_edns (build_response request answer failure) = None"
  by (simp_all add: build_response_def Let_def)

lemma encode_udp_response_fits: "encode_udp_response pc message = Some bs \<Longrightarrow> length bs \<le> 512"
  by (auto simp: encode_udp_response_def Let_def split: sum.splits if_splits)

lemma conn_read_exact_append: "length xs = n \<Longrightarrow>
  conn_read_exact n \<lparr>ci_bytes = xs @ rest, ci_end = e\<rparr> = Inr (xs, \<lparr>ci_bytes = rest, ci_end = e\<rparr>)"
  by (simp add: conn_read_exact_def)

text \<open>A frame that was written is read back, and the next frame follows it.\<close>

lemma written_frame_reads_back:
  assumes "body \<noteq> []" "write_framed_message body = Inr frame"
  shows "read_framed_message \<lparr>ci_bytes = frame @ rest, ci_end = e\<rparr> = Inr (Some (body, \<lparr>ci_bytes = rest, ci_end = e\<rparr>))"
proof -
  have len: "length body < 256 ^ 2" and frame: "frame = to_be 2 (length body) @ body"
    using assms(2) by (auto simp: write_framed_message_def split: if_splits)
  obtain hi lo where hl: "to_be 2 (length body) = [hi] @ [lo]"
    by (simp add: numeral_2_eq_2)
  have "from_be ([hi] @ [lo]) = length body" using from_be_to_be_id [OF len] unfolding hl .
  then show ?thesis
    unfolding frame read_framed_message_def hl append_assoc
    using assms(1) by (simp add: conn_read_exact_append [of "[_]" 1, simplified] conn_read_exact_append Let_def)
qed

end
