(* ===== verification/DnsCache.thy ===== *)
theory DnsCache
  imports DnsMessage "HOL-Library.Multiset"
begin

text \<open>
  The packet cache of the DNS server (packages/dns-server: \<open>cache/cache.rs\<close>, \<open>cache/cache_disk.rs\<close>):
  admission with eviction under two bounds, reads that age a copy of the packet, and the file that
  carries the cache over a restart.

  The hash map is the list of its entries in iteration order; that order is unspecified, so what an
  insertion makes of it is the parameter \<open>order\<close>, any rearrangement.  Durations and monotonic instants
  count nanoseconds, wall-clock times are nanoseconds since the epoch.
\<close>

section \<open>Entries\<close>

definition DNS_CACHE_CAP :: nat where "DNS_CACHE_CAP = 4096"
definition MAX_PACKET :: nat where "MAX_PACKET = 65535"
definition MAX_PAYLOAD :: nat where "MAX_PAYLOAD = 16 * 1024 * 1024"

text \<open>\<open>Duration::MAX\<close>, where additions saturate.\<close>

definition DURATION_MAX :: nat where
  "DURATION_MAX = (2 ^ 64 - 1) * 1000000000 + 999999999"

definition duration_add :: "nat \<Rightarrow> nat \<Rightarrow> nat" where
  "duration_add a b = min (a + b) DURATION_MAX"

record packet_entry =
  ce_packet :: bytes
  ce_ttl :: nat
  ce_resolved_at :: int
  ce_admitted :: nat
  ce_initial_age :: nat

type_synonym 'n entries = "('n query \<times> packet_entry) list"

definition wall_age :: "int \<Rightarrow> int \<Rightarrow> nat option" where
  "wall_age stamp now = (if stamp \<le> now then Some (nat (now - stamp)) else None)"

definition wall_or_zero :: "int \<Rightarrow> int \<Rightarrow> nat" where
  "wall_or_zero stamp now = (case wall_age stamp now of Some d \<Rightarrow> d | None \<Rightarrow> 0)"

definition entry_age :: "packet_entry \<Rightarrow> int \<Rightarrow> nat \<Rightarrow> nat" where
  "entry_age e now instant =
     max (duration_add (ce_initial_age e) (instant - ce_admitted e)) (wall_or_zero (ce_resolved_at e) now)"

definition entry_remaining :: "packet_entry \<Rightarrow> int \<Rightarrow> nat \<Rightarrow> nat" where
  "entry_remaining e now instant = ce_ttl e - entry_age e now instant"

definition record_ttls :: "'n message \<Rightarrow> u32 list" where
  "record_ttls message = map rr_ttl (all_records message)"

definition admitted_query :: "'n name_ops \<Rightarrow> 'n query \<Rightarrow> 'n query" where
  "admitted_query nm query = query\<lparr>q_name := nm_set_fqdn nm (q_name query)\<rparr>"

section \<open>The hash map\<close>

definition query_eq :: "'n name_ops \<Rightarrow> 'n query \<Rightarrow> 'n query \<Rightarrow> bool" where
  "query_eq nm a b \<longleftrightarrow> nm_eq nm (q_name a) (q_name b) \<and> q_type a = q_type b \<and> q_class a = q_class b"

definition lookup_by :: "('k \<Rightarrow> bool) \<Rightarrow> ('k \<times> 'v) list \<Rightarrow> 'v option" where
  "lookup_by P es = find_map (\<lambda>(k, v). if P k then Some v else None) es"

definition remove_by :: "('k \<Rightarrow> bool) \<Rightarrow> ('k \<times> 'v) list \<Rightarrow> ('k \<times> 'v) list" where
  "remove_by P es = filter (\<lambda>(k, v). \<not> P k) es"

fun update_by :: "('k \<Rightarrow> bool) \<Rightarrow> 'v \<Rightarrow> ('k \<times> 'v) list \<Rightarrow> ('k \<times> 'v) list" where
  "update_by P v' [] = []"
| "update_by P v' ((k, v) # es) = (if P k then (k, v') # es else (k, v) # update_by P v' es)"

text \<open>\<open>Iterator::min_by_key\<close>: the first of the least elements.\<close>

fun min_by_key :: "('a \<Rightarrow> nat) \<Rightarrow> 'a list \<Rightarrow> 'a option" where
  "min_by_key f [] = None"
| "min_by_key f (x # xs) = (case min_by_key f xs of None \<Rightarrow> Some x | Some y \<Rightarrow> if f y < f x then Some y else Some x)"

definition payload :: "('k \<times> packet_entry) list \<Rightarrow> nat" where
  "payload es = sum_list (map (\<lambda>(k, e). length (ce_packet e)) es)"

section \<open>Admission\<close>

text \<open>
  The eviction loop.  Every round removes an entry, so it runs at most once per entry; with no entry left
  there is no victim and the loop breaks.
\<close>

fun evict :: "'n name_ops \<Rightarrow> int \<Rightarrow> nat \<Rightarrow> nat \<Rightarrow> nat \<Rightarrow> 'n entries \<Rightarrow> nat \<Rightarrow> 'n entries" where
  "evict nm now instant plen 0 es bytes = es"
| "evict nm now instant plen (Suc rounds) es bytes =
     (if DNS_CACHE_CAP \<le> length es \<or> MAX_PAYLOAD < bytes + plen then
        (case min_by_key (\<lambda>(k, e). entry_remaining e now instant) es of
           None \<Rightarrow> es
         | Some (victim, _) \<Rightarrow>
             let removed = lookup_by (query_eq nm victim) es;
                 bytes = (case removed of Some e \<Rightarrow> bytes - length (ce_packet e) | None \<Rightarrow> bytes)
             in evict nm now instant plen rounds (remove_by (query_eq nm victim) es) bytes)
      else es)"

definition sweep :: "int \<Rightarrow> nat \<Rightarrow> 'n entries \<Rightarrow> 'n entries" where
  "sweep now instant es = filter (\<lambda>(k, e). entry_remaining e now instant \<noteq> 0) es"

definition admit ::
  "'n name_ops \<Rightarrow> ('n entries \<Rightarrow> 'n entries) \<Rightarrow> 'n entries \<Rightarrow> 'n query \<Rightarrow> packet_entry \<Rightarrow> int \<Rightarrow> nat \<Rightarrow> 'n entries" where
  "admit nm order es key entry now instant =
     (let es = sweep now instant es;
          es = remove_by (query_eq nm key) es;
          es = evict nm now instant (length (ce_packet entry)) (length es) es (payload es)
      in order ((key, entry) # es))"

definition insert_at ::
  "'n name_ops \<Rightarrow> 'n packet_codec \<Rightarrow> ('n entries \<Rightarrow> 'n entries) \<Rightarrow>
   'n entries \<Rightarrow> 'n query \<Rightarrow> 'n resolved_answer \<Rightarrow> int \<Rightarrow> nat \<Rightarrow> 'n entries" where
  "insert_at nm pc order es query answer now instant =
     (case cache_ttl nm query (ra_message answer) of
        None \<Rightarrow> es
      | Some policy_ttl \<Rightarrow>
          let ttl = min (ra_ttl answer) policy_ttl in
          (case wall_age (ra_resolved_at answer) now of
             None \<Rightarrow> es
           | Some initial_age \<Rightarrow>
               if ttl \<le> initial_age then es
               else case pc_to_vec pc (ra_message answer) of
                 Inl _ \<Rightarrow> es
               | Inr packet \<Rightarrow>
                   if MAX_PACKET < length packet then es
                   else case pc_from_vec pc packet of
                     Inl _ \<Rightarrow> es
                   | Inr decoded \<Rightarrow>
                       if \<not> pc_eq pc decoded (ra_message answer) \<or> record_ttls decoded \<noteq> record_ttls (ra_message answer) then es
                       else admit nm order es (admitted_query nm query)
                              \<lparr>ce_packet = packet, ce_ttl = ttl, ce_resolved_at = ra_resolved_at answer,
                               ce_admitted = instant, ce_initial_age = initial_age\<rparr> now instant))"

section \<open>Reads\<close>

definition asked_by :: "'n name_ops \<Rightarrow> 'n query \<Rightarrow> 'n query \<Rightarrow> bool" where
  "asked_by nm query key = (if nm_is_fqdn nm (q_name query) then query_eq nm key query else same_question nm key query)"

definition aged_record :: "'n packet_codec \<Rightarrow> u32 \<Rightarrow> 'n rr \<Rightarrow> 'n rr" where
  "aged_record pc seconds record =
     (if rr_type record \<noteq> TypeOPT then record\<lparr>rr_ttl := pc_decrement_ttl pc (rr_ttl record) seconds\<rparr> else record)"

definition aged_message :: "'n packet_codec \<Rightarrow> u32 \<Rightarrow> 'n message \<Rightarrow> 'n message" where
  "aged_message pc seconds message =
     (let older = map (aged_record pc seconds) in
      message\<lparr>m_answers := older (m_answers message), m_authorities := older (m_authorities message),
              m_additionals := older (m_additionals message)\<rparr>)"

definition age_seconds :: "nat \<Rightarrow> u32" where
  "age_seconds age = (let s = age div 1000000000 in if s < 2 ^ 32 then of_nat s else - 1)"

definition get_at ::
  "'n name_ops \<Rightarrow> 'n packet_codec \<Rightarrow> 'n entries \<Rightarrow> 'n query \<Rightarrow> int \<Rightarrow> nat \<Rightarrow> 'n resolved_answer option \<times> 'n entries" where
  "get_at nm pc es query now instant =
     (case lookup_by (asked_by nm query) es of
        None \<Rightarrow> (None, es)
      | Some entry \<Rightarrow>
          if entry_remaining entry now instant = 0 then (None, remove_by (asked_by nm query) es)
          else
            let entry = entry\<lparr>ce_initial_age := entry_age entry now instant, ce_admitted := instant\<rparr>;
                es = update_by (asked_by nm query) entry es;
                age = entry_age entry now instant
            in case pc_from_vec pc (ce_packet entry) of
                 Inl _ \<Rightarrow> (None, es)
               | Inr message \<Rightarrow>
                   (Some \<lparr>ra_message = aged_message pc (age_seconds age) (normalize_negative_soa_ttl nm query message),
                          ra_ttl = ce_ttl entry - age, ra_resolved_at = now\<rparr>, es))"

section \<open>The file\<close>

text \<open>\<open>save\<close> takes its snapshot after sweeping; a wall clock that went back shortens the stored lifetime.\<close>

definition snapshot_entry :: "int \<Rightarrow> nat \<Rightarrow> packet_entry \<Rightarrow> packet_entry" where
  "snapshot_entry now instant entry =
     entry\<lparr>ce_ttl := min (ce_ttl entry)
       (duration_add (entry_remaining entry now instant) (wall_or_zero (ce_resolved_at entry) now))\<rparr>"

definition save_snapshot :: "'n entries \<Rightarrow> int \<Rightarrow> nat \<Rightarrow> packet_entry list \<times> 'n entries" where
  "save_snapshot es now instant =
     (let es = sweep now instant es in (map (\<lambda>(k, e). snapshot_entry now instant e) es, es))"

definition MAGIC :: bytes where
  "MAGIC = map (of_nat \<circ> of_char) ''TOR-DNS-PACKETS'' @ [0, 1]"

definition FRAME_HEADER :: nat where "FRAME_HEADER = 32"

definition MAX_FILE :: nat where
  "MAX_FILE = MAX_PAYLOAD + DNS_CACHE_CAP * FRAME_HEADER + length MAGIC"

text \<open>\<open>i128::to_be_bytes\<close> and back.\<close>

definition i128_to_be :: "int \<Rightarrow> bytes" where
  "i128_to_be i = to_be 16 (nat (i mod 2 ^ 128))"

definition i128_from_be :: "bytes \<Rightarrow> int" where
  "i128_from_be bs = (let n = int (from_be bs) in if n < 2 ^ 127 then n else n - 2 ^ 128)"

definition encode_entry :: "packet_entry \<Rightarrow> bytes" where
  "encode_entry e =
     i128_to_be (ce_resolved_at e) @ to_be 8 (ce_ttl e div 1000000000) @ to_be 4 (ce_ttl e mod 1000000000) @
     to_be 4 (length (ce_packet e)) @ ce_packet e"

definition disk_save :: "packet_entry list \<Rightarrow> (str, bytes) result" where
  "disk_save es =
     (if list_ex (\<lambda>e. 2 ^ 32 \<le> length (ce_packet e)) es then Inl ''cache packet exceeds length field''
      else Inr (MAGIC @ concat (map encode_entry es)))"

text \<open>\<open>decode_frame\<close> is the part of the loop that cuts a frame off; \<open>None\<close> stops the loop.\<close>

definition decode_frame :: "bytes \<Rightarrow> ((int \<times> nat \<times> nat \<times> bytes) \<times> bytes) option" where
  "decode_frame data =
     Option.bind (take_bytes 16 data) (\<lambda>(stamp, data).
     Option.bind (take_bytes 8 data) (\<lambda>(seconds, data).
     Option.bind (take_bytes 4 data) (\<lambda>(nanos, data).
     Option.bind (take_bytes 4 data) (\<lambda>(len, data).
     Option.bind (take_bytes (from_be len) data) (\<lambda>(packet, data).
       Some ((i128_from_be stamp, from_be seconds, from_be nanos, packet), data))))))"

text \<open>The rest of the loop body; \<open>stamp_ok\<close> is the range of \<open>OffsetDateTime::from_unix_timestamp_nanos\<close>.\<close>

definition load_frame ::
  "'n name_ops \<Rightarrow> 'n packet_codec \<Rightarrow> ('n entries \<Rightarrow> 'n entries) \<Rightarrow> (int \<Rightarrow> bool) \<Rightarrow> int \<Rightarrow> nat \<Rightarrow>
   int \<times> nat \<times> nat \<times> bytes \<Rightarrow> 'n entries \<Rightarrow> 'n entries" where
  "load_frame nm pc order stamp_ok now instant = (\<lambda>(stamp, seconds, nanos, packet) es.
     if MAX_PACKET < length packet \<or> \<not> stamp_ok stamp \<or> 1000000000 \<le> nanos then es
     else
       let ttl = seconds * 1000000000 + nanos in
       case wall_age stamp now of
         None \<Rightarrow> es
       | Some initial_age \<Rightarrow>
           (case pc_from_vec pc packet of
              Inl _ \<Rightarrow> es
            | Inr message \<Rightarrow>
                (case m_queries message of
                   [] \<Rightarrow> es
                 | query # _ \<Rightarrow>
                     (case cache_ttl nm query message of
                        None \<Rightarrow> es
                      | Some policy_ttl \<Rightarrow>
                          let ttl = min ttl policy_ttl in
                          if ttl \<le> initial_age then es
                          else admit nm order es (admitted_query nm query)
                                 \<lparr>ce_packet = packet, ce_ttl = ttl, ce_resolved_at = stamp,
                                  ce_admitted = instant, ce_initial_age = initial_age\<rparr> now instant))))"

fun load_frames ::
  "(int \<times> nat \<times> nat \<times> bytes \<Rightarrow> 'n entries \<Rightarrow> 'n entries) \<Rightarrow> nat \<Rightarrow> bytes \<Rightarrow> 'n entries \<Rightarrow> 'n entries" where
  "load_frames load 0 data es = es"
| "load_frames load (Suc rounds) data es =
     (case decode_frame data of
        None \<Rightarrow> es
      | Some (frame, data) \<Rightarrow> load_frames load rounds data (load frame es))"

definition disk_decode ::
  "'n name_ops \<Rightarrow> 'n packet_codec \<Rightarrow> ('n entries \<Rightarrow> 'n entries) \<Rightarrow> (int \<Rightarrow> bool) \<Rightarrow> bytes \<Rightarrow> int \<Rightarrow> nat \<Rightarrow> 'n entries" where
  "disk_decode nm pc order stamp_ok data now instant =
     (if MAX_FILE < length data \<or> \<not> starts_with MAGIC data then []
      else load_frames (load_frame nm pc order stamp_ok now instant) DNS_CACHE_CAP (drop (length MAGIC) data) [])"

text \<open>\<open>load\<close>: the file's contents, or \<open>None\<close> when it cannot be opened or read; at most \<open>MAX_FILE + 1\<close> bytes are read.\<close>

definition disk_load ::
  "'n name_ops \<Rightarrow> 'n packet_codec \<Rightarrow> ('n entries \<Rightarrow> 'n entries) \<Rightarrow> (int \<Rightarrow> bool) \<Rightarrow> bytes option \<Rightarrow> int \<Rightarrow> nat \<Rightarrow> 'n entries" where
  "disk_load nm pc order stamp_ok file now instant =
     (case file of
        None \<Rightarrow> []
      | Some contents \<Rightarrow>
          let data = take (MAX_FILE + 1) contents in
          if MAX_FILE < length data then [] else disk_decode nm pc order stamp_ok data now instant)"

section \<open>Keys\<close>

lemma name_lawsD:
  assumes "name_laws nm"
  shows "nm_same nm a a" "nm_same nm a b \<Longrightarrow> nm_same nm b a" "nm_same nm a b \<Longrightarrow> nm_same nm b c \<Longrightarrow> nm_same nm a c"
    and "nm_eq nm a b \<longleftrightarrow> nm_same nm a b \<and> (nm_is_fqdn nm a \<longleftrightarrow> nm_is_fqdn nm b)"
    and "nm_is_fqdn nm (nm_set_fqdn nm a)" "nm_same nm (nm_set_fqdn nm a) a"
proof -
  have eqv: "equivp (nm_same nm)" using assms by (simp add: name_laws_def)
  show "nm_same nm a a" by (rule equivp_reflp [OF eqv])
  show "nm_same nm a b \<Longrightarrow> nm_same nm b a" by (rule equivp_symp [OF eqv])
  show "nm_same nm a b \<Longrightarrow> nm_same nm b c \<Longrightarrow> nm_same nm a c" by (rule equivp_transp [OF eqv])
qed (use assms in \<open>auto simp: name_laws_def\<close>)

lemma query_eq_equiv:
  assumes "name_laws nm"
  shows "query_eq nm a a" "query_eq nm a b \<Longrightarrow> query_eq nm b a" "query_eq nm a b \<Longrightarrow> query_eq nm b c \<Longrightarrow> query_eq nm a c"
proof -
  show "query_eq nm a a" by (simp add: query_eq_def name_lawsD(1,4) [OF assms])
  show "query_eq nm a b \<Longrightarrow> query_eq nm b a"
    using name_lawsD(2) [OF assms] unfolding query_eq_def name_lawsD(4) [OF assms] by metis
  show "query_eq nm a b \<Longrightarrow> query_eq nm b c \<Longrightarrow> query_eq nm a c"
    using name_lawsD(3) [OF assms] unfolding query_eq_def name_lawsD(4) [OF assms] by metis
qed

text \<open>No two entries have equal keys.\<close>

definition unique_keys :: "'n name_ops \<Rightarrow> ('n query \<times> 'v) list \<Rightarrow> bool" where
  "unique_keys nm es \<longleftrightarrow> (\<forall>k. length (filter (\<lambda>p. query_eq nm (fst p) k) es) \<le> 1)"

lemma unique_keys_Nil [simp]: "unique_keys nm []"
  by (simp add: unique_keys_def)

lemma length_filter_mset_mono: "mset fs \<subseteq># mset es \<Longrightarrow> length (filter P fs) \<le> length (filter P es)"
  using size_mset_mono [OF multiset_filter_mono, of "mset fs" "mset es" P] by (simp flip: mset_filter)

lemma unique_keys_subset: "unique_keys nm es \<Longrightarrow> mset fs \<subseteq># mset es \<Longrightarrow> unique_keys nm fs"
  unfolding unique_keys_def by (meson length_filter_mset_mono le_trans)

lemma unique_keys_map: "unique_keys nm es \<longleftrightarrow> (\<forall>k. length (filter (\<lambda>a. query_eq nm a k) (map fst es)) \<le> 1)"
  unfolding unique_keys_def filter_map length_map comp_def ..

lemma unique_keys_perm: "mset fs = mset es \<Longrightarrow> unique_keys nm fs = unique_keys nm es"
  by (metis unique_keys_subset subset_mset.order_refl)

lemma unique_keys_Cons:
  assumes "name_laws nm"
  shows "unique_keys nm ((k, v) # es) \<longleftrightarrow> unique_keys nm es \<and> (\<forall>p \<in> set es. \<not> query_eq nm (fst p) k)"
proof
  assume u: "unique_keys nm ((k, v) # es)"
  have "length (filter (\<lambda>p. query_eq nm (fst p) k) ((k, v) # es)) \<le> 1"
    using u unfolding unique_keys_def by blast
  then have "filter (\<lambda>p. query_eq nm (fst p) k) es = []" by (simp add: query_eq_equiv(1) [OF assms])
  then have "\<forall>p \<in> set es. \<not> query_eq nm (fst p) k" by (simp add: filter_empty_conv)
  then show "unique_keys nm es \<and> (\<forall>p \<in> set es. \<not> query_eq nm (fst p) k)"
    using unique_keys_subset [OF u, of es] by simp
next
  assume r: "unique_keys nm es \<and> (\<forall>p \<in> set es. \<not> query_eq nm (fst p) k)"
  have "filter (\<lambda>p. query_eq nm (fst p) c) es = []" if "query_eq nm k c" for c
    using r that query_eq_equiv [OF assms] by (meson filter_False)
  then show "unique_keys nm ((k, v) # es)" using r by (auto simp: unique_keys_def)
qed

lemma remove_by_subset: "mset (remove_by P es) \<subseteq># mset es"
  by (simp add: remove_by_def)

lemma lookup_by_SomeD: "lookup_by P es = Some v \<Longrightarrow> \<exists>k. (k, v) \<in> set es \<and> P k"
  by (auto simp: lookup_by_def dest!: find_map_SomeD split: if_splits)

lemma lookup_by_None: "lookup_by P es = None \<longleftrightarrow> (\<forall>p \<in> set es. \<not> P (fst p))"
  by (induction es) (auto simp: lookup_by_def split: option.splits)

lemma lookup_by_Nil [simp]: "lookup_by P [] = None" and lookup_by_Cons:
  "lookup_by P ((k, v) # es) = (if P k then Some v else lookup_by P es)"
  by (simp_all add: lookup_by_def)

lemma remove_by_simps [simp]: "remove_by P [] = []" and remove_by_Cons:
  "remove_by P ((k, v) # es) = (if P k then remove_by P es else (k, v) # remove_by P es)"
  by (simp_all add: remove_by_def)

lemma remove_by_absent: "(\<forall>p \<in> set es. \<not> P (fst p)) \<Longrightarrow> remove_by P es = es"
  by (auto simp: remove_by_def filter_id_conv)

text \<open>With distinct keys an entry is found under any key equal to its own, and removing it removes nothing else.\<close>

lemma unique_entry:
  assumes laws: "name_laws nm" and "unique_keys nm es" "(k, e) \<in> set es" "query_eq nm c k"
  shows "lookup_by (query_eq nm c) es = Some e \<and> mset es = add_mset (k, e) (mset (remove_by (query_eq nm c) es))"
  using assms(2-4)
proof (induction es)
  case (Cons p es)
  obtain k' e' where p: "p = (k', e')" by fastforce
  have u: "unique_keys nm es" "\<forall>q \<in> set es. \<not> query_eq nm (fst q) k'"
    using Cons.prems(1) unique_keys_Cons [OF laws, of k' e' es] by (simp_all add: p)
  show ?case
  proof (cases "query_eq nm c k'")
    case True
    then have none: "\<forall>q \<in> set es. \<not> query_eq nm c (fst q)" using u(2) query_eq_equiv [OF laws] by meson
    then have "(k, e) = p" using Cons.prems by auto
    with True none show ?thesis by (simp add: p lookup_by_Cons remove_by_Cons remove_by_absent)
  next
    case False
    then have "(k, e) \<in> set es" using Cons.prems p by auto
    with Cons.IH [OF u(1)] Cons.prems False show ?thesis by (simp add: p lookup_by_Cons remove_by_Cons add_mset_commute)
  qed
qed simp

section \<open>The bounds\<close>

lemma payload_simps [simp]: "payload [] = 0" "payload ((k, e) # es) = length (ce_packet e) + payload es"
  by (simp_all add: payload_def)

lemma payload_mset: "mset es = mset fs \<Longrightarrow> payload es = payload fs"
  by (simp add: payload_def flip: sum_mset_sum_list)

lemma payload_add: "mset es = add_mset (k, e) (mset fs) \<Longrightarrow> payload es = length (ce_packet e) + payload fs"
  using payload_mset [of es "(k, e) # fs"] by simp

lemma payload_mono: "mset fs \<subseteq># mset es \<Longrightarrow> payload fs \<le> payload es"
proof -
  assume "mset fs \<subseteq># mset es"
  then obtain D where "mset es = mset fs + D" by (auto simp: mset_subset_eq_exists_conv)
  moreover obtain gs where "mset gs = D" using ex_mset by blast
  ultimately have "mset es = mset (fs @ gs)" by simp
  then have "payload es = payload (fs @ gs)" by (rule payload_mset)
  then show ?thesis by (simp add: payload_def)
qed

lemma min_by_key_None [simp]: "min_by_key f xs = None \<longleftrightarrow> xs = []"
  by (cases xs) (auto split: option.splits)

lemma min_by_key_SomeD: "min_by_key f xs = Some x \<Longrightarrow> x \<in> set xs \<and> (\<forall>y \<in> set xs. f x \<le> f y)"
proof (induction xs arbitrary: x)
  case (Cons a xs)
  show ?case
  proof (cases "min_by_key f xs")
    case None
    then show ?thesis using Cons.prems by auto
  next
    case (Some y)
    then show ?thesis using Cons.prems Cons.IH [OF Some] by (fastforce split: if_splits)
  qed
qed simp

lemma evict_subset: "mset (evict nm now instant plen rounds es bytes) \<subseteq># mset es"
proof (induction rounds arbitrary: es bytes)
  case (Suc rounds)
  show ?case
    using Suc subset_mset.order_trans [OF Suc remove_by_subset] by (auto simp: Let_def split: option.splits)
qed simp

text \<open>The loop ends with room for the new packet.\<close>

lemma evict_makes_room:
  assumes laws: "name_laws nm" and "plen \<le> MAX_PAYLOAD"
  shows "unique_keys nm es \<Longrightarrow> length es \<le> rounds \<Longrightarrow>
    length (evict nm now instant plen rounds es (payload es)) < DNS_CACHE_CAP \<and>
    payload (evict nm now instant plen rounds es (payload es)) + plen \<le> MAX_PAYLOAD"
proof (induction rounds arbitrary: es)
  case 0
  then show ?case using assms(2) by (simp add: DNS_CACHE_CAP_def)
next
  case (Suc rounds)
  show ?case
  proof (cases "min_by_key (\<lambda>(k, e). entry_remaining e now instant) es")
    case None
    then show ?thesis using assms(2) by (simp add: DNS_CACHE_CAP_def)
  next
    case (Some v)
    obtain k e where v: "v = (k, e)" by fastforce
    have "(k, e) \<in> set es" using min_by_key_SomeD [OF Some] v by simp
    from unique_entry [OF laws Suc.prems(1) this query_eq_equiv(1) [OF laws]]
    have one: "lookup_by (query_eq nm k) es = Some e" "mset es = add_mset (k, e) (mset (remove_by (query_eq nm k) es))"
      by simp_all
    have "length es = Suc (length (remove_by (query_eq nm k) es))" using one(2) by (metis size_add_mset size_mset)
    moreover have "unique_keys nm (remove_by (query_eq nm k) es)"
      using unique_keys_subset [OF Suc.prems(1) remove_by_subset] .
    ultimately show ?thesis using Suc Some v one payload_add [OF one(2)] by (auto simp: Let_def)
  qed
qed

text \<open>What the cache may hold, at any moment.\<close>

definition cache_ok :: "'n name_ops \<Rightarrow> 'n entries \<Rightarrow> bool" where
  "cache_ok nm es \<longleftrightarrow>
     unique_keys nm es \<and> length es \<le> DNS_CACHE_CAP \<and> payload es \<le> MAX_PAYLOAD \<and>
     (\<forall>(k, e) \<in> set es. nm_is_fqdn nm (q_name k) \<and> length (ce_packet e) \<le> MAX_PACKET)"

lemma cache_ok_Nil [simp]: "cache_ok nm []"
  by (simp add: cache_ok_def)

lemma cache_ok_subset: "cache_ok nm es \<Longrightarrow> mset fs \<subseteq># mset es \<Longrightarrow> cache_ok nm fs"
  unfolding cache_ok_def
  using unique_keys_subset [of nm es fs] payload_mono [of fs es] size_mset_mono [of "mset fs" "mset es"] set_mset_mono [of "mset fs" "mset es"]
  by (auto intro: le_trans)

lemma sweep_subset: "mset (sweep now instant es) \<subseteq># mset es"
  by (simp add: sweep_def)

lemma admit_ok:
  assumes laws: "name_laws nm" and perm: "\<And>es. mset (order es) = mset es" and ok: "cache_ok nm es"
    and entry: "nm_is_fqdn nm (q_name key)" "length (ce_packet entry) \<le> MAX_PACKET"
  shows "cache_ok nm (admit nm order es key entry now instant)"
proof -
  define fs where "fs = remove_by (query_eq nm key) (sweep now instant es)"
  define gs where "gs = evict nm now instant (length (ce_packet entry)) (length fs) fs (payload fs)"
  have sub: "mset gs \<subseteq># mset fs" "mset fs \<subseteq># mset es"
    using evict_subset remove_by_subset sweep_subset subset_mset.order_trans unfolding fs_def gs_def by blast+
  have okfs: "cache_ok nm fs" "cache_ok nm gs"
    using cache_ok_subset [OF ok sub(2)] cache_ok_subset [OF cache_ok_subset [OF ok sub(2)] sub(1)] .
  have "unique_keys nm fs" using okfs by (simp add: cache_ok_def)
  then have room: "length gs < DNS_CACHE_CAP" "payload gs + length (ce_packet entry) \<le> MAX_PAYLOAD"
    using evict_makes_room [OF laws, of "length (ce_packet entry)" fs "length fs" now instant] entry
    by (simp_all add: gs_def MAX_PACKET_def MAX_PAYLOAD_def)
  have "\<forall>p \<in> set fs. \<not> query_eq nm (fst p) key"
    using query_eq_equiv(2) [OF laws] by (auto simp: fs_def remove_by_def)
  then have absent: "\<forall>p \<in> set gs. \<not> query_eq nm (fst p) key" using set_mset_mono [OF sub(1)] by auto
  have "unique_keys nm ((key, entry) # gs)"
    using okfs(2) absent by (simp add: cache_ok_def unique_keys_Cons [OF laws])
  then have "cache_ok nm ((key, entry) # gs)" using okfs(2) room entry by (simp add: cache_ok_def)
  then show ?thesis
    using cache_ok_subset [of nm "(key, entry) # gs" "order ((key, entry) # gs)"] perm [of "(key, entry) # gs"]
    by (simp add: admit_def Let_def fs_def gs_def)
qed

lemma admitted_query_fqdn: "name_laws nm \<Longrightarrow> nm_is_fqdn nm (q_name (admitted_query nm query))"
  by (simp add: admitted_query_def name_laws_def)

lemma update_by_keys: "map fst (update_by P v es) = map fst es"
  by (induction P v es rule: update_by.induct) auto

lemma update_by_memD:
  "lookup_by P es = Some e \<Longrightarrow> (k, v') \<in> set (update_by P v es) \<Longrightarrow> (k, v') \<in> set es \<or> v' = v \<and> (k, e) \<in> set es"
  by (induction P v es rule: update_by.induct) (auto simp: lookup_by_Cons split: if_splits)

lemma update_by_ok:
  assumes ok: "cache_ok nm es" and e: "lookup_by P es = Some e" "ce_packet e' = ce_packet e"
  shows "cache_ok nm (update_by P e' es)"
proof -
  have "unique_keys nm (update_by P e' es)" using ok by (simp add: cache_ok_def unique_keys_map update_by_keys)
  moreover have "length (update_by P e' es) = length es" using update_by_keys by (metis length_map)
  moreover have "payload (update_by P e' es) = payload es"
    using e by (induction P e' es rule: update_by.induct) (auto simp: lookup_by_Cons split: if_splits)
  moreover have "nm_is_fqdn nm (q_name k) \<and> length (ce_packet v) \<le> MAX_PACKET" if "(k, v) \<in> set (update_by P e' es)" for k v
    using update_by_memD [OF e(1) that] ok e(2) by (auto simp: cache_ok_def)
  ultimately show ?thesis using ok by (auto simp: cache_ok_def)
qed

lemma get_at_ok: "cache_ok nm es \<Longrightarrow> cache_ok nm (snd (get_at nm pc es query now instant))"
  unfolding get_at_def
  by (auto simp: Let_def split: option.splits sum.splits intro!: update_by_ok cache_ok_subset [OF _ remove_by_subset])

lemma insert_at_ok:
  assumes "name_laws nm" "\<And>es. mset (order es) = mset es" "cache_ok nm es"
  shows "cache_ok nm (insert_at nm pc order es query answer now instant)"
  unfolding insert_at_def
  using assms admit_ok [OF assms, where key = "admitted_query nm query"] admitted_query_fqdn [OF assms(1)]
  by (auto simp: Let_def split: option.splits sum.splits)

lemma load_frame_ok:
  assumes "name_laws nm" "\<And>es. mset (order es) = mset es" "cache_ok nm es"
  shows "cache_ok nm (load_frame nm pc order stamp_ok now instant frame es)"
  unfolding load_frame_def
  using assms admit_ok [OF assms] admitted_query_fqdn [OF assms(1)]
  by (auto simp: Let_def split: option.splits sum.splits list.splits prod.splits)

lemma load_frames_ok:
  assumes "\<And>frame es. cache_ok nm es \<Longrightarrow> cache_ok nm (load frame es)"
  shows "cache_ok nm es \<Longrightarrow> cache_ok nm (load_frames load rounds data es)"
  using assms by (induction rounds arbitrary: data es) (auto split: option.splits)

lemma disk_load_ok:
  assumes "name_laws nm" "\<And>es. mset (order es) = mset es"
  shows "cache_ok nm (disk_load nm pc order stamp_ok file now instant)"
  unfolding disk_load_def disk_decode_def
  using load_frames_ok [OF load_frame_ok [OF assms]] by (auto simp: Let_def split: option.splits)

section \<open>Traces\<close>

text \<open>What is done to a cache over its life: reads, insertions and saves, each with the two clocks it read.\<close>

datatype 'n cache_op =
  GetOp "'n query" int (op_instant: nat)
| InsertOp "'n query" "'n resolved_answer" int (op_instant: nat)
| SaveOp int (op_instant: nat)

fun cache_step :: "'n name_ops \<Rightarrow> 'n packet_codec \<Rightarrow> ('n entries \<Rightarrow> 'n entries) \<Rightarrow> 'n cache_op \<Rightarrow> 'n entries \<Rightarrow> 'n entries" where
  "cache_step nm pc order (GetOp query now instant) es = snd (get_at nm pc es query now instant)"
| "cache_step nm pc order (InsertOp query answer now instant) es = insert_at nm pc order es query answer now instant"
| "cache_step nm pc order (SaveOp now instant) es = snd (save_snapshot es now instant)"

lemma cache_step_ok:
  assumes "name_laws nm" "\<And>es. mset (order es) = mset es" "cache_ok nm es"
  shows "cache_ok nm (cache_step nm pc order c es)"
  using assms insert_at_ok [OF assms] get_at_ok cache_ok_subset [OF _ sweep_subset]
  by (cases c) (auto simp: save_snapshot_def Let_def)

text \<open>
  C23: The cache stays within its bounds whatever it is fed.  Starting from any file, readable or not, and
  after any sequence of reads, insertions and saves with any clock readings, it holds at most one entry per
  question, at most 4096 entries, and packets of at most 16 MiB together, each at most 65535 bytes.
\<close>

theorem packet_cache_stays_bounded:
  assumes "name_laws nm" "\<And>es. mset (order es) = mset es"
  shows "cache_ok nm (fold (cache_step nm pc order) ops (disk_load nm pc order stamp_ok file now instant))"
proof -
  have "cache_ok nm es \<Longrightarrow> cache_ok nm (fold (cache_step nm pc order) ops es)" for es
    using cache_step_ok [OF assms] by (induction ops arbitrary: es) auto
  then show ?thesis using disk_load_ok [OF assms] by blast
qed

section \<open>Lifetimes\<close>

text \<open>
  An entry goes back to an insertion: same packet and stamp, the shorter of the two lifetimes, and an age that
  has grown at least as much as the monotonic clock since then.
\<close>

definition backed :: "'n name_ops \<Rightarrow> 'n packet_codec \<Rightarrow> 'n cache_op list \<Rightarrow> 'n query \<Rightarrow> packet_entry \<Rightarrow> bool" where
  "backed nm pc ops k e \<longleftrightarrow>
     (\<exists>query answer now0 instant0 policy age0.
        InsertOp query answer now0 instant0 \<in> set ops \<and> k = admitted_query nm query \<and>
        cache_ttl nm query (ra_message answer) = Some policy \<and> wall_age (ra_resolved_at answer) now0 = Some age0 \<and>
        pc_to_vec pc (ra_message answer) = Inr (ce_packet e) \<and> ce_ttl e = min (ra_ttl answer) policy \<and>
        ce_resolved_at e = ra_resolved_at answer \<and> instant0 \<le> ce_admitted e \<and>
        min (age0 + (ce_admitted e - instant0)) DURATION_MAX \<le> ce_initial_age e)"

lemma backed_mono: "backed nm pc ops k e \<Longrightarrow> set ops \<subseteq> set ops' \<Longrightarrow> backed nm pc ops' k e"
  unfolding backed_def by blast

lemma entry_age_ge: "min (ce_initial_age e + (instant - ce_admitted e)) DURATION_MAX \<le> entry_age e now instant"
  by (simp add: entry_age_def duration_add_def)

lemma entry_age_wall: "wall_or_zero (ce_resolved_at e) now \<le> entry_age e now instant"
  by (simp add: entry_age_def)

lemma aged_grows:
  assumes "min (age0 + (adm - instant0)) D \<le> init" "instant0 \<le> adm" "adm \<le> instant"
    "min (init + (instant - adm)) D \<le> age"
  shows "min (age0 + (instant - instant0)) D \<le> (age :: nat)"
  using assms by (auto simp: min_def split: if_splits)

lemma backed_touched:
  assumes "backed nm pc ops k e" "ce_admitted e \<le> instant"
  shows "backed nm pc ops k (e\<lparr>ce_initial_age := entry_age e now instant, ce_admitted := instant\<rparr>)"
proof -
  obtain q a n i p g where b: "InsertOp q a n i \<in> set ops" "k = admitted_query nm q"
      "cache_ttl nm q (ra_message a) = Some p" "wall_age (ra_resolved_at a) n = Some g"
      "pc_to_vec pc (ra_message a) = Inr (ce_packet e)" "ce_ttl e = min (ra_ttl a) p"
      "ce_resolved_at e = ra_resolved_at a" "i \<le> ce_admitted e"
      "min (g + (ce_admitted e - i)) DURATION_MAX \<le> ce_initial_age e"
    using assms(1) unfolding backed_def by blast
  have "min (g + (instant - i)) DURATION_MAX \<le> entry_age e now instant"
    using aged_grows [OF b(9,8) assms(2) entry_age_ge] .
  then show ?thesis
    unfolding backed_def using b assms(2)
    by (intro exI [of _ q] exI [of _ a] exI [of _ n] exI [of _ i] exI [of _ p] exI [of _ g]) simp
qed

lemma admit_memD:
  assumes "\<And>es. mset (order es) = mset es" "(k, e) \<in> set (admit nm order es key entry now instant)"
  shows "(k, e) = (key, entry) \<or> (k, e) \<in> set es"
proof -
  define fs where "fs = remove_by (query_eq nm key) (sweep now instant es)"
  define gs where "gs = evict nm now instant (length (ce_packet entry)) (length fs) fs (payload fs)"
  have "set gs \<subseteq> set es"
    using set_mset_mono [OF evict_subset, of nm now instant "length (ce_packet entry)" "length fs" fs "payload fs"]
    by (auto simp: gs_def fs_def remove_by_def sweep_def)
  moreover have "(k, e) \<in> set ((key, entry) # gs)"
    using assms mset_eq_setD [OF assms(1)] by (simp add: admit_def Let_def fs_def gs_def)
  ultimately show ?thesis by auto
qed

lemma insert_at_memD:
  assumes "\<And>es. mset (order es) = mset es" "(k, e) \<in> set (insert_at nm pc order es query answer now instant)"
  shows "(k, e) \<in> set es \<or> ce_admitted e = instant \<and> backed nm pc [InsertOp query answer now instant] k e"
proof (cases "(k, e) \<in> set es")
  case False
  then show ?thesis
    using assms(2) unfolding insert_at_def
    by (auto simp: Let_def backed_def split: option.split_asm sum.split_asm if_split_asm dest!: admit_memD [OF assms(1)])
qed simp

lemma get_at_memD:
  assumes "(k, e) \<in> set (snd (get_at nm pc es query now instant))"
  shows "(k, e) \<in> set es \<or> (\<exists>e'. (k, e') \<in> set es \<and> e = e'\<lparr>ce_initial_age := entry_age e' now instant, ce_admitted := instant\<rparr>)"
  using assms unfolding get_at_def
  by (auto simp: Let_def remove_by_def split: option.split_asm sum.split_asm if_split_asm dest!: update_by_memD)

lemma trace_backed:
  assumes "\<And>es. mset (order es) = mset es" "sorted (map op_instant ops)"
    "(k, e) \<in> set (fold (cache_step nm pc order) ops [])"
  shows "backed nm pc ops k e \<and> (\<forall>instant. (\<forall>c \<in> set ops. op_instant c \<le> instant) \<longrightarrow> ce_admitted e \<le> instant)"
  using assms(2,3)
proof (induction ops arbitrary: k e rule: rev_induct)
  case (snoc c ops)
  define es where "es = fold (cache_step nm pc order) ops []"
  have sorted: "sorted (map op_instant ops)" and last: "\<forall>c' \<in> set ops. op_instant c' \<le> op_instant c"
    using snoc.prems(1) by (auto simp: sorted_append)
  have old: "backed nm pc ops k' e'" "ce_admitted e' \<le> op_instant c" if "(k', e') \<in> set es" for k' e'
    using snoc.IH [OF sorted] that last by (auto simp: es_def)
  have "(k, e) \<in> set (cache_step nm pc order c es)" using snoc.prems(2) by (simp add: es_def)
  then have "backed nm pc (ops @ [c]) k e \<and> ce_admitted e \<le> op_instant c"
  proof (cases c)
    case (GetOp query now instant)
    then show ?thesis
      using get_at_memD [of k e nm pc es query now instant] \<open>(k, e) \<in> set (cache_step nm pc order c es)\<close> old
        backed_touched [of nm pc ops k _ instant now] backed_mono [of nm pc ops k _ "ops @ [c]"] by fastforce
  next
    case (InsertOp query answer now instant)
    then show ?thesis
      using insert_at_memD [OF assms(1), of k e nm pc es query answer now instant] \<open>(k, e) \<in> set (cache_step nm pc order c es)\<close> old
        backed_mono [of nm pc ops k e "ops @ [c]"] backed_mono [of nm pc "[c]" k e "ops @ [c]"] by auto
  next
    case (SaveOp now instant)
    then have "(k, e) \<in> set es"
      using \<open>(k, e) \<in> set (cache_step nm pc order c es)\<close> by (auto simp: save_snapshot_def Let_def sweep_def)
    then show ?thesis using old backed_mono [of nm pc ops k e "ops @ [c]"] by auto
  qed
  then show ?case by auto
qed simp

lemma cache_ttl_lt: "cache_ttl nm query message = Some d \<Longrightarrow> d < DURATION_MAX"
proof (erule cache_ttl_SomeE)
  fix terminal positive ordinary
  assume d: "d = from_secs (unat (shortest positive (negative_ttl nm query terminal message) ordinary))"
  have "unat (shortest positive (negative_ttl nm query terminal message) ordinary) < 2 ^ 32"
    using unsigned_less [of "shortest positive (negative_ttl nm query terminal message) ordinary"] by simp
  then show "d < DURATION_MAX" by (simp add: d from_secs_def DURATION_MAX_def)
qed

lemma asked_by_same: "name_laws nm \<Longrightarrow> asked_by nm q k \<Longrightarrow> same_question nm k q"
  by (auto simp: asked_by_def same_question_def query_eq_def name_lawsD(4) split: if_splits)

lemma same_question_admitted:
  assumes "name_laws nm" "same_question nm (admitted_query nm query) q"
  shows "same_question nm query q"
proof -
  have "nm_same nm (q_name query) (nm_set_fqdn nm (q_name query))" by (rule name_lawsD(2) [OF assms(1) name_lawsD(6) [OF assms(1)]])
  then show ?thesis using assms(2) name_lawsD(3) [OF assms(1)] by (auto simp: same_question_def admitted_query_def)
qed

lemma get_at_SomeD:
  assumes "get_at nm pc es query now instant = (Some answer, es')"
  obtains k e message where "(k, e) \<in> set es" "asked_by nm query k" "entry_remaining e now instant \<noteq> 0"
    "pc_from_vec pc (ce_packet e) = Inr message" "ra_resolved_at answer = now"
    "ra_ttl answer = ce_ttl e - max (duration_add (entry_age e now instant) 0) (wall_or_zero (ce_resolved_at e) now)"
    "ra_message answer =
       aged_message pc (age_seconds (max (duration_add (entry_age e now instant) 0) (wall_or_zero (ce_resolved_at e) now)))
         (normalize_negative_soa_ttl nm query message)"
proof -
  obtain e where e: "lookup_by (asked_by nm query) es = Some e"
    using assms by (auto simp: get_at_def split: option.split_asm)
  obtain k where "(k, e) \<in> set es" "asked_by nm query k" using lookup_by_SomeD [OF e] by blast
  moreover have "entry_remaining e now instant \<noteq> 0" using assms e by (auto simp: get_at_def split: if_split_asm)
  moreover obtain message where "pc_from_vec pc (ce_packet e) = Inr message"
    using assms e by (auto simp: get_at_def Let_def split: if_split_asm sum.split_asm)
  ultimately show thesis using that [of k e message] assms e
    by (auto simp: get_at_def Let_def entry_age_def [of "_\<lparr>ce_initial_age := _, ce_admitted := _\<rparr>"])
qed

text \<open>The age of a live entry does not change by reading it.\<close>

lemma age_of_live_entry:
  assumes "entry_remaining e now instant \<noteq> 0" "ce_ttl e < DURATION_MAX"
  shows "max (duration_add (entry_age e now instant) 0) (wall_or_zero (ce_resolved_at e) now) = entry_age e now instant"
  using assms entry_age_wall [of e now instant] by (simp add: entry_remaining_def duration_add_def)

text \<open>
  C21: An answer is never served beyond its lifetime, whatever the wall clock does.  After any sequence of
  operations in the order of the monotonic clock, an answer the cache gives goes back to an insertion of the
  same question: the time the packet had already spent, the monotonic time since the insertion and the
  lifetime still promised fit together into the lifetime the insertion allowed, and so do the age by the wall
  clock and the lifetime still promised.  The packet is the inserted one with every lifetime reduced by the age.
\<close>

theorem answers_are_never_served_past_their_lifetime:
  assumes laws: "name_laws nm" and perm: "\<And>es. mset (order es) = mset es"
    and mono: "sorted (map op_instant ops @ [instant])"
    and got: "get_at nm pc (fold (cache_step nm pc order) ops []) query now instant = (Some answer, es')"
  shows "0 < ra_ttl answer \<and>
    (\<exists>query0 answer0 now0 instant0 policy age0 packet message.
       InsertOp query0 answer0 now0 instant0 \<in> set ops \<and> same_question nm query0 query \<and>
       cache_ttl nm query0 (ra_message answer0) = Some policy \<and>
       wall_age (ra_resolved_at answer0) now0 = Some age0 \<and>
       age0 + (instant - instant0) + ra_ttl answer \<le> min (ra_ttl answer0) policy \<and>
       wall_or_zero (ra_resolved_at answer0) now + ra_ttl answer \<le> min (ra_ttl answer0) policy \<and>
       pc_to_vec pc (ra_message answer0) = Inr packet \<and> pc_from_vec pc packet = Inr message \<and>
       ra_message answer =
         aged_message pc (age_seconds (min (ra_ttl answer0) policy - ra_ttl answer)) (normalize_negative_soa_ttl nm query message))"
  using got
proof (rule get_at_SomeD)
  fix k e message
  let ?age = "max (duration_add (entry_age e now instant) 0) (wall_or_zero (ce_resolved_at e) now)"
  assume e: "(k, e) \<in> set (fold (cache_step nm pc order) ops [])" "asked_by nm query k"
    and live: "entry_remaining e now instant \<noteq> 0" and m: "pc_from_vec pc (ce_packet e) = Inr message"
    and ttl: "ra_ttl answer = ce_ttl e - ?age"
    and served: "ra_message answer = aged_message pc (age_seconds ?age) (normalize_negative_soa_ttl nm query message)"
  have "backed nm pc ops k e" and adm: "ce_admitted e \<le> instant"
    using trace_backed [OF perm _ e(1)] mono by (auto simp: sorted_append)
  then obtain q a n i p g where b: "InsertOp q a n i \<in> set ops" "k = admitted_query nm q"
      "cache_ttl nm q (ra_message a) = Some p" "wall_age (ra_resolved_at a) n = Some g"
      "pc_to_vec pc (ra_message a) = Inr (ce_packet e)" "ce_ttl e = min (ra_ttl a) p"
      "ce_resolved_at e = ra_resolved_at a" "i \<le> ce_admitted e"
      "min (g + (ce_admitted e - i)) DURATION_MAX \<le> ce_initial_age e"
    unfolding backed_def by blast
  have short: "ce_ttl e < DURATION_MAX" using cache_ttl_lt [OF b(3)] b(6) by simp
  note age = age_of_live_entry [OF live short]
  have lt: "entry_age e now instant < ce_ttl e" using live by (simp add: entry_remaining_def)
  have "min (g + (instant - i)) DURATION_MAX \<le> entry_age e now instant"
    using aged_grows [OF b(9,8) adm entry_age_ge] .
  then have "g + (instant - i) + ra_ttl answer \<le> ce_ttl e" using lt short ttl age by (simp add: min_def split: if_splits)
  moreover have "wall_or_zero (ra_resolved_at a) now + ra_ttl answer \<le> ce_ttl e"
    using entry_age_wall [of e now instant] lt ttl age b(7) by simp
  moreover have "same_question nm q query"
    using same_question_admitted [OF laws] asked_by_same [OF laws e(2)] b(2) by simp
  moreover have "ra_message answer =
      aged_message pc (age_seconds (ce_ttl e - ra_ttl answer)) (normalize_negative_soa_ttl nm query message)"
    using served ttl age lt by simp
  moreover have "0 < ra_ttl answer" using ttl age lt by simp
  ultimately show ?thesis using b m unfolding b(6)
    by (intro conjI exI [of _ q] exI [of _ a] exI [of _ n] exI [of _ i] exI [of _ p] exI [of _ g]
        exI [of _ "ce_packet e"] exI [of _ message]) simp_all
qed

section \<open>A concrete cache\<close>

text \<open>A codec that knows one packet, and a cache that is asked for it twenty seconds after it was inserted.\<close>

definition sample_codec :: "str packet_codec" where
  "sample_codec =
     \<lparr>pc_from_vec = (\<lambda>bs. if bs = [7, 7] then Inr sample_nodata else Inl ''unknown packet''),
      pc_to_vec = (\<lambda>m. if m = sample_nodata then Inr [7, 7] else Inl ''unknown message''),
      pc_truncate = (\<lambda>m. m), pc_eq = (=), pc_decrement_ttl = (\<lambda>ttl s. ttl - min ttl s)\<rparr>"

definition from_secs_int :: "nat \<Rightarrow> int" where
  "from_secs_int s = int (from_secs s)"

definition sample_ops :: "str cache_op list" where
  "sample_ops =
     [InsertOp sample_query \<lparr>ra_message = sample_nodata, ra_ttl = from_secs 60, ra_resolved_at = from_secs_int 1000\<rparr>
        (from_secs_int 1005) (from_secs 10),
      GetOp sample_query (from_secs_int 1010) (from_secs 15)]"

theorem packet_cache_stays_bounded_witness:
  "cache_ok text_names (fold (cache_step text_names sample_codec (\<lambda>es. es)) sample_ops
     (disk_load text_names sample_codec (\<lambda>es. es) (\<lambda>i. True) None 0 0))"
  using packet_cache_stays_bounded [OF text_names_laws, of "\<lambda>es. es"] by simp

lemma sample_get:
  "case get_at text_names sample_codec (fold (cache_step text_names sample_codec (\<lambda>es. es)) sample_ops []) sample_query
      (from_secs_int 1000) (from_secs 30) of (Some a, _) \<Rightarrow> ra_ttl a = from_secs 35 | _ \<Rightarrow> False"
  by code_simp

theorem answers_are_never_served_past_their_lifetime_witness:
  "\<exists>answer es'.
     get_at text_names sample_codec (fold (cache_step text_names sample_codec (\<lambda>es. es)) sample_ops []) sample_query
       (from_secs_int 1000) (from_secs 30) = (Some answer, es') \<and> 0 < ra_ttl answer"
proof -
  obtain answer es' where got: "get_at text_names sample_codec (fold (cache_step text_names sample_codec (\<lambda>es. es)) sample_ops [])
      sample_query (from_secs_int 1000) (from_secs 30) = (Some answer, es')"
    using sample_get by (auto split: prod.splits option.splits)
  have "sorted (map op_instant sample_ops @ [from_secs 30])" by code_simp
  then show ?thesis
    using answers_are_never_served_past_their_lifetime [OF text_names_laws _ _ got] got by auto
qed

end
