(* ===== verification/DnsCacheFile.thy ===== *)
theory DnsCacheFile
  imports DnsCache
begin

text \<open>
  The cache file of the DNS server carries the cache over a restart: what is saved is loaded back, and every
  packet keeps exactly the lifetime it had left, less the time that has passed.
\<close>

section \<open>Equal packets are cached alike\<close>

text \<open>
  The library compares names without regard to case and records without their lifetimes.  \<open>same_packet\<close> is
  what its equality guarantees of the parts the cache policy reads.
\<close>

fun same_rdata :: "'n name_ops \<Rightarrow> 'n rdata \<Rightarrow> 'n rdata \<Rightarrow> bool" where
  "same_rdata nm (DataCNAME a) d = (case d of DataCNAME b \<Rightarrow> nm_same nm a b | _ \<Rightarrow> False)"
| "same_rdata nm (DataSOA m _) d = (case d of DataSOA m' _ \<Rightarrow> m = m' | _ \<Rightarrow> False)"
| "same_rdata nm c d =
     (case d of DataCNAME _ \<Rightarrow> False | DataSOA _ _ \<Rightarrow> False | _ \<Rightarrow> record_type_of c = record_type_of d)"

definition same_record :: "'n name_ops \<Rightarrow> 'n rr \<Rightarrow> 'n rr \<Rightarrow> bool" where
  "same_record nm a b \<longleftrightarrow>
     nm_same nm (rr_name a) (rr_name b) \<and> rr_class a = rr_class b \<and> same_rdata nm (rr_data a) (rr_data b)"

definition same_packet :: "'n name_ops \<Rightarrow> 'n message \<Rightarrow> 'n message \<Rightarrow> bool" where
  "same_packet nm a b \<longleftrightarrow>
     m_metadata a = m_metadata b \<and> m_signature a = m_signature b \<and>
     list_all2 (same_question nm) (m_queries a) (m_queries b) \<and>
     list_all2 (same_record nm) (m_answers a) (m_answers b) \<and>
     list_all2 (same_record nm) (m_authorities a) (m_authorities b) \<and>
     list_all2 (same_record nm) (m_additionals a) (m_additionals b)"

definition codec_laws :: "'n name_ops \<Rightarrow> 'n packet_codec \<Rightarrow> bool" where
  "codec_laws nm pc \<longleftrightarrow> (\<forall>a b. pc_eq pc a b \<longrightarrow> same_packet nm a b)"

lemma same_rdata_type: "same_rdata nm c d \<Longrightarrow> record_type_of c = record_type_of d"
  by (cases c; cases d) auto

lemma same_record_same_name:
  assumes "name_laws nm" "same_record nm a b" "nm_same nm t u"
  shows "nm_same nm (rr_name a) t \<longleftrightarrow> nm_same nm (rr_name b) u"
  using assms name_lawsD(2,3) [OF assms(1)] unfolding same_record_def by metis

lemma positive_at_cong:
  assumes "name_laws nm" "nm_same nm t u" "q_type q = q_type r" "q_class q = q_class r"
  shows "list_all2 (same_record nm) as bs \<Longrightarrow> positive_at nm q as t = positive_at nm r bs u"
proof (induction as bs rule: list_all2_induct)
  case (Cons a as b bs)
  have "rr_type a = rr_type b" "rr_class a = rr_class b" using Cons.hyps(1) same_rdata_type by (auto simp: same_record_def)
  then show ?case
    using Cons.IH same_record_same_name [OF assms(1) Cons.hyps(1) assms(2)] assms(3,4) by (simp add: positive_at_def)
qed (simp add: positive_at_def)

lemma alias_of_cong:
  assumes "name_laws nm" "nm_same nm t u" "q_class q = q_class r"
  shows "list_all2 (same_record nm) as bs \<Longrightarrow> rel_option (nm_same nm) (alias_of nm q as t) (alias_of nm r bs u)"
proof (induction as bs rule: list_all2_induct)
  case (Cons a as b bs)
  have "rr_class a = rr_class b" "same_rdata nm (rr_data a) (rr_data b)" using Cons.hyps(1) by (auto simp: same_record_def)
  then show ?case
    using Cons.IH same_record_same_name [OF assms(1) Cons.hyps(1) assms(2)] assms(3)
    by (cases "rr_data a"; cases "rr_data b") (auto simp: alias_of_def)
qed (simp add: alias_of_def)

lemma terminal_walk_cong:
  assumes "name_laws nm" "q_type q = q_type r" "q_class q = q_class r" "list_all2 (same_record nm) as bs"
  shows "nm_same nm t u \<Longrightarrow>
    rel_option (rel_prod (nm_same nm) (=)) (terminal_walk nm q as k t) (terminal_walk nm r bs k u)"
proof (induction k arbitrary: t u)
  case (Suc k)
  show ?case
    using alias_of_cong [OF assms(1) Suc.prems assms(3,4)] positive_at_cong [OF assms(1) Suc.prems assms(2,3,4)] Suc
    by (auto elim!: option.rel_cases)
qed simp

lemma negative_soa_ttl_cong:
  assumes "name_laws nm" "nm_same nm t u" "q_class q = q_class r" "same_record nm a b" "rr_ttl a = rr_ttl b"
  shows "negative_soa_ttl nm q t a = negative_soa_ttl nm r u b"
proof -
  have "nm_zone_of nm (rr_name a) t = nm_zone_of nm (rr_name b) u"
    using assms(1,2,4) unfolding name_laws_def same_record_def by blast
  then show ?thesis
    using assms(3-5) by (cases "rr_data a"; cases "rr_data b") (auto simp: negative_soa_ttl_def same_record_def)
qed

lemma list_all2_with_ttls:
  "list_all2 (same_record nm) as bs \<Longrightarrow> map rr_ttl as = map rr_ttl bs \<Longrightarrow>
   list_all2 (\<lambda>a b. same_record nm a b \<and> rr_ttl a = rr_ttl b) as bs"
  by (induction as bs rule: list_all2_induct) auto

lemma same_packet_sections:
  assumes "same_packet nm a b" "record_ttls a = record_ttls b"
  shows "list_all2 (\<lambda>a b. same_record nm a b \<and> rr_ttl a = rr_ttl b) (m_answers a) (m_answers b)"
    and "list_all2 (\<lambda>a b. same_record nm a b \<and> rr_ttl a = rr_ttl b) (m_authorities a) (m_authorities b)"
    and "list_all2 (\<lambda>a b. same_record nm a b \<and> rr_ttl a = rr_ttl b) (m_additionals a) (m_additionals b)"
proof -
  have len: "length (m_answers a) = length (m_answers b)" "length (m_authorities a) = length (m_authorities b)"
    using assms(1) by (auto simp: same_packet_def dest: list_all2_lengthD)
  have "map rr_ttl (m_answers a) = map rr_ttl (m_answers b)" "map rr_ttl (m_authorities a) = map rr_ttl (m_authorities b)"
    "map rr_ttl (m_additionals a) = map rr_ttl (m_additionals b)"
    using assms(2) len by (auto simp: record_ttls_def append_eq_append_conv)
  then show "list_all2 (\<lambda>a b. same_record nm a b \<and> rr_ttl a = rr_ttl b) (m_answers a) (m_answers b)"
    "list_all2 (\<lambda>a b. same_record nm a b \<and> rr_ttl a = rr_ttl b) (m_authorities a) (m_authorities b)"
    "list_all2 (\<lambda>a b. same_record nm a b \<and> rr_ttl a = rr_ttl b) (m_additionals a) (m_additionals b)"
    using assms(1) by (auto simp: same_packet_def intro: list_all2_with_ttls)
qed

lemma negative_ttl_cong:
  assumes "name_laws nm" "nm_same nm t u" "q_class q = q_class r" "same_packet nm a b" "record_ttls a = record_ttls b"
  shows "negative_ttl nm q t a = negative_ttl nm r u b"
proof -
  have "List.map_filter (negative_soa_ttl nm q t) as = List.map_filter (negative_soa_ttl nm r u) bs"
    if "list_all2 (\<lambda>a b. same_record nm a b \<and> rr_ttl a = rr_ttl b) as bs" for as bs
    using that
  proof (induction as bs rule: list_all2_induct)
    case (Cons a as b bs)
    then show ?case using negative_soa_ttl_cong [OF assms(1-3), of a b]
      by (simp add: List.map_filter_simps split: option.splits)
  qed (simp add: List.map_filter_simps)
  then show ?thesis using same_packet_sections(2) [OF assms(4,5)] by (simp add: negative_ttl_def)
qed

lemma ordinary_ttl_cong:
  assumes "same_packet nm a b" "record_ttls a = record_ttls b"
  shows "ordinary_ttl a = ordinary_ttl b"
proof -
  have "map rr_ttl (filter (\<lambda>r. rr_type r \<noteq> TypeOPT) as) = map rr_ttl (filter (\<lambda>r. rr_type r \<noteq> TypeOPT) bs)"
    if "list_all2 (\<lambda>a b. same_record nm a b \<and> rr_ttl a = rr_ttl b) as bs" for as bs
    using that by (induction as bs rule: list_all2_induct) (auto simp: same_record_def dest!: same_rdata_type)
  then show ?thesis using same_packet_sections [OF assms] by (simp add: ordinary_ttl_def)
qed

lemma same_question_equiv:
  assumes "name_laws nm"
  shows "same_question nm a a" "same_question nm a b \<Longrightarrow> same_question nm b a"
    "same_question nm a b \<Longrightarrow> same_question nm b c \<Longrightarrow> same_question nm a c"
  using name_lawsD(1-3) [OF assms] unfolding same_question_def by metis+

lemma cache_ttl_cong:
  assumes laws: "name_laws nm" and q: "same_question nm q r" and p: "same_packet nm a b" "record_ttls a = record_ttls b"
  shows "cache_ttl nm q a = cache_ttl nm r b"
proof -
  have types: "q_type q = q_type r" "q_class q = q_class r" "nm_same nm (q_name q) (q_name r)"
    using q by (auto simp: same_question_def)
  have md: "m_metadata a = m_metadata b" "m_signature a = m_signature b" "length (m_queries a) = length (m_queries b)"
    and qs: "list_all2 (same_question nm) (m_queries a) (m_queries b)"
    and ans: "list_all2 (same_record nm) (m_answers a) (m_answers b)"
    using p(1) by (auto simp: same_packet_def dest: list_all2_lengthD)
  have first: "same_question nm (m_queries a ! 0) q \<longleftrightarrow> same_question nm (m_queries b ! 0) r" if "length (m_queries b) = 1"
  proof -
    have "same_question nm (m_queries a ! 0) (m_queries b ! 0)" using list_all2_nthD [OF qs] that md(3) by simp
    then show ?thesis using same_question_equiv(2,3) [OF laws] q by metis
  qed
  have "rel_option (rel_prod (nm_same nm) (=)) (terminal_answer nm q (m_answers a)) (terminal_answer nm r (m_answers b))"
    unfolding terminal_answer_def list_all2_lengthD [OF ans]
    by (rule terminal_walk_cong [OF laws types(1,2) ans types(3)])
  then show ?thesis
  proof (cases rule: option.rel_cases)
    case None
    then show ?thesis by (simp add: cache_ttl_def Let_def)
  next
    case (Some x y)
    then obtain t u pos where w: "terminal_answer nm q (m_answers a) = Some (t, pos)"
        "terminal_answer nm r (m_answers b) = Some (u, pos)" "nm_same nm t u" by (cases x; cases y) auto
    show ?thesis
      using first
      unfolding cache_ttl_def w md Let_def option.case prod.case negative_ttl_cong [OF laws w(3) types(2) p] ordinary_ttl_cong [OF p]
      by (auto simp: same_question_def)
  qed
qed

section \<open>Entries hold decodable, cacheable packets\<close>

definition entry_valid :: "'n name_ops \<Rightarrow> 'n packet_codec \<Rightarrow> 'n query \<Rightarrow> packet_entry \<Rightarrow> bool" where
  "entry_valid nm pc k e \<longleftrightarrow>
     (\<exists>m p. pc_from_vec pc (ce_packet e) = Inr m \<and> cache_ttl nm k m = Some p \<and> ce_ttl e \<le> p)"

definition entries_valid :: "'n name_ops \<Rightarrow> 'n packet_codec \<Rightarrow> 'n entries \<Rightarrow> bool" where
  "entries_valid nm pc es \<longleftrightarrow> (\<forall>(k, e) \<in> set es. entry_valid nm pc k e)"

lemma same_rdata_refl: "name_laws nm \<Longrightarrow> same_rdata nm d d"
  by (cases d) (simp_all add: name_lawsD(1))

lemma same_packet_refl: "name_laws nm \<Longrightarrow> same_packet nm m m"
  by (auto simp: same_packet_def same_record_def same_rdata_refl name_lawsD(1) same_question_equiv(1) intro!: list.rel_refl)

lemma same_question_admitted_query: "name_laws nm \<Longrightarrow> same_question nm (admitted_query nm q) q"
  by (simp add: same_question_def admitted_query_def name_lawsD(6))

lemma admit_valid:
  assumes "\<And>es. mset (order es) = mset es" "entries_valid nm pc es" "entry_valid nm pc key entry"
  shows "entries_valid nm pc (admit nm order es key entry now instant)"
  using assms(2,3) unfolding entries_valid_def by (auto dest!: admit_memD [OF assms(1)])

lemma insert_at_valid:
  assumes laws: "name_laws nm" "codec_laws nm pc" and perm: "\<And>es. mset (order es) = mset es"
    and valid: "entries_valid nm pc es"
  shows "entries_valid nm pc (insert_at nm pc order es query answer now instant)"
proof -
  have "entry_valid nm pc (admitted_query nm query)
      \<lparr>ce_packet = packet, ce_ttl = min (ra_ttl answer) policy, ce_resolved_at = r, ce_admitted = i, ce_initial_age = g\<rparr>"
    if "cache_ttl nm query (ra_message answer) = Some policy" "pc_from_vec pc packet = Inr d"
      "pc_eq pc d (ra_message answer)" "record_ttls d = record_ttls (ra_message answer)" for packet policy d r i g
    using that cache_ttl_cong [OF laws(1) same_question_admitted_query [OF laws(1)], of d "ra_message answer"] laws(2)
    by (auto simp: entry_valid_def codec_laws_def)
  then show ?thesis
    using valid admit_valid [OF perm valid]
    by (auto simp: insert_at_def Let_def split: option.split sum.split)
qed

lemma load_frame_valid:
  assumes laws: "name_laws nm" and perm: "\<And>es. mset (order es) = mset es" and valid: "entries_valid nm pc es"
  shows "entries_valid nm pc (load_frame nm pc order stamp_ok now instant frame es)"
proof -
  obtain stamp secs nanos packet where frame: "frame = (stamp, secs, nanos, packet)" by (cases frame)
  have "entry_valid nm pc (admitted_query nm query)
      \<lparr>ce_packet = packet, ce_ttl = min t policy, ce_resolved_at = stamp, ce_admitted = i, ce_initial_age = g\<rparr>"
    if "cache_ttl nm query message = Some policy" "pc_from_vec pc packet = Inr message" for query message policy t i g
    using that cache_ttl_cong [OF laws same_question_admitted_query [OF laws] same_packet_refl [OF laws] refl, of query message]
    by (auto simp: entry_valid_def)
  then show ?thesis
    using valid admit_valid [OF perm valid]
    by (auto simp: frame load_frame_def Let_def split: option.split sum.split list.split)
qed

lemma load_frames_valid:
  assumes "\<And>frame es. entries_valid nm pc es \<Longrightarrow> entries_valid nm pc (load frame es)"
  shows "entries_valid nm pc es \<Longrightarrow> entries_valid nm pc (load_frames load rounds data es)"
  using assms by (induction rounds arbitrary: data es) (auto split: option.splits)

lemma disk_load_valid:
  assumes "name_laws nm" "\<And>es. mset (order es) = mset es"
  shows "entries_valid nm pc (disk_load nm pc order stamp_ok file now instant)"
proof -
  have "entries_valid nm pc []" by (simp add: entries_valid_def)
  then show ?thesis
    unfolding disk_load_def disk_decode_def
    using load_frames_valid [OF load_frame_valid [OF assms]] by (auto simp: Let_def split: option.splits)
qed

lemma cache_step_valid:
  assumes "name_laws nm" "codec_laws nm pc" "\<And>es. mset (order es) = mset es" "entries_valid nm pc es"
  shows "entries_valid nm pc (cache_step nm pc order c es)"
proof (cases c)
  case (GetOp query now instant)
  then show ?thesis
    using assms(4) by (auto simp: entries_valid_def entry_valid_def dest!: get_at_memD)
next
  case (InsertOp query answer now instant)
  then show ?thesis using insert_at_valid [OF assms] by simp
next
  case (SaveOp now instant)
  then show ?thesis using assms(4) by (auto simp: entries_valid_def save_snapshot_def Let_def sweep_def)
qed

lemma trace_valid:
  assumes "name_laws nm" "codec_laws nm pc" "\<And>es. mset (order es) = mset es"
  shows "entries_valid nm pc es \<Longrightarrow> entries_valid nm pc (fold (cache_step nm pc order) ops es)"
  using cache_step_valid [OF assms] by (induction ops arbitrary: es) auto

lemma trace_ok:
  assumes "name_laws nm" "\<And>es. mset (order es) = mset es"
  shows "cache_ok nm es \<Longrightarrow> cache_ok nm (fold (cache_step nm pc order) ops es)"
  using cache_step_ok [OF assms] by (induction ops arbitrary: es) auto

section \<open>Frames\<close>

lemma i128_roundtrip:
  assumes "- (2 ^ 127) \<le> i" "i < 2 ^ 127"
  shows "i128_from_be (i128_to_be i) = i"
proof -
  have "nat (i mod 2 ^ 128) < 256 ^ 16" by (simp add: nat_less_iff)
  then have there: "int (from_be (i128_to_be i)) = i mod 2 ^ 128" by (simp add: i128_to_be_def del: to_be.simps)
  show ?thesis
  proof (cases "0 \<le> i")
    case True
    then have "i mod 2 ^ 128 = i" using assms by simp
    then show ?thesis using there assms by (simp add: i128_from_be_def)
  next
    case False
    have "i mod 2 ^ 128 = (i + 2 ^ 128) mod 2 ^ 128" by simp
    also have "\<dots> = i + 2 ^ 128" using False assms by (intro mod_pos_pos_trivial) simp_all
    finally show ?thesis using there assms False by (simp add: i128_from_be_def Let_def)
  qed
qed

lemma decode_frame_encode:
  assumes "- (2 ^ 127) \<le> ce_resolved_at e" "ce_resolved_at e < 2 ^ 127" "ce_ttl e < DURATION_MAX" "length (ce_packet e) \<le> MAX_PACKET"
  shows "decode_frame (encode_entry e @ rest) =
    Some ((ce_resolved_at e, ce_ttl e div 1000000000, ce_ttl e mod 1000000000, ce_packet e), rest)"
proof -
  have ranges: "ce_ttl e div 1000000000 < 256 ^ 8" "ce_ttl e mod 1000000000 < 256 ^ 4" "length (ce_packet e) < 256 ^ 4"
    using assms(3,4) by (auto simp: DURATION_MAX_def MAX_PACKET_def less_mult_imp_div_less)
  have "length (i128_to_be i) = 16" for i by (simp add: i128_to_be_def del: to_be.simps)
  then show ?thesis
    using ranges i128_roundtrip [OF assms(1,2)]
    by (simp add: decode_frame_def encode_entry_def del: to_be.simps)
qed

lemma decode_frame_Nil [simp]: "decode_frame [] = None"
  by (simp add: decode_frame_def take_bytes_def)

lemma load_frames_encoded:
  assumes "\<And>e. e \<in> set es \<Longrightarrow> - (2 ^ 127) \<le> ce_resolved_at e \<and> ce_resolved_at e < 2 ^ 127 \<and> ce_ttl e < DURATION_MAX \<and>
      length (ce_packet e) \<le> MAX_PACKET"
  shows "length es \<le> rounds \<Longrightarrow>
    load_frames load rounds (concat (map encode_entry es)) acc =
    fold (\<lambda>e. load (ce_resolved_at e, ce_ttl e div 1000000000, ce_ttl e mod 1000000000, ce_packet e)) es acc"
  using assms
proof (induction es arbitrary: rounds acc)
  case Nil
  then show ?case by (cases rounds) simp_all
next
  case (Cons e es)
  then obtain r where "rounds = Suc r" by (cases rounds) auto
  with Cons decode_frame_encode [of e "concat (map encode_entry es)"] show ?case by simp
qed

section \<open>What a restart does to an entry\<close>

text \<open>The question of an entry's packet, and the entry it becomes when it is loaded \<open>late\<close> nanoseconds after the save.\<close>

definition packet_question :: "'n packet_codec \<Rightarrow> packet_entry \<Rightarrow> 'n query" where
  "packet_question pc e = hd (m_queries (projr (pc_from_vec pc (ce_packet e))))"

definition reloaded ::
  "'n name_ops \<Rightarrow> 'n packet_codec \<Rightarrow> int \<Rightarrow> nat \<Rightarrow> int \<Rightarrow> nat \<Rightarrow> packet_entry \<Rightarrow> ('n query \<times> packet_entry) option" where
  "reloaded nm pc now instant now' instant' e =
     (if entry_remaining e now instant \<le> nat (now' - now) then None
      else Some (admitted_query nm (packet_question pc e),
        \<lparr>ce_packet = ce_packet e, ce_ttl = entry_remaining e now instant + nat (now - ce_resolved_at e),
         ce_resolved_at = ce_resolved_at e, ce_admitted = instant', ce_initial_age = nat (now' - ce_resolved_at e)\<rparr>))"

lemma snapshot_ttl:
  assumes "entry_remaining e now instant \<noteq> 0" "ce_resolved_at e \<le> now" "ce_ttl e < DURATION_MAX"
  shows "ce_ttl (snapshot_entry now instant e) = entry_remaining e now instant + nat (now - ce_resolved_at e)"
    and "entry_remaining e now instant + nat (now - ce_resolved_at e) \<le> ce_ttl e"
  using assms entry_age_wall [of e now instant]
  by (auto simp: snapshot_entry_def entry_remaining_def duration_add_def wall_or_zero_def wall_age_def)

lemma snapshot_same [simp]:
  "ce_packet (snapshot_entry now instant e) = ce_packet e"
  "ce_resolved_at (snapshot_entry now instant e) = ce_resolved_at e"
  by (simp_all add: snapshot_entry_def)

lemma entry_valid_question:
  assumes laws: "name_laws nm" and v: "entry_valid nm pc k e"
  obtains m p rest where "pc_from_vec pc (ce_packet e) = Inr m" "m_queries m = packet_question pc e # rest"
    "same_question nm (packet_question pc e) k" "cache_ttl nm (packet_question pc e) m = Some p" "ce_ttl e \<le> p"
proof -
  obtain m p where m: "pc_from_vec pc (ce_packet e) = Inr m" "cache_ttl nm k m = Some p" "ce_ttl e \<le> p"
    using v by (auto simp: entry_valid_def)
  obtain q rest where q: "m_queries m = q # rest" "same_question nm q k"
    using cache_ttl_SomeE [OF m(2)] by (metis length_0_conv nth_Cons_0 neq_Nil_conv zero_neq_one)
  then have "cache_ttl nm q m = Some p"
    using cache_ttl_cong [OF laws q(2) same_packet_refl [OF laws] refl, of m] m(2) by simp
  then show thesis using that m q by (auto simp: packet_question_def)
qed

lemma load_snapshot:
  assumes laws: "name_laws nm" and v: "entry_valid nm pc k e" and live: "entry_remaining e now instant \<noteq> 0"
    and times: "ce_resolved_at e \<le> now" "now \<le> now'" and stamp: "stamp_ok (ce_resolved_at e)"
    and len: "length (ce_packet e) \<le> MAX_PACKET"
  shows "load_frame nm pc order stamp_ok now' instant'
      (ce_resolved_at e, ce_ttl (snapshot_entry now instant e) div 1000000000,
       ce_ttl (snapshot_entry now instant e) mod 1000000000, ce_packet e) acc =
    (case reloaded nm pc now instant now' instant' e of
       None \<Rightarrow> acc
     | Some (k', e') \<Rightarrow> admit nm order acc k' e' now' instant')"
proof -
  obtain m p rest where m: "pc_from_vec pc (ce_packet e) = Inr m" "m_queries m = packet_question pc e # rest"
      "cache_ttl nm (packet_question pc e) m = Some p" "ce_ttl e \<le> p"
    using entry_valid_question [OF laws v] by metis
  have short: "ce_ttl e < DURATION_MAX" using cache_ttl_lt [OF m(3)] m(4) by simp
  note ttl = snapshot_ttl [OF live times(1) short]
  have "min (ce_ttl (snapshot_entry now instant e)) p = entry_remaining e now instant + nat (now - ce_resolved_at e)"
    using ttl m(4) by simp
  moreover have "entry_remaining e now instant + nat (now - ce_resolved_at e) \<le> nat (now' - ce_resolved_at e) \<longleftrightarrow>
      entry_remaining e now instant \<le> nat (now' - now)"
    using times by linarith
  moreover have "wall_age (ce_resolved_at e) now' = Some (nat (now' - ce_resolved_at e))" using times by (simp add: wall_age_def)
  moreover have "\<not> 1000000000 \<le> ce_ttl (snapshot_entry now instant e) mod 1000000000" by (simp add: not_le)
  ultimately show ?thesis using m len stamp by (simp add: load_frame_def reloaded_def Let_def)
qed

text \<open>An admission into a cache of live entries with room for it only adds the entry.\<close>

lemma sweep_live: "\<forall>(k, e) \<in> set es. entry_remaining e now instant \<noteq> 0 \<Longrightarrow> sweep now instant es = es"
  by (auto simp: sweep_def filter_id_conv)

lemma admit_adds:
  assumes "\<forall>(k, e) \<in> set es. entry_remaining e now instant \<noteq> 0" "\<forall>p \<in> set es. \<not> query_eq nm key (fst p)"
    "length es < DNS_CACHE_CAP" "payload es + length (ce_packet entry) \<le> MAX_PAYLOAD"
  shows "admit nm order es key entry now instant = order ((key, entry) # es)"
proof -
  have "evict nm now instant (length (ce_packet entry)) (length es) es (payload es) = es"
    using assms(3,4) by (cases es) simp_all
  then show ?thesis using sweep_live [OF assms(1)] remove_by_absent [OF assms(2)] by (simp add: admit_def)
qed

lemma reloaded_SomeD:
  assumes laws: "name_laws nm" and v: "entry_valid nm pc k e" and fq: "nm_is_fqdn nm (q_name k)"
    and times: "ce_resolved_at e \<le> now" "now \<le> now'" and short: "ce_ttl e < DURATION_MAX"
    and r: "reloaded nm pc now instant now' instant' e = Some (k', e')"
  shows "query_eq nm k' k \<and> ce_packet e' = ce_packet e \<and> ce_resolved_at e' = ce_resolved_at e \<and>
    entry_remaining e' now' instant' = entry_remaining e now instant - nat (now' - now) \<and> entry_remaining e' now' instant' \<noteq> 0"
proof -
  have "same_question nm (packet_question pc e) k" using entry_valid_question [OF laws v] by metis
  then have key: "query_eq nm (admitted_query nm (packet_question pc e)) k"
    using same_question_equiv(3) [OF laws same_question_admitted_query [OF laws]] fq admitted_query_fqdn [OF laws]
    by (auto simp: query_eq_def same_question_def name_lawsD(4) [OF laws])
  have live: "nat (now' - now) < entry_remaining e now instant" using r by (auto simp: reloaded_def split: if_splits)
  then have "entry_remaining e now instant + nat (now - ce_resolved_at e) \<le> ce_ttl e"
    using snapshot_ttl(2) [of e now instant] times(1) short by simp
  moreover have split: "nat (now' - ce_resolved_at e) = nat (now' - now) + nat (now - ce_resolved_at e)" using times by linarith
  ultimately have "min (nat (now' - ce_resolved_at e)) DURATION_MAX = nat (now' - ce_resolved_at e)" using live short by simp
  then show ?thesis
    using r key live split times
    by (auto simp: reloaded_def entry_remaining_def [of "\<lparr>ce_packet = _, ce_ttl = _, ce_resolved_at = _, ce_admitted = _, ce_initial_age = _\<rparr>"]
        entry_age_def [of "\<lparr>ce_packet = _, ce_ttl = _, ce_resolved_at = _, ce_admitted = _, ce_initial_age = _\<rparr>"]
        duration_add_def wall_or_zero_def wall_age_def)
qed

section \<open>Saving and loading\<close>

lemma unique_keys_map_filter:
  assumes laws: "name_laws nm" and "unique_keys nm es"
    and "\<And>k e k' e'. (k, e) \<in> set es \<Longrightarrow> f (k, e) = Some (k', e') \<Longrightarrow> query_eq nm k' k"
  shows "unique_keys nm (List.map_filter f es)"
  using assms(2,3)
proof (induction es)
  case (Cons p es)
  obtain k e where p: "p = (k, e)" by fastforce
  have u: "unique_keys nm es" "\<forall>q \<in> set es. \<not> query_eq nm (fst q) k"
    using Cons.prems(1) by (simp_all add: p unique_keys_Cons [OF laws])
  have IH: "unique_keys nm (List.map_filter f es)" using Cons.IH [OF u(1)] Cons.prems(2) by (meson list.set_intros(2))
  show ?case
  proof (cases "f p")
    case None
    then show ?thesis using IH by (simp add: List.map_filter_simps)
  next
    case (Some r)
    obtain k' e' where r: "r = (k', e')" by fastforce
    have kk: "query_eq nm k' k" using Cons.prems(2) [of k e k' e'] Some p r by simp
    have "\<not> query_eq nm (fst x) k'" if "x \<in> set (List.map_filter f es)" for x
    proof -
      obtain c d where cd: "(c, d) \<in> set es" "f (c, d) = Some x" using \<open>x \<in> _\<close> by (auto simp: set_map_filter_iff)
      then have "query_eq nm (fst x) c" using Cons.prems(2) [of c d "fst x" "snd x"] by simp
      then show ?thesis using u(2) cd(1) kk query_eq_equiv [OF laws] by (metis fst_conv)
    qed
    then show ?thesis using IH Some r by (simp add: List.map_filter_simps unique_keys_Cons [OF laws])
  qed
qed (simp add: List.map_filter_simps)

text \<open>Admitting the entries of a list one by one, when they all fit, leaves exactly these entries.\<close>

definition admit_all :: "'n name_ops \<Rightarrow> ('n entries \<Rightarrow> 'n entries) \<Rightarrow> int \<Rightarrow> nat \<Rightarrow> 'n entries \<Rightarrow> 'n entries \<Rightarrow> 'n entries" where
  "admit_all nm order now instant new es = fold (\<lambda>(k, e) acc. admit nm order acc k e now instant) new es"

lemma admit_all_keeps_all:
  assumes laws: "name_laws nm" and perm: "\<And>es. mset (order es) = mset es"
  shows "cache_ok nm (new @ es) \<Longrightarrow> \<forall>(k, e) \<in> set (new @ es). entry_remaining e now instant \<noteq> 0 \<Longrightarrow>
    mset (admit_all nm order now instant new es) = mset (new @ es)"
proof (induction new arbitrary: es)
  case (Cons p new)
  obtain k e where p: "p = (k, e)" by fastforce
  have ok: "cache_ok nm ((k, e) # es)"
    using cache_ok_subset [OF Cons.prems(1), of "(k, e) # es"] by (simp add: p)
  have fresh: "\<forall>q \<in> set es. \<not> query_eq nm k (fst q)"
    using ok query_eq_equiv(2) [OF laws] by (auto simp: cache_ok_def unique_keys_Cons [OF laws])
  have add: "admit nm order es k e now instant = order ((k, e) # es)"
    using ok fresh Cons.prems(2) by (intro admit_adds) (auto simp: cache_ok_def)
  have m: "mset (new @ order ((k, e) # es)) = mset ((p # new) @ es)" using perm [of "(k, e) # es"] by (simp add: p)
  then have "cache_ok nm (new @ order ((k, e) # es))" using cache_ok_subset [OF Cons.prems(1)] by simp
  moreover have "\<forall>(k, e) \<in> set (new @ order ((k, e) # es)). entry_remaining e now instant \<noteq> 0"
    using Cons.prems(2) mset_eq_setD [OF m] by blast
  ultimately show ?case using Cons.IH add m by (simp add: admit_all_def p)
qed (simp add: admit_all_def)

lemma lookup_perm:
  assumes laws: "name_laws nm" and u: "unique_keys nm es" and m: "mset fs = mset es"
  shows "lookup_by (query_eq nm q) fs = lookup_by (query_eq nm q) es"
proof (cases "lookup_by (query_eq nm q) es")
  case None
  then have "lookup_by (query_eq nm q) fs = None" using mset_eq_setD [OF m] by (simp add: lookup_by_None)
  then show ?thesis using None by simp
next
  case (Some e)
  then obtain k where k: "(k, e) \<in> set es" "query_eq nm q k" using lookup_by_SomeD by meson
  then have "lookup_by (query_eq nm q) fs = Some e"
    using unique_entry [OF laws, of fs k e q] u mset_eq_setD [OF m] unique_keys_perm [OF m] by simp
  then show ?thesis using Some by simp
qed

lemma fold_map_filter:
  "fold (\<lambda>x acc. case f x of None \<Rightarrow> acc | Some y \<Rightarrow> g y acc) xs acc = fold g (List.map_filter f xs) acc"
  by (induction xs arbitrary: acc) (auto simp: List.map_filter_simps split: option.splits)

lemma length_encode_entry: "length (encode_entry e) = 32 + length (ce_packet e)"
  by (simp add: encode_entry_def i128_to_be_def del: to_be.simps)

lemma length_encoded: "length (concat (map (\<lambda>p. encode_entry (snapshot_entry now instant (snd p))) es)) = 32 * length es + payload es"
  by (induction es) (auto simp: length_encode_entry payload_def)

text \<open>What a reachable cache guarantees at a moment when no entry is stamped in the future.\<close>

definition savable :: "'n name_ops \<Rightarrow> 'n packet_codec \<Rightarrow> (int \<Rightarrow> bool) \<Rightarrow> int \<Rightarrow> 'n entries \<Rightarrow> bool" where
  "savable nm pc stamp_ok now es \<longleftrightarrow>
     cache_ok nm es \<and> entries_valid nm pc es \<and>
     (\<forall>(k, e) \<in> set es. ce_resolved_at e \<le> now \<and> stamp_ok (ce_resolved_at e))"

lemma savable_entry:
  assumes "name_laws nm" "savable nm pc stamp_ok now es" "(k, e) \<in> set es"
  shows "nm_is_fqdn nm (q_name k)" "length (ce_packet e) \<le> MAX_PACKET" "entry_valid nm pc k e"
    "ce_resolved_at e \<le> now" "stamp_ok (ce_resolved_at e)" "ce_ttl e < DURATION_MAX"
proof -
  show v: "entry_valid nm pc k e" using assms(2,3) by (auto simp: savable_def entries_valid_def)
  obtain m p where "cache_ttl nm k m = Some p" "ce_ttl e \<le> p" using v unfolding entry_valid_def by blast
  then show "ce_ttl e < DURATION_MAX" using cache_ttl_lt le_less_trans by blast
qed (use assms(2,3) in \<open>auto simp: savable_def cache_ok_def\<close>)

lemma saved_file:
  assumes laws: "name_laws nm" and sav: "savable nm pc stamp_ok now es"
    and range: "\<And>i. stamp_ok i \<Longrightarrow> - (2 ^ 127) \<le> i \<and> i < 2 ^ 127" and later: "now \<le> now'"
  obtains contents where "disk_save (fst (save_snapshot es now instant)) = Inr contents" "length contents \<le> MAX_FILE"
    "disk_decode nm pc order stamp_ok contents now' instant' =
       admit_all nm order now' instant'
         (List.map_filter (\<lambda>p. reloaded nm pc now instant now' instant' (snd p)) (sweep now instant es)) []"
proof -
  define swept where "swept = sweep now instant es"
  define snaps where "snaps = map (\<lambda>p. snapshot_entry now instant (snd p)) swept"
  have mem: "(k, e) \<in> set es" "entry_remaining e now instant \<noteq> 0" if "(k, e) \<in> set swept" for k e
    using that by (auto simp: swept_def sweep_def)
  note good = savable_entry [OF laws sav mem(1)]
  have snaps: "fst (save_snapshot es now instant) = snaps"
    by (auto simp: save_snapshot_def Let_def snaps_def swept_def)
  have "\<not> list_ex (\<lambda>e. 2 ^ 32 \<le> length (ce_packet e)) snaps"
    using good(2) by (force simp: snaps_def list_ex_iff MAX_PACKET_def)
  then have out: "disk_save (fst (save_snapshot es now instant)) = Inr (MAGIC @ concat (map encode_entry snaps))"
    by (simp add: disk_save_def snaps)
  have ok: "cache_ok nm swept" using cache_ok_subset [OF _ sweep_subset] sav by (auto simp: savable_def swept_def)
  then have size: "length (concat (map encode_entry snaps)) \<le> MAX_PAYLOAD + DNS_CACHE_CAP * FRAME_HEADER"
    using length_encoded [of now instant swept] by (simp add: snaps_def comp_def cache_ok_def FRAME_HEADER_def)
  have each: "- (2 ^ 127) \<le> ce_resolved_at s \<and> ce_resolved_at s < 2 ^ 127 \<and> ce_ttl s < DURATION_MAX \<and>
      length (ce_packet s) \<le> MAX_PACKET" if "s \<in> set snaps" for s
  proof -
    obtain k e where ke: "(k, e) \<in> set swept" "s = snapshot_entry now instant e" using \<open>s \<in> _\<close> by (auto simp: snaps_def)
    have "ce_ttl s \<le> ce_ttl e" using ke(2) by (simp add: snapshot_entry_def)
    then show ?thesis using good [OF ke(1)] range ke(2) by simp
  qed
  have few: "length snaps \<le> DNS_CACHE_CAP" using ok by (simp add: snaps_def cache_ok_def)
  have "disk_decode nm pc order stamp_ok (MAGIC @ concat (map encode_entry snaps)) now' instant' =
      fold (\<lambda>e. load_frame nm pc order stamp_ok now' instant'
        (ce_resolved_at e, ce_ttl e div 1000000000, ce_ttl e mod 1000000000, ce_packet e)) snaps []"
    using size by (simp add: disk_decode_def MAX_FILE_def starts_with_def load_frames_encoded [OF each few])
  also have "\<dots> = fold (\<lambda>p acc. case reloaded nm pc now instant now' instant' (snd p) of
       None \<Rightarrow> acc | Some q \<Rightarrow> (\<lambda>(k', e') acc. admit nm order acc k' e' now' instant') q acc) swept []"
    unfolding snaps_def fold_map comp_def
  proof (rule fold_cong [OF refl refl])
    fix p assume "p \<in> set swept"
    then have ke: "(fst p, snd p) \<in> set swept" by simp
    show "load_frame nm pc order stamp_ok now' instant'
        (ce_resolved_at (snapshot_entry now instant (snd p)), ce_ttl (snapshot_entry now instant (snd p)) div 1000000000,
         ce_ttl (snapshot_entry now instant (snd p)) mod 1000000000, ce_packet (snapshot_entry now instant (snd p))) =
      (\<lambda>acc. case reloaded nm pc now instant now' instant' (snd p) of
         None \<Rightarrow> acc | Some q \<Rightarrow> (\<lambda>(k', e') acc. admit nm order acc k' e' now' instant') q acc)"
      using load_snapshot [of nm pc "fst p" "snd p" now instant now' stamp_ok order instant'] laws later mem(2) [OF ke] good [OF ke]
      by (auto split: option.split)
  qed
  finally have "disk_decode nm pc order stamp_ok (MAGIC @ concat (map encode_entry snaps)) now' instant' =
      admit_all nm order now' instant' (List.map_filter (\<lambda>p. reloaded nm pc now instant now' instant' (snd p)) swept) []"
    unfolding fold_map_filter admit_all_def .
  moreover have "length (MAGIC @ concat (map encode_entry snaps)) \<le> MAX_FILE" using size by (simp add: MAX_FILE_def)
  ultimately show thesis using that out by (simp add: swept_def)
qed

lemma payload_map_filter:
  assumes "\<And>p k' e'. p \<in> set es \<Longrightarrow> f p = Some (k', e') \<Longrightarrow> ce_packet e' = ce_packet (snd p)"
  shows "payload (List.map_filter f es) \<le> payload es"
  using assms
proof (induction es)
  case (Cons p es)
  have IH: "payload (List.map_filter f es) \<le> payload es" by (rule Cons.IH) (rule Cons.prems, simp_all)
  obtain k e where p: "p = (k, e)" by fastforce
  show ?case
  proof (cases "f p")
    case None
    then show ?thesis using IH by (simp add: p List.map_filter_simps)
  next
    case (Some r)
    obtain k' e' where "r = (k', e')" by fastforce
    then show ?thesis using IH Some Cons.prems [of p k' e'] by (simp add: p List.map_filter_simps)
  qed
qed (simp add: List.map_filter_simps)

lemma reloaded_entries:
  fixes instant instant' :: nat
  assumes laws: "name_laws nm" and sav: "savable nm pc stamp_ok now es" and later: "now \<le> now'"
  defines "L \<equiv> List.map_filter (\<lambda>p. reloaded nm pc now instant now' instant' (snd p)) (sweep now instant es)"
  shows "cache_ok nm L" "\<forall>(k, e) \<in> set L. entry_remaining e now' instant' \<noteq> 0"
    and "\<And>k' e'. (k', e') \<in> set L \<longleftrightarrow>
      (\<exists>k e. (k, e) \<in> set es \<and> entry_remaining e now instant \<noteq> 0 \<and> reloaded nm pc now instant now' instant' e = Some (k', e'))"
proof -
  show mem: "\<And>k' e'. (k', e') \<in> set L \<longleftrightarrow>
      (\<exists>k e. (k, e) \<in> set es \<and> entry_remaining e now instant \<noteq> 0 \<and> reloaded nm pc now instant now' instant' e = Some (k', e'))"
    by (auto simp: L_def set_map_filter_iff sweep_def)
  have fact: "query_eq nm k' k \<and> ce_packet e' = ce_packet e \<and> entry_remaining e' now' instant' \<noteq> 0"
    if "(k, e) \<in> set es" "reloaded nm pc now instant now' instant' e = Some (k', e')" for k e k' e'
    using reloaded_SomeD [OF laws savable_entry(3,1,4) [OF laws sav that(1)] later savable_entry(6) [OF laws sav that(1)] that(2)] by blast
  show "\<forall>(k, e) \<in> set L. entry_remaining e now' instant' \<noteq> 0" 
    by (auto simp: mem dest: fact)
  have ok: "cache_ok nm (sweep now instant es)" using cache_ok_subset [OF _ sweep_subset] sav by (auto simp: savable_def)
  have "unique_keys nm L"
    unfolding L_def by (rule unique_keys_map_filter [OF laws]) (use ok fact in \<open>auto simp: cache_ok_def sweep_def\<close>)
  moreover have "length L \<le> length (sweep now instant es)" unfolding L_def by (rule length_map_filter)
  moreover have "payload L \<le> payload (sweep now instant es)"
    unfolding L_def
  proof (rule payload_map_filter)
    fix p k' e' assume "p \<in> set (sweep now instant es)" "reloaded nm pc now instant now' instant' (snd p) = Some (k', e')"
    then show "ce_packet e' = ce_packet (snd p)" using fact [of "fst p" "snd p"] by (auto simp: sweep_def)
  qed
  moreover have "nm_is_fqdn nm (q_name k') \<and> length (ce_packet e') \<le> MAX_PACKET" if "(k', e') \<in> set L" for k' e'
  proof -
    obtain k e where "(k, e) \<in> set es" "query_eq nm k' k" "ce_packet e' = ce_packet e" 
      using mem [of k' e'] fact \<open>(k', e') \<in> set L\<close> by blast
    then show ?thesis using savable_entry(1,2) [OF laws sav] by (simp add: query_eq_def name_lawsD(4) [OF laws])
  qed
  ultimately show "cache_ok nm L" using ok by (auto simp: cache_ok_def)
qed

text \<open>What an entry is worth at a moment: its packet, its stamp and the lifetime it has left, if any.\<close>

definition worth :: "nat \<Rightarrow> packet_entry \<Rightarrow> int \<Rightarrow> nat \<Rightarrow> (bytes \<times> int \<times> nat) option" where
  "worth late e now instant =
     (let left = entry_remaining e now instant - late in
      if left = 0 then None else Some (ce_packet e, ce_resolved_at e, left))"

lemma worth_reloaded:
  assumes laws: "name_laws nm" and sav: "savable nm pc stamp_ok now es" and later: "now \<le> now'"
    and ke: "(k, e) \<in> set es"
  shows "(case reloaded nm pc now instant now' instant' e of None \<Rightarrow> None | Some (k', e') \<Rightarrow> worth 0 e' now' instant') =
    worth (nat (now' - now)) e now instant"
proof (cases "reloaded nm pc now instant now' instant' e")
  case None
  then show ?thesis by (auto simp: worth_def Let_def reloaded_def split: if_splits)
next
  case (Some r)
  obtain k' e' where r: "r = (k', e')" by fastforce
  show ?thesis
    using reloaded_SomeD [OF laws savable_entry(3,1,4) [OF laws sav ke] later savable_entry(6) [OF laws sav ke] Some [unfolded r]] Some r
    by (simp add: worth_def Let_def)
qed

lemma reloaded_lookup:
  fixes instant instant' :: nat
  assumes laws: "name_laws nm" and sav: "savable nm pc stamp_ok now es" and later: "now \<le> now'"
  defines "L \<equiv> List.map_filter (\<lambda>p. reloaded nm pc now instant now' instant' (snd p)) (sweep now instant es)"
  shows "Option.bind (lookup_by (query_eq nm q) L) (\<lambda>e. worth 0 e now' instant') =
    Option.bind (lookup_by (query_eq nm q) es) (\<lambda>e. worth (nat (now' - now)) e now instant)"
proof -
  note L = reloaded_entries [OF laws sav later, where instant = instant and instant' = instant', folded L_def]
  have uni: "unique_keys nm L" "unique_keys nm es" using L(1) sav by (simp_all add: cache_ok_def savable_def)
  have key: "query_eq nm k' k" if "(k, e) \<in> set es" "reloaded nm pc now instant now' instant' e = Some (k', e')" for k e k' e'
    using reloaded_SomeD [OF laws savable_entry(3,1,4) [OF laws sav that(1)] later savable_entry(6) [OF laws sav that(1)] that(2)] by blast
  show ?thesis
  proof (cases "lookup_by (query_eq nm q) L")
    case (Some e')
    then obtain k' where k': "(k', e') \<in> set L" "query_eq nm q k'" using lookup_by_SomeD by meson
    then obtain k e where ke: "(k, e) \<in> set es" "reloaded nm pc now instant now' instant' e = Some (k', e')" using L(3) by blast
    then have "query_eq nm q k" using k'(2) key query_eq_equiv(3) [OF laws] by blast
    then have "lookup_by (query_eq nm q) es = Some e" using unique_entry [OF laws uni(2) ke(1)] by blast
    then show ?thesis using Some ke worth_reloaded [OF laws sav later ke(1), where instant = instant and instant' = instant'] by simp
  next
    case None
    show ?thesis
    proof (cases "lookup_by (query_eq nm q) es")
      case (Some e)
      then obtain k where ke: "(k, e) \<in> set es" "query_eq nm q k" using lookup_by_SomeD by meson
      have "worth (nat (now' - now)) e now instant = None"
      proof (cases "reloaded nm pc now instant now' instant' e")
        case None
        then show ?thesis using worth_reloaded [OF laws sav later ke(1), where instant = instant and instant' = instant'] by simp
      next
        case (Some r)
        obtain k' e' where r: "r = (k', e')" by fastforce
        have "query_eq nm q k'" using key [OF ke(1) Some [unfolded r]] ke(2) query_eq_equiv [OF laws] by blast
        then have "(k', e') \<notin> set L" using \<open>lookup_by (query_eq nm q) L = None\<close> by (auto simp: lookup_by_None)
        then have "entry_remaining e now instant = 0" using L(3) [of k' e'] ke(1) Some r by blast
        then show ?thesis by (simp add: worth_def)
      qed
      then show ?thesis using Some None by simp
    qed (simp add: None)
  qed
qed

text \<open>
  C22: The cache survives a restart.  For a cache reached in any way, saving succeeds whatever it holds, and
  loading the file later, before the packets' stamps are in the future again, gives for every question
  exactly the packet that was there, with its stamp and with the lifetime it had left less the time that
  has passed; what has expired since is gone, and nothing else is.
\<close>

theorem cache_survives_a_restart:
  assumes laws: "name_laws nm" "codec_laws nm pc" and perm: "\<And>es. mset (order es) = mset es"
    and range: "\<And>i. stamp_ok i \<Longrightarrow> - (2 ^ 127) \<le> i \<and> i < 2 ^ 127" and later: "now \<le> now'"
    and es: "es = fold (cache_step nm pc order) ops (disk_load nm pc order stamp_ok old now0 instant0)"
    and stamps: "\<forall>(k, e) \<in> set es. ce_resolved_at e \<le> now \<and> stamp_ok (ce_resolved_at e)"
  shows "\<exists>contents. disk_save (fst (save_snapshot es now instant)) = Inr contents \<and>
    (\<forall>query. Option.bind (lookup_by (query_eq nm query) (disk_load nm pc order stamp_ok (Some contents) now' instant'))
         (\<lambda>e. worth 0 e now' instant') =
       Option.bind (lookup_by (query_eq nm query) es) (\<lambda>e. worth (nat (now' - now)) e now instant))"
proof -
  define L where "L = List.map_filter (\<lambda>p. reloaded nm pc now instant now' instant' (snd p)) (sweep now instant es)"
  have "cache_ok nm es" unfolding es by (rule trace_ok [OF laws(1) perm disk_load_ok [OF laws(1) perm]])
  moreover have "entries_valid nm pc es" unfolding es by (rule trace_valid [OF laws perm disk_load_valid [OF laws(1) perm]])
  ultimately have sav: "savable nm pc stamp_ok now es" using stamps by (simp add: savable_def)
  obtain contents where out: "disk_save (fst (save_snapshot es now instant)) = Inr contents" "length contents \<le> MAX_FILE"
      "disk_decode nm pc order stamp_ok contents now' instant' = admit_all nm order now' instant' L []"
    using saved_file [OF laws(1) sav range later] unfolding L_def by blast
  note L = reloaded_entries [OF laws(1) sav later, where instant = instant and instant' = instant', folded L_def]
  have "mset (disk_decode nm pc order stamp_ok contents now' instant') = mset L"
    using admit_all_keeps_all [OF laws(1) perm, of L "[]" now' instant'] L(1,2) out(3) by simp
  moreover have "unique_keys nm L" using L(1) by (simp add: cache_ok_def)
  ultimately have look: "lookup_by (query_eq nm q) (disk_decode nm pc order stamp_ok contents now' instant') = lookup_by (query_eq nm q) L" for q
    using lookup_perm [OF laws(1)] by blast
  have "Option.bind (lookup_by (query_eq nm q) L) (\<lambda>e. worth 0 e now' instant') =
      Option.bind (lookup_by (query_eq nm q) es) (\<lambda>e. worth (nat (now' - now)) e now instant)" for q
    unfolding L_def by (rule reloaded_lookup [OF laws(1) sav later])
  moreover have "disk_load nm pc order stamp_ok (Some contents) now' instant' = disk_decode nm pc order stamp_ok contents now' instant'"
    using out(2) by (simp add: disk_load_def)
  ultimately show ?thesis using out(1) look by simp
qed

lemma sample_codec_laws: "codec_laws text_names sample_codec"
  using same_packet_refl [OF text_names_laws] by (simp add: codec_laws_def sample_codec_def)

lemma sample_stamps:
  "\<forall>(k, e) \<in> set (fold (cache_step text_names sample_codec (\<lambda>es. es)) sample_ops (disk_load text_names sample_codec (\<lambda>es. es) (\<lambda>i. i < 2 ^ 100 \<and> 0 \<le> i) None 0 0)).
     ce_resolved_at e \<le> from_secs_int 1030 \<and> (ce_resolved_at e < 2 ^ 100 \<and> 0 \<le> ce_resolved_at e)"
  by code_simp

theorem cache_survives_a_restart_witness:
  "\<exists>contents. disk_save (fst (save_snapshot
       (fold (cache_step text_names sample_codec (\<lambda>es. es)) sample_ops (disk_load text_names sample_codec (\<lambda>es. es) (\<lambda>i. i < 2 ^ 100 \<and> 0 \<le> i) None 0 0))
       (from_secs_int 1030) (from_secs 30))) = Inr contents"
  using cache_survives_a_restart [OF text_names_laws sample_codec_laws, of "\<lambda>es. es" "\<lambda>i. i < 2 ^ 100 \<and> 0 \<le> i",
      OF _ _ _ refl sample_stamps, of "from_secs_int 1040" "from_secs 30" 0] by (auto simp: from_secs_int_def from_secs_def)

end
