(* ===== verification/DnsStatistics.thy ===== *)
theory DnsStatistics
  imports DnsMessage Text_Tokens "HOL-Library.Char_ord" "HOL-Library.List_Lexorder" "HOL-Library.Product_Lexorder"
begin

text \<open>
  The statistics of DNS questions (packages/dns-server: \<open>statistics/query_statistics.rs\<close> and
  \<open>statistics/query_statistics_store.rs\<close>): the counters, the ledger of questions per second with its window of
  thirty days, the summaries and popular questions derived from it, and the restart.

  The ledger lives in SQLite.  Its tables are lists of rows, each statement is the function of the rows its
  text describes, and whether a transaction goes through is a parameter.  Signed 64-bit columns are integers.
\<close>

section \<open>Constants and library\<close>

definition INGRESS_CAPACITY :: nat where "INGRESS_CAPACITY = 4096"
definition BATCH_CAPACITY :: nat where "BATCH_CAPACITY = 256"
definition WINDOW_SECONDS :: int where "WINDOW_SECONDS = 2592000"
definition PAGE_SIZE :: nat where "PAGE_SIZE = 128"

definition I64_MAX :: nat where "I64_MAX = 2 ^ 63 - 1"

definition i64_saturating_sub :: "int \<Rightarrow> int \<Rightarrow> int" where
  "i64_saturating_sub a b = max (- (2 ^ 63)) (min (2 ^ 63 - 1) (a - b))"

text \<open>
  Names and types of the packet library in the text and number forms stored on disk, and the timestamps the
  time library accepts.
\<close>

record 'n stat_lib =
  sl_lowercase :: "'n \<Rightarrow> 'n"
  sl_set_fqdn :: "'n \<Rightarrow> 'n"
  sl_to_ascii :: "'n \<Rightarrow> str"
  sl_from_ascii :: "str \<Rightarrow> 'n option"
  sl_type_code :: "record_type \<Rightarrow> u16"
  sl_type_of :: "u16 \<Rightarrow> record_type"
  sl_stamp_ok :: "int \<Rightarrow> bool"
  sl_rfc3339 :: "int \<Rightarrow> str"

definition normalized_name :: "'n stat_lib \<Rightarrow> 'n \<Rightarrow> str" where
  "normalized_name lib name = sl_to_ascii lib (sl_set_fqdn lib (sl_lowercase lib name))"

definition canonical_domain :: "'n stat_lib \<Rightarrow> str \<Rightarrow> bool" where
  "canonical_domain lib domain = (case sl_from_ascii lib domain of Some name \<Rightarrow> normalized_name lib name = domain | None \<Rightarrow> False)"

section \<open>Where the files are\<close>

text \<open>
  The files beside the cache file, named within its directory; the extension is what follows the last dot of a
  name that does not merely start with one.
\<close>

record statistics_paths =
  sp_database :: str
  sp_snapshot :: str

definition extension :: "str \<Rightarrow> str option" where
  "extension name =
     (let parts = split_on (CHR ''.'') name in
      if name = ''..'' \<or> length parts < 2 \<or> join ''.'' (butlast parts) = [] then None else Some (last parts))"

definition from_cache_path :: "str \<Rightarrow> statistics_paths" where
  "from_cache_path name =
     (let stem = (if extension name = Some ''dns-cache'' then take (length name - length ''.dns-cache'') name else name) in
      \<lparr>sp_database = stem @ ''.dns-query-statistics.sqlite3'', sp_snapshot = stem @ ''.dns-popular''\<rparr>)"

section \<open>Counters\<close>

record health =
  h_accepted :: nat
  h_saved :: nat
  h_expired :: nat
  h_dropped :: nat
  h_unsaved :: nat
  h_stopping :: bool
  h_admission :: u64
  h_error :: "str option"

record statistics_status =
  st_accepted :: nat
  st_saved :: nat
  st_expired :: nat
  st_dropped_full :: nat
  st_unsaved :: nat
  st_pending :: nat
  st_last_error :: "str option"

text \<open>\<open>fetch_update\<close> with \<open>saturating_add\<close> and the cap of SQLite's integers.\<close>

definition stat_add :: "nat \<Rightarrow> nat \<Rightarrow> nat" where
  "stat_add counter amount = min (min (counter + amount) (2 ^ 64 - 1)) I64_MAX"

definition health_error :: "str \<Rightarrow> health \<Rightarrow> health" where
  "health_error e h = h\<lparr>h_error := Some (take 1024 e)\<rparr>"

definition health_status :: "health \<Rightarrow> statistics_status" where
  "health_status h =
     \<lparr>st_accepted = h_accepted h, st_saved = h_saved h, st_expired = h_expired h, st_dropped_full = h_dropped h,
      st_unsaved = h_unsaved h, st_pending = h_accepted h - h_saved h - h_expired h - h_unsaved h,
      st_last_error = h_error h\<rparr>"

section \<open>Events and admission\<close>

record event =
  ev_domain :: str
  ev_rr_type :: u16
  ev_class :: u16
  ev_second :: int

definition event_of :: "'n stat_lib \<Rightarrow> 'n query \<Rightarrow> int \<Rightarrow> event" where
  "event_of lib question second =
     \<lparr>ev_domain = normalized_name lib (q_name question), ev_rr_type = sl_type_code lib (q_type question),
      ev_class = q_class question, ev_second = second\<rparr>"

definition ADMISSION_STOP :: u64 where "ADMISSION_STOP = push_bit 63 1"

text \<open>
  One round of \<open>Admission::enter\<close> on a loaded value: \<open>None\<close> when admission is refused, otherwise the value to
  exchange for.
\<close>

definition enter_next :: "u64 \<Rightarrow> u64 option" where
  "enter_next v =
     (if v AND ADMISSION_STOP \<noteq> 0 then None
      else if unat v + 1 < 2 ^ 64 \<and> (v + 1) AND ADMISSION_STOP = 0 then Some (v + 1) else None)"

datatype record_outcome = Accepted | DroppedFull | Closed

section \<open>The ledger\<close>

type_synonym ledger_key = "str \<times> u16 \<times> u16 \<times> int"

definition key_of :: "event \<Rightarrow> ledger_key" where
  "key_of e = (ev_domain e, ev_rr_type e, ev_class e, ev_second e)"

abbreviation second_of :: "ledger_key \<Rightarrow> int" where "second_of k \<equiv> snd (snd (snd k))"

text \<open>The columns of the single row of \<open>meta\<close>.\<close>

record meta =
  mt_schema_version :: int
  mt_highwater :: int
  mt_generation :: int
  mt_refreshed_at :: int
  mt_accepted :: int
  mt_saved :: int
  mt_expired :: int
  mt_dropped_full :: int
  mt_unsaved :: int
  mt_invalid_restored :: int
  mt_last_error :: "str option"

record summary_row =
  su_domain :: str
  su_count :: int
  su_refreshed_at :: int
  su_last_seen :: int

type_synonym target_key = "str \<times> u16 \<times> u16"

record db =
  db_meta :: meta
  db_rows :: "(ledger_key \<times> int) list"
  db_summary :: "summary_row list"
  db_popular :: "(int \<times> target_key \<times> int) list"

record store =
  so_db :: db
  so_highwater :: int
  so_generation :: int
  so_leases :: "int list"
  so_fault :: "str option"

text \<open>\<open>DELETE FROM query_seconds WHERE second<=cutoff OR second>highwater\<close>.\<close>

definition prune_rows :: "int \<Rightarrow> int \<Rightarrow> (ledger_key \<times> int) list \<Rightarrow> (ledger_key \<times> int) list" where
  "prune_rows cutoff highwater rows = filter (\<lambda>(k, _). \<not> (second_of k \<le> cutoff \<or> highwater < second_of k)) rows"

text \<open>
  The upsert: a sum beyond the integer range fails the column's check, so the statement fails.
\<close>

fun upsert :: "ledger_key \<Rightarrow> int \<Rightarrow> (ledger_key \<times> int) list \<Rightarrow> (str, (ledger_key \<times> int) list) result" where
  "upsert key amount [] = Inr [(key, amount)]"
| "upsert key amount ((k, c) # rows) =
     (if k = key then
        if int I64_MAX < c + amount then Inl ''CHECK constraint failed: query_seconds'' else Inr ((k, c + amount) # rows)
      else and_then (upsert key amount rows) (\<lambda>rows. Inr ((k, c) # rows)))"

fun upsert_all :: "(ledger_key \<times> int) list \<Rightarrow> (ledger_key \<times> int) list \<Rightarrow> (str, (ledger_key \<times> int) list) result" where
  "upsert_all [] rows = Inr rows"
| "upsert_all ((key, amount) # more_counts) rows = and_then (upsert key amount rows) (upsert_all more_counts)"

definition restore_totals :: "nat \<Rightarrow> nat \<Rightarrow> nat \<Rightarrow> nat \<Rightarrow> (str, nat \<times> nat) result" where
  "restore_totals accepted saved expired unsaved =
     (let completed = saved + expired + unsaved in
      if completed \<le> I64_MAX then
        let accepted = max accepted completed in Inr (accepted, accepted - saved - expired)
      else Inl ''statistics restored telemetry exceeds signed counter range'')"

definition u64_try_from :: "int \<Rightarrow> (str, nat) result" where
  "u64_try_from i = (if 0 \<le> i then Inr (nat i) else Inl ''out of range integral type conversion attempted'')"

definition i64_try_from :: "nat \<Rightarrow> (str, int) result" where
  "i64_try_from n = (if n \<le> I64_MAX then Inr (int n) else Inl ''out of range integral type conversion attempted'')"

definition checked_add :: "str \<Rightarrow> nat \<Rightarrow> nat \<Rightarrow> (str, nat) result" where
  "checked_add e a b = (if a + b < 2 ^ 64 then Inr (a + b) else Inl e)"

section \<open>Saving a batch\<close>

record batch_classes =
  bc_saved :: nat
  bc_expired :: nat
  bc_invalid :: nat

definition valid_event :: "'n stat_lib \<Rightarrow> event \<Rightarrow> bool" where
  "valid_event lib e \<longleftrightarrow>
     0 \<le> ev_second e \<and> sl_stamp_ok lib (ev_second e) \<and> length (ev_domain e) \<le> 1024 \<and> canonical_domain lib (ev_domain e)"

definition batch_highwater :: "'n stat_lib \<Rightarrow> int \<Rightarrow> event list \<Rightarrow> int" where
  "batch_highwater lib highwater events =
     fold (\<lambda>e end. max end (ev_second e)) (filter (valid_event lib) events) highwater"

definition classify_event :: "'n stat_lib \<Rightarrow> int \<Rightarrow> event \<Rightarrow> batch_classes \<times> ledger_key list \<Rightarrow> batch_classes \<times> ledger_key list" where
  "classify_event lib cutoff e = (\<lambda>(c, keys).
     if \<not> valid_event lib e then (c\<lparr>bc_invalid := bc_invalid c + 1\<rparr>, keys)
     else if ev_second e \<le> cutoff then (c\<lparr>bc_expired := bc_expired c + 1\<rparr>, keys)
     else (c\<lparr>bc_saved := bc_saved c + 1\<rparr>, keys @ [key_of e]))"

definition classify :: "'n stat_lib \<Rightarrow> int \<Rightarrow> event list \<Rightarrow> batch_classes \<times> ledger_key list" where
  "classify lib cutoff events =
     fold (classify_event lib cutoff) events (\<lparr>bc_saved = 0, bc_expired = 0, bc_invalid = 0\<rparr>, [])"

text \<open>The map of counts in the order of its keys.\<close>

definition tally :: "ledger_key list \<Rightarrow> (ledger_key \<times> int) list" where
  "tally keys = map (\<lambda>k. (k, int (count_list keys k))) (sort (remdups keys))"

definition note_invalid :: "nat \<Rightarrow> meta \<Rightarrow> meta" where
  "note_invalid invalid m =
     (if 0 < invalid then m\<lparr>mt_last_error := Some ''discarded invalid live statistics receipts''\<rparr> else m)"

text \<open>\<open>sql\<close> is the first failure of the transaction's statements or of its commit, if any.\<close>

definition save_batch ::
  "'n stat_lib \<Rightarrow> str option \<Rightarrow> store \<Rightarrow> event list \<Rightarrow> int \<Rightarrow> health \<Rightarrow> (str, store \<times> batch_classes) result" where
  "save_batch lib sql s events now health =
     (if BATCH_CAPACITY < length events then Inl ''statistics batch exceeds capacity''
      else
        let highwater = batch_highwater lib (max (so_highwater s) now) events;
            cutoff = i64_saturating_sub highwater WINDOW_SECONDS;
            (classes, keys) = classify lib cutoff events;
            db = so_db s; m = db_meta db; status = health_status health
        in and_then (upsert_all (tally keys) (prune_rows cutoff highwater (db_rows db))) (\<lambda>rows.
           and_then (u64_try_from (mt_saved m)) (\<lambda>saved.
           and_then (checked_add ''saved counter overflow'' saved (bc_saved classes)) (\<lambda>saved.
           and_then (u64_try_from (mt_expired m)) (\<lambda>expired.
           and_then (checked_add ''expired counter overflow'' expired (bc_expired classes)) (\<lambda>expired.
           and_then (checked_add ''unsaved counter overflow'' (st_unsaved status) (bc_invalid classes)) (\<lambda>unsaved.
           and_then (restore_totals (st_accepted status) saved expired unsaved) (\<lambda>(accepted, _).
           and_then (i64_try_from saved) (\<lambda>saved.
           and_then (i64_try_from expired) (\<lambda>expired.
           and_then (i64_try_from accepted) (\<lambda>accepted.
           and_then (i64_try_from (st_dropped_full status)) (\<lambda>dropped.
           and_then (i64_try_from unsaved) (\<lambda>unsaved.
             case sql of
               Some e \<Rightarrow> Inl e
             | None \<Rightarrow>
                 let m = note_invalid (bc_invalid classes)
                       (m\<lparr>mt_highwater := highwater, mt_saved := saved, mt_expired := expired, mt_accepted := accepted,
                          mt_dropped_full := dropped, mt_unsaved := unsaved\<rparr>)
                 in Inr (s\<lparr>so_db := db\<lparr>db_meta := m, db_rows := rows\<rparr>, so_highwater := highwater\<rparr>, classes))))))))))))))"

text \<open>A failed write is latched: from then on every batch is only counted as unsaved.\<close>

definition batch ::
  "'n stat_lib \<Rightarrow> str option \<Rightarrow> store \<Rightarrow> event list \<Rightarrow> int \<Rightarrow> health \<Rightarrow> store \<times> health \<times> (str, unit) result" where
  "batch lib sql s events now health =
     (if events = [] then (s, health, Inr ())
      else case so_fault s of
        Some fault \<Rightarrow> (s, health\<lparr>h_unsaved := stat_add (h_unsaved health) (length events)\<rparr>, Inl fault)
      | None \<Rightarrow>
          (case save_batch lib sql s events now health of
             Inr (s, classes) \<Rightarrow>
               let h = health\<lparr>h_saved := stat_add (h_saved health) (bc_saved classes),
                              h_expired := stat_add (h_expired health) (bc_expired classes),
                              h_unsaved := stat_add (h_unsaved health) (bc_invalid classes)\<rparr>
               in (s, if bc_invalid classes \<noteq> 0 then health_error ''discarded invalid live statistics receipts'' h else h, Inr ())
           | Inl e \<Rightarrow>
               (s\<lparr>so_fault := Some (take 1024 e)\<rparr>,
                health\<lparr>h_unsaved := stat_add (h_unsaved health) (length events)\<rparr>, Inl e)))"

section \<open>Refreshing the popular questions\<close>

definition advance :: "str option \<Rightarrow> store \<Rightarrow> int \<Rightarrow> (str, store) result" where
  "advance sql s now =
     (let highwater = max (so_highwater s) now; db = so_db s in
      case sql of
        Some e \<Rightarrow> Inl e
      | None \<Rightarrow>
          Inr (s\<lparr>so_db := db\<lparr>db_rows := prune_rows (i64_saturating_sub highwater WINDOW_SECONDS) highwater (db_rows db),
                          db_meta := (db_meta db)\<lparr>mt_highwater := highwater\<rparr>\<rparr>,
                 so_highwater := highwater\<rparr>))"

definition sum_counts :: "(ledger_key \<Rightarrow> bool) \<Rightarrow> (ledger_key \<times> int) list \<Rightarrow> int" where
  "sum_counts P rows = sum_list (map snd (filter (\<lambda>(k, _). P k) rows))"

abbreviation target_of :: "ledger_key \<Rightarrow> target_key" where
  "target_of k \<equiv> (fst k, fst (snd k), fst (snd (snd k)))"

text \<open>\<open>SELECT domain,SUM(count),highwater,MAX(second) FROM query_seconds GROUP BY domain\<close>.\<close>

definition summaries :: "int \<Rightarrow> (ledger_key \<times> int) list \<Rightarrow> summary_row list" where
  "summaries highwater rows =
     map (\<lambda>domain.
       \<lparr>su_domain = domain, su_count = sum_counts (\<lambda>k. fst k = domain) rows, su_refreshed_at = highwater,
        su_last_seen = foldr max (map (second_of \<circ> fst) (filter (\<lambda>(k, _). fst k = domain) rows)) (- (2 ^ 63))\<rparr>)
       (sort (remdups (map (fst \<circ> fst) rows)))"

text \<open>The join with the summaries of more than a hundred questions, grouped by name, type and class.\<close>

definition popular_rows :: "int \<Rightarrow> summary_row list \<Rightarrow> (ledger_key \<times> int) list \<Rightarrow> (int \<times> target_key \<times> int) list" where
  "popular_rows generation summary rows =
     (let popular = filter (\<lambda>(k, _). list_ex (\<lambda>d. su_domain d = fst k \<and> 100 < su_count d) summary) rows in
      map (\<lambda>t. (generation, t, sum_counts (\<lambda>k. target_of k = t) popular)) (sort (remdups (map (target_of \<circ> fst) popular))))"

definition completed_floor :: "meta \<Rightarrow> statistics_status \<Rightarrow> (str, nat) result" where
  "completed_floor m status =
     and_then (u64_try_from (mt_saved m)) (\<lambda>saved.
     and_then (u64_try_from (mt_expired m)) (\<lambda>expired.
     and_then (restore_totals (st_accepted status) saved expired (st_unsaved status)) (\<lambda>(accepted, _). Inr accepted)))"

text \<open>
  The failures of the statements, of the publication and of the removal after it, in order; \<open>alive\<close> tells
  which leases are still held, \<open>owner\<close> whether the sender is.
\<close>

record refresh_io =
  ri_prune :: "str option"
  ri_advance :: "str option"
  ri_sql :: "str option"
  ri_publish :: "str option"
  ri_remove :: "str option"
  ri_alive :: "int \<Rightarrow> bool"
  ri_owner :: bool

definition prune_generations :: "refresh_io \<Rightarrow> store \<Rightarrow> (str, store) result" where
  "prune_generations io s =
     (let dead = filter (\<lambda>g. \<not> ri_alive io g) (so_leases s); db = so_db s in
      case (dead, ri_prune io) of
        (_ # _, Some e) \<Rightarrow> Inl e
      | _ \<Rightarrow> Inr (s\<lparr>so_db := db\<lparr>db_popular := filter (\<lambda>(g, _). g \<notin> set dead) (db_popular db)\<rparr>,
                    so_leases := filter (ri_alive io) (so_leases s)\<rparr>))"

text \<open>The published text.\<close>

definition snapshot_text :: "'n stat_lib \<Rightarrow> summary_row list \<Rightarrow> str" where
  "snapshot_text lib summary =
     ''domain'' @ [CHR 0x09] @ ''count'' @ [CHR 0x09] @ ''refreshed_at'' @ [newline] @
     concat (map (\<lambda>d. su_domain d @ [CHR 0x09] @ show_nat (nat (su_count d)) @ [CHR 0x09] @ sl_rfc3339 lib (su_refreshed_at d) @ [newline])
       (filter (\<lambda>d. 100 < su_count d) summary))"

definition too_many_leases :: str where
  "too_many_leases = ''two statistics generations still leased; release old snapshot before refresh''"

definition refresh_tx :: "refresh_io \<Rightarrow> store \<Rightarrow> health \<Rightarrow> bool \<Rightarrow> (str, store) result" where
  "refresh_tx io s health final_refresh =
     (if int I64_MAX < so_generation s + 1 then Inl ''generation exhausted''
      else
        let generation = so_generation s + 1; db = so_db s; status = health_status health;
            summary = summaries (so_highwater s) (db_rows db);
            popular = (if final_refresh then [] else popular_rows generation summary (db_rows db))
        in if list_ex (\<lambda>d. int I64_MAX < su_count d) summary then Inl ''integer overflow''
           else
             and_then (completed_floor (db_meta db) status) (\<lambda>accepted.
             and_then (i64_try_from accepted) (\<lambda>accepted.
             and_then (i64_try_from (st_dropped_full status)) (\<lambda>dropped.
             and_then (i64_try_from (st_unsaved status)) (\<lambda>unsaved.
               case ri_sql io of
                 Some e \<Rightarrow> Inl e
               | None \<Rightarrow>
                   Inr (s\<lparr>so_db := db\<lparr>db_summary := summary, db_popular := db_popular db @ popular,
                      db_meta := (db_meta db)\<lparr>mt_generation := generation, mt_refreshed_at := so_highwater s,
                        mt_accepted := accepted, mt_dropped_full := dropped, mt_unsaved := unsaved,
                        mt_last_error := st_last_error status\<rparr>\<rparr>, so_generation := generation\<rparr>))))))"

text \<open>After the commit: the file is published and a lease handed out; a generation that was not published is removed.\<close>

definition hand_out :: "refresh_io \<Rightarrow> store \<Rightarrow> bool \<Rightarrow> store \<times> (str, int option) result" where
  "hand_out io s final_refresh =
     (let generation = so_generation s; db = so_db s in
      case ri_publish io of
        Some error \<Rightarrow>
          (case ri_remove io of
             Some e \<Rightarrow> (s, Inl e)
           | None \<Rightarrow>
               (s\<lparr>so_db := db\<lparr>db_popular := filter (\<lambda>(g, _). g \<noteq> generation) (db_popular db)\<rparr>\<rparr>, Inl error))
      | None \<Rightarrow>
          if final_refresh then (s, Inr None)
          else if \<not> ri_owner io then (s, Inl ''statistics owner closed'')
          else (s\<lparr>so_leases := so_leases s @ [generation]\<rparr>, Inr (Some generation)))"

text \<open>The store a refresh leaves, and the generation it hands out or the reason it fails.\<close>

definition store_refresh ::
  "refresh_io \<Rightarrow> store \<Rightarrow> int \<Rightarrow> health \<Rightarrow> bool \<Rightarrow> store \<times> (str, int option) result" where
  "store_refresh io s now health final_refresh =
     (case so_fault s of
        Some fault \<Rightarrow> (s, Inl fault)
      | None \<Rightarrow>
          (case prune_generations io s of
             Inl e \<Rightarrow> (s, Inl e)
           | Inr s \<Rightarrow>
               if \<not> final_refresh \<and> 2 \<le> length (so_leases s) then (s, Inl too_many_leases)
               else (case advance (ri_advance io) s now of
                  Inl e \<Rightarrow> (s, Inl e)
                | Inr s \<Rightarrow>
                    (case refresh_tx io s health final_refresh of
                       Inl e \<Rightarrow> (s, Inl e)
                     | Inr s \<Rightarrow> hand_out io s final_refresh))))"

text \<open>\<open>SELECT ... WHERE generation=g AND (domain,rr_type,class)>cursor ORDER BY ... LIMIT 128\<close>.\<close>

definition page_rows :: "store \<Rightarrow> int \<Rightarrow> target_key option \<Rightarrow> (target_key \<times> int) list" where
  "page_rows s generation after =
     (let cursor = (case after of Some c \<Rightarrow> c | None \<Rightarrow> ([], 0, 0)) in
      take PAGE_SIZE (sort_key fst (map snd (filter (\<lambda>(g, t, _). g = generation \<and> cursor < t) (db_popular (so_db s))))))"

record 'n popular_target =
  pt_question :: "'n query"
  pt_count :: nat

definition target_row :: "'n stat_lib \<Rightarrow> target_key \<times> int \<Rightarrow> (str, 'n popular_target) result" where
  "target_row lib = (\<lambda>((domain, rr_type, class), n).
     case sl_from_ascii lib domain of
       None \<Rightarrow> Inl ''malformed domain''
     | Some name \<Rightarrow>
         and_then (u64_try_from n) (\<lambda>n.
         Inr \<lparr>pt_question = \<lparr>q_name = name, q_type = sl_type_of lib rr_type, q_class = class\<rparr>, pt_count = n\<rparr>))"

definition page :: "'n stat_lib \<Rightarrow> store \<Rightarrow> int \<Rightarrow> target_key option \<Rightarrow> (str, 'n popular_target list) result" where
  "page lib s generation after = try_map (target_row lib) (page_rows s generation after)"

definition cursor_of :: "'n stat_lib \<Rightarrow> 'n popular_target \<Rightarrow> target_key" where
  "cursor_of lib t =
     (normalized_name lib (q_name (pt_question t)), sl_type_code lib (q_type (pt_question t)), q_class (pt_question t))"

definition persist_health :: "str option \<Rightarrow> store \<Rightarrow> health \<Rightarrow> (str, store) result" where
  "persist_health sql s health =
     (let status = health_status health; db = so_db s in
      and_then (completed_floor (db_meta db) status) (\<lambda>accepted.
      and_then (i64_try_from accepted) (\<lambda>accepted.
      and_then (i64_try_from (st_dropped_full status)) (\<lambda>dropped.
      and_then (i64_try_from (st_unsaved status)) (\<lambda>unsaved.
        case sql of
          Some e \<Rightarrow> Inl e
        | None \<Rightarrow>
            Inr (s\<lparr>so_db := db\<lparr>db_meta := (db_meta db)\<lparr>mt_accepted := accepted, mt_dropped_full := dropped,
              mt_unsaved := unsaved, mt_last_error := st_last_error status\<rparr>\<rparr>\<rparr>))))))"

section \<open>Opening the ledger again\<close>

text \<open>
  A stored value may have any storage class; a restored row is kept only if it is well typed, in the window
  and canonically spelled.
\<close>

datatype sql_value = SqlInt int | SqlText str | SqlOther

record raw_row =
  rr_domain :: sql_value
  rr_rr_type :: sql_value
  rr_raw_class :: sql_value
  rr_second :: sql_value
  rr_count :: sql_value

definition restore_row :: "'n stat_lib \<Rightarrow> int \<Rightarrow> int \<Rightarrow> raw_row \<Rightarrow> (ledger_key \<times> int) option" where
  "restore_row lib cutoff until r =
     (case (rr_domain r, rr_rr_type r, rr_raw_class r, rr_second r, rr_count r) of
        (SqlText domain, SqlInt ty, SqlInt class, SqlInt second, SqlInt n) \<Rightarrow>
          if length domain \<le> 1024 \<and> cutoff < second \<and> second \<le> until \<and> 0 \<le> ty \<and> ty \<le> 65535 \<and>
             0 \<le> class \<and> class \<le> 65535 \<and> 0 < n \<and> canonical_domain lib domain
          then Some ((domain, of_int ty, of_int class, second), n) else None
      | _ \<Rightarrow> None)"

definition restored_health :: "meta \<Rightarrow> (str, nat \<times> nat \<times> nat \<times> nat \<times> nat \<times> str option) result" where
  "restored_health m =
     and_then (u64_try_from (mt_accepted m)) (\<lambda>accepted.
     and_then (u64_try_from (mt_saved m)) (\<lambda>saved.
     and_then (u64_try_from (mt_dropped_full m)) (\<lambda>dropped.
     and_then (u64_try_from (mt_unsaved m)) (\<lambda>unsaved.
     and_then (u64_try_from (mt_expired m)) (\<lambda>expired.
     and_then (restore_totals accepted saved expired unsaved) (\<lambda>(accepted, unsaved).
       Inr (accepted, saved, dropped, unsaved, expired, map_option (take 1024) (mt_last_error m))))))))"

definition migrate :: "meta \<Rightarrow> meta" where
  "migrate m = (if mt_schema_version m = 1 then m\<lparr>mt_expired := 0, mt_schema_version := 2\<rparr> else m)"

definition validate_restore :: "'n stat_lib \<Rightarrow> int \<Rightarrow> int \<Rightarrow> raw_row list \<Rightarrow> meta \<Rightarrow> (ledger_key \<times> int) list \<times> meta" where
  "validate_restore lib highwater now raws m =
     (let kept = List.map_filter (restore_row lib (i64_saturating_sub highwater WINDOW_SECONDS) (min highwater now)) raws;
          invalid = int (length raws - length kept);
          m = m\<lparr>mt_invalid_restored := mt_invalid_restored m + invalid\<rparr>
      in (kept, if 0 < invalid then m\<lparr>mt_last_error := Some ''discarded invalid/expired restored rows''\<rparr> else m))"

definition store_open ::
  "'n stat_lib \<Rightarrow> str option \<Rightarrow> meta \<Rightarrow> raw_row list \<Rightarrow> summary_row list \<Rightarrow> int \<Rightarrow> (str, store) result" where
  "store_open lib sql m raws summary now =
     (if mt_schema_version m \<notin> {1, 2} \<or> mt_highwater m < 0 \<or> mt_generation m < 0 \<or> mt_refreshed_at m < 0 \<or>
         mt_highwater m < mt_refreshed_at m \<or> \<not> sl_stamp_ok lib (mt_highwater m)
      then Inl ''invalid statistics schema/highwater/generation; refusing restore''
      else if now < mt_highwater m
      then Inl ''persisted statistics highwater is in the future; restore refused until UTC catches up''
      else
        let m = migrate m in
        and_then (restored_health m) (\<lambda>_.
        if mt_invalid_restored m < 0 then Inl ''negative restored invalid-row count''
        else
          let highwater = max (mt_highwater m) now;
              (rows, m) = validate_restore lib highwater now raws m
          in advance sql
               \<lparr>so_db = \<lparr>db_meta = m, db_rows = rows, db_summary = summary, db_popular = []\<rparr>,
                so_highwater = highwater, so_generation = mt_generation m, so_leases = [], so_fault = None\<rparr> now))"

section \<open>The ledger counts what was asked\<close>

definition count_of :: "(ledger_key \<times> int) list \<Rightarrow> ledger_key \<Rightarrow> int" where
  "count_of rows k = (case map_of rows k of Some n \<Rightarrow> n | None \<Rightarrow> 0)"

text \<open>
  A well-formed ledger: one row per key, only positive counts that fit a column, only seconds of the window,
  only canonically spelled names.
\<close>

definition key_ok :: "'n stat_lib \<Rightarrow> int \<Rightarrow> ledger_key \<Rightarrow> bool" where
  "key_ok lib highwater k \<longleftrightarrow>
     highwater - WINDOW_SECONDS < second_of k \<and> second_of k \<le> highwater \<and> canonical_domain lib (fst k)"

definition ledger_ok :: "'n stat_lib \<Rightarrow> int \<Rightarrow> (ledger_key \<times> int) list \<Rightarrow> bool" where
  "ledger_ok lib highwater rows \<longleftrightarrow>
     distinct (map fst rows) \<and> list_all (\<lambda>(k, n). 0 < n \<and> n \<le> int I64_MAX \<and> key_ok lib highwater k) rows"

definition store_ok :: "'n stat_lib \<Rightarrow> store \<Rightarrow> bool" where
  "store_ok lib s \<longleftrightarrow> 0 \<le> so_highwater s \<and> so_highwater s < 2 ^ 63 \<and> mt_highwater (db_meta (so_db s)) = so_highwater s \<and>
     ledger_ok lib (so_highwater s) (db_rows (so_db s)) \<and>
     list_all (\<lambda>(g, _). g \<le> so_generation s) (db_popular (so_db s))"

definition event_fits :: "event \<Rightarrow> bool" where
  "event_fits e \<longleftrightarrow> ev_second e < 2 ^ 63"

lemma window_cutoff: "0 \<le> h \<Longrightarrow> h < 2 ^ 63 \<Longrightarrow> i64_saturating_sub h WINDOW_SECONDS = h - WINDOW_SECONDS"
  by (simp add: i64_saturating_sub_def WINDOW_SECONDS_def)

lemma upsert_counts:
  assumes "upsert key amount rows = Inr rows'" and "distinct (map fst rows)"
  shows "distinct (map fst rows') \<and> set (map fst rows') = insert key (set (map fst rows)) \<and>
    count_of rows' k = count_of rows k + (if k = key then amount else 0)"
  using assms
proof (induction key amount rows arbitrary: rows' rule: upsert.induct)
  case (2 key amount k0 c rows)
  show ?case
  proof (cases "k0 = key")
    case True
    then show ?thesis using 2 by (auto simp: count_of_def split: if_splits)
  next
    case False
    then obtain r where r: "upsert key amount rows = Inr r" "rows' = (k0, c) # r" using 2 by auto
    have d: "distinct (map fst rows)" using 2(3) by simp
    note ih = 2(1) [OF False r(1) d]
    show ?thesis using ih r(2) 2(3) False by (auto simp: count_of_def)
  qed
qed (auto simp: count_of_def)

lemma upsert_bounds:
  assumes "upsert key amount rows = Inr rows'" and "0 < amount" and "amount \<le> int I64_MAX" and "P key"
    and "list_all (\<lambda>(k, n). 0 < n \<and> n \<le> int I64_MAX \<and> P k) rows"
  shows "list_all (\<lambda>(k, n). 0 < n \<and> n \<le> int I64_MAX \<and> P k) rows'"
  using assms by (induction key amount rows arbitrary: rows' rule: upsert.induct) (auto split: if_splits)

lemma upsert_all_counts:
  assumes "upsert_all counts rows = Inr rows'" and "distinct (map fst rows)"
  shows "distinct (map fst rows') \<and> count_of rows' k = count_of rows k + sum_list (map snd (filter (\<lambda>(k', _). k' = k) counts))"
  using assms
proof (induction counts rows rule: upsert_all.induct)
  case (2 key amount counts rows)
  then obtain r where r: "upsert key amount rows = Inr r" "upsert_all counts r = Inr rows'" by auto
  from upsert_counts [OF r(1) 2(3)] 2(1) [OF r(2)] show ?case by auto
qed simp

lemma upsert_all_bounds:
  assumes "upsert_all counts rows = Inr rows'" and "list_all (\<lambda>(k, n). 0 < n \<and> n \<le> int I64_MAX \<and> P k) counts"
    and "list_all (\<lambda>(k, n). 0 < n \<and> n \<le> int I64_MAX \<and> P k) rows"
  shows "list_all (\<lambda>(k, n). 0 < n \<and> n \<le> int I64_MAX \<and> P k) rows'"
  using assms
proof (induction counts rows rule: upsert_all.induct)
  case (2 key amount counts rows)
  then obtain r where r: "upsert key amount rows = Inr r" "upsert_all counts r = Inr rows'" by auto
  have "list_all (\<lambda>(k, n). 0 < n \<and> n \<le> int I64_MAX \<and> P k) r"
    by (rule upsert_bounds [OF r(1), where P = P]) (use 2 in auto)
  then show ?case using 2 r by simp
qed simp

lemma tally_sum: "sum_list (map snd (filter (\<lambda>(k', _). k' = k) (tally keys))) = int (count_list keys k)"
proof -
  have "distinct ks \<Longrightarrow> sum_list (map snd (filter (\<lambda>(k', _). k' = k) (map (\<lambda>k. (k, int (count_list keys k))) ks)))
      = (if k \<in> set ks then int (count_list keys k) else 0)" for ks
    by (induction ks) auto
  then show ?thesis by (auto simp: tally_def count_list_0_iff)
qed

lemma count_of_prune:
  "count_of (prune_rows cutoff highwater rows) k = (if cutoff < second_of k \<and> second_of k \<le> highwater then count_of rows k else 0)"
proof -
  have "map_of (filter (\<lambda>(k, _). P k) rows) k = (if P k then map_of rows k else None)" for P
    by (induction rows) auto
  from this [of "\<lambda>k. \<not> (second_of k \<le> cutoff \<or> highwater < second_of k)"]
  show ?thesis unfolding count_of_def prune_rows_def by auto
qed

lemma prune_ledger:
  assumes "ledger_ok lib h rows" and "h \<le> h'" and "cutoff = h' - WINDOW_SECONDS"
  shows "ledger_ok lib h' (prune_rows cutoff h' rows)"
proof -
  have "distinct (map fst (filter P rows))" for P using assms(1) by (auto simp: ledger_ok_def intro: distinct_map_filter)
  then show ?thesis using assms by (auto simp: ledger_ok_def prune_rows_def list_all_iff key_ok_def)
qed

text \<open>The events of a batch that go into the ledger.\<close>

definition counted :: "'n stat_lib \<Rightarrow> int \<Rightarrow> event \<Rightarrow> bool" where
  "counted lib cutoff e \<longleftrightarrow> valid_event lib e \<and> cutoff < ev_second e"

lemma classify_fold:
  "fold (classify_event lib cutoff) events (c, keys) =
     (\<lparr>bc_saved = bc_saved c + length (filter (counted lib cutoff) events),
       bc_expired = bc_expired c + length (filter (\<lambda>e. valid_event lib e \<and> ev_second e \<le> cutoff) events),
       bc_invalid = bc_invalid c + length (filter (\<lambda>e. \<not> valid_event lib e) events)\<rparr>,
      keys @ map key_of (filter (counted lib cutoff) events))"
  by (induction events arbitrary: c keys) (auto simp: classify_event_def counted_def not_le)

lemma classify_total:
  assumes "classify lib cutoff events = (classes, keys)"
  shows "bc_saved classes + bc_expired classes + bc_invalid classes = length events \<and>
    keys = map key_of (filter (counted lib cutoff) events)"
proof -
  have "length (filter (counted lib cutoff) events) + length (filter (\<lambda>e. valid_event lib e \<and> ev_second e \<le> cutoff) events)
      + length (filter (\<lambda>e. \<not> valid_event lib e) events) = length events"
    by (induction events) (auto simp: counted_def)
  then show ?thesis using assms by (auto simp: classify_def classify_fold)
qed

lemma batch_highwater_bounds:
  "highwater \<le> batch_highwater lib highwater events \<and>
   (\<forall>e \<in> set events. valid_event lib e \<longrightarrow> ev_second e \<le> batch_highwater lib highwater events) \<and>
   (highwater < b \<longrightarrow> (\<forall>e \<in> set events. ev_second e < b) \<longrightarrow> batch_highwater lib highwater events < b)"
proof -
  have "h \<le> fold (\<lambda>e m. max m (ev_second e)) es h \<and> (\<forall>e \<in> set es. ev_second e \<le> fold (\<lambda>e m. max m (ev_second e)) es h) \<and>
      (h < b \<longrightarrow> (\<forall>e \<in> set es. ev_second e < b) \<longrightarrow> fold (\<lambda>e m. max m (ev_second e)) es h < b)" for es h
  proof (induction es arbitrary: h)
    case (Cons e es)
    from Cons [of "max h (ev_second e)"] show ?case by (auto simp: le_max_iff_disj)
  qed simp
  from this [of highwater "filter (valid_event lib) events"] show ?thesis by (auto simp: batch_highwater_def)
qed

lemma save_batch_Inr:
  assumes "save_batch lib sql s events now health = Inr (s', classes)"
  obtains keys rows where
    "classify lib (i64_saturating_sub (so_highwater s') WINDOW_SECONDS) events = (classes, keys)"
    "so_highwater s' = batch_highwater lib (max (so_highwater s) now) events"
    "upsert_all (tally keys) (prune_rows (i64_saturating_sub (so_highwater s') WINDOW_SECONDS) (so_highwater s') (db_rows (so_db s))) = Inr rows"
    "db_rows (so_db s') = rows" "mt_highwater (db_meta (so_db s')) = so_highwater s'"
    "length events \<le> BATCH_CAPACITY" "so_generation s' = so_generation s" "db_popular (so_db s') = db_popular (so_db s)"
  using assms by (auto simp: save_batch_def Let_def note_invalid_def split: if_splits prod.splits option.splits)

lemma tally_bounds:
  assumes "\<And>k. k \<in> set keys \<Longrightarrow> P k" and "length keys \<le> BATCH_CAPACITY"
  shows "list_all (\<lambda>(k, n). 0 < n \<and> n \<le> int I64_MAX \<and> P k) (tally keys)"
proof -
  have "count_list keys k \<le> I64_MAX" for k
    using count_le_length [of keys k] assms(2) by (simp add: BATCH_CAPACITY_def I64_MAX_def)
  moreover have "0 < count_list keys k" if "k \<in> set keys" for k using that count_list_0_iff by fastforce
  ultimately show ?thesis using assms(1) by (auto simp: tally_def list_all_iff)
qed

lemma count_list_keys:
  "count_list (map key_of (filter (counted lib cutoff) events)) k =
     (if cutoff < second_of k then length (filter (\<lambda>e. valid_event lib e \<and> key_of e = k) events) else 0)"
  by (induction events) (auto simp: counted_def key_of_def)

lemma save_batch_counts:
  assumes "store_ok lib s" and "save_batch lib sql s events now health = Inr (s', classes)"
    and "now < 2 ^ 63" and "list_all event_fits events"
  shows "store_ok lib s' \<and> so_highwater s \<le> so_highwater s' \<and>
    bc_saved classes + bc_expired classes + bc_invalid classes = length events \<and>
    count_of (db_rows (so_db s')) k =
      (if so_highwater s' - WINDOW_SECONDS < second_of k \<and> second_of k \<le> so_highwater s'
       then count_of (db_rows (so_db s)) k + int (length (filter (\<lambda>e. valid_event lib e \<and> key_of e = k) events)) else 0)"
proof -
  let ?h = "so_highwater s'"
  let ?c = "i64_saturating_sub ?h WINDOW_SECONDS"
  obtain keys rows where b: "classify lib ?c events = (classes, keys)"
      "?h = batch_highwater lib (max (so_highwater s) now) events"
      "upsert_all (tally keys) (prune_rows ?c ?h (db_rows (so_db s))) = Inr rows"
      "db_rows (so_db s') = rows" "mt_highwater (db_meta (so_db s')) = ?h" "length events \<le> BATCH_CAPACITY"
      "so_generation s' = so_generation s" "db_popular (so_db s') = db_popular (so_db s)"
    by (rule save_batch_Inr [OF assms(2)])
  have h: "so_highwater s \<le> ?h" "0 \<le> ?h" "?h < 2 ^ 63" and late: "\<And>e. e \<in> set events \<Longrightarrow> valid_event lib e \<Longrightarrow> ev_second e \<le> ?h"
    using assms(1,3,4) batch_highwater_bounds [of "max (so_highwater s) now" lib events "2 ^ 63"] unfolding b(2)
    by (auto simp: store_ok_def event_fits_def list_all_iff)
  note c = window_cutoff [OF h(2,3)]
  note cl = classify_total [OF b(1)]
  let ?pruned = "prune_rows ?c ?h (db_rows (so_db s))"
  have p: "ledger_ok lib ?h ?pruned" using assms(1) h(1) c by (intro prune_ledger) (auto simp: store_ok_def)
  have "key_ok lib ?h k" if "k \<in> set keys" for k
    using that cl late c by (auto simp: key_ok_def counted_def key_of_def valid_event_def)
  then have "list_all (\<lambda>(k, n). 0 < n \<and> n \<le> int I64_MAX \<and> key_ok lib ?h k) (tally keys)"
    using cl b(6) le_trans [OF length_filter_le] by (intro tally_bounds) auto
  from upsert_all_bounds [OF b(3) this] upsert_all_counts [OF b(3), of k] p
  have r: "ledger_ok lib ?h rows" "count_of rows k = count_of ?pruned k + int (count_list keys k)"
    by (auto simp: ledger_ok_def tally_sum)
  have "count_list keys k = (if ?c < second_of k \<and> second_of k \<le> ?h then length (filter (\<lambda>e. valid_event lib e \<and> key_of e = k) events) else 0)"
    using cl late by (auto simp: count_list_keys filter_empty_conv key_of_def)
  then show ?thesis using assms(1) r h b(4,5,7,8) cl c by (simp add: store_ok_def count_of_prune)
qed

text \<open>
  C28: Every recorded question is counted exactly once.  After a batch has been saved, the count of each name,
  type, class and second of the window is its former count plus the number of valid questions of the batch
  with that key; seconds outside the window are gone.  The window never moves back, every question of the
  batch is classified as saved, expired or invalid, and the ledger stays well formed.
\<close>

theorem ledger_counts_every_question:
  assumes "store_ok lib s" and "save_batch lib sql s events now health = Inr (s', classes)"
    and "now < 2 ^ 63" and "list_all event_fits events"
  shows "store_ok lib s' \<and> so_highwater s \<le> so_highwater s' \<and>
    bc_saved classes + bc_expired classes + bc_invalid classes = length events \<and>
    count_of (db_rows (so_db s')) k =
      (if so_highwater s' - WINDOW_SECONDS < second_of k \<and> second_of k \<le> so_highwater s'
       then count_of (db_rows (so_db s)) k + int (length (filter (\<lambda>e. valid_event lib e \<and> key_of e = k) events)) else 0)"
  using assms by (rule save_batch_counts)

text \<open>Names as text, for concrete evaluations.\<close>

definition text_lib :: "str stat_lib" where
  "text_lib = \<lparr>sl_lowercase = ascii_lowercase, sl_set_fqdn = (\<lambda>n. if ends_with ''.'' n then n else n @ ''.''),
     sl_to_ascii = id, sl_from_ascii = Some, sl_type_code = (\<lambda>t. case t of TypeOther c \<Rightarrow> c | _ \<Rightarrow> 1),
     sl_type_of = TypeOther, sl_stamp_ok = (\<lambda>_. True), sl_rfc3339 = (\<lambda>_. [])\<rparr>"

definition sample_meta :: meta where
  "sample_meta = \<lparr>mt_schema_version = 2, mt_highwater = 100, mt_generation = 0, mt_refreshed_at = 0, mt_accepted = 3,
     mt_saved = 3, mt_expired = 0, mt_dropped_full = 0, mt_unsaved = 0, mt_invalid_restored = 0, mt_last_error = None\<rparr>"

definition sample_store :: store where
  "sample_store = \<lparr>so_db = \<lparr>db_meta = sample_meta, db_rows = [((''a.'', 1, 1, 90), 3)], db_summary = [], db_popular = []\<rparr>,
     so_highwater = 100, so_generation = 0, so_leases = [], so_fault = None\<rparr>"

definition sample_health :: health where
  "sample_health = \<lparr>h_accepted = 5, h_saved = 3, h_expired = 0, h_dropped = 0, h_unsaved = 0, h_stopping = False,
     h_admission = 0, h_error = None\<rparr>"

definition sample_events :: "event list" where
  "sample_events = [event_of text_lib \<lparr>q_name = ''A'', q_type = TypeOther 1, q_class = 1\<rparr> 90,
     event_of text_lib \<lparr>q_name = ''b'', q_type = TypeOther 1, q_class = 1\<rparr> 120]"

theorem ledger_counts_every_question_witness:
  "\<exists>s' classes. save_batch text_lib None sample_store sample_events 110 sample_health = Inr (s', classes) \<and>
     so_highwater s' = 120 \<and> store_ok text_lib s' \<and> count_of (db_rows (so_db s')) (''a.'', 1, 1, 90) = 4"
proof -
  define r where "r = save_batch text_lib None sample_store sample_events 110 sample_health"
  have ok: "store_ok text_lib sample_store" by code_simp
  have fits: "list_all event_fits sample_events" by code_simp
  have "isl r = False" "so_highwater (fst (projr r)) = 120" unfolding r_def by code_simp+
  then obtain s' classes where r: "r = Inr (s', classes)" and h: "so_highwater s' = 120" by (cases r) auto
  have old: "count_of (db_rows (so_db sample_store)) (''a.'', 1, 1, 90) = 3"
    "int (length (filter (\<lambda>e. valid_event text_lib e \<and> key_of e = (''a.'', 1, 1, 90)) sample_events)) = 1" by code_simp+
  from ledger_counts_every_question [OF ok r [unfolded r_def] _ fits, of "(''a.'', 1, 1, 90)"] r h old
  show ?thesis unfolding r_def by (auto simp: WINDOW_SECONDS_def)
qed

section \<open>Every operation keeps the ledger well formed\<close>

lemma advance_ok:
  assumes "store_ok lib s" and "now < 2 ^ 63" and "advance sql s now = Inr s'"
  shows "store_ok lib s' \<and> so_highwater s \<le> so_highwater s' \<and> so_leases s' = so_leases s \<and> so_fault s' = so_fault s \<and>
    so_generation s' = so_generation s"
proof -
  have h: "0 \<le> max (so_highwater s) now" "max (so_highwater s) now < 2 ^ 63" using assms(1,2) by (auto simp: store_ok_def)
  have "ledger_ok lib (max (so_highwater s) now)
      (prune_rows (i64_saturating_sub (max (so_highwater s) now) WINDOW_SECONDS) (max (so_highwater s) now) (db_rows (so_db s)))"
    using assms(1) window_cutoff [OF h] by (intro prune_ledger) (auto simp: store_ok_def)
  then show ?thesis using assms h by (auto simp: advance_def store_ok_def Let_def split: option.splits)
qed

lemma prune_generations_Inr:
  assumes "prune_generations io s = Inr s'"
  shows "so_leases s' = filter (ri_alive io) (so_leases s) \<and> (store_ok lib s \<longrightarrow> store_ok lib s') \<and>
    so_highwater s' = so_highwater s \<and> so_fault s' = so_fault s \<and> so_generation s' = so_generation s"
  using assms by (auto simp: prune_generations_def Let_def store_ok_def list_all_iff split: list.splits option.splits)

lemma refresh_tx_Inr:
  assumes "refresh_tx io s health final_refresh = Inr s'"
  shows "so_generation s' = so_generation s + 1 \<and> so_leases s' = so_leases s \<and> so_highwater s' = so_highwater s \<and>
    db_rows (so_db s') = db_rows (so_db s) \<and> mt_highwater (db_meta (so_db s')) = mt_highwater (db_meta (so_db s)) \<and>
    db_popular (so_db s') = db_popular (so_db s) @
      (if final_refresh then [] else popular_rows (so_generation s + 1) (summaries (so_highwater s) (db_rows (so_db s))) (db_rows (so_db s)))"
  using assms by (auto simp: refresh_tx_def Let_def split: if_splits option.splits)

lemma refresh_tx_ok:
  assumes "store_ok lib s" and "refresh_tx io s health final_refresh = Inr s'"
  shows "store_ok lib s'"
  using assms(1) refresh_tx_Inr [OF assms(2)] by (auto simp: store_ok_def list_all_iff popular_rows_def Let_def split: if_splits)

lemma hand_out_ok: "store_ok lib s \<Longrightarrow> store_ok lib (fst (hand_out io s final_refresh))"
  by (auto simp: hand_out_def Let_def store_ok_def list_all_iff split: option.splits)

lemma store_refresh_ok:
  assumes "store_ok lib s" and "now < 2 ^ 63"
  shows "store_ok lib (fst (store_refresh io s now health final_refresh))"
proof (cases "so_fault s")
  case None
  show ?thesis
  proof (cases "prune_generations io s")
    case (Inr s1)
    then have s1: "store_ok lib s1" using prune_generations_Inr [OF Inr, of lib] assms(1) by simp
    show ?thesis
    proof (cases "advance (ri_advance io) s1 now")
      case adv: (Inr s2)
      then have s2: "store_ok lib s2" using advance_ok [OF s1 assms(2)] by simp
      show ?thesis using None Inr adv s1 s2 refresh_tx_ok [OF s2, of io health final_refresh]
        by (cases "refresh_tx io s2 health final_refresh") (simp_all add: store_refresh_def hand_out_ok)
    qed (use None Inr s1 in \<open>simp add: store_refresh_def\<close>)
  qed (use None assms in \<open>simp add: store_refresh_def\<close>)
qed (use assms in \<open>simp add: store_refresh_def\<close>)

text \<open>The primary key of a stored row, and the range of its integers.\<close>

definition raw_key :: "raw_row \<Rightarrow> sql_value \<times> sql_value \<times> sql_value \<times> sql_value" where
  "raw_key r = (rr_domain r, rr_rr_type r, rr_raw_class r, rr_second r)"

definition fits_column :: "sql_value \<Rightarrow> bool" where
  "fits_column v = (case v of SqlInt i \<Rightarrow> - (2 ^ 63) \<le> i \<and> i < 2 ^ 63 | _ \<Rightarrow> True)"

lemma restore_row_Some:
  assumes "restore_row lib cutoff until r = Some (k, n)"
  shows "raw_key r = (SqlText (fst k), SqlInt (uint (fst (snd k))), SqlInt (uint (fst (snd (snd k)))), SqlInt (second_of k)) \<and>
    rr_count r = SqlInt n \<and> 0 < n \<and> cutoff < second_of k \<and> second_of k \<le> until \<and> canonical_domain lib (fst k)"
proof -
  have "uint (of_int i :: u16) = i" if "0 \<le> i" "i \<le> 65535" for i
    using that by (simp add: unsigned_of_int take_bit_int_eq_self)
  then show ?thesis using assms by (auto simp: restore_row_def raw_key_def split: sql_value.splits if_splits)
qed

lemma restored_rows_distinct:
  assumes "distinct (map raw_key raws)"
  shows "distinct (map fst (List.map_filter (restore_row lib cutoff until) raws))"
  using assms
proof (induction raws)
  case (Cons r raws)
  have "k \<notin> fst ` set (List.map_filter (restore_row lib cutoff until) raws)" if k: "restore_row lib cutoff until r = Some (k, n)" for k n
  proof
    assume "k \<in> fst ` set (List.map_filter (restore_row lib cutoff until) raws)"
    then obtain r' n' where r': "r' \<in> set raws" "restore_row lib cutoff until r' = Some (k, n')"
      by (auto simp: List.map_filter_def)
    then have "raw_key r' = raw_key r" using restore_row_Some [OF k] restore_row_Some [OF r'(2)] by simp
    then show False using Cons.prems r'(1) by (metis distinct.simps(2) image_eqI list.set_map list.simps(9))
  qed
  then show ?case using Cons by (auto simp: List.map_filter_simps split: option.splits)
qed (simp add: List.map_filter_simps)

lemma store_open_ok:
  assumes "store_open lib sql m raws summary now = Inr s" and "now < 2 ^ 63" and "distinct (map raw_key raws)"
    and "list_all (fits_column \<circ> rr_count) raws"
  shows "store_ok lib s \<and> mt_highwater m \<le> so_highwater s"
proof -
  define highwater where "highwater = max (mt_highwater m) now"
  define kept where "kept = List.map_filter (restore_row lib (i64_saturating_sub highwater WINDOW_SECONDS) (min highwater now)) raws"
  obtain rows m2 where v: "validate_restore lib highwater now raws (migrate m) = (rows, m2)" by fastforce
  have mm: "mt_highwater (migrate m) = mt_highwater m" "mt_highwater m2 = mt_highwater m" "rows = kept"
    using v by (auto simp: migrate_def validate_restore_def kept_def Let_def split: if_splits)
  have h: "0 \<le> mt_highwater m" "mt_highwater m \<le> now" "highwater = now"
    and adv: "advance sql \<lparr>so_db = \<lparr>db_meta = m2, db_rows = kept, db_summary = summary, db_popular = []\<rparr>,
        so_highwater = now, so_generation = mt_generation m2, so_leases = [], so_fault = None\<rparr> now = Inr s"
    using assms(1) v mm unfolding store_open_def Let_def highwater_def
    by (auto simp: not_less split: if_splits)
  have "list_all (\<lambda>(k, n). 0 < n \<and> n \<le> int I64_MAX \<and> key_ok lib now k) kept"
    using assms(2,4) h window_cutoff [of now] restore_row_Some [where lib = lib]
    by (fastforce simp: kept_def list_all_iff List.map_filter_def key_ok_def I64_MAX_def fits_column_def)
  then have led: "ledger_ok lib now kept"
    using restored_rows_distinct [OF assms(3)] by (simp add: ledger_ok_def kept_def)
  then have "ledger_ok lib now (prune_rows (i64_saturating_sub now WINDOW_SECONDS) now kept)"
    using h assms(2) window_cutoff [of now] by (intro prune_ledger [OF led]) auto
  then show ?thesis using adv h assms(2) by (auto simp: advance_def store_ok_def Let_def split: option.splits)
qed

section \<open>Which questions are popular\<close>

definition domain_total :: "(ledger_key \<times> int) list \<Rightarrow> str \<Rightarrow> int" where
  "domain_total rows domain = sum_counts (\<lambda>k. fst k = domain) rows"

definition is_popular :: "(ledger_key \<times> int) list \<Rightarrow> target_key \<Rightarrow> bool" where
  "is_popular rows t \<longleftrightarrow> t \<in> (target_of \<circ> fst) ` set rows \<and> 100 < domain_total rows (fst t)"

lemma summaries_hit:
  "list_ex (\<lambda>d. su_domain d = x \<and> 100 < su_count d) (summaries h rows) \<longleftrightarrow>
     x \<in> (fst \<circ> fst) ` set rows \<and> 100 < domain_total rows x"
  by (auto simp: list_ex_iff summaries_def domain_total_def)

lemma popular_rows_spec:
  "set (popular_rows g (summaries h rows) rows) =
     {(g, t, sum_counts (\<lambda>k. target_of k = t) rows) | t. is_popular rows t}"
  "distinct (map (fst \<circ> snd) (popular_rows g (summaries h rows) rows))"
proof -
  define hot where "hot = filter (\<lambda>(k, _). list_ex (\<lambda>d. su_domain d = fst k \<and> 100 < su_count d) (summaries h rows)) rows"
  have hot: "x \<in> set hot \<longleftrightarrow> x \<in> set rows \<and> 100 < domain_total rows (fst (fst x))" for x
    by (cases x) (force simp: hot_def summaries_hit)
  have pop: "(target_of \<circ> fst) ` set hot = {t. is_popular rows t}"
    using hot by (force simp: is_popular_def)
  have sums: "sum_counts (\<lambda>k. target_of k = t) hot = sum_counts (\<lambda>k. target_of k = t) rows" if "is_popular rows t" for t
  proof -
    have "filter (\<lambda>(k, _). target_of k = t) hot = filter (\<lambda>(k, _). target_of k = t) rows"
      unfolding hot_def filter_filter by (rule filter_cong) (use that in \<open>force simp: summaries_hit is_popular_def\<close>)+
    then show ?thesis by (simp add: sum_counts_def)
  qed
  have "set (popular_rows g (summaries h rows) rows) = (\<lambda>t. (g, t, sum_counts (\<lambda>k. target_of k = t) hot)) ` (target_of \<circ> fst) ` set hot"
    unfolding popular_rows_def Let_def hot_def [symmetric] by simp
  then show "set (popular_rows g (summaries h rows) rows) = {(g, t, sum_counts (\<lambda>k. target_of k = t) rows) | t. is_popular rows t}"
    unfolding pop using sums by (auto simp del: split_paired_All split_paired_Ex)
  show "distinct (map (fst \<circ> snd) (popular_rows g (summaries h rows) rows))"
    by (simp add: popular_rows_def Let_def o_def)
qed

text \<open>What a refresh that hands out a generation leaves on disk for it.\<close>

lemma refreshed_generation:
  assumes "store_ok lib s" and "now < 2 ^ 63" and "store_refresh io s now health False = (s', Inr (Some g))"
  shows "store_ok lib s' \<and> set (filter (\<lambda>(g', _). g' = g) (db_popular (so_db s'))) =
      {(g, t, sum_counts (\<lambda>k. target_of k = t) (db_rows (so_db s'))) | t. is_popular (db_rows (so_db s')) t} \<and>
    distinct (map (fst \<circ> snd) (filter (\<lambda>(g', _). g' = g) (db_popular (so_db s'))))"
proof -
  from assms(3) obtain s1 s2 s3 where p: "prune_generations io s = Inr s1" and a: "advance (ri_advance io) s1 now = Inr s2"
    and t: "refresh_tx io s2 health False = Inr s3" and ho: "hand_out io s3 False = (s', Inr (Some g))"
    by (auto simp: store_refresh_def split: option.splits sum.splits if_splits)
  have s2: "store_ok lib s2" using prune_generations_Inr [OF p, of lib] advance_ok [OF _ assms(2) a, of lib] assms(1) by blast
  note tx = refresh_tx_Inr [OF t]
  have h: "g = so_generation s3" "so_db s' = so_db s3" using ho by (auto simp: hand_out_def Let_def split: option.splits if_splits)
  have old: "filter (\<lambda>(g', _). g' = g) (db_popular (so_db s2)) = []"
    using s2 tx h(1) by (auto simp: store_ok_def list_all_iff filter_empty_conv)
  define new where "new = popular_rows g (summaries (so_highwater s2) (db_rows (so_db s2))) (db_rows (so_db s2))"
  have new: "filter (\<lambda>(g', _). g' = g) new = new" by (auto simp: new_def popular_rows_def Let_def filter_id_conv)
  have "db_popular (so_db s') = db_popular (so_db s2) @ new" "db_rows (so_db s') = db_rows (so_db s2)"
    using tx h by (simp_all add: new_def)
  then show ?thesis using store_refresh_ok [OF assms(1,2), of io health False] assms(3) old new popular_rows_spec
    by (simp add: new_def)
qed

end
