(* ===== verification/DnsPrefetch.thy ===== *)
theory DnsPrefetch
  imports DnsStatistics
begin

text \<open>
  Prefetching the popular questions (packages/dns-server: \<open>popular_prefetch/popular_prefetch.rs\<close>): one cycle over
  the pages of a generation, and the scheduler that evaluates the statistics every two hours and never runs or
  queues more than one cycle.
\<close>

section \<open>One cycle\<close>

text \<open>
  The loop over pages with the questions it refreshed; it ends at an empty page or when a page fails.  A refresh
  that gives no answer is only logged.
\<close>

partial_function (option) cycle ::
  "('c option \<Rightarrow> (str, 't list) result) \<Rightarrow> ('t \<Rightarrow> 'c) \<Rightarrow> ('t \<Rightarrow> 'q) \<Rightarrow> 'c option \<Rightarrow> 'q list \<Rightarrow> 'q list option" where
  "cycle get_page cursor question after asked =
     (case get_page after of
        Inl _ \<Rightarrow> Some asked
      | Inr targets \<Rightarrow>
          if targets = [] then Some asked
          else cycle get_page cursor question (Some (cursor (last targets))) (asked @ map question targets))"

section \<open>The scheduler\<close>

definition PERIOD :: nat where "PERIOD = from_secs 7200"

text \<open>
  What \<open>schedule\<close> holds: the generation of the running cycle, and whether a publication is pending.  The idle
  closure is there exactly when no cycle runs.
\<close>

record schedule_state =
  sc_active :: "int option"
  sc_publishing :: bool
  sc_stopped :: bool

datatype schedule_event = Ticked | CycleDone | Published "int option" | ShutdownCancelled

definition schedule_init :: schedule_state where
  "schedule_init = \<lparr>sc_active = None, sc_publishing = False, sc_stopped = False\<rparr>"

text \<open>
  \<open>None\<close> where the loop does not wait for the event.  \<open>Published (Some g)\<close> is a refresh that handed out the
  generation \<open>g\<close>; its lease is dropped at once when a cycle is still running.
\<close>

fun schedule_step :: "schedule_event \<Rightarrow> schedule_state \<Rightarrow> schedule_state option" where
  "schedule_step ShutdownCancelled s = (if sc_stopped s then None else Some (s\<lparr>sc_stopped := True, sc_active := None, sc_publishing := False\<rparr>))"
| "schedule_step Ticked s = (if sc_stopped s \<or> sc_publishing s then None else Some (s\<lparr>sc_publishing := True\<rparr>))"
| "schedule_step CycleDone s = (if sc_stopped s \<or> sc_active s = None then None else Some (s\<lparr>sc_active := None\<rparr>))"
| "schedule_step (Published snapshot) s =
     (if sc_stopped s \<or> \<not> sc_publishing s then None
      else
        let s = s\<lparr>sc_publishing := False\<rparr> in
        case snapshot of
          Some g \<Rightarrow> (if sc_active s = None then Some (s\<lparr>sc_active := Some g\<rparr>) else Some s)
        | None \<Rightarrow> Some s)"

text \<open>The leases the scheduler keeps alive.\<close>

definition holds :: "schedule_state \<Rightarrow> int \<Rightarrow> bool" where
  "holds s g \<longleftrightarrow> sc_active s = Some g"

text \<open>
  The scheduler with its store.  The store's thread runs a refresh some time after it was asked for, under the leases
  the scheduler holds then; the outcome is \<open>pending\<close> until the scheduler sees it, and a cycle may end in between.
  Questions that are saved in the meantime change the store, too.
\<close>

definition granted :: "(str, int option) result \<Rightarrow> int option" where
  "granted r = (case r of Inr snapshot \<Rightarrow> snapshot | Inl _ \<Rightarrow> None)"

inductive scheduled :: "'n stat_lib \<Rightarrow> store \<Rightarrow> schedule_state \<Rightarrow> int option option \<Rightarrow> bool" for lib where
  start: "store_ok lib st \<Longrightarrow> so_leases st = [] \<Longrightarrow> scheduled lib st schedule_init None"
| event: "scheduled lib st s pending \<Longrightarrow> e \<in> {Ticked, CycleDone, ShutdownCancelled} \<Longrightarrow> schedule_step e s = Some s' \<Longrightarrow>
    scheduled lib st s' pending"
| refresh: "scheduled lib st s None \<Longrightarrow> sc_publishing s \<Longrightarrow> ri_alive io = holds s \<Longrightarrow> now < 2 ^ 63 \<Longrightarrow>
    store_refresh io st now health False = (st', r) \<Longrightarrow> scheduled lib st' s (Some (granted r))"
| publish: "scheduled lib st s (Some snapshot) \<Longrightarrow> schedule_step (Published snapshot) s = Some s' \<Longrightarrow> scheduled lib st s' None"
| save: "scheduled lib st s pending \<Longrightarrow> save_batch lib sql st events now health = Inr (st', classes) \<Longrightarrow>
    now < 2 ^ 63 \<Longrightarrow> list_all event_fits events \<Longrightarrow> scheduled lib st' s pending"

section \<open>A cycle asks every popular question once\<close>

text \<open>The rows of a generation in the order of the pages.\<close>

definition generation_rows :: "store \<Rightarrow> int \<Rightarrow> (target_key \<times> int) list" where
  "generation_rows s g = sort_key fst (map snd (filter (\<lambda>(g', _). g' = g) (db_popular (so_db s))))"

definition question_of :: "'n stat_lib \<Rightarrow> target_key \<Rightarrow> 'n query" where
  "question_of lib t =
     \<lparr>q_name = the (sl_from_ascii lib (fst t)), q_type = sl_type_of lib (fst (snd t)), q_class = snd (snd t)\<rparr>"

lemma sort_key_filter: "sort_key f (filter P xs) = filter P (sort_key f xs)"
  by (rule filter_sort [symmetric])

lemma page_rows_suffix:
  assumes "generation_rows s g = done_rows @ rest" and "sorted_wrt (<) (map fst (generation_rows s g))"
    and "after = (if done_rows = [] then None else Some (fst (last done_rows)))"
    and "\<And>t n. (t, n) \<in> set (generation_rows s g) \<Longrightarrow> ([], 0, 0) < t"
  shows "page_rows s g after = take PAGE_SIZE rest"
proof -
  define cursor where "cursor = ((case after of Some c \<Rightarrow> c | None \<Rightarrow> ([], 0, 0)) :: target_key)"
  have "map snd (filter (\<lambda>(g', t, _). g' = g \<and> cursor < t) rows) = filter (\<lambda>(t, _). cursor < t) (map snd (filter (\<lambda>(g', _). g' = g) rows))"
    for rows :: "(int \<times> target_key \<times> int) list"
    by (induction rows) auto
  then have pr: "page_rows s g after = take PAGE_SIZE (filter (\<lambda>(t, _). cursor < t) (generation_rows s g))"
    by (simp add: page_rows_def cursor_def generation_rows_def sort_key_filter Let_def)
  have "filter (\<lambda>(t, _). cursor < t) (done_rows @ rest) = rest"
  proof (cases "done_rows = []")
    case True
    then show ?thesis using assms(1,3,4) by (force simp: cursor_def filter_id_conv)
  next
    case False
    then have c: "cursor = fst (last done_rows)" using assms(3) by (simp add: cursor_def)
    have "butlast done_rows @ [last done_rows] @ rest = generation_rows s g" using assms(1) False by simp
    then have sw: "sorted_wrt (<) (map fst (butlast done_rows @ [last done_rows] @ rest))"
      using assms(2) by simp
    have "\<forall>x \<in> set done_rows. \<not> cursor < fst x"
    proof
      fix x assume "x \<in> set done_rows"
      then have "x \<in> set (butlast done_rows) \<or> x = last done_rows"
        using False by (metis append_butlast_last_id rotate1.simps(2) set_ConsD set_rotate1)
      then show "\<not> cursor < fst x" using sw c less_not_sym by (auto simp: sorted_wrt_append)
    qed
    moreover have "\<forall>x \<in> set rest. cursor < fst x" using sw c by (auto simp: sorted_wrt_append)
    ultimately show ?thesis by (auto simp: filter_empty_conv filter_id_conv case_prod_unfold)
  qed
  then show ?thesis using pr assms(1) by simp
qed

text \<open>
  What the libraries document: an absolute name never prints as the empty text, and a type made from its number has
  that number.
\<close>

definition stat_lib_ok :: "'n stat_lib \<Rightarrow> bool" where
  "stat_lib_ok lib \<longleftrightarrow> (\<forall>n. sl_to_ascii lib (sl_set_fqdn lib n) \<noteq> []) \<and> (\<forall>c. sl_type_code lib (sl_type_of lib c) = c)"

lemma target_row_canonical:
  assumes "canonical_domain lib (fst t)" and "0 \<le> n" and "stat_lib_ok lib"
  shows "target_row lib (t, n) = Inr \<lparr>pt_question = question_of lib t, pt_count = nat n\<rparr> \<and>
    cursor_of lib \<lparr>pt_question = question_of lib t, pt_count = nat n\<rparr> = t \<and> ([], 0, 0) < t"
proof -
  obtain d ty cl where t: "t = (d, ty, cl)" by (cases t)
  obtain name where n: "sl_from_ascii lib d = Some name" "normalized_name lib name = d"
    using assms(1) by (auto simp: t canonical_domain_def split: option.splits)
  have "d \<noteq> []" using n(2) assms(3) by (auto simp: normalized_name_def stat_lib_ok_def)
  then show ?thesis using n assms(2,3)
    by (auto simp: t target_row_def u64_try_from_def question_of_def cursor_of_def stat_lib_ok_def less_prod_def neq_Nil_conv)
qed

lemma try_map_Inr: "(\<And>x. x \<in> set xs \<Longrightarrow> f x = Inr (g x)) \<Longrightarrow> try_map f xs = Inr (map g xs)"
  by (induction xs) auto

lemma cycle_suffix:
  assumes lib: "stat_lib_ok lib"
    and sw: "sorted_wrt (<) (map fst (generation_rows s g))"
    and rows: "\<And>t n. (t, n) \<in> set (generation_rows s g) \<Longrightarrow> canonical_domain lib (fst t) \<and> 0 \<le> n"
  shows "generation_rows s g = done_rows @ rest \<Longrightarrow>
    cycle (page lib s g) (cursor_of lib) pt_question (if done_rows = [] then None else Some (fst (last done_rows))) asked
      = Some (asked @ map (question_of lib \<circ> fst) rest)"
proof (induction "length rest" arbitrary: done_rows rest asked rule: less_induct)
  case less
  let ?after = "if done_rows = [] then None else Some (fst (last done_rows))"
  let ?target = "\<lambda>(t, n). \<lparr>pt_question = question_of lib t, pt_count = nat n\<rparr> :: 'a popular_target"
  define now_rows where "now_rows = take PAGE_SIZE rest"
  have pos: "([], 0, 0) < t" if "(t, n) \<in> set (generation_rows s g)" for t n
    using rows [OF that] target_row_canonical [OF _ _ lib, of t n] by blast
  have "page_rows s g ?after = now_rows"
    unfolding now_rows_def by (rule page_rows_suffix [OF less.prems sw refl pos])
  moreover have row: "target_row lib x = Inr (?target x)" "cursor_of lib (?target x) = fst x" if "x \<in> set now_rows" for x
  proof -
    have "x \<in> set (generation_rows s g)" using that less.prems by (auto simp: now_rows_def dest: in_set_takeD)
    then show "target_row lib x = Inr (?target x)" "cursor_of lib (?target x) = fst x"
      using rows [of "fst x" "snd x"] target_row_canonical [OF _ _ lib, of "fst x" "snd x"] by (auto simp: case_prod_unfold)
  qed
  ultimately have pg: "page lib s g ?after = Inr (map ?target now_rows)"
    unfolding page_def by (simp add: try_map_Inr)
  show ?case
  proof (cases "rest = []")
    case True
    then show ?thesis using pg by (subst cycle.simps) (simp add: now_rows_def)
  next
    case False
    then have ne: "now_rows \<noteq> []" by (simp add: now_rows_def PAGE_SIZE_def)
    define later where "later = drop PAGE_SIZE rest"
    have split: "rest = now_rows @ later" by (simp add: now_rows_def later_def)
    have "cursor_of lib (last (map ?target now_rows)) = fst (last (done_rows @ now_rows))"
      using ne row(2) [of "last now_rows"] by (simp add: last_map)
    moreover have "cycle (page lib s g) (cursor_of lib) pt_question (Some (fst (last (done_rows @ now_rows)))) (asked @ map (question_of lib \<circ> fst) now_rows)
        = Some ((asked @ map (question_of lib \<circ> fst) now_rows) @ map (question_of lib \<circ> fst) later)"
      using less.hyps [of later "done_rows @ now_rows" "asked @ map (question_of lib \<circ> fst) now_rows"] less.prems ne split by simp
    moreover have "map pt_question (map ?target now_rows) = map (question_of lib \<circ> fst) now_rows" by auto
    ultimately show ?thesis using ne by (subst cycle.simps) (simp only: pg sum.case map_is_Nil_conv if_False split map_append append_assoc)
  qed
qed

text \<open>
  C29: A prefetch cycle ends, and asks exactly the popular questions.  Over the generation a refresh has just handed
  out, it refreshes every name, type and class of a name that was asked more than a hundred times in the window,
  each of them once and in ascending order, and nothing else, however many pages that takes.
\<close>

theorem prefetch_asks_popular_questions_once:
  assumes "store_ok lib s" and "stat_lib_ok lib" and "now < 2 ^ 63"
    and "store_refresh io s now health False = (s', Inr (Some g))"
  shows "\<exists>targets. cycle (page lib s' g) (cursor_of lib) pt_question None [] = Some (map (question_of lib) targets) \<and>
    set targets = {t. is_popular (db_rows (so_db s')) t} \<and> sorted targets \<and> distinct targets"
proof -
  note r = refreshed_generation [OF assms(1,3,4)]
  let ?gen = "filter (\<lambda>(g', _). g' = g) (db_popular (so_db s'))"
  let ?rows = "generation_rows s' g"
  let ?popular = "{t. is_popular (db_rows (so_db s')) t}"
  have "set ?gen = (\<lambda>t. (g, t, sum_counts (\<lambda>k. target_of k = t) (db_rows (so_db s')))) ` ?popular"
    by (rule conjunct1 [OF conjunct2 [OF r], unfolded setcompr_eq_image])
  then have set_rows: "set ?rows = (\<lambda>t. (t, sum_counts (\<lambda>k. target_of k = t) (db_rows (so_db s')))) ` ?popular"
    unfolding generation_rows_def set_sort list.set_map by (simp only: image_image snd_conv)
  have dist: "distinct (map fst ?rows)"
  proof -
    have "mset (map fst ?rows) = mset (map (fst \<circ> snd) ?gen)" by (simp add: generation_rows_def image_mset.compositionality)
    then have "distinct (map fst ?rows) = distinct (map (fst \<circ> snd) ?gen)" by (rule mset_eq_imp_distinct_iff)
    then show ?thesis using conjunct2 [OF conjunct2 [OF r]] by (rule iffD2)
  qed
  have "sorted (map fst ?rows)" by (simp add: generation_rows_def)
  then have sw: "sorted_wrt (<) (map fst ?rows)" using dist strict_sorted_iff by blast
  have row_ok: "canonical_domain lib (fst t) \<and> 0 \<le> n" if "(t, n) \<in> set ?rows" for t n
  proof -
    have t: "is_popular (db_rows (so_db s')) t" "n = sum_counts (\<lambda>k. target_of k = t) (db_rows (so_db s'))"
      using that unfolding set_rows by (auto simp only: image_iff mem_Collect_eq prod.inject)
    have l: "list_all (\<lambda>(k, n). 0 < n \<and> n \<le> int I64_MAX \<and> key_ok lib (so_highwater s') k) (db_rows (so_db s'))"
      using conjunct1 [OF r] by (simp add: store_ok_def ledger_ok_def)
    have "0 \<le> n" unfolding t(2) sum_counts_def using l by (intro sum_list_nonneg) (auto simp: list_all_iff intro: less_imp_le)
    moreover obtain k c where "(k, c) \<in> set (db_rows (so_db s'))" "t = target_of k" using t(1) by (auto simp: is_popular_def)
    ultimately show ?thesis using l by (auto simp: list_all_iff key_ok_def)
  qed
  have "cycle (page lib s' g) (cursor_of lib) pt_question None [] = Some (map (question_of lib) (map fst ?rows))"
    using cycle_suffix [OF assms(2) sw row_ok, of "[]" ?rows "[]"] by simp
  moreover have "set (map fst ?rows) = {t. is_popular (db_rows (so_db s')) t}" unfolding list.set_map set_rows image_image by simp
  ultimately show ?thesis using dist \<open>sorted (map fst ?rows)\<close> by (intro exI [of _ "map fst ?rows"] conjI)
qed

definition quiet_io :: refresh_io where
  "quiet_io = \<lparr>ri_prune = None, ri_advance = None, ri_sql = None, ri_publish = None, ri_remove = None,
     ri_alive = (\<lambda>_. False), ri_owner = True\<rparr>"

definition busy_store :: store where
  "busy_store = sample_store\<lparr>so_db := (so_db sample_store)
     \<lparr>db_rows := [((''b.'', 28, 1, 95), 60), ((''a.'', 1, 1, 90), 3), ((''b.'', 1, 1, 96), 50)]\<rparr>\<rparr>"

theorem prefetch_asks_popular_questions_once_witness:
  "\<exists>s' targets. store_refresh quiet_io busy_store 110 sample_health False = (s', Inr (Some 1)) \<and>
     cycle (page text_lib s' 1) (cursor_of text_lib) pt_question None [] = Some (map (question_of text_lib) targets) \<and>
     set targets = {t. is_popular (db_rows (so_db s')) t} \<and> sorted targets \<and> distinct targets"
proof -
  have ok: "store_ok text_lib busy_store" by code_simp
  have lib: "stat_lib_ok text_lib" by (auto simp: stat_lib_ok_def text_lib_def ends_with_def strip_suffix_Some_iff)
  obtain s' r where e: "store_refresh quiet_io busy_store 110 sample_health False = (s', r)" by fastforce
  have "snd (store_refresh quiet_io busy_store 110 sample_health False) = Inr (Some 1)" by code_simp
  then have e1: "store_refresh quiet_io busy_store 110 sample_health False = (s', Inr (Some 1))" using e by simp
  show ?thesis using prefetch_asks_popular_questions_once [OF ok lib _ e1] e1 by simp
qed

section \<open>The scheduler and its leases\<close>

lemma save_batch_leases:
  "save_batch lib sql s events now health = Inr (s', classes) \<Longrightarrow> so_leases s' = so_leases s"
  by (auto simp: save_batch_def Let_def split: if_splits prod.splits option.splits)

definition leases_ok :: "store \<Rightarrow> bool" where
  "leases_ok s \<longleftrightarrow> distinct (so_leases s) \<and> list_all (\<lambda>g. g \<le> so_generation s) (so_leases s) \<and> length (so_leases s) \<le> 2"

lemma advance_leases:
  "advance sql s now = Inr s' \<Longrightarrow>
     so_leases s' = so_leases s \<and> so_generation s' = so_generation s \<and> db_popular (so_db s') = db_popular (so_db s)"
  by (auto simp: advance_def Let_def split: option.splits)

lemma store_refresh_leases:
  assumes "leases_ok s" and "length (filter (ri_alive io) (so_leases s)) \<le> 1"
  shows "leases_ok (fst (store_refresh io s now health False))"
proof (cases "so_fault s")
  case None
  show ?thesis
  proof (cases "prune_generations io s")
    case (Inr s1)
    have s1: "so_leases s1 = filter (ri_alive io) (so_leases s)" "so_generation s1 = so_generation s"
      using prune_generations_Inr [OF Inr] by auto
    then have ok1: "leases_ok s1" "length (so_leases s1) \<le> 1" using assms by (auto simp: leases_ok_def list_all_iff)
    show ?thesis
    proof (cases "advance (ri_advance io) s1 now")
      case adv: (Inr s2)
      note a = advance_leases [OF adv]
      show ?thesis
      proof (cases "refresh_tx io s2 health False")
        case tx: (Inr s3)
        have "leases_ok (fst (hand_out io s3 False))"
          using refresh_tx_Inr [OF tx] a ok1 by (auto simp: hand_out_def Let_def leases_ok_def list_all_iff split: option.splits)
        then show ?thesis using None Inr adv tx ok1 by (simp add: store_refresh_def)
      qed (use None Inr adv a ok1 in \<open>simp add: store_refresh_def leases_ok_def\<close>)
    qed (use None Inr ok1 in \<open>simp add: store_refresh_def\<close>)
  qed (use None assms in \<open>simp add: store_refresh_def\<close>)
qed (use assms in \<open>simp add: store_refresh_def\<close>)

lemma single_lease: "distinct xs \<Longrightarrow> length (filter (\<lambda>g. a = Some g) xs) \<le> 1"
  by (induction xs) (auto simp: filter_empty_conv)

text \<open>A lease that is still held survives a refresh, with the rows of its generation.\<close>

lemma store_refresh_keeps:
  assumes "leases_ok s" and "g \<in> set (so_leases s)" and "ri_alive io g"
  shows "g \<in> set (so_leases (fst (store_refresh io s now health False))) \<and>
    generation_rows (fst (store_refresh io s now health False)) g = generation_rows s g"
proof -
  have old: "g \<le> so_generation s" using assms(1,2) by (simp add: leases_ok_def list_all_iff)
  have prune: "g \<in> set (so_leases s1) \<and> generation_rows s1 g = generation_rows s g \<and> so_generation s1 = so_generation s"
    if "prune_generations io s = Inr s1" for s1
  proof -
    define dead where "dead = filter (\<lambda>g. \<not> ri_alive io g) (so_leases s)"
    have "s1 = s\<lparr>so_db := (so_db s)\<lparr>db_popular := filter (\<lambda>(g', _). g' \<notin> set dead) (db_popular (so_db s))\<rparr>,
        so_leases := filter (ri_alive io) (so_leases s)\<rparr>"
      using that unfolding prune_generations_def Let_def dead_def [symmetric] by (cases dead; cases "ri_prune io") simp_all
    moreover have "filter (\<lambda>(g', _). g' = g) (filter (\<lambda>(g', _). g' \<notin> set dead) rows) = filter (\<lambda>(g', _). g' = g) rows"
      for rows :: "(int \<times> target_key \<times> int) list"
      using assms(3) by (induction rows) (auto simp: dead_def)
    ultimately show ?thesis using assms(2,3) by (simp add: generation_rows_def)
  qed
  have tx: "g \<in> set (so_leases s3) \<and> generation_rows s3 g = generation_rows s2 g"
    if "refresh_tx io s2 health False = Inr s3" "g \<in> set (so_leases s2)" "g \<le> so_generation s2" for s2 s3
    using refresh_tx_Inr [OF that(1)] that(2,3)
    by (auto simp: generation_rows_def popular_rows_def Let_def filter_empty_conv case_prod_unfold)
  have out: "g \<in> set (so_leases (fst (hand_out io s3 False))) \<and> generation_rows (fst (hand_out io s3 False)) g = generation_rows s3 g"
    if "g \<in> set (so_leases s3)" "g < so_generation s3" for s3
  proof -
    have "filter (\<lambda>(g', _). g' = g) (filter (\<lambda>(g', _). g' \<noteq> so_generation s3) rows) = filter (\<lambda>(g', _). g' = g) rows"
      for rows :: "(int \<times> target_key \<times> int) list"
      using that(2) by (induction rows) auto
    then show ?thesis using that(1) by (simp add: hand_out_def Let_def generation_rows_def split: option.split)
  qed
  show ?thesis
  proof (cases "so_fault s")
    case None
    show ?thesis
    proof (cases "prune_generations io s")
      case (Inr s1)
      note p = prune [OF Inr]
      show ?thesis
      proof (cases "advance (ri_advance io) s1 now")
        case adv: (Inr s2)
        have a: "g \<in> set (so_leases s2)" "generation_rows s2 g = generation_rows s g" "g \<le> so_generation s2"
          using advance_leases [OF adv] p old by (auto simp: generation_rows_def)
        show ?thesis
        proof (cases "refresh_tx io s2 health False")
          case t: (Inr s3)
          then show ?thesis using None Inr adv p a tx [OF t a(1,3)] out [of s3] refresh_tx_Inr [OF t]
            by (simp add: store_refresh_def)
        qed (use None Inr adv p a in \<open>simp add: store_refresh_def\<close>)
      qed (use None Inr p in \<open>simp add: store_refresh_def\<close>)
    qed (use None assms(2) in \<open>simp add: store_refresh_def\<close>)
  qed (use assms(2) in \<open>simp add: store_refresh_def\<close>)
qed

lemma store_refresh_grants:
  "store_refresh io s now health False = (s', Inr (Some g)) \<Longrightarrow> g \<in> set (so_leases s')"
  by (auto simp: store_refresh_def hand_out_def Let_def split: option.splits sum.splits if_splits)

text \<open>The failures of the surroundings of a refresh.\<close>

definition failures :: "store \<Rightarrow> refresh_io \<Rightarrow> str set" where
  "failures s io = \<Union> (set_option ` {so_fault s, ri_prune io, ri_advance io, ri_sql io, ri_publish io, ri_remove io})"

lemma other_errors:
  "refresh_tx io s health final_refresh = Inl e \<Longrightarrow> e \<noteq> too_many_leases \<or> ri_sql io = Some e"
  "snd (hand_out io s final_refresh) = Inl e \<Longrightarrow> e \<noteq> too_many_leases \<or> ri_publish io = Some e \<or> ri_remove io = Some e"
  by (auto simp: refresh_tx_def hand_out_def completed_floor_def restore_totals_def u64_try_from_def i64_try_from_def and_then_Inl_iff
      too_many_leases_def Let_def split: if_splits option.splits)

lemma store_refresh_limit:
  assumes "length (filter (ri_alive io) (so_leases s)) \<le> 1" and "too_many_leases \<notin> failures s io"
  shows "snd (store_refresh io s now health False) \<noteq> Inl too_many_leases"
proof
  assume f: "snd (store_refresh io s now health False) = Inl too_many_leases"
  then have fault: "so_fault s = None" using assms(2) by (auto simp: store_refresh_def failures_def split: option.splits)
  obtain s1 where s1: "prune_generations io s = Inr s1"
    using f fault assms(2)
    by (cases "prune_generations io s")
       (auto simp: store_refresh_def failures_def prune_generations_def Let_def split: list.splits option.splits)
  then have room: "\<not> 2 \<le> length (so_leases s1)" using assms(1) by (simp add: conjunct1 [OF prune_generations_Inr [OF s1]])
  obtain s2 where s2: "advance (ri_advance io) s1 now = Inr s2"
    using f fault s1 room assms(2)
    by (cases "advance (ri_advance io) s1 now")
       (auto simp: store_refresh_def failures_def advance_def Let_def split: option.splits)
  show False
    using f fault s1 room s2 assms(2) other_errors(1) [of io s2 health False] other_errors(2) [of io _ False]
    by (cases "refresh_tx io s2 health False") (auto simp: store_refresh_def failures_def)
qed

lemma scheduled_ok:
  assumes "scheduled lib st s pending"
  shows "store_ok lib st \<and> leases_ok st \<and> set_option (sc_active s) \<subseteq> set (so_leases st) \<and>
    (\<forall>snapshot \<in> set_option pending. set_option snapshot \<subseteq> set (so_leases st))"
  using assms
proof (induction rule: scheduled.induct)
  case (event st s pending e s')
  then show ?case by (auto split: if_splits)
next
  case (refresh st s io now health st' r)
  have one: "length (filter (holds s) (so_leases st)) \<le> 1"
    using refresh.IH single_lease [of "so_leases st" "sc_active s"] by (simp add: holds_def [abs_def] leases_ok_def)
  have "set_option (sc_active s) \<subseteq> set (so_leases st')"
    using refresh store_refresh_keeps [of st _ io now health] by (auto simp: holds_def)
  moreover have "set_option (granted r) \<subseteq> set (so_leases st')"
    using refresh.hyps(5) store_refresh_grants [of io st now health st'] by (auto simp: granted_def split: sum.splits)
  ultimately show ?case
    using refresh one store_refresh_leases [of st io now health] store_refresh_ok [of lib st now io health False] by simp
next
  case (publish st s snapshot s')
  then show ?case by (auto simp: Let_def split: if_splits option.splits)
next
  case (save st s pending sql events now health st' classes)
  have g: "so_generation st' = so_generation st" by (rule save_batch_Inr [OF save.hyps(2)])
  show ?case using save save_batch_leases [OF save.hyps(2)] g save_batch_counts [OF _ save.hyps(2-4)] by (simp add: leases_ok_def)
qed (auto simp: leases_ok_def schedule_init_def)

text \<open>
  C34: The scheduler never runs out of generations.  A refresh it asks for is never refused because two generations are
  still leased, whatever fails around it: the generations of ended cycles are released first.  At most two generations are
  leased afterwards.  And the generation of a running cycle is safe: a refresh keeps its lease and the rows the cycle still
  has to page through.
\<close>

theorem scheduler_leases_are_bounded:
  assumes "scheduled lib st s None" and "ri_alive io = holds s" and "now < 2 ^ 63" and "too_many_leases \<notin> failures st io"
    and "store_refresh io st now health False = (st', r)"
  shows "r \<noteq> Inl too_many_leases \<and> length (so_leases st') \<le> 2 \<and> store_ok lib st' \<and>
    (\<forall>g. sc_active s = Some g \<longrightarrow> g \<in> set (so_leases st') \<and> generation_rows st' g = generation_rows st g)"
proof -
  have st: "store_ok lib st" "leases_ok st" "set_option (sc_active s) \<subseteq> set (so_leases st)" using scheduled_ok [OF assms(1)] by auto
  have one: "length (filter (ri_alive io) (so_leases st)) \<le> 1"
    using st(2) single_lease [of "so_leases st" "sc_active s"] by (simp add: assms(2) holds_def [abs_def] leases_ok_def)
  have "g \<in> set (so_leases st') \<and> generation_rows st' g = generation_rows st g" if "sc_active s = Some g" for g
    using store_refresh_keeps [OF st(2), of g io now health] st(3) that assms(2,5) by (simp add: holds_def)
  then show ?thesis
    using store_refresh_limit [OF one assms(4), of now health] store_refresh_leases [OF st(2) one, of now health]
      store_refresh_ok [OF st(1) assms(3), of io health False] assms(5)
    by (auto simp: leases_ok_def)
qed

text \<open>A first publication starts a cycle, and a second is asked for while the cycle runs.\<close>

definition leased_store :: store where
  "leased_store = fst (store_refresh (quiet_io\<lparr>ri_alive := holds schedule_init\<rparr>) busy_store 110 sample_health False)"

definition cycling :: schedule_state where
  "cycling = \<lparr>sc_active = Some 1, sc_publishing = True, sc_stopped = False\<rparr>"

lemma cycling_scheduled: "scheduled text_lib leased_store cycling None"
proof -
  have ok: "store_ok text_lib busy_store" by code_simp
  let ?io = "quiet_io\<lparr>ri_alive := holds schedule_init\<rparr>"
  have "so_leases busy_store = []" by (simp add: busy_store_def sample_store_def)
  then have "scheduled text_lib busy_store schedule_init None" by (rule scheduled.start [OF ok])
  then have 1: "scheduled text_lib busy_store (schedule_init\<lparr>sc_publishing := True\<rparr>) None"
    by (rule scheduled.event [of _ _ _ _ Ticked]) (auto simp: schedule_init_def)
  have g: "snd (store_refresh ?io busy_store 110 sample_health False) = Inr (Some 1)" by code_simp
  have "scheduled text_lib leased_store (schedule_init\<lparr>sc_publishing := True\<rparr>) (Some (granted (Inr (Some 1))))"
    by (rule scheduled.refresh [OF 1, of ?io 110 sample_health])
       (simp_all add: holds_def [abs_def] leased_store_def g [symmetric])
  then have "scheduled text_lib leased_store (cycling\<lparr>sc_publishing := False\<rparr>) None"
    by (rule scheduled.publish) (auto simp: granted_def schedule_init_def cycling_def)
  then show ?thesis by (rule scheduled.event [of _ _ _ _ Ticked]) (auto simp: cycling_def)
qed

theorem scheduler_leases_are_bounded_witness:
  "\<exists>st' r. store_refresh (quiet_io\<lparr>ri_alive := holds cycling\<rparr>) leased_store 120 sample_health False = (st', r) \<and>
     r \<noteq> Inl too_many_leases \<and> length (so_leases st') \<le> 2 \<and> 1 \<in> set (so_leases st') \<and>
     generation_rows st' 1 = generation_rows leased_store 1"
proof -
  let ?io = "quiet_io\<lparr>ri_alive := holds cycling\<rparr>"
  obtain st' r where e: "store_refresh ?io leased_store 120 sample_health False = (st', r)" by fastforce
  have "so_fault leased_store = None" by code_simp
  then have "too_many_leases \<notin> failures leased_store ?io" by (simp add: failures_def quiet_io_def)
  from scheduler_leases_are_bounded [OF cycling_scheduled _ _ this e] e show ?thesis by (auto simp: cycling_def)
qed

end
