(* ===== verification/DnsCollector.thy ===== *)
theory DnsCollector
  imports DnsStatistics
begin

text \<open>
  The collector of DNS statistics as a concurrent program (packages/dns-server: \<open>statistics/query_statistics.rs\<close>
  and \<open>run_with_clock\<close> of \<open>statistics/query_statistics_store.rs\<close>): the receive loops record questions through the
  admission word and a bounded queue, the owner asks it to stop, and the dedicated thread drains the queue into
  the ledger.  A step is one atomic operation of one of them.
\<close>

section \<open>Producers\<close>

text \<open>Where a call of \<open>record_at\<close> stands.\<close>

datatype producer =
  Away
| Loading event
| Entering event u64
| Sending event
| CountAccepted
| CountDropped
| Leaving

datatype command = Record event | Refresh | Page int "target_key option" | Wake

datatype worker = LoopTop | AwaitProducers | TakeNext | Got command | Collecting "event list" | Saving "event list" | Ended

record collector =
  cl_health :: health
  cl_queue :: "command list"
  cl_closed :: bool
  cl_producers :: "producer list"
  cl_worker :: worker
  cl_next :: "command option"
  cl_store :: store

abbreviation set_producer :: "nat \<Rightarrow> producer \<Rightarrow> collector \<Rightarrow> collector" where
  "set_producer i p c \<equiv> c\<lparr>cl_producers := (cl_producers c)[i := p]\<rparr>"

text \<open>
  One operation of producer \<open>i\<close>.  \<open>spurious\<close> is the freedom of \<open>compare_exchange_weak\<close> to fail; \<open>event\<close> is what an
  idle producer is asked to record.
\<close>

definition producer_step :: "nat \<Rightarrow> bool \<Rightarrow> event \<Rightarrow> collector \<Rightarrow> collector" where
  "producer_step i spurious event c =
     (let h = cl_health c in
      case cl_producers c ! i of
        Away \<Rightarrow> if h_stopping h then c else set_producer i (Loading event) c
      | Loading e \<Rightarrow> set_producer i (Entering e (h_admission h)) c
      | Entering e v \<Rightarrow>
          (case enter_next v of
             None \<Rightarrow> set_producer i Away c
           | Some n \<Rightarrow>
               if h_admission h = v \<and> \<not> spurious
               then set_producer i (Sending e) (c\<lparr>cl_health := h\<lparr>h_admission := n\<rparr>\<rparr>)
               else set_producer i (Entering e (h_admission h)) c)
      | Sending e \<Rightarrow>
          if cl_closed c then set_producer i Leaving c
          else if INGRESS_CAPACITY \<le> length (cl_queue c) then set_producer i CountDropped c
          else set_producer i CountAccepted (c\<lparr>cl_queue := cl_queue c @ [Record e]\<rparr>)
      | CountAccepted \<Rightarrow> set_producer i Leaving (c\<lparr>cl_health := h\<lparr>h_accepted := stat_add (h_accepted h) 1\<rparr>\<rparr>)
      | CountDropped \<Rightarrow> set_producer i Leaving (c\<lparr>cl_health := h\<lparr>h_dropped := stat_add (h_dropped h) 1\<rparr>\<rparr>)
      | Leaving \<Rightarrow> set_producer i Away (c\<lparr>cl_health := h\<lparr>h_admission := h_admission h - 1\<rparr>\<rparr>))"

section \<open>The owner\<close>

text \<open>
  \<open>refresh\<close> and \<open>page\<close> wait for room in the queue; \<open>signal_stop\<close> is three operations, of which the last two may
  also come from a start-up that was abandoned or be repeated when the worker is dropped.
\<close>

datatype owner_op = SendCommand command | SetStopBit | SetStopping | SendWake

fun owner_step :: "owner_op \<Rightarrow> collector \<Rightarrow> collector" where
  "owner_step (SendCommand cmd) c =
     (case cmd of
        Record _ \<Rightarrow> c
      | _ \<Rightarrow> if cl_closed c \<or> INGRESS_CAPACITY \<le> length (cl_queue c) then c else c\<lparr>cl_queue := cl_queue c @ [cmd]\<rparr>)"
| "owner_step SetStopBit c =
     c\<lparr>cl_health := (cl_health c)\<lparr>h_admission := h_admission (cl_health c) OR ADMISSION_STOP\<rparr>\<rparr>"
| "owner_step SetStopping c = c\<lparr>cl_health := (cl_health c)\<lparr>h_stopping := True\<rparr>\<rparr>"
| "owner_step SendWake c =
     (if cl_closed c \<or> INGRESS_CAPACITY \<le> length (cl_queue c) then c else c\<lparr>cl_queue := cl_queue c @ [Wake]\<rparr>)"

section \<open>The dedicated thread\<close>

text \<open>What the clock and the disk do in one operation of the thread.\<close>

record worker_io =
  wi_now :: int
  wi_sql :: "str option"
  wi_refresh :: refresh_io
  wi_persist :: "str option"

definition note_error :: "(str, 'a) result \<Rightarrow> health \<Rightarrow> health" where
  "note_error r h = (case r of Inl e \<Rightarrow> health_error e h | Inr _ \<Rightarrow> h)"

definition save_step :: "'n stat_lib \<Rightarrow> worker_io \<Rightarrow> event list \<Rightarrow> collector \<Rightarrow> collector" where
  "save_step lib io events c =
     (let already_faulted = (so_fault (cl_store c) \<noteq> None) in
      case batch lib (wi_sql io) (cl_store c) events (wi_now io) (cl_health c) of
        (s, h, r) \<Rightarrow>
          c\<lparr>cl_store := s, cl_health := (if already_faulted then h else note_error r h), cl_worker := LoopTop\<rparr>)"

text \<open>A refresh that fails is noted, and the counters are written once.\<close>

definition refresh_step :: "worker_io \<Rightarrow> collector \<Rightarrow> collector" where
  "refresh_step io c =
     (case store_refresh (wi_refresh io) (cl_store c) (wi_now io) (cl_health c) False of
        (s, Inl e) \<Rightarrow>
          let h = health_error e (cl_health c) in
          (case persist_health (wi_persist io) s h of
             Inl e \<Rightarrow> c\<lparr>cl_store := s, cl_health := health_error e h, cl_worker := LoopTop\<rparr>
           | Inr s \<Rightarrow> c\<lparr>cl_store := s, cl_health := h, cl_worker := LoopTop\<rparr>)
      | (s, Inr _) \<Rightarrow> c\<lparr>cl_store := s, cl_worker := LoopTop\<rparr>)"

text \<open>After the loop: the last refresh and the counters.\<close>

definition final_step :: "worker_io \<Rightarrow> collector \<Rightarrow> collector" where
  "final_step io c =
     (case store_refresh (wi_refresh io) (cl_store c) (wi_now io) (cl_health c) True of
        (s, r) \<Rightarrow>
          let h = note_error r (cl_health c) in
          (case persist_health (wi_persist io) s h of
             Inl e \<Rightarrow> c\<lparr>cl_store := s, cl_health := health_error e h, cl_worker := Ended\<rparr>
           | Inr s \<Rightarrow> c\<lparr>cl_store := s, cl_health := h, cl_worker := Ended\<rparr>))"

text \<open>\<open>blocking_recv\<close>: a closed and empty queue ends the loop, an open and empty one blocks.\<close>

definition take_step :: "worker_io \<Rightarrow> collector \<Rightarrow> collector" where
  "take_step io c =
     (case cl_next c of
        Some cmd \<Rightarrow> c\<lparr>cl_next := None, cl_worker := Got cmd\<rparr>
      | None \<Rightarrow>
          (case cl_queue c of
             cmd # rest \<Rightarrow> c\<lparr>cl_queue := rest, cl_worker := Got cmd\<rparr>
           | [] \<Rightarrow> if cl_closed c then final_step io c else c))"

definition collect_step :: "event list \<Rightarrow> collector \<Rightarrow> collector" where
  "collect_step events c =
     (if length events < BATCH_CAPACITY then
        (case cl_queue c of
           Record e # rest \<Rightarrow> c\<lparr>cl_queue := rest, cl_worker := Collecting (events @ [e])\<rparr>
         | cmd # rest \<Rightarrow> c\<lparr>cl_queue := rest, cl_next := Some cmd, cl_worker := Saving events\<rparr>
         | [] \<Rightarrow> c\<lparr>cl_worker := Saving events\<rparr>)
      else c\<lparr>cl_worker := Saving events\<rparr>)"

definition worker_step :: "'n stat_lib \<Rightarrow> worker_io \<Rightarrow> collector \<Rightarrow> collector" where
  "worker_step lib io c =
     (case cl_worker c of
        LoopTop \<Rightarrow>
          if h_stopping (cl_health c)
          then c\<lparr>cl_health := (cl_health c)\<lparr>h_admission := h_admission (cl_health c) OR ADMISSION_STOP\<rparr>, cl_worker := AwaitProducers\<rparr>
          else c\<lparr>cl_worker := TakeNext\<rparr>
      | AwaitProducers \<Rightarrow>
          if h_admission (cl_health c) = ADMISSION_STOP then c\<lparr>cl_closed := True, cl_worker := TakeNext\<rparr> else c
      | TakeNext \<Rightarrow> take_step io c
      | Got (Record e) \<Rightarrow> c\<lparr>cl_worker := Collecting [e]\<rparr>
      | Got Refresh \<Rightarrow> refresh_step io c
      | Got (Page g after) \<Rightarrow>
          c\<lparr>cl_health := note_error (page lib (cl_store c) g after) (cl_health c), cl_worker := LoopTop\<rparr>
      | Got Wake \<Rightarrow> c\<lparr>cl_worker := LoopTop\<rparr>
      | Collecting events \<Rightarrow> collect_step events c
      | Saving events \<Rightarrow> save_step lib io events c
      | Ended \<Rightarrow> c)"

section \<open>Start and reachable states\<close>

text \<open>The counters of the new session are the restored totals.\<close>

definition restored_counters :: "nat \<times> nat \<times> nat \<times> nat \<times> nat \<times> str option \<Rightarrow> health" where
  "restored_counters = (\<lambda>(accepted, saved, dropped, unsaved, expired, error).
     \<lparr>h_accepted = accepted, h_saved = saved, h_expired = expired, h_dropped = dropped, h_unsaved = unsaved,
      h_stopping = False, h_admission = 0, h_error = error\<rparr>)"

definition collector_start :: "meta \<Rightarrow> store \<Rightarrow> nat \<Rightarrow> (str, collector) result" where
  "collector_start m s n =
     and_then (restored_health m) (\<lambda>totals.
       Inr \<lparr>cl_health = restored_counters totals, cl_queue = [], cl_closed = False, cl_producers = replicate n Away,
            cl_worker = LoopTop, cl_next = None, cl_store = s\<rparr>)"

inductive collects :: "'n stat_lib \<Rightarrow> nat \<Rightarrow> collector \<Rightarrow> bool" for lib n where
  start: "collector_start m s n = Inr c \<Longrightarrow> collects lib n c"
| produce: "collects lib n c \<Longrightarrow> i < n \<Longrightarrow> collects lib n (producer_step i spurious event c)"
| own: "collects lib n c \<Longrightarrow> collects lib n (owner_step op c)"
| work: "collects lib n c \<Longrightarrow> collects lib n (worker_step lib io c)"

section \<open>The admission word\<close>

lemma count_update:
  "i < length xs \<Longrightarrow> length (filter P (xs[i := y])) + (if P (xs ! i) then 1 else 0) = length (filter P xs) + (if P y then 1 else 0)"
proof (induction xs arbitrary: i)
  case (Cons x xs)
  then show ?case by (cases i) auto
qed simp

lemma stop_exp: "ADMISSION_STOP = 2 ^ 63"
  by (simp add: ADMISSION_STOP_def push_bit_eq_mult)

lemma low_word:
  assumes "k < 2 ^ 63"
  shows "\<not> bit (of_nat k :: u64) 63" "(of_nat k :: u64) AND ADMISSION_STOP = 0" "unat (of_nat k :: u64) = k"
proof -
  show b: "\<not> bit (of_nat k :: u64) 63"
    using assms by (simp add: bit_of_nat_iff bit_iff_odd [of k])
  then show "(of_nat k :: u64) AND ADMISSION_STOP = 0" unfolding stop_exp by (simp only: and_exp_eq_0_iff_not_bit not_False_eq_True)
  show "unat (of_nat k :: u64) = k" using assms by (simp add: unat_of_nat)
qed

lemma stopped_word:
  assumes "k < 2 ^ 63"
  shows "of_nat k OR ADMISSION_STOP = of_nat k + (ADMISSION_STOP :: u64)"
    "(of_nat k OR ADMISSION_STOP) AND ADMISSION_STOP \<noteq> (0 :: u64)"
    "of_nat k OR ADMISSION_STOP = (ADMISSION_STOP :: u64) \<longleftrightarrow> k = 0"
proof -
  show sum: "of_nat k OR ADMISSION_STOP = of_nat k + (ADMISSION_STOP :: u64)"
    using low_word(2) [OF assms] by (simp add: disjunctive_add_eq_or)
  have "bit (of_nat k OR ADMISSION_STOP :: u64) 63" unfolding stop_exp by (simp only: bit_or_iff bit_exp_iff) simp
  then show "(of_nat k OR ADMISSION_STOP) AND ADMISSION_STOP \<noteq> (0 :: u64)"
    unfolding stop_exp by (simp only: and_exp_eq_0_iff_not_bit not_True_eq_False not_False_eq_True)
  have "(of_nat k :: u64) = 0 \<longleftrightarrow> k = 0"
  proof
    assume "(of_nat k :: u64) = 0"
    with low_word(3) [OF assms] show "k = 0" by (simp only: unat_0)
  qed simp
  then show "of_nat k OR ADMISSION_STOP = (ADMISSION_STOP :: u64) \<longleftrightarrow> k = 0" unfolding sum by simp
qed

lemma enter_next_low: "Suc k < 2 ^ 63 \<Longrightarrow> enter_next (of_nat k) = Some (of_nat (Suc k))"
  using low_word [of k] low_word(2) [of "Suc k"] by (simp add: enter_next_def add.commute)

lemma enter_next_stopped: "k < 2 ^ 63 \<Longrightarrow> enter_next (of_nat k OR ADMISSION_STOP) = None"
  using stopped_word(2) [of k] by (simp add: enter_next_def)

text \<open>The word counts \<open>k\<close> producers inside, with or without the stop bit.\<close>

definition admits :: "u64 \<Rightarrow> nat \<Rightarrow> bool" where
  "admits v k \<longleftrightarrow> k < 2 ^ 63 \<and> (v = of_nat k \<or> v = of_nat k OR ADMISSION_STOP)"

lemma admits_stop: "admits v k \<Longrightarrow> admits (v OR ADMISSION_STOP) k"
  by (auto simp: admits_def or.assoc)

lemma admits_enter:
  assumes "admits v k" and "enter_next v = Some n" and "Suc k < 2 ^ 63"
  shows "admits n (Suc k)"
  using assms enter_next_low [of k] enter_next_stopped [of k] by (auto simp: admits_def)

lemma admits_leave:
  assumes "admits v (Suc k)"
  shows "admits (v - 1) k"
  using assms stopped_word(1) [of k] stopped_word(1) [of "Suc k"] by (auto simp: admits_def algebra_simps)

lemma admits_drained: "admits v k \<Longrightarrow> v = ADMISSION_STOP \<Longrightarrow> k = 0"
proof -
  assume a: "admits v k" "v = ADMISSION_STOP"
  have "(ADMISSION_STOP :: u64) \<noteq> of_nat k"
    using a(1) low_word(2) [of k] by (auto simp: admits_def stop_exp)
  then show "k = 0" using a stopped_word(3) [of k] by (auto simp: admits_def)
qed

section \<open>Nothing enters after the stop\<close>

fun inside :: "producer \<Rightarrow> bool" where
  "inside (Sending _) = True"
| "inside CountAccepted = True"
| "inside CountDropped = True"
| "inside Leaving = True"
| "inside _ = False"

abbreviation n_inside :: "collector \<Rightarrow> nat" where
  "n_inside c \<equiv> length (filter inside (cl_producers c))"

definition gate_ok :: "nat \<Rightarrow> collector \<Rightarrow> bool" where
  "gate_ok n c \<longleftrightarrow>
     length (cl_producers c) = n \<and> admits (h_admission (cl_health c)) (n_inside c) \<and>
     (cl_closed c \<longrightarrow> h_admission (cl_health c) = ADMISSION_STOP)"

lemma inside_step:
  assumes "i < length (cl_producers c)"
  shows "length (filter inside ((cl_producers c)[i := p])) + (if inside (cl_producers c ! i) then 1 else 0) =
    n_inside c + (if inside p then 1 else 0)"
  using assms by (rule count_update)

lemma gate_leave:
  assumes "gate_ok n c" and "i < n" and "cl_producers c ! i = Leaving"
  shows "gate_ok n (set_producer i Away (c\<lparr>cl_health := (cl_health c)\<lparr>h_admission := h_admission (cl_health c) - 1\<rparr>\<rparr>))"
proof -
  have k: "n_inside c = Suc (length (filter inside ((cl_producers c)[i := Away])))"
    using assms inside_step [of i c Away] by (simp add: gate_ok_def)
  have "\<not> cl_closed c" using assms(1) k admits_drained [of "h_admission (cl_health c)" "n_inside c"] by (auto simp: gate_ok_def)
  then show ?thesis using assms(1) admits_leave [of "h_admission (cl_health c)"] k by (simp add: gate_ok_def)
qed

lemma gate_enter:
  assumes "gate_ok n c" and "n < 2 ^ 63" and "i < n" and "cl_producers c ! i = Entering e (h_admission (cl_health c))"
    and "enter_next (h_admission (cl_health c)) = Some v"
  shows "gate_ok n (set_producer i (Sending e) (c\<lparr>cl_health := (cl_health c)\<lparr>h_admission := v\<rparr>\<rparr>))"
proof -
  have k: "length (filter inside ((cl_producers c)[i := Sending e])) = Suc (n_inside c)"
    using assms inside_step [of i c "Sending e"] by (simp add: gate_ok_def)
  moreover have "length (filter inside ((cl_producers c)[i := Sending e])) \<le> n"
    using assms(1) length_filter_le [of inside "(cl_producers c)[i := Sending e]"] by (simp add: gate_ok_def)
  ultimately have small: "Suc (n_inside c) < 2 ^ 63" using assms(2) by simp
  have "h_admission (cl_health c) \<noteq> ADMISSION_STOP" using assms(5) enter_next_stopped [of 0] by auto
  then show ?thesis using assms(1,5) admits_enter [OF _ assms(5) small] k by (simp add: gate_ok_def)
qed

lemma gate_stay:
  assumes "gate_ok n c" and "inside p = inside (cl_producers c ! i)" and "i < n"
  shows "gate_ok n (set_producer i p c)"
  using assms inside_step [of i c p] by (auto simp: gate_ok_def split: if_splits)

lemma gate_producer:
  assumes "gate_ok n c" and "n < 2 ^ 63" and "i < n"
  shows "gate_ok n (producer_step i spurious event c)"
proof -
  have frame: "gate_ok n (c\<lparr>cl_queue := q\<rparr>) = gate_ok n c"
    "gate_ok n (c\<lparr>cl_health := (cl_health c)\<lparr>h_accepted := a\<rparr>\<rparr>) = gate_ok n c"
    "gate_ok n (c\<lparr>cl_health := (cl_health c)\<lparr>h_dropped := a\<rparr>\<rparr>) = gate_ok n c" for q a
    by (simp_all add: gate_ok_def)
  show ?thesis
  proof (cases "cl_producers c ! i")
    case (Entering e v)
    then show ?thesis using assms gate_stay [OF assms(1) _ assms(3)] gate_enter [OF assms] 
      by (auto simp: producer_step_def Let_def split: option.splits)
  qed (use assms gate_stay [OF assms(1) _ assms(3)] gate_stay [of n "c\<lparr>cl_queue := q\<rparr>" for q]
        gate_stay [of n "c\<lparr>cl_health := h\<rparr>" for h] gate_leave [OF assms(1,3)] frame in
      \<open>auto simp: producer_step_def Let_def\<close>)
qed

lemma gate_owner: "gate_ok n c \<Longrightarrow> gate_ok n (owner_step op c)"
  using admits_stop by (cases op) (auto simp: gate_ok_def split: command.splits)

text \<open>The parts of the state that only the thread's own operations on counters and ledger change.\<close>

lemma frame_final [simp]:
  "cl_producers (final_step io c) = cl_producers c" "cl_closed (final_step io c) = cl_closed c"
  "cl_queue (final_step io c) = cl_queue c" "cl_next (final_step io c) = cl_next c" "cl_worker (final_step io c) = Ended"
  "h_admission (cl_health (final_step io c)) = h_admission (cl_health c)"
  "h_accepted (cl_health (final_step io c)) = h_accepted (cl_health c)"
  "h_saved (cl_health (final_step io c)) = h_saved (cl_health c)"
  "h_expired (cl_health (final_step io c)) = h_expired (cl_health c)"
  "h_unsaved (cl_health (final_step io c)) = h_unsaved (cl_health c)"
  by (auto simp: final_step_def Let_def note_error_def health_error_def split: prod.splits sum.splits)

lemma frame_refresh [simp]:
  "cl_producers (refresh_step io c) = cl_producers c" "cl_closed (refresh_step io c) = cl_closed c"
  "cl_queue (refresh_step io c) = cl_queue c" "cl_next (refresh_step io c) = cl_next c" "cl_worker (refresh_step io c) = LoopTop"
  "h_admission (cl_health (refresh_step io c)) = h_admission (cl_health c)"
  "h_accepted (cl_health (refresh_step io c)) = h_accepted (cl_health c)"
  "h_saved (cl_health (refresh_step io c)) = h_saved (cl_health c)"
  "h_expired (cl_health (refresh_step io c)) = h_expired (cl_health c)"
  "h_unsaved (cl_health (refresh_step io c)) = h_unsaved (cl_health c)"
  by (auto simp: refresh_step_def Let_def health_error_def split: prod.splits sum.splits)

lemma frame_note [simp]:
  "h_admission (note_error r h) = h_admission h" "h_accepted (note_error r h) = h_accepted h" "h_saved (note_error r h) = h_saved h"
  "h_expired (note_error r h) = h_expired h" "h_unsaved (note_error r h) = h_unsaved h"
  by (auto simp: note_error_def health_error_def split: sum.splits)

lemma batch_frame:
  assumes "batch lib sql s events now h = (s', h', r)"
  shows "h_admission h' = h_admission h \<and> h_accepted h' = h_accepted h"
  using assms by (auto simp: batch_def Let_def health_error_def split: if_splits option.splits sum.splits)

lemma frame_save [simp]:
  "cl_producers (save_step lib io es c) = cl_producers c" "cl_closed (save_step lib io es c) = cl_closed c"
  "cl_queue (save_step lib io es c) = cl_queue c" "cl_next (save_step lib io es c) = cl_next c"
  "cl_worker (save_step lib io es c) = LoopTop"
  "h_admission (cl_health (save_step lib io es c)) = h_admission (cl_health c)"
  "h_accepted (cl_health (save_step lib io es c)) = h_accepted (cl_health c)"
  by (auto simp: save_step_def Let_def dest: batch_frame split: prod.splits)

lemma gate_worker: "gate_ok n c \<Longrightarrow> gate_ok n (worker_step lib io c)"
  using admits_stop
  by (auto simp: gate_ok_def worker_step_def take_step_def collect_step_def
      split: worker.splits command.splits option.splits list.splits)

lemma gate_reachable: "collects lib n c \<Longrightarrow> n < 2 ^ 63 \<Longrightarrow> gate_ok n c"
proof (induction rule: collects.induct)
  case (start m s c)
  then show ?case by (auto simp: collector_start_def restored_counters_def gate_ok_def admits_def)
qed (auto intro: gate_producer gate_owner gate_worker)

section \<open>Every accepted question is accounted for\<close>

fun is_record :: "command \<Rightarrow> bool" where
  "is_record (Record _) = True"
| "is_record _ = False"

fun in_hand :: "worker \<Rightarrow> nat" where
  "in_hand (Got cmd) = (if is_record cmd then 1 else 0)"
| "in_hand (Collecting events) = length events"
| "in_hand (Saving events) = length events"
| "in_hand _ = 0"

abbreviation n_uncounted :: "collector \<Rightarrow> nat" where
  "n_uncounted c \<equiv> length (filter ((=) CountAccepted) (cl_producers c))"

abbreviation n_queued :: "collector \<Rightarrow> nat" where
  "n_queued c \<equiv> length (filter is_record (cl_queue c))"

text \<open>The questions that were put into the queue, counted or about to be.\<close>

definition taken_in :: "collector \<Rightarrow> nat" where
  "taken_in c = h_accepted (cl_health c) + n_uncounted c"

definition settled :: "health \<Rightarrow> nat" where
  "settled h = h_saved h + h_expired h + h_unsaved h"

definition accounts_ok :: "collector \<Rightarrow> bool" where
  "accounts_ok c \<longleftrightarrow>
     (case cl_next c of Some cmd \<Rightarrow> \<not> is_record cmd | None \<Rightarrow> True) \<and>
     (cl_worker c = Ended \<longrightarrow> cl_closed c \<and> cl_queue c = []) \<and>
     (taken_in c < I64_MAX \<longrightarrow> taken_in c = settled (cl_health c) + n_queued c + in_hand (cl_worker c))"

lemma stat_add_exact: "a + b < I64_MAX \<Longrightarrow> stat_add a b = a + b"
  by (simp add: stat_add_def I64_MAX_def)

lemma stat_add_saturated: "stat_add a b < I64_MAX \<Longrightarrow> stat_add a b = a + b"
  by (simp add: stat_add_def I64_MAX_def split: if_splits)

lemma batch_settles:
  assumes "batch lib sql s events now h = (s', h', r)" and "settled h + length events < I64_MAX"
  shows "settled h' = settled h + length events"
proof (cases "events = [] \<or> so_fault s \<noteq> None \<or> (\<exists>e. save_batch lib sql s events now h = Inl e)")
  case True
  then show ?thesis using assms
    by (auto simp: batch_def settled_def stat_add_exact split: if_splits option.splits sum.splits)
next
  case False
  then obtain s1 classes where sb: "save_batch lib sql s events now h = Inr (s1, classes)"
    by (cases "save_batch lib sql s events now h") auto
  obtain cutoff keys where "classify lib cutoff events = (classes, keys)" by (rule save_batch_Inr [OF sb])
  from classify_total [OF this] have t: "bc_saved classes + bc_expired classes + bc_invalid classes = length events" by simp
  show ?thesis using False sb assms t
    by (auto simp: batch_def settled_def stat_add_exact Let_def health_error_def split: if_splits option.splits)
qed

lemma uncounted_step:
  assumes "i < length (cl_producers c)"
  shows "length (filter ((=) CountAccepted) ((cl_producers c)[i := p])) + (if cl_producers c ! i = CountAccepted then 1 else 0) =
    n_uncounted c + (if p = CountAccepted then 1 else 0)"
  using count_update [OF assms, of "(=) CountAccepted" p] by (simp add: eq_commute)

lemma accounts_producer:
  assumes "accounts_ok c" and "i < length (cl_producers c)"
  shows "accounts_ok (producer_step i spurious event c)"
proof -
  note u = uncounted_step [OF assms(2)]
  have stay: "accounts_ok (set_producer i p c')"
    if "cl_producers c ! i \<noteq> CountAccepted" "p \<noteq> CountAccepted" "cl_producers c' = cl_producers c" "cl_next c' = cl_next c"
      "cl_worker c' = cl_worker c" "cl_closed c' = cl_closed c" "cl_queue c' = cl_queue c"
      "h_accepted (cl_health c') = h_accepted (cl_health c)" "settled (cl_health c') = settled (cl_health c)" for p c'
    using that u [of p] assms(1) by (simp add: accounts_ok_def taken_in_def)
  show ?thesis
  proof (cases "cl_producers c ! i")
    case Away
    then show ?thesis using assms stay [of "Loading event" c] by (simp add: producer_step_def)
  next
    case (Loading e)
    then show ?thesis using stay [of _ c] by (simp add: producer_step_def)
  next
    case (Entering e v)
    then show ?thesis using stay by (auto simp: producer_step_def Let_def settled_def split: option.splits)
  next
    case (Sending e)
    then show ?thesis using stay [of _ c] u [of CountAccepted] assms(1)
      by (auto simp: producer_step_def Let_def accounts_ok_def taken_in_def)
  next
    case CountAccepted
    let ?c = "set_producer i Leaving (c\<lparr>cl_health := (cl_health c)\<lparr>h_accepted := stat_add (h_accepted (cl_health c)) 1\<rparr>\<rparr>)"
    have "taken_in ?c = taken_in c" if "taken_in ?c < I64_MAX"
      using that stat_add_saturated [of "h_accepted (cl_health c)" 1] u [of Leaving] CountAccepted by (simp add: taken_in_def)
    moreover have "producer_step i spurious event c = ?c" using CountAccepted by (simp add: producer_step_def Let_def)
    moreover have "settled (cl_health ?c) = settled (cl_health c)" by (simp add: settled_def)
    ultimately show ?thesis using assms(1) unfolding accounts_ok_def by simp
  next
    case CountDropped
    then show ?thesis using stay by (simp add: producer_step_def Let_def settled_def)
  next
    case Leaving
    then show ?thesis using stay by (simp add: producer_step_def Let_def settled_def)
  qed
qed

lemma accounts_owner: "accounts_ok c \<Longrightarrow> accounts_ok (owner_step op c)"
  by (cases op) (auto simp: accounts_ok_def taken_in_def settled_def split: command.splits)

lemma accounts_save:
  assumes "accounts_ok c" and "cl_worker c = Saving events"
  shows "accounts_ok (save_step lib io events c)"
proof -
  obtain s' h' r where b: "batch lib (wi_sql io) (cl_store c) events (wi_now io) (cl_health c) = (s', h', r)" by (metis prod_cases3)
  have "settled (cl_health (save_step lib io events c)) = settled h'" using b by (simp add: save_step_def settled_def)
  then show ?thesis using assms batch_settles [OF b] by (auto simp: accounts_ok_def taken_in_def)
qed

lemma settled_frames [simp]:
  "settled (cl_health (final_step io c)) = settled (cl_health c)" "settled (cl_health (refresh_step io c)) = settled (cl_health c)"
  "settled (note_error r h) = settled h"
  by (simp_all add: settled_def)

lemma accounts_take: "accounts_ok c \<Longrightarrow> cl_worker c = TakeNext \<Longrightarrow> accounts_ok (take_step io c)"
  by (auto simp: take_step_def accounts_ok_def taken_in_def split: option.splits list.splits)

lemma accounts_collect: "accounts_ok c \<Longrightarrow> cl_worker c = Collecting events \<Longrightarrow> accounts_ok (collect_step events c)"
  by (auto simp: collect_step_def accounts_ok_def taken_in_def split: list.splits command.splits)

lemma accounts_worker:
  assumes "accounts_ok c"
  shows "accounts_ok (worker_step lib io c)"
proof (cases "cl_worker c")
  case LoopTop
  then show ?thesis using assms by (simp add: worker_step_def accounts_ok_def taken_in_def settled_def)
next
  case AwaitProducers
  then show ?thesis using assms by (simp add: worker_step_def accounts_ok_def taken_in_def)
next
  case TakeNext
  then show ?thesis using accounts_take [OF assms] by (simp add: worker_step_def)
next
  case (Got cmd)
  then show ?thesis using assms by (cases cmd) (auto simp: worker_step_def accounts_ok_def taken_in_def)
next
  case (Collecting events)
  then show ?thesis using accounts_collect [OF assms] by (simp add: worker_step_def)
next
  case (Saving events)
  then show ?thesis by (simp add: worker_step_def accounts_save [OF assms])
next
  case Ended
  then show ?thesis using assms by (simp add: worker_step_def)
qed

lemma accounts_reachable: "collects lib n c \<Longrightarrow> accounts_ok c \<and> length (cl_producers c) = n"
proof (induction rule: collects.induct)
  case (start m s c)
  have "accepted = saved + expired + unsaved" if "restore_totals a saved expired u = Inr (accepted, unsaved)" for a u saved expired accepted unsaved
    using that by (auto simp: restore_totals_def Let_def split: if_splits)
  with start show ?case
    by (fastforce simp: collector_start_def restored_health_def restored_counters_def accounts_ok_def taken_in_def settled_def)
next
  case (produce c i spurious event)
  have "length (cl_producers (producer_step i spurious event c)) = length (cl_producers c)"
    by (auto simp: producer_step_def Let_def split: producer.splits option.splits)
  then show ?case using produce accounts_producer by simp
next
  case (own c op)
  have "cl_producers (owner_step op c) = cl_producers c" by (cases op) (auto split: command.splits)
  then show ?case using own accounts_owner by simp
next
  case (work c io)
  have "cl_producers (worker_step lib io c) = cl_producers c"
    by (auto simp: worker_step_def take_step_def collect_step_def split: worker.splits command.splits option.splits list.splits)
  then show ?case using work by (simp add: accounts_worker)
qed

text \<open>
  C27: No accepted question is lost when the collector stops.  However the receive loops, the owner and the
  collector's thread interleave, once the thread has ended no producer is inside or can enter again, the queue
  is empty, and every accepted question has been counted as saved, expired or unsaved, so that none is
  pending; this also holds for the questions accepted before a restart.
\<close>

theorem stopped_collector_accounts_for_everything:
  assumes "collects lib n c" and "n < 2 ^ 63" and "cl_worker c = Ended" and "h_accepted (cl_health c) < I64_MAX"
  shows "h_accepted (cl_health c) = h_saved (cl_health c) + h_expired (cl_health c) + h_unsaved (cl_health c) \<and>
    st_pending (health_status (cl_health c)) = 0 \<and> cl_queue c = [] \<and> n_inside c = 0 \<and>
    enter_next (h_admission (cl_health c)) = None"
proof -
  have a: "accounts_ok c" and g: "gate_ok n c" using accounts_reachable gate_reachable assms(1,2) by auto
  have closed: "cl_closed c" "cl_queue c = []" using a assms(3) by (auto simp: accounts_ok_def)
  then have adm: "h_admission (cl_health c) = ADMISSION_STOP" using g by (simp add: gate_ok_def)
  then have none: "n_inside c = 0" using g admits_drained by (auto simp: gate_ok_def)
  then have "n_uncounted c = 0" by (auto simp: filter_empty_conv)
  then have "h_accepted (cl_health c) = settled (cl_health c)"
    using a assms(3,4) closed(2) by (simp add: accounts_ok_def taken_in_def)
  then show ?thesis using adm none closed(2) enter_next_stopped [of 0] by (simp add: settled_def health_status_def)
qed

text \<open>A schedule of operations, for concrete runs.\<close>

datatype op = Produce nat event | Own owner_op | Work worker_io

fun run_op :: "'n stat_lib \<Rightarrow> op \<Rightarrow> collector \<Rightarrow> collector" where
  "run_op lib (Produce i e) c = producer_step i False e c"
| "run_op lib (Own o1) c = owner_step o1 c"
| "run_op lib (Work io) c = worker_step lib io c"

fun op_ok :: "nat \<Rightarrow> op \<Rightarrow> bool" where
  "op_ok n (Produce i _) = (i < n)"
| "op_ok n _ = True"

lemma collects_run:
  "collects lib n c \<Longrightarrow> list_all (op_ok n) ops \<Longrightarrow> collects lib n (fold (run_op lib) ops c)"
proof (induction ops arbitrary: c)
  case (Cons x ops)
  then show ?case by (cases x) (auto intro: collects.intros)
qed simp

definition calm_io :: worker_io where
  "calm_io = \<lparr>wi_now = 120, wi_sql = None,
     wi_refresh = \<lparr>ri_prune = None, ri_advance = None, ri_sql = None, ri_publish = None, ri_remove = None,
       ri_alive = (\<lambda>_. False), ri_owner = True\<rparr>,
     wi_persist = None\<rparr>"

lemma produce_once:
  assumes "cl_producers c = [Away]" and "\<not> h_stopping (cl_health c)" and "h_admission (cl_health c) = 0"
    and "\<not> cl_closed c" and "cl_queue c = []"
  shows "fold (run_op lib) (replicate 6 (Produce 0 e)) c =
    c\<lparr>cl_health := (cl_health c)\<lparr>h_accepted := stat_add (h_accepted (cl_health c)) 1\<rparr>, cl_queue := [Record e]\<rparr>"
proof -
  have "enter_next 0 = Some 1" by code_simp
  then show ?thesis using assms
    by (cases c; cases "cl_health c") (simp add: numeral_eq_Suc producer_step_def INGRESS_CAPACITY_def)
qed

lemma batch_stopping: "batch lib sql s events now h = (s', h', r) \<Longrightarrow> h_stopping h' = h_stopping h"
  by (auto simp: batch_def Let_def health_error_def split: if_splits option.splits sum.splits)

lemma save_step_stopping: "h_stopping (cl_health (save_step lib io es c)) = h_stopping (cl_health c)"
  by (auto simp: save_step_def Let_def note_error_def health_error_def dest: batch_stopping split: prod.splits sum.splits)

lemma work_off:
  assumes "cl_worker c = LoopTop" and "cl_next c = None" and "cl_queue c = [Record e]" and "\<not> cl_closed c"
    and "h_stopping (cl_health c)" and "h_admission (cl_health c) = ADMISSION_STOP"
  shows "cl_worker (fold (run_op lib) (replicate 9 (Work io)) c) = Ended \<and>
    h_accepted (cl_health (fold (run_op lib) (replicate 9 (Work io)) c)) = h_accepted (cl_health c)"
  using assms
  by (simp add: numeral_eq_Suc worker_step_def take_step_def collect_step_def BATCH_CAPACITY_def save_step_stopping)

definition sample_start :: collector where
  "sample_start = projr (collector_start sample_meta sample_store 1)"

definition sample_run :: collector where
  "sample_run =
     fold (run_op text_lib) (replicate 9 (Work calm_io))
       (fold (run_op text_lib) [Own SetStopBit, Own SetStopping]
         (fold (run_op text_lib) (replicate 6 (Produce 0 (hd sample_events))) sample_start))"

theorem stopped_collector_accounts_for_everything_witness:
  "collects text_lib 1 sample_run \<and> cl_worker sample_run = Ended \<and> h_accepted (cl_health sample_run) = 4 \<and>
   h_saved (cl_health sample_run) + h_expired (cl_health sample_run) + h_unsaved (cl_health sample_run) = 4 \<and>
   st_pending (health_status (cl_health sample_run)) = 0 \<and> cl_queue sample_run = [] \<and>
   enter_next (h_admission (cl_health sample_run)) = None"
proof -
  have start: "collector_start sample_meta sample_store 1 =
    Inr \<lparr>cl_health = restored_counters (3, 3, 0, 0, 0, None), cl_queue = [], cl_closed = False, cl_producers = [Away],
         cl_worker = LoopTop, cl_next = None, cl_store = sample_store\<rparr>"
    by (simp add: collector_start_def restored_health_def sample_meta_def u64_try_from_def restore_totals_def I64_MAX_def)
  then have "collects text_lib 1 sample_start" unfolding sample_start_def by (simp add: collects.start)
  then have c: "collects text_lib 1 sample_run"
    unfolding sample_run_def by (intro collects_run) (auto simp: list_all_iff)
  let ?mid = "fold (run_op text_lib) [Own SetStopBit, Own SetStopping]
    (fold (run_op text_lib) (replicate 6 (Produce 0 (hd sample_events))) sample_start)"
  have mid: "cl_worker ?mid = LoopTop" "cl_next ?mid = None" "cl_queue ?mid = [Record (hd sample_events)]" "\<not> cl_closed ?mid"
    "h_stopping (cl_health ?mid)" "h_admission (cl_health ?mid) = ADMISSION_STOP" "h_accepted (cl_health ?mid) = 4"
    using produce_once [of sample_start text_lib "hd sample_events"] start
    by (simp_all add: sample_start_def restored_counters_def stat_add_def I64_MAX_def)
  have v: "cl_worker sample_run = Ended" "h_accepted (cl_health sample_run) = 4"
    using work_off [OF mid(1-6), of text_lib calm_io] mid(7) unfolding sample_run_def by auto
  have "h_accepted (cl_health sample_run) < I64_MAX" using v(2) by (simp add: I64_MAX_def)
  from stopped_collector_accounts_for_everything [OF c _ v(1) this] c v show ?thesis by simp
qed

end
