(* ===== verification/DnsDoh.thy ===== *)
theory DnsDoh
  imports HttpFetch DnsMessage
begin

text \<open>
  DNS over HTTPS through the tunnel (packages/dns-server: \<open>doh/doh_client.rs\<close>): the POST request, the bounded
  read of its response, one provider's exchange and the ordered walk over the providers with its deadlines.

  The head parser, the tunnel, the TLS handshake and the connection's reads are parameters; bytes on the
  connection are characters, as in the fetcher's model.
\<close>

section \<open>Constants\<close>

definition DOH_PROVIDER_TIMEOUT :: nat where "DOH_PROVIDER_TIMEOUT = from_secs 20"
definition DOH_TOTAL_TIMEOUT :: nat where "DOH_TOTAL_TIMEOUT = from_secs 30"
definition MAX_DNS_RESPONSE_BYTES :: nat where "MAX_DNS_RESPONSE_BYTES = 64 * 1024"
definition MAX_HEADER_BYTES :: nat where "MAX_HEADER_BYTES = 16 * 1024"
definition DOH_READ_BUF_SIZE :: nat where "DOH_READ_BUF_SIZE = 8192"
definition DOH_PORT :: u16 where "DOH_PORT = 443"

definition of_bytes :: "bytes \<Rightarrow> str" where "of_bytes = map (\<lambda>b. char_of (unat b))"
definition to_bytes :: "str \<Rightarrow> bytes" where "to_bytes = map of_char"

section \<open>Request and response\<close>

definition build_post_request :: "str \<Rightarrow> str \<Rightarrow> bytes \<Rightarrow> str" where
  "build_post_request hostname path dns_body =
     ''POST '' @ path @ '' HTTP/1.1'' @ crlf @
     ''Host: '' @ hostname @ crlf @
     ''Accept: application/dns-message'' @ crlf @
     ''Content-Type: application/dns-message'' @ crlf @
     ''Content-Length: '' @ show_nat (length dns_body) @ crlf @
     ''User-Agent: tor-socks5/0.1'' @ crlf @
     ''Connection: close'' @ crlf @
     crlf @ of_bytes dns_body"

record http_head =
  hh_status :: u16
  hh_content_length :: "nat option"
  hh_chunked :: bool
  hh_header_len :: nat

definition note_doh_header :: "str \<times> str \<Rightarrow> http_head \<Rightarrow> http_head" where
  "note_doh_header h r =
     (case h of (name, val) \<Rightarrow>
      let r = (if eq_ignore_ascii_case name ''content-length'' \<and> is_utf8 val
               then r\<lparr>hh_content_length := parse_uint 10 (2 ^ 64) (trim val)\<rparr> else r)
      in if eq_ignore_ascii_case name ''transfer-encoding'' \<and> is_utf8 val \<and> is_chunked_value val
         then r\<lparr>hh_chunked := True\<rparr> else r)"

definition parse_head :: "(str \<Rightarrow> head_parse) \<Rightarrow> str \<Rightarrow> (dns_server_error, http_head option) result" where
  "parse_head head_parser buf =
     (case head_parser buf of
        HeadComplete header_len code headers \<Rightarrow>
          (case code of
             None \<Rightarrow> Inl (DohExchange ''HTTP response without status code'')
           | Some status \<Rightarrow>
               Inr (Some (fold note_doh_header headers
                 \<lparr>hh_status = status, hh_content_length = None, hh_chunked = False, hh_header_len = header_len\<rparr>)))
      | HeadPartial \<Rightarrow> Inr None
      | HeadBad e \<Rightarrow> Inl (DohExchange (''malformed HTTP response: '' @ e)))"

text \<open>The loop that collects the head; \<open>cap\<close> is the length of the buffer.\<close>

function read_doh_head ::
  "(str \<Rightarrow> head_parse) \<Rightarrow> nat \<Rightarrow> str \<Rightarrow> stream \<Rightarrow> (dns_server_error, http_head \<times> str \<times> stream) result" where
  "read_doh_head head_parser cap buf s =
     (case parse_head head_parser buf of
        Inl e \<Rightarrow> Inl e
      | Inr (Some head) \<Rightarrow> Inr (head, buf, s)
      | Inr None \<Rightarrow>
          if length buf = cap \<and> MAX_HEADER_BYTES \<le> cap then
            Inl (DohExchange (''HTTP headers exceed the '' @ show_nat MAX_HEADER_BYTES @ '' byte limit''))
          else
            let cap = (if length buf = cap then cap * 2 else cap) in
            (case stream_read (cap - length buf) s of
               (Inl e, s) \<Rightarrow> Inl (DohExchange (''read HTTP headers: '' @ e))
             | (Inr bs, s) \<Rightarrow>
                 if bs = [] then Inl (DohExchange ''connection closed before HTTP headers completed'')
                 else read_doh_head head_parser cap (buf @ bs) s))"
  by pat_completeness auto
termination
  by (relation "measure (\<lambda>(_, _, _, s). stream_size s)") (auto dest!: stream_read_bytes [OF sym])

function read_doh_length :: "nat \<Rightarrow> str \<Rightarrow> stream \<Rightarrow> (dns_server_error, str) result" where
  "read_doh_length len body s =
     (if len \<le> length body then Inr body
      else case stream_read (min DOH_READ_BUF_SIZE (len - length body)) s of
        (Inl e, s) \<Rightarrow> Inl (DohExchange (''read HTTP body: '' @ e))
      | (Inr chunk, s) \<Rightarrow>
          if chunk = [] then
            Inl (DohExchange (''connection closed after '' @ show_nat (length body) @ '' of '' @ show_nat len @ '' body bytes''))
          else read_doh_length len (body @ chunk) s)"
  by pat_completeness auto
termination
  by (relation "measure (\<lambda>(_, _, s). stream_size s)") (auto dest!: stream_read_bytes [OF sym])

definition response_too_long :: dns_server_error where
  "response_too_long = DohExchange (''DNS response exceeds the '' @ show_nat MAX_DNS_RESPONSE_BYTES @ '' byte limit'')"

function read_doh_eof :: "str \<Rightarrow> stream \<Rightarrow> (dns_server_error, str) result" where
  "read_doh_eof body s =
     (case stream_read DOH_READ_BUF_SIZE s of
        (Inl e, s) \<Rightarrow> Inl (DohExchange (''read HTTP body: '' @ e))
      | (Inr chunk, s) \<Rightarrow>
          if chunk = [] then Inr body
          else if MAX_DNS_RESPONSE_BYTES < length (body @ chunk) then Inl response_too_long
          else read_doh_eof (body @ chunk) s)"
  by pat_completeness auto
termination
  by (relation "measure (\<lambda>(_, s). stream_size s)") (auto dest!: stream_read_bytes [OF sym])

declare read_doh_head.simps [simp del] read_doh_length.simps [simp del] read_doh_eof.simps [simp del]

definition read_dns_body :: "(str \<Rightarrow> head_parse) \<Rightarrow> stream \<Rightarrow> (dns_server_error, str) result" where
  "read_dns_body head_parser s =
     and_then (read_doh_head head_parser DOH_READ_BUF_SIZE [] s) (\<lambda>(head, buf, s).
       if hh_status head \<noteq> 200 then Inl (DohExchange (''HTTP '' @ show_nat (unat (hh_status head))))
       else if hh_chunked head then Inl (DohExchange ''chunked transfer-encoding is not supported for DoH'')
       else
         let body = drop (hh_header_len head) buf in
         if MAX_DNS_RESPONSE_BYTES < length body then Inl response_too_long
         else case hh_content_length head of
                Some len \<Rightarrow>
                  if MAX_DNS_RESPONSE_BYTES < len then
                    Inl (DohExchange (''DNS response of '' @ show_nat len @ '' bytes exceeds the '' @
                      show_nat MAX_DNS_RESPONSE_BYTES @ '' byte limit''))
                  else read_doh_length len (if len < length body then take len body else body) s
              | None \<Rightarrow> read_doh_eof body s)"

section \<open>One provider\<close>

text \<open>
  What the tunnel and the provider do: opening a stream to an address text and port, checking and using a
  host name for the handshake, accepting the request, flushing it, and the bytes that come back;
  \<open>dn_took\<close> is how long the whole exchange takes and \<open>dn_id\<close> the transaction id drawn for it.
\<close>

record ('c, 't) doh_net =
  dn_tor :: "str \<Rightarrow> u16 \<Rightarrow> (str, 'c) result"
  dn_server_name :: "str \<Rightarrow> (str, str) result"
  dn_tls :: "str \<Rightarrow> 'c \<Rightarrow> (str, 't) result"
  dn_write :: "'t \<Rightarrow> str \<Rightarrow> (str, 't) result"
  dn_flush :: "'t \<Rightarrow> (str, stream) result"
  dn_head :: "str \<Rightarrow> head_parse"
  dn_id :: "doh_provider \<Rightarrow> u16"
  dn_took :: "doh_provider \<Rightarrow> nat"
  dn_now :: int

text \<open>The \<open>Debug\<close> form of a string.\<close>

definition debug_char :: "char \<Rightarrow> str" where
  "debug_char c =
     (if c = CHR 0x22 \<or> c = CHR 0x5C then [CHR 0x5C, c]
      else if c = tab then [CHR 0x5C, CHR ''t'']
      else if c = newline then [CHR 0x5C, CHR ''n'']
      else if c = carriage_return then [CHR 0x5C, CHR ''r'']
      else if c = CHR 0x00 then [CHR 0x5C, CHR ''0'']
      else if of_char c < (32 :: nat) \<or> of_char c = (127 :: nat)
      then [CHR 0x5C] @ ''u{'' @ show_hex (of_char c) @ ''}''
      else [c])"

definition debug_str :: "str \<Rightarrow> str" where
  "debug_str s = [CHR 0x22] @ concat (map debug_char s) @ [CHR 0x22]"

definition connect_through_tor :: "('c, 't) doh_net \<Rightarrow> doh_provider \<Rightarrow> (dns_server_error, 't) result" where
  "connect_through_tor net provider =
     (case dn_tor net (show_ip (dp_ip provider)) DOH_PORT of
        Inl e \<Rightarrow> Inl (TorConnect e)
      | Inr raw \<Rightarrow>
          (case dn_server_name net (dp_hostname provider) of
             Inl e \<Rightarrow> Inl (dns_server_error.Tls (''invalid SNI hostname '' @ debug_str (dp_hostname provider) @ '': '' @ e))
           | Inr server_name \<Rightarrow>
               (case dn_tls net server_name raw of
                  Inl e \<Rightarrow> Inl (dns_server_error.Tls e)
                | Inr tls \<Rightarrow> Inr tls)))"

text \<open>What is written into a connection, beside what the exchange gives.\<close>

type_synonym doh_sent = "(doh_provider \<times> str) list"

definition doh_exchange ::
  "('c, 't) doh_net \<Rightarrow> doh_provider \<Rightarrow> 'n dns_query \<Rightarrow> doh_sent \<times> (dns_server_error, bytes) result" where
  "doh_exchange net provider query =
     (case connect_through_tor net provider of
        Inl e \<Rightarrow> ([], Inl e)
      | Inr tls \<Rightarrow>
          let request = build_post_request (dp_hostname provider) (dp_path provider) (dq_bytes query) in
          ([(provider, request)],
           case dn_write net tls request of
             Inl e \<Rightarrow> Inl (DohExchange (''write DoH request: '' @ e))
           | Inr tls \<Rightarrow>
               (case dn_flush net tls of
                  Inl e \<Rightarrow> Inl (DohExchange (''flush DoH request: '' @ e))
                | Inr s \<Rightarrow> and_then (read_dns_body (dn_head net) s) (\<lambda>body. Inr (to_bytes body)))))"

definition resolve_with_provider ::
  "'n name_ops \<Rightarrow> 'n packet_codec \<Rightarrow> ('c, 't) doh_net \<Rightarrow> 'n query \<Rightarrow> doh_provider
   \<Rightarrow> doh_sent \<times> (dns_server_error, 'n resolved_answer) result" where
  "resolve_with_provider nm pc net question provider =
     (case build_query pc (dn_id net provider) question of
        Inl e \<Rightarrow> ([], Inl (Wire e))
      | Inr query \<Rightarrow>
          (case doh_exchange net provider query of
             (sent, r) \<Rightarrow> (sent, and_then r (\<lambda>body. parse_response nm pc (dn_now net) query body))))"

text \<open>
  \<open>resolve\<close>: how long the attempt at one provider lasts, what it writes and what it gives.  An attempt that is cut
  off counts with everything it could have written.
\<close>

definition doh_resolve ::
  "'n name_ops \<Rightarrow> 'n packet_codec \<Rightarrow> ('c, 't) doh_net \<Rightarrow> 'n query \<Rightarrow> doh_provider
   \<Rightarrow> nat \<times> doh_sent \<times> (dns_server_error, 'n resolved_answer) result" where
  "doh_resolve nm pc net question provider =
     (case resolve_with_provider nm pc net question provider of
        (sent, r) \<Rightarrow>
          if dn_took net provider \<le> DOH_PROVIDER_TIMEOUT then (dn_took net provider, sent, r)
          else (DOH_PROVIDER_TIMEOUT, sent, Inl (dns_server_error.Timeout DOH_PROVIDER_TIMEOUT)))"

section \<open>The pool\<close>

text \<open>
  The walk from the instant \<open>now\<close>: \<open>attempt_at\<close> gives how long an attempt takes, what it writes and its result; an
  attempt that is still running at the provider's deadline is dropped there.
\<close>

fun ordered_pool ::
  "nat \<Rightarrow> ('p \<Rightarrow> nat \<times> 'w list \<times> (dns_server_error, 'n resolved_answer) result) \<Rightarrow> 'p list \<Rightarrow> nat
   \<Rightarrow> nat \<times> 'w list \<times> (dns_server_error, 'n resolved_answer) result" where
  "ordered_pool deadline attempt_at [] now = (now, [], Inl AllProvidersFailed)"
| "ordered_pool deadline attempt_at (p # ps) now =
     (let provider_deadline = min (now + DOH_PROVIDER_TIMEOUT) deadline;
          (took, sent, r) = attempt_at p;
          in_time = (now + took \<le> provider_deadline);
          now = (if in_time then now + took else provider_deadline)
      in if in_time \<and> (case r of Inr answer \<Rightarrow> \<not> temporary_response (ra_message answer) | Inl _ \<Rightarrow> False)
         then (now, sent, r)
         else if deadline \<le> now then (now, sent, Inl (dns_server_error.Timeout DOH_TOTAL_TIMEOUT))
         else case ordered_pool deadline attempt_at ps now of (fin, later, r) \<Rightarrow> (fin, sent @ later, r))"

definition resolve_with_pool ::
  "'n name_ops \<Rightarrow> 'n packet_codec \<Rightarrow> ('c, 't) doh_net \<Rightarrow> 'n query \<Rightarrow> doh_provider list \<Rightarrow> nat
   \<Rightarrow> nat \<times> doh_sent \<times> (dns_server_error, 'n resolved_answer) result" where
  "resolve_with_pool nm pc net question providers now =
     ordered_pool (now + DOH_TOTAL_TIMEOUT) (doh_resolve nm pc net question) providers now"

section \<open>The providers (providers.rs)\<close>

definition BUILTIN_DOH_PROVIDER_TUPLES :: "(str \<times> str \<times> str) list" where
  "BUILTIN_DOH_PROVIDER_TUPLES =
     [(''1.1.1.1'', ''cloudflare-dns.com'', ''/dns-query''),
      (''1.0.0.1'', ''cloudflare-dns.com'', ''/dns-query''),
      (''8.8.8.8'', ''dns.google'', ''/dns-query''),
      (''8.8.4.4'', ''dns.google'', ''/dns-query''),
      (''9.9.9.9'', ''dns.quad9.net'', ''/dns-query''),
      (''149.112.112.112'', ''dns.quad9.net'', ''/dns-query''),
      (''9.9.9.10'', ''dns10.quad9.net'', ''/dns-query''),
      (''149.112.112.10'', ''dns10.quad9.net'', ''/dns-query''),
      (''94.140.14.14'', ''dns.adguard-dns.com'', ''/dns-query''),
      (''94.140.15.15'', ''dns.adguard-dns.com'', ''/dns-query''),
      (''94.140.14.140'', ''unfiltered.adguard-dns.com'', ''/dns-query''),
      (''94.140.14.141'', ''unfiltered.adguard-dns.com'', ''/dns-query''),
      (''194.242.2.2'', ''dns.mullvad.net'', ''/dns-query''),
      (''185.222.222.222'', ''dns.sb'', ''/dns-query''),
      (''45.11.45.11'', ''dns.sb'', ''/dns-query''),
      (''76.76.2.0'', ''p0.freedns.controld.com'', ''/dns-query''),
      (''86.54.11.100'', ''unfiltered.joindns4.eu'', ''/dns-query''),
      (''88.198.92.222'', ''doh.libredns.gr'', ''/dns-query''),
      (''176.9.93.198'', ''dnsforge.de'', ''/dns-query''),
      (''5.2.75.75'', ''doh.nl.ahadns.net'', ''/dns-query''),
      (''76.76.2.11'', ''freedns.controld.com'', ''/dns-query''),
      (''45.90.30.0'', ''anycast.dns.nextdns.io'', ''/dns-query''),
      (''185.71.138.138'', ''wikimedia-dns.org'', ''/dns-query''),
      (''95.215.19.53'', ''dns.njal.la'', ''/dns-query''),
      (''103.2.57.5'', ''public.dns.iij.jp'', ''/dns-query''),
      (''185.194.94.71'', ''dns.circl.lu'', ''/dns-query''),
      (''178.105.16.6'', ''doh.lacontrevoie.fr'', ''/dns-query''),
      (''5.1.66.255'', ''doh.ffmuc.net'', ''/dns-query''),
      (''185.150.99.255'', ''doh.ffmuc.net'', ''/dns-query''),
      (''116.202.176.26'', ''doh.libredns.gr'', ''/dns-query''),
      (''185.250.250.61'', ''dnsbunker.org'', ''/dns-query''),
      (''185.111.188.46'', ''dns1.dnscrypt.ca'', ''/dns-query''),
      (''78.46.244.143'', ''doh-de.blahdns.com'', ''/dns-query''),
      (''217.197.91.153'', ''dns.artikel10.org'', ''/dns-query''),
      (''174.138.29.175'', ''doh.tiar.app'', ''/dns-query''),
      (''104.21.65.60'', ''doh.tiarap.org'', ''/dns-query'')]"

text \<open>\<open>None\<close> is the panic of the \<open>expect\<close> on an address that does not parse.\<close>

definition builtin_doh_providers :: "doh_provider list option" where
  "builtin_doh_providers =
     ok (try_map (\<lambda>(ip, hostname, path).
       and_then (ok_or () (ip_from_str ip)) (\<lambda>ip. Inr \<lparr>dp_ip = ip, dp_hostname = hostname, dp_path = path\<rparr>))
       BUILTIN_DOH_PROVIDER_TUPLES)"

definition pool_step ::
  "doh_provider \<Rightarrow> (ip_addr \<times> str) set \<times> doh_provider list \<Rightarrow> (ip_addr \<times> str) set \<times> doh_provider list" where
  "pool_step provider = (\<lambda>(seen, pool).
     let key = (dp_ip provider, dp_hostname provider) in
     if key \<notin> seen then (insert key seen, pool @ [provider]) else (seen, pool))"

definition provider_pool :: "doh_provider list \<Rightarrow> bool \<Rightarrow> doh_provider list option" where
  "provider_pool custom disable_builtin =
     map_option (\<lambda>builtin.
       snd (fold pool_step ((if disable_builtin then [] else builtin) @ custom) ({}, [])))
       builtin_doh_providers"

lemma builtin_providers_parse: "builtin_doh_providers \<noteq> None"
  by code_simp

lemma pool_steps:
  assumes "seen = (\<lambda>p. (dp_ip p, dp_hostname p)) ` set pool" and "distinct (map (\<lambda>p. (dp_ip p, dp_hostname p)) pool)"
    and "fold pool_step ps (seen, pool) = (seen', pool')"
  shows "distinct (map (\<lambda>p. (dp_ip p, dp_hostname p)) pool') \<and> (\<exists>added. pool' = pool @ added \<and> set added \<subseteq> set ps) \<and>
    (\<lambda>p. (dp_ip p, dp_hostname p)) ` set pool' = seen \<union> (\<lambda>p. (dp_ip p, dp_hostname p)) ` set ps"
  using assms
proof (induction ps arbitrary: seen pool)
  case (Cons p ps)
  show ?case
  proof (cases "(dp_ip p, dp_hostname p) \<in> seen")
    case True
    then show ?thesis using Cons.IH [OF Cons.prems(1,2)] Cons.prems(3) by (auto simp: pool_step_def)
  next
    case False
    have "insert (dp_ip p, dp_hostname p) seen = (\<lambda>p. (dp_ip p, dp_hostname p)) ` set (pool @ [p])"
      "distinct (map (\<lambda>p. (dp_ip p, dp_hostname p)) (pool @ [p]))" using False Cons.prems(1,2) by auto
    from Cons.IH [OF this] False Cons.prems(3) show ?thesis by (auto simp: pool_step_def Let_def)
  qed
qed auto

text \<open>
  The pool has no provider twice, takes only configured or built-in ones, and leaves out none of them.
\<close>

lemma provider_pool_complete:
  assumes "provider_pool custom disable_builtin = Some pool" and "builtin_doh_providers = Some builtin"
  defines "offered \<equiv> (if disable_builtin then [] else builtin) @ custom"
  shows "distinct (map (\<lambda>p. (dp_ip p, dp_hostname p)) pool) \<and> set pool \<subseteq> set offered \<and>
    (\<lambda>p. (dp_ip p, dp_hostname p)) ` set pool = (\<lambda>p. (dp_ip p, dp_hostname p)) ` set offered"
proof -
  obtain seen' where "fold pool_step offered ({}, []) = (seen', pool)"
    using assms(1) unfolding provider_pool_def assms(2) option.map option.inject offered_def [symmetric]
    by (metis prod.collapse)
  from pool_steps [OF _ _ this] show ?thesis by auto
qed

section \<open>The walk over the providers\<close>

text \<open>An attempt gives no final answer when it fails or reports a temporary failure.\<close>

definition gave_way :: "(dns_server_error, 'n resolved_answer) result \<Rightarrow> bool" where
  "gave_way r = (case r of Inr answer \<Rightarrow> temporary_response (ra_message answer) | Inl _ \<Rightarrow> True)"

definition written :: "('p \<Rightarrow> nat \<times> 'w list \<times> 'r) \<Rightarrow> 'p list \<Rightarrow> 'w list" where
  "written attempt_at ps = concat (map (\<lambda>p. fst (snd (attempt_at p))) ps)"

text \<open>
  \<open>sent\<close> is what the providers asked so far have written: those before the one that answered and that one, all of
  them when none answered, or those up to the one cut off at the deadline.
\<close>

definition pool_outcome ::
  "nat \<Rightarrow> ('p \<Rightarrow> nat \<times> 'w list \<times> (dns_server_error, 'n resolved_answer) result) \<Rightarrow> 'p list \<Rightarrow> nat
   \<Rightarrow> 'w list \<Rightarrow> (dns_server_error, 'n resolved_answer) result \<Rightarrow> bool" where
  "pool_outcome deadline attempt_at ps fin sent r =
     (case r of
        Inr answer \<Rightarrow>
          \<exists>before p after. ps = before @ p # after \<and> list_all (\<lambda>q. gave_way (snd (snd (attempt_at q)))) before \<and>
            snd (snd (attempt_at p)) = Inr answer \<and> \<not> temporary_response (ra_message answer) \<and>
            sent = written attempt_at (before @ [p])
      | Inl AllProvidersFailed \<Rightarrow> list_all (\<lambda>q. gave_way (snd (snd (attempt_at q)))) ps \<and> sent = written attempt_at ps
      | Inl e \<Rightarrow> e = dns_server_error.Timeout DOH_TOTAL_TIMEOUT \<and> fin = deadline \<and>
          (\<exists>asked rest. ps = asked @ rest \<and> asked \<noteq> [] \<and> sent = written attempt_at asked))"

lemma pool_outcome_Cons:
  assumes "gave_way (snd (snd (attempt_at p)))" and "pool_outcome deadline attempt_at ps fin sent r"
  shows "pool_outcome deadline attempt_at (p # ps) fin (fst (snd (attempt_at p)) @ sent) r"
proof (cases r)
  case (Inl e)
  show ?thesis
  proof (cases "e = AllProvidersFailed")
    case True
    then show ?thesis using assms Inl by (simp add: pool_outcome_def written_def)
  next
    case False
    then obtain asked rest where "ps = asked @ rest" "sent = written attempt_at asked"
        "e = dns_server_error.Timeout DOH_TOTAL_TIMEOUT" "fin = deadline"
      using assms(2) Inl by (cases e) (auto simp: pool_outcome_def)
    then have "p # ps = (p # asked) @ rest" "fst (snd (attempt_at p)) @ sent = written attempt_at (p # asked)"
        "e = dns_server_error.Timeout DOH_TOTAL_TIMEOUT" "fin = deadline" by (simp_all add: written_def)
    then have "\<exists>asked rest. p # ps = asked @ rest \<and> asked \<noteq> [] \<and> fst (snd (attempt_at p)) @ sent = written attempt_at asked" by blast
    then show ?thesis using \<open>e = _\<close> \<open>fin = _\<close> unfolding pool_outcome_def Inl by simp
  qed
next
  case (Inr answer)
  then obtain before q after where w: "ps = before @ q # after"
    "list_all (\<lambda>q. gave_way (snd (snd (attempt_at q)))) before" "snd (snd (attempt_at q)) = Inr answer"
    "\<not> temporary_response (ra_message answer)" "sent = written attempt_at (before @ [q])"
    using assms(2) unfolding pool_outcome_def by auto
  have "p # ps = (p # before) @ q # after" "list_all (\<lambda>q. gave_way (snd (snd (attempt_at q)))) (p # before)"
    "fst (snd (attempt_at p)) @ sent = written attempt_at ((p # before) @ [q])"
    using w assms(1) by (auto simp: written_def)
  then show ?thesis unfolding pool_outcome_def Inr sum.case using w(3,4) by blast
qed

lemma ordered_pool_outcome:
  assumes "\<And>p. fst (attempt_at p) \<le> DOH_PROVIDER_TIMEOUT" and "now \<le> deadline"
  shows "case ordered_pool deadline attempt_at ps now of (fin, sent, r) \<Rightarrow>
    now \<le> fin \<and> fin \<le> deadline \<and> pool_outcome deadline attempt_at ps fin sent r"
  using assms(2)
proof (induction ps arbitrary: now)
  case Nil
  then show ?case by (simp add: pool_outcome_def written_def)
next
  case (Cons p ps)
  obtain took sent r where t: "attempt_at p = (took, sent, r)" by (metis prod_cases3)
  have short: "took \<le> DOH_PROVIDER_TIMEOUT" using assms(1) [of p] t by simp
  have one: "sent = written attempt_at [p]" using t by (simp add: written_def)
  have cut: "pool_outcome deadline attempt_at (p # ps) deadline sent (Inl (dns_server_error.Timeout DOH_TOTAL_TIMEOUT))"
    unfolding pool_outcome_def using one by (auto intro: exI [of _ "[p]"])
  consider (ans) answer where "now + took \<le> deadline" "r = Inr answer" "\<not> temporary_response (ra_message answer)"
    | (late) "deadline < now + took" | (on) "now + took \<le> deadline" "gave_way r"
    by (cases r; cases "now + took \<le> deadline"; cases "gave_way r") (auto simp: gave_way_def)
  then show ?case
  proof cases
    case ans
    have "\<exists>before q after. p # ps = before @ q # after \<and> list_all (\<lambda>q. gave_way (snd (snd (attempt_at q)))) before \<and>
        snd (snd (attempt_at q)) = Inr answer \<and> \<not> temporary_response (ra_message answer) \<and> sent = written attempt_at (before @ [q])"
      by (rule exI [of _ "[]"], rule exI [of _ p], rule exI [of _ ps]) (use ans t one in simp)
    then have "pool_outcome deadline attempt_at (p # ps) (now + took) sent r" using ans(2) unfolding pool_outcome_def by simp
    with ans short t show ?thesis by simp
  next
    case late
    then show ?thesis using t short Cons.prems cut by (simp add: Let_def)
  next
    case on
    show ?thesis
    proof (cases "deadline \<le> now + took")
      case True
      then have "now + took = deadline" using on by simp
      then show ?thesis using on t short Cons.prems cut
        by (auto simp: Let_def gave_way_def split: sum.splits)
    next
      case False
      obtain fin later r' where o: "ordered_pool deadline attempt_at ps (now + took) = (fin, later, r')" by (metis prod_cases3)
      have "ordered_pool deadline attempt_at (p # ps) now = (fin, sent @ later, r')"
        using on short t False o by (auto simp: Let_def gave_way_def split: sum.splits)
      then show ?thesis using Cons.IH [of "now + took"] False on(2) t o pool_outcome_Cons [of attempt_at p deadline ps fin later r']
        by simp
    qed
  qed
qed

lemma doh_resolve_answers:
  assumes "snd (snd (doh_resolve nm pc net question p)) = Inr answer"
  shows "length (m_queries (ra_message answer)) = 1 \<and> same_question nm (m_queries (ra_message answer) ! 0) question \<and>
    \<not> md_truncation (m_metadata (ra_message answer)) \<and> ra_resolved_at answer = dn_now net"
proof -
  from assms obtain query body where q: "build_query pc (dn_id net p) question = Inr query"
    and r: "parse_response nm pc (dn_now net) query body = Inr answer"
    by (auto simp: doh_resolve_def resolve_with_provider_def and_then_Inr_iff split: if_splits sum.splits prod.splits)
  have "dq_question query = question" using q by (auto simp: build_query_def split: sum.splits)
  then show ?thesis using parse_response_InrD [OF r] by simp
qed

text \<open>A request for a question: the POST of its encoded query, to the provider it is meant for.\<close>

definition asks :: "'n packet_codec \<Rightarrow> 'n query \<Rightarrow> doh_provider \<times> str \<Rightarrow> bool" where
  "asks pc question = (\<lambda>(provider, request).
     \<exists>ident bs. pc_to_vec pc (query_message ident question) = Inr bs \<and>
       request = build_post_request (dp_hostname provider) (dp_path provider) bs)"

lemma doh_resolve_asks: "x \<in> set (fst (snd (doh_resolve nm pc net question p))) \<Longrightarrow> fst x = p \<and> asks pc question x"
  by (auto simp: doh_resolve_def resolve_with_provider_def doh_exchange_def build_query_def asks_def Let_def
      split: if_splits sum.splits prod.splits) blast+

lemma pool_outcome_sent:
  assumes "pool_outcome deadline attempt_at ps fin sent r"
  shows "\<exists>asked rest. ps = asked @ rest \<and> sent = written attempt_at asked"
proof (cases r)
  case (Inl e)
  then show ?thesis using assms by (cases e) (auto simp: pool_outcome_def intro: exI [of _ ps])
next
  case (Inr answer)
  then obtain before p after where "ps = before @ p # after" "sent = written attempt_at (before @ [p])"
    using assms unfolding pool_outcome_def by auto
  then show ?thesis by (intro exI [of _ "before @ [p]"] exI [of _ after]) simp
qed

lemma resolve_with_pool_outcome:
  "case resolve_with_pool nm pc net question providers now of (fin, sent, r) \<Rightarrow>
     now \<le> fin \<and> fin \<le> now + DOH_TOTAL_TIMEOUT \<and>
     pool_outcome (now + DOH_TOTAL_TIMEOUT) (doh_resolve nm pc net question) providers fin sent r"
proof -
  have "fst (doh_resolve nm pc net question p) \<le> DOH_PROVIDER_TIMEOUT" for p by (simp add: doh_resolve_def split: prod.split)
  from ordered_pool_outcome [of "doh_resolve nm pc net question", OF this, of now "now + DOH_TOTAL_TIMEOUT" providers]
  show ?thesis unfolding resolve_with_pool_def by simp
qed

lemma pool_asks:
  assumes "resolve_with_pool nm pc net question providers now = (fin, sent, r)" and "x \<in> set sent"
  shows "fst x \<in> set providers \<and> asks pc question x"
proof -
  have "pool_outcome (now + DOH_TOTAL_TIMEOUT) (doh_resolve nm pc net question) providers fin sent r"
    using resolve_with_pool_outcome [where nm = nm and pc = pc and net = net and question = question and providers = providers and now = now]
    by (simp add: assms(1))
  from pool_outcome_sent [OF this] obtain asked rest
    where a: "providers = asked @ rest" "sent = written (doh_resolve nm pc net question) asked" by blast
  from assms(2) obtain p where p: "p \<in> set asked" "x \<in> set (fst (snd (doh_resolve nm pc net question p)))"
    unfolding a(2) written_def by auto
  then show ?thesis using doh_resolve_asks [OF p(2)] a(1) by auto
qed

section \<open>The body of a response\<close>

lemma read_doh_length_Inr:
  "read_doh_length len body s = Inr out \<Longrightarrow> length body \<le> len \<Longrightarrow> length out = len \<and> (\<exists>rest. body @ wire s = out @ rest)"
proof (induction len body s rule: read_doh_length.induct)
  case (1 len body s)
  show ?case
  proof (cases "len \<le> length body")
    case True
    then show ?thesis using "1.prems" by (subst (asm) read_doh_length.simps) auto
  next
    case False
    obtain c s' where rd: "stream_read (min DOH_READ_BUF_SIZE (len - length body)) s = (c, s')" by fastforce
    from "1.prems"(1) False rd obtain bs where bs: "c = Inr bs" "bs \<noteq> []"
      and go: "read_doh_length len (body @ bs) s' = Inr out"
      by (subst (asm) read_doh_length.simps) (auto split: sum.splits if_splits)
    note b = stream_read_bytes [OF rd [unfolded bs(1)] bs(2)]
    have "length (body @ bs) \<le> len" using b False by auto
    from "1.IH" [OF False rd [symmetric] bs go this] b show ?thesis by simp
  qed
qed

lemma read_doh_eof_Inr:
  "read_doh_eof body s = Inr out \<Longrightarrow> length body \<le> MAX_DNS_RESPONSE_BYTES \<Longrightarrow>
     out = body @ wire s \<and> ends s = Eof \<and> length out \<le> MAX_DNS_RESPONSE_BYTES"
proof (induction body s rule: read_doh_eof.induct)
  case (1 body s)
  obtain c s' where rd: "stream_read DOH_READ_BUF_SIZE s = (c, s')" by fastforce
  have k: "0 < DOH_READ_BUF_SIZE" by (simp add: DOH_READ_BUF_SIZE_def)
  from "1.prems"(1) rd obtain bs where c: "c = Inr bs"
    by (subst (asm) read_doh_eof.simps) (auto split: sum.splits)
  show ?case
  proof (cases "bs = []")
    case True
    then show ?thesis using "1.prems" rd c stream_read_Nil [OF k, of s s']
      by (subst (asm) read_doh_eof.simps) auto
  next
    case False
    from "1.prems"(1) rd c False have fits: "\<not> MAX_DNS_RESPONSE_BYTES < length (body @ bs)"
      and go: "read_doh_eof (body @ bs) s' = Inr out"
      by (subst (asm) read_doh_eof.simps, auto split: if_splits)+
    note b = stream_read_bytes [OF rd [unfolded c] False]
    from "1.IH" [OF rd [symmetric] c False fits go] fits b show ?thesis by auto
  qed
qed

lemma fold_note_doh_header_len [simp]: "hh_header_len (fold note_doh_header hs r) = hh_header_len r"
  by (induction hs arbitrary: r) (auto simp: note_doh_header_def Let_def split: prod.splits)

lemma parse_head_len:
  assumes "\<And>b n c hs. hp b = HeadComplete n c hs \<Longrightarrow> n \<le> length b" and "parse_head hp buf = Inr (Some head)"
  shows "hh_header_len head \<le> length buf"
  using assms by (auto simp: parse_head_def split: head_parse.splits option.splits)

lemma read_doh_head_Inr:
  "read_doh_head hp cap buf s = Inr (head, buf2, s2) \<Longrightarrow> length buf \<le> cap \<Longrightarrow> cap \<in> {DOH_READ_BUF_SIZE, MAX_HEADER_BYTES} \<Longrightarrow>
     parse_head hp buf2 = Inr (Some head) \<and> buf2 @ wire s2 = buf @ wire s \<and> ends s2 = ends s \<and> length buf2 \<le> MAX_HEADER_BYTES"
proof (induction hp cap buf s rule: read_doh_head.induct)
  case (1 hp cap buf s)
  define cap2 where "cap2 = (if length buf = cap then cap * 2 else cap)"
  have cap: "cap \<le> MAX_HEADER_BYTES" using "1.prems"(3) by (auto simp: MAX_HEADER_BYTES_def DOH_READ_BUF_SIZE_def)
  from "1.prems"(1) obtain found where ph: "parse_head hp buf = Inr found"
    by (subst (asm) read_doh_head.simps) (auto split: sum.splits)
  show ?case
  proof (cases found)
    case (Some h)
    then show ?thesis using "1.prems" ph cap by (subst (asm) read_doh_head.simps) auto
  next
    case None
    obtain c s' where rd: "stream_read (cap2 - length buf) s = (c, s')" by fastforce
    note eq = "1.prems"(1) [unfolded read_doh_head.simps [of hp cap buf s] ph None sum.case option.case Let_def,
        folded cap2_def, unfolded rd prod.case]
    have room: "\<not> (length buf = cap \<and> MAX_HEADER_BYTES \<le> cap)" using eq by (auto split: if_splits)
    from eq room obtain bs where bs: "c = Inr bs" "bs \<noteq> []"
      and go: "read_doh_head hp cap2 (buf @ bs) s' = Inr (head, buf2, s2)"
      by (auto split: if_splits sum.splits)
    have cap2: "cap2 \<in> {DOH_READ_BUF_SIZE, MAX_HEADER_BYTES}" "length buf \<le> cap2"
      using "1.prems"(2,3) room by (auto simp: cap2_def MAX_HEADER_BYTES_def DOH_READ_BUF_SIZE_def)
    note b = stream_read_bytes [OF rd [unfolded bs(1)] bs(2)]
    have "length (buf @ bs) \<le> cap2" using b cap2(2) by auto
    from "1.IH" [OF ph None room cap2_def rd [symmetric] bs go this cap2(1)] b show ?thesis by simp
  qed
qed

text \<open>
  C30: A response body that is accepted is exactly what follows the head on the wire.  The head is complete within
  16 KiB, reports status 200 and no chunked coding; the body has the announced number of bytes or, without an
  announcement, ends where the connection was closed; and it never exceeds 64 KiB, however the bytes arrive.
\<close>

theorem doh_body_follows_the_head:
  assumes "\<And>b n c hs. hp b = HeadComplete n c hs \<Longrightarrow> n \<le> length b"
    and "read_dns_body hp s = Inr body"
  shows "\<exists>buf head rest. parse_head hp buf = Inr (Some head) \<and> length buf \<le> MAX_HEADER_BYTES \<and>
    hh_status head = 200 \<and> \<not> hh_chunked head \<and>
    take (length buf) (wire s) = buf \<and> drop (hh_header_len head) (wire s) = body @ rest \<and>
    length body \<le> MAX_DNS_RESPONSE_BYTES \<and>
    (case hh_content_length head of Some n \<Rightarrow> length body = n | None \<Rightarrow> rest = [] \<and> ends s = Eof)"
proof -
  from assms(2) obtain head buf s2 where h: "read_doh_head hp DOH_READ_BUF_SIZE [] s = Inr (head, buf, s2)"
    and ok: "hh_status head = 200" "\<not> hh_chunked head"
    and fits: "length (drop (hh_header_len head) buf) \<le> MAX_DNS_RESPONSE_BYTES"
    and rd: "(case hh_content_length head of
                Some len \<Rightarrow>
                  if MAX_DNS_RESPONSE_BYTES < len then
                    Inl (DohExchange (''DNS response of '' @ show_nat len @ '' bytes exceeds the '' @
                      show_nat MAX_DNS_RESPONSE_BYTES @ '' byte limit''))
                  else read_doh_length len (if len < length (drop (hh_header_len head) buf)
                    then take len (drop (hh_header_len head) buf) else drop (hh_header_len head) buf) s2
              | None \<Rightarrow> read_doh_eof (drop (hh_header_len head) buf) s2) = Inr body"
    unfolding read_dns_body_def and_then_Inr_iff by (auto simp: Let_def split: if_splits)
  define pre where "pre = drop (hh_header_len head) buf"
  from read_doh_head_Inr [OF h] have b: "parse_head hp buf = Inr (Some head)" "buf @ wire s2 = wire s"
    "ends s2 = ends s" "length buf \<le> MAX_HEADER_BYTES" by auto
  have len: "hh_header_len head \<le> length buf"
    using b(1) assms(1) parse_head_len by blast
  have w: "drop (hh_header_len head) (wire s) = pre @ wire s2" using b(2) [symmetric] len by (simp add: pre_def)
  have "\<exists>rest. pre @ wire s2 = body @ rest \<and> length body \<le> MAX_DNS_RESPONSE_BYTES \<and>
    (case hh_content_length head of Some n \<Rightarrow> length body = n | None \<Rightarrow> rest = [] \<and> ends s = Eof)"
  proof (cases "hh_content_length head")
    case None
    then show ?thesis using rd read_doh_eof_Inr [of pre s2 body] fits b(3) unfolding pre_def [symmetric] by auto
  next
    case (Some n)
    have n: "n \<le> MAX_DNS_RESPONSE_BYTES" and go: "read_doh_length n (take n pre) s2 = Inr body"
      using rd unfolding Some pre_def [symmetric] by (auto split: if_splits)
    from read_doh_length_Inr [OF go] obtain rest where r: "length body = n" "take n pre @ wire s2 = body @ rest" by auto
    have "\<exists>rest. pre @ wire s2 = body @ rest"
    proof (cases "n \<le> length pre")
      case True
      then have "body = take n pre" using r by (metis append_eq_append_conv_if length_take min.absorb2 take_all_iff order_refl)
      then show ?thesis by (metis append.assoc append_take_drop_id)
    qed (use r in auto)
    then show ?thesis using n r(1) Some by auto
  qed
  then show ?thesis using b ok w by (metis append_eq_conv_conj)
qed

definition toy_head :: "str \<Rightarrow> head_parse" where
  "toy_head b = (if length b < 4 then HeadPartial else HeadComplete 4 (Some 200) [(''Content-Length'', ''3'')])"

theorem doh_body_follows_the_head_witness:
  "read_dns_body toy_head [Data ''HT'', Data ''TPab'', Data ''cd''] = Inr ''abc'' \<and>
   (\<exists>buf head rest. parse_head toy_head buf = Inr (Some head) \<and> length buf \<le> MAX_HEADER_BYTES \<and>
    hh_status head = 200 \<and> \<not> hh_chunked head \<and>
    take (length buf) ''HTTPabcd'' = buf \<and> drop (hh_header_len head) ''HTTPabcd'' = ''abc'' @ rest \<and>
    length ''abc'' \<le> MAX_DNS_RESPONSE_BYTES \<and>
    (case hh_content_length head of Some n \<Rightarrow> length ''abc'' = n
     | None \<Rightarrow> rest = [] \<and> ends [Data ''HT'', Data ''TPab'', Data ''cd''] = Eof))"
proof -
  have law: "\<And>b n c hs. toy_head b = HeadComplete n c hs \<Longrightarrow> n \<le> length b"
    by (auto simp: toy_head_def split: if_splits)
  have rd: "read_dns_body toy_head [Data ''HT'', Data ''TPab'', Data ''cd''] = Inr ''abc''" by code_simp
  have w: "wire [Data ''HT'', Data ''TPab'', Data ''cd''] = ''HTTPabcd''" by simp
  show ?thesis by (intro conjI rd, rule doh_body_follows_the_head [OF _ rd, unfolded w], erule law)
qed

text \<open>
  C31: The providers are asked in their configured order, and the first answer that is not a temporary failure is
  the one given: every provider before it failed, reported SERVFAIL or was cut off after 20 seconds, and the
  answer echoes the question.  The walk ends within 30 seconds of its start; it reports that every provider
  failed only after trying all of them, and a timeout only at the deadline itself.  What it writes into the tunnel
  are the requests of the providers asked, in that order.
\<close>

theorem doh_pool_is_ordered_and_bounded:
  "case resolve_with_pool nm pc net question providers now of (fin, sent, r) \<Rightarrow>
     now \<le> fin \<and> fin \<le> now + DOH_TOTAL_TIMEOUT \<and>
     pool_outcome (now + DOH_TOTAL_TIMEOUT) (doh_resolve nm pc net question) providers fin sent r \<and>
     (case r of Inr answer \<Rightarrow>
        length (m_queries (ra_message answer)) = 1 \<and> same_question nm (m_queries (ra_message answer) ! 0) question \<and>
        \<not> md_truncation (m_metadata (ra_message answer)) \<and> ra_resolved_at answer = dn_now net
      | Inl _ \<Rightarrow> True)"
proof -
  obtain fin sent r where e: "resolve_with_pool nm pc net question providers now = (fin, sent, r)" by (metis prod_cases3)
  with resolve_with_pool_outcome [where nm = nm and pc = pc and net = net and question = question and providers = providers and now = now]
  have out: "now \<le> fin" "fin \<le> now + DOH_TOTAL_TIMEOUT"
    "pool_outcome (now + DOH_TOTAL_TIMEOUT) (doh_resolve nm pc net question) providers fin sent r"
    by auto
  have "length (m_queries (ra_message answer)) = 1 \<and> same_question nm (m_queries (ra_message answer) ! 0) question \<and>
      \<not> md_truncation (m_metadata (ra_message answer)) \<and> ra_resolved_at answer = dn_now net"
    if r: "r = Inr answer" for answer
  proof -
    from out(3) r obtain p where "snd (snd (doh_resolve nm pc net question p)) = Inr answer"
      unfolding pool_outcome_def by auto
    then show ?thesis by (rule doh_resolve_answers)
  qed
  then show ?thesis using e out by (simp split: sum.splits)
qed

end
