(* ===== verification/DnsOverrides.thy ===== *)
theory DnsOverrides
  imports DnsMessage
begin

text \<open>
  Host masks that take a name out of the tunnel (packages/dns-server: \<open>overrides/overrides.rs\<close>): the mask
  language, the guard against asking oneself, the plain exchange with a server and the walk over the
  servers the system is configured with.

  The network is a parameter: what binding, connecting, sending and receiving give for a server.  An
  exchange returns the packets it sent along with its result.
\<close>

section \<open>Masks\<close>

datatype override_resolver = SystemResolve | DnsResolve socket_addr

record dns_override =
  ov_pattern :: str
  ov_resolver :: override_resolver

text \<open>The closing loop of \<open>matches\<close>, over the stars that are left.\<close>

function skip_stars :: "str \<Rightarrow> nat \<Rightarrow> nat" where
  "skip_stars pattern i = (if i < length pattern \<and> pattern ! i = CHR ''*'' then skip_stars pattern (i + 1) else i)"
  by pat_completeness auto
termination by (relation "measure (\<lambda>(pattern, i). length pattern - i)") auto

declare skip_stars.simps [simp del]

text \<open>The walk with two indices, the last star and where its run currently starts in the host.\<close>

partial_function (option) glob_loop :: "str \<Rightarrow> str \<Rightarrow> nat \<Rightarrow> nat \<Rightarrow> nat option \<Rightarrow> nat \<Rightarrow> bool option" where
  "glob_loop pattern host pattern_index host_index star_index star_match_start =
     (if host_index < length host then
        if pattern_index < length pattern \<and> pattern ! pattern_index = CHR ''*'' then
          glob_loop pattern host (pattern_index + 1) host_index (Some pattern_index) host_index
        else if pattern_index < length pattern \<and> pattern ! pattern_index = host ! host_index then
          glob_loop pattern host (pattern_index + 1) (host_index + 1) star_index star_match_start
        else
          (case star_index of
             Some star \<Rightarrow> glob_loop pattern host (star + 1) (star_match_start + 1) (Some star) (star_match_start + 1)
           | None \<Rightarrow> Some False)
      else Some (skip_stars pattern pattern_index = length pattern))"

definition matches_mask :: "str \<Rightarrow> str \<Rightarrow> bool option" where
  "matches_mask pattern host = glob_loop (ascii_lowercase pattern) (ascii_lowercase host) 0 0 None 0"

definition find_override :: "dns_override list \<Rightarrow> str \<Rightarrow> dns_override option" where
  "find_override overrides host = find (\<lambda>entry. matches_mask (ov_pattern entry) host = Some True) overrides"

section \<open>The guard against asking oneself\<close>

fun canonical_ip :: "ip_addr \<Rightarrow> ip_addr" where
  "canonical_ip (V6 v6) = (case to_ipv4_mapped v6 of Some v4 \<Rightarrow> V4 v4 | None \<Rightarrow> V6 v6)"
| "canonical_ip (V4 v4) = V4 v4"

definition self_reference :: "socket_addr \<Rightarrow> socket_addr list \<Rightarrow> ip_addr \<Rightarrow> bool" where
  "self_reference server listeners route_local =
     (let target = canonical_ip (sa_ip server);
          local = canonical_ip route_local
      in list_ex (\<lambda>listener.
           if sa_port listener \<noteq> sa_port server then False
           else
             let bound = canonical_ip (sa_ip listener) in
             bound = target \<or>
             (is_unspecified bound \<and> (is_unspecified target \<or> is_loopback target \<or> target = local) \<and>
              is_ipv4 bound = is_ipv4 target)) listeners)"

datatype probe_error = SelfReference socket_addr | Transport dns_server_error

text \<open>
  The operating system's side of an exchange with one server: the local address a connected socket gets, the
  datagrams that arrive before the deadline, and the TCP connection for truncated answers.
\<close>

record plain_net =
  pn_bind :: "ip_addr \<Rightarrow> (str, unit) result"
  pn_connect :: "socket_addr \<Rightarrow> (str, unit) result"
  pn_local :: "socket_addr \<Rightarrow> (str, ip_addr) result"
  pn_send :: "socket_addr \<Rightarrow> (str, unit) result"
  pn_datagrams :: "socket_addr \<Rightarrow> (str, bytes) result list"
  pn_tcp_connect :: "socket_addr \<Rightarrow> (str, unit) result"
  pn_tcp_write_length :: "socket_addr \<Rightarrow> (str, unit) result"
  pn_tcp_write_body :: "socket_addr \<Rightarrow> (str, unit) result"
  pn_tcp_input :: "socket_addr \<Rightarrow> conn_input"
  pn_id :: u16
  pn_now :: int

fun into_dns_error :: "probe_error \<Rightarrow> dns_server_error" where
  "into_dns_error (SelfReference server) =
     PlainDns (''override upstream '' @ show_socket server @ '' refers to this listener'')"
| "into_dns_error (Transport error) = error"

definition probe_upstream ::
  "plain_net \<Rightarrow> socket_addr \<Rightarrow> socket_addr list \<Rightarrow> (probe_error, socket_addr) result" where
  "probe_upstream net server listeners =
     (if self_reference server listeners (V4 0) then Inl (SelfReference server)
      else
        let bind = (if is_ipv4 (canonical_ip (sa_ip server)) then V4 0 else V6 0);
            server = (case canonical_ip (sa_ip server) of
                        V4 ip \<Rightarrow> \<lparr>sa_ip = V4 ip, sa_port = sa_port server, sa_scope = 0\<rparr>
                      | V6 _ \<Rightarrow> server)
        in case pn_bind net bind of
             Inl e \<Rightarrow> Inl (Transport (PlainDns (''bind ephemeral socket: '' @ e)))
           | Inr _ \<Rightarrow>
               (case pn_connect net server of
                  Inl e \<Rightarrow> Inl (Transport (PlainDns (''connect UDP socket: '' @ e)))
                | Inr _ \<Rightarrow>
                    (case pn_local net server of
                       Inl e \<Rightarrow> Inl (Transport (PlainDns (''probe local address: '' @ e)))
                     | Inr local \<Rightarrow>
                         if self_reference server listeners local then Inl (SelfReference server) else Inr server)))"

section \<open>The plain exchange\<close>

definition PLAIN_DNS_TIMEOUT :: nat where "PLAIN_DNS_TIMEOUT = from_secs 5"
definition SYSTEM_RESOLVER_TIMEOUT :: nat where "SYSTEM_RESOLVER_TIMEOUT = from_secs 10"

datatype plain_packet = UdpPacket socket_addr bytes | TcpPacket socket_addr bytes

fun plain_error :: "dns_server_error \<Rightarrow> dns_server_error" where
  "plain_error (DohExchange text) = PlainDns text"
| "plain_error other = other"

text \<open>A read that ends early: the deadline of the whole exchange, or the text of the failure.\<close>

definition read_failure :: "str \<Rightarrow> frame_error \<Rightarrow> dns_server_error" where
  "read_failure what e =
     (case e of
        DeadlineExpired \<Rightarrow> Timeout PLAIN_DNS_TIMEOUT
      | ConnError s \<Rightarrow> PlainDns (what @ s)
      | _ \<Rightarrow> PlainDns (what @ ''early eof''))"

definition tcp_exchange ::
  "plain_net \<Rightarrow> socket_addr \<Rightarrow> 'n dns_query \<Rightarrow> plain_packet list \<times> (dns_server_error, bytes) result" where
  "tcp_exchange net server query =
     (case pn_tcp_connect net server of
        Inl e \<Rightarrow> ([], Inl (PlainDns (''TCP connect: '' @ e)))
      | Inr _ \<Rightarrow>
          if 65535 < length (dq_bytes query) then ([], Inl (PlainDns ''query too large for TCP''))
          else case pn_tcp_write_length net server of
            Inl e \<Rightarrow> ([], Inl (PlainDns (''write query length: '' @ e)))
          | Inr _ \<Rightarrow>
              (case pn_tcp_write_body net server of
                 Inl e \<Rightarrow> ([TcpPacket server (to_be 2 (length (dq_bytes query)))], Inl (PlainDns (''write query: '' @ e)))
               | Inr _ \<Rightarrow>
              ([TcpPacket server (to_be 2 (length (dq_bytes query)) @ dq_bytes query)],
               (case conn_read_exact 2 (pn_tcp_input net server) of
                  Inl e \<Rightarrow> Inl (read_failure ''read response length: '' e)
                | Inr (len, rest) \<Rightarrow>
                    (case conn_read_exact (from_be len) rest of
                       Inl e \<Rightarrow> Inl (read_failure ''read response body: '' e)
                     | Inr (body, _) \<Rightarrow> Inr body)))))"

text \<open>
  The loop over datagrams: what does not validate is passed over; when no datagram is left, the deadline of
  \<open>resolve_via_dns_server\<close> ends the wait.
\<close>

fun receive_loop ::
  "'n name_ops \<Rightarrow> 'n packet_codec \<Rightarrow> plain_net \<Rightarrow> socket_addr \<Rightarrow> 'n dns_query \<Rightarrow> (str, bytes) result list
   \<Rightarrow> plain_packet list \<times> (dns_server_error, 'n resolved_answer) result" where
  "receive_loop nm pc net server query [] = ([], Inl (Timeout PLAIN_DNS_TIMEOUT))"
| "receive_loop nm pc net server query (Inl e # rest) = ([], Inl (PlainDns (''receive DNS response: '' @ e)))"
| "receive_loop nm pc net server query (Inr body # rest) =
     (case validate_response nm pc query body of
        Inl _ \<Rightarrow> receive_loop nm pc net server query rest
      | Inr message \<Rightarrow>
          if md_truncation (m_metadata message) then
            (case tcp_exchange net server query of
               (sent, Inl e) \<Rightarrow> (sent, Inl e)
             | (sent, Inr body) \<Rightarrow>
                 (sent, map_sum plain_error id (parse_response nm pc (pn_now net) query body)))
          else ([], map_sum plain_error id (parse_response nm pc (pn_now net) query body)))"

definition resolve_via_dns_server ::
  "'n name_ops \<Rightarrow> 'n packet_codec \<Rightarrow> plain_net \<Rightarrow> 'n query \<Rightarrow> socket_addr \<Rightarrow> socket_addr list
   \<Rightarrow> plain_packet list \<times> (dns_server_error, 'n resolved_answer) result" where
  "resolve_via_dns_server nm pc net question server listeners =
     (case build_query pc (pn_id net) question of
        Inl e \<Rightarrow> ([], Inl (Wire e))
      | Inr query \<Rightarrow>
          (case probe_upstream net server listeners of
             Inl e \<Rightarrow> ([], Inl (into_dns_error e))
           | Inr server \<Rightarrow>
               (case pn_send net server of
                  Inl e \<Rightarrow> ([], Inl (PlainDns (''send DNS query: '' @ e)))
                | Inr _ \<Rightarrow>
                    (case receive_loop nm pc net server query (pn_datagrams net server) of
                       (sent, r) \<Rightarrow> (UdpPacket server (dq_bytes query) # sent, r)))))"

section \<open>The servers of the system\<close>

text \<open>The system configuration lists name servers with their connections; \<open>True\<close> marks a UDP connection.\<close>

definition read_system_servers :: "(ip_addr \<times> (bool \<times> u16) list) list \<Rightarrow> socket_addr list" where
  "read_system_servers name_servers =
     fold (\<lambda>(ip, connections).
       fold (\<lambda>(udp, port) servers.
         if udp then
           let addr = \<lparr>sa_ip = ip, sa_port = port, sa_scope = 0\<rparr> in
           if addr \<in> set servers then servers else servers @ [addr]
         else servers) connections) name_servers []"

text \<open>The scan before anything is sent: the usable servers and the last transport error, or the reason to refuse.\<close>

fun scan_servers ::
  "plain_net \<Rightarrow> socket_addr list \<Rightarrow> socket_addr list \<Rightarrow> socket_addr list \<Rightarrow> dns_server_error option
   \<Rightarrow> (dns_server_error, socket_addr list \<times> dns_server_error option) result" where
  "scan_servers net listeners [] usable last_error = Inr (usable, last_error)"
| "scan_servers net listeners (server # servers) usable last_error =
     (if self_reference server listeners (V4 0) then
        Inl (SystemResolver (''configured nameserver '' @ show_socket server @ '' refers to this listener''))
      else case probe_upstream net server listeners of
             Inr _ \<Rightarrow> scan_servers net listeners servers (usable @ [server]) last_error
           | Inl (SelfReference target) \<Rightarrow>
               Inl (SystemResolver (''configured nameserver '' @ show_socket target @ '' refers to this listener''))
           | Inl (Transport error) \<Rightarrow> scan_servers net listeners servers usable (Some error))"

text \<open>
  The exchanges in order; \<open>allowed\<close> is how many of them finish before the ten seconds of the whole lookup
  are over.
\<close>

fun try_servers ::
  "'n name_ops \<Rightarrow> 'n packet_codec \<Rightarrow> plain_net \<Rightarrow> 'n query \<Rightarrow> socket_addr list \<Rightarrow> nat \<Rightarrow> socket_addr list
   \<Rightarrow> dns_server_error option \<Rightarrow> plain_packet list \<times> (dns_server_error, 'n resolved_answer) result" where
  "try_servers nm pc net question listeners allowed [] last_error =
     ([], Inl (case last_error of Some e \<Rightarrow> e | None \<Rightarrow> SystemResolver ''no usable nameservers''))"
| "try_servers nm pc net question listeners 0 (server # servers) last_error =
     (fst (resolve_via_dns_server nm pc net question server listeners), Inl (Timeout SYSTEM_RESOLVER_TIMEOUT))"
| "try_servers nm pc net question listeners (Suc allowed) (server # servers) last_error =
     (case resolve_via_dns_server nm pc net question server listeners of
        (sent, r) \<Rightarrow>
          let next = (\<lambda>e. case try_servers nm pc net question listeners allowed servers (Some e) of
                            (later, r) \<Rightarrow> (sent @ later, r))
          in case r of
               Inr answer \<Rightarrow>
                 if \<not> temporary_response (ra_message answer) then (sent, Inr answer)
                 else next (SystemResolver ''temporary DNS failure'')
             | Inl error \<Rightarrow> next error)"

definition resolve_via_system ::
  "'n name_ops \<Rightarrow> 'n packet_codec \<Rightarrow> plain_net \<Rightarrow> 'n query \<Rightarrow> socket_addr list \<Rightarrow>
   (dns_server_error, socket_addr list) result \<Rightarrow> nat \<Rightarrow> plain_packet list \<times> (dns_server_error, 'n resolved_answer) result" where
  "resolve_via_system nm pc net question listeners config allowed =
     (case config of
        Inl e \<Rightarrow> ([], Inl e)
      | Inr servers \<Rightarrow>
          if servers = [] then ([], Inl (SystemResolver ''no configured plain DNS nameservers''))
          else case scan_servers net listeners servers [] None of
                 Inl e \<Rightarrow> ([], Inl e)
               | Inr (usable, last_error) \<Rightarrow> try_servers nm pc net question listeners allowed usable last_error)"

section \<open>What a mask means\<close>

text \<open>A star stands for any run of characters, any other character for itself.\<close>

fun glob :: "str \<Rightarrow> str \<Rightarrow> bool" where
  "glob [] host = (host = [])"
| "glob (c # pattern) host =
     (if c = CHR ''*'' then list_ex (\<lambda>n. glob pattern (drop n host)) [0..<Suc (length host)]
      else case host of [] \<Rightarrow> False | d # rest \<Rightarrow> c = d \<and> glob pattern rest)"

abbreviation star :: char where "star \<equiv> CHR ''*''"

lemma glob_star: "glob (star # pattern) host \<longleftrightarrow> (\<exists>n. glob pattern (drop n host))"
proof -
  have "glob pattern (drop n host) = glob pattern (drop (min n (length host)) host)" for n
    by (simp add: min_def)
  then have "(\<exists>n. glob pattern (drop n host)) \<longleftrightarrow> (\<exists>n \<le> length host. glob pattern (drop n host))"
    by (metis min.cobounded2)
  moreover have "glob (star # pattern) host \<longleftrightarrow> (\<exists>n \<in> set [0..<Suc (length host)]. glob pattern (drop n host))"
    by (simp only: glob.simps if_True list_ex_iff simp_thms)
  ultimately show ?thesis by (auto simp: less_Suc_eq_le simp del: upt_Suc)
qed

declare glob.simps(2) [simp del]

lemma glob_char: "c \<noteq> star \<Longrightarrow> glob (c # pattern) (d # rest) \<longleftrightarrow> c = d \<and> glob pattern rest"
  "c \<noteq> star \<Longrightarrow> \<not> glob (c # pattern) []"
  by (simp_all add: glob.simps)

lemma glob_literal: "star \<notin> set u \<Longrightarrow> glob (u @ pattern) host \<longleftrightarrow> (\<exists>rest. host = u @ rest \<and> glob pattern rest)"
proof (induction u arbitrary: host)
  case (Cons c u)
  then show ?case by (cases host) (auto simp: glob_char)
qed simp

lemma glob_Nil_host: "glob pattern [] \<longleftrightarrow> (\<forall>c \<in> set pattern. c = star)"
proof (induction pattern)
  case (Cons c pattern)
  then show ?case by (cases "c = star") (auto simp: glob_char glob_star)
qed simp

lemma skip_stars_end:
  "i \<le> length pattern \<Longrightarrow> skip_stars pattern i = length pattern \<longleftrightarrow> (\<forall>c \<in> set (drop i pattern). c = star)"
proof (induction pattern i rule: skip_stars.induct)
  case (1 pattern i)
  show ?case
  proof (cases "i < length pattern")
    case True
    then have "drop i pattern = pattern ! i # drop (i + 1) pattern" by (simp add: Cons_nth_drop_Suc)
    then show ?thesis using 1 True by (auto simp: skip_stars.simps [of pattern i])
  next
    case False
    then show ?thesis using 1 by (subst skip_stars.simps) simp
  qed
qed

section \<open>The walk decides the mask\<close>

text \<open>
  The state of the walk: since the last star, at \<open>s\<close>, the literal characters \<open>u\<close> have been matched from
  \<open>start\<close> on.
\<close>

definition walk_state :: "str \<Rightarrow> str \<Rightarrow> nat \<Rightarrow> nat \<Rightarrow> nat option \<Rightarrow> nat \<Rightarrow> bool" where
  "walk_state pattern host i j prev start \<longleftrightarrow>
     i \<le> length pattern \<and> j \<le> length host \<and>
     (case prev of
        None \<Rightarrow> True
      | Some s \<Rightarrow> s < i \<and> start \<le> j \<and>
          (\<exists>u. star \<notin> set u \<and> drop (s + 1) pattern = u @ drop i pattern \<and> drop start host = u @ drop j host))"

definition walk_goal :: "str \<Rightarrow> str \<Rightarrow> nat \<Rightarrow> nat \<Rightarrow> nat option \<Rightarrow> nat \<Rightarrow> bool" where
  "walk_goal pattern host i j prev start \<longleftrightarrow>
     glob (drop i pattern) (drop j host) \<or>
     (case prev of None \<Rightarrow> False | Some s \<Rightarrow> \<exists>n > start. glob (drop (s + 1) pattern) (drop n host))"

lemma drop_nth: "i < length xs \<Longrightarrow> drop i xs = xs ! i # drop (i + 1) xs"
  by (simp add: Cons_nth_drop_Suc)

text \<open>Meeting a new star: later positions of the old one give nothing the new one does not cover.\<close>

lemma goal_at_star:
  assumes st: "walk_state pattern host i j prev start" and i: "i < length pattern" "pattern ! i = star"
  shows "walk_state pattern host (i + 1) j (Some i) j"
    and "walk_goal pattern host (i + 1) j (Some i) j = walk_goal pattern host i j prev start"
proof -
  show "walk_state pattern host (i + 1) j (Some i) j"
    using assms by (auto simp: walk_state_def intro: exI [of _ "[]"])
  have at: "drop i pattern = star # drop (i + 1) pattern" using drop_nth [OF i(1)] i(2) by simp
  have here: "glob (drop i pattern) (drop j host) \<longleftrightarrow> (\<exists>n \<ge> j. glob (drop (i + 1) pattern) (drop n host))"
    unfolding at glob_star drop_drop by (metis add.commute le_add1 le_iff_add)
  have old: "\<exists>m \<ge> j. glob (drop (i + 1) pattern) (drop m host)"
    if s: "prev = Some s" and n: "start < n" "glob (drop (s + 1) pattern) (drop n host)" for s n
  proof -
    obtain u where u: "star \<notin> set u" "drop (s + 1) pattern = u @ drop i pattern" "drop start host = u @ drop j host"
      using st s by (auto simp: walk_state_def)
    have le: "start \<le> j" "j \<le> length host" using st s by (auto simp: walk_state_def)
    have len: "length u = j - start" using arg_cong [OF u(3), of length] le by simp
    obtain rest where "drop n host = u @ rest" "glob (drop i pattern) rest"
      using n(2) u(1) unfolding u(2) by (auto simp: glob_literal)
    then have "glob (drop i pattern) (drop (n + length u) host)" by (metis add.commute append_eq_conv_conj drop_drop)
    then obtain m where "glob (drop (i + 1) pattern) (drop (m + (n + length u)) host)"
      unfolding at glob_star drop_drop by blast
    moreover have "j \<le> m + (n + length u)" using len n(1) le by simp
    ultimately show ?thesis by blast
  qed
  have "walk_goal pattern host (i + 1) j (Some i) j \<longleftrightarrow> (\<exists>n \<ge> j. glob (drop (i + 1) pattern) (drop n host))"
    by (auto simp: walk_goal_def le_less)
  also have "\<dots> \<longleftrightarrow> walk_goal pattern host i j prev start"
    unfolding walk_goal_def here using old by (auto split: option.splits)
  finally show "walk_goal pattern host (i + 1) j (Some i) j = walk_goal pattern host i j prev start" .
qed

text \<open>A character that matches itself.\<close>

lemma goal_at_char:
  assumes st: "walk_state pattern host i j prev start" and ij: "i < length pattern" "j < length host"
    and c: "pattern ! i \<noteq> star" "pattern ! i = host ! j"
  shows "walk_state pattern host (i + 1) (j + 1) prev start"
    and "walk_goal pattern host (i + 1) (j + 1) prev start = walk_goal pattern host i j prev start"
proof -
  have at: "drop i pattern = pattern ! i # drop (i + 1) pattern" "drop j host = host ! j # drop (j + 1) host"
    using drop_nth [OF ij(1)] drop_nth [OF ij(2)] by simp_all
  show "walk_goal pattern host (i + 1) (j + 1) prev start = walk_goal pattern host i j prev start"
    unfolding walk_goal_def at using c by (simp add: glob_char)
  show "walk_state pattern host (i + 1) (j + 1) prev start"
  proof (cases prev)
    case None
    then show ?thesis using ij by (simp add: walk_state_def)
  next
    case (Some s)
    then obtain u where u: "star \<notin> set u" "drop (s + 1) pattern = u @ drop i pattern" "drop start host = u @ drop j host" "s < i" "start \<le> j"
      using st by (auto simp: walk_state_def)
    then have "drop (s + 1) pattern = (u @ [pattern ! i]) @ drop (i + 1) pattern" "drop start host = (u @ [pattern ! i]) @ drop (j + 1) host"
      unfolding at c(2) by simp_all
    moreover have "star \<notin> set (u @ [pattern ! i])" using u(1) c(1) by simp
    ultimately show ?thesis using Some ij u(4,5) unfolding walk_state_def by fastforce
  qed
qed

text \<open>A mismatch: the current attempt is lost, and the next one starts one character later.\<close>

lemma goal_at_mismatch:
  assumes st: "walk_state pattern host i j (Some s) start" and j: "j < length host"
    and no: "\<not> (i < length pattern \<and> (pattern ! i = star \<or> pattern ! i = host ! j))"
  shows "walk_state pattern host (s + 1) (start + 1) (Some s) (start + 1)"
    and "walk_goal pattern host (s + 1) (start + 1) (Some s) (start + 1) = walk_goal pattern host i j (Some s) start"
proof -
  show "walk_state pattern host (s + 1) (start + 1) (Some s) (start + 1)"
    using st j by (auto simp: walk_state_def intro: exI [of _ "[]"])
  have "\<not> glob (drop i pattern) (drop j host)"
    using no drop_nth [of i pattern] drop_nth [OF j] by (cases "i < length pattern") (auto simp: glob_char)
  moreover have "(\<exists>n > start. P n) \<longleftrightarrow> P (start + 1) \<or> (\<exists>n > start + 1. P n)" for P
    by (auto simp: less_Suc_eq elim: Suc_lessE) (metis Suc_lessI Suc_lessD)+
  ultimately show "walk_goal pattern host (s + 1) (start + 1) (Some s) (start + 1) = walk_goal pattern host i j (Some s) start"
    by (simp add: walk_goal_def)
qed

text \<open>The end of the host: an earlier star cannot help, its literals no longer fit.\<close>

lemma goal_at_end:
  assumes st: "walk_state pattern host i j prev start" and j: "\<not> j < length host"
  shows "walk_goal pattern host i j prev start \<longleftrightarrow> skip_stars pattern i = length pattern"
proof -
  have le: "i \<le> length pattern" "drop j host = []" using st j by (auto simp: walk_state_def)
  have "glob (drop i pattern) []" if s: "prev = Some s" and n: "start < n" "glob (drop (s + 1) pattern) (drop n host)" for s n
  proof -
    obtain u where u: "star \<notin> set u" "drop (s + 1) pattern = u @ drop i pattern" "drop start host = u"
      using st s le by (auto simp: walk_state_def)
    obtain rest where r: "drop n host = u @ rest" "glob (drop i pattern) rest"
      using n(2) u(1) unfolding u(2) by (auto simp: glob_literal)
    have "length (u @ rest) = length host - n" "length u = length host - start" using r(1) u(3) by (metis length_drop)+
    then have "rest = []" using n(1) by (cases rest) auto
    then show ?thesis using r(2) by simp
  qed
  then show ?thesis
    using le skip_stars_end [of i pattern] by (auto simp: walk_goal_def glob_Nil_host split: option.splits)
qed

text \<open>How much is left to do: stars ahead of the last one, positions for it, characters of the attempt.\<close>

definition walk_measure :: "str \<Rightarrow> str \<Rightarrow> nat \<Rightarrow> nat option \<Rightarrow> nat \<Rightarrow> nat \<times> nat \<times> nat" where
  "walk_measure pattern host j prev start =
     ((case prev of None \<Rightarrow> Suc (length pattern) | Some s \<Rightarrow> length pattern - s), length host - start, length host - j)"

lemma glob_loop_decides:
  "walk_state pattern host i j prev start \<Longrightarrow> glob_loop pattern host i j prev start = Some (walk_goal pattern host i j prev start)"
proof (induction "walk_measure pattern host j prev start" arbitrary: i j prev start rule: wf_induct_rule [OF wf_lex_prod [OF wf_less_than wf_lex_prod [OF wf_less_than wf_less_than]]])
  case (1 j prev start i)
  note st = 1(2)
  show ?case
  proof (cases "j < length host")
    case False
    then show ?thesis using goal_at_end [OF st] by (simp add: glob_loop.simps)
  next
    case j: True
    consider (new) "i < length pattern" "pattern ! i = star"
      | (char) "i < length pattern" "pattern ! i \<noteq> star" "pattern ! i = host ! j"
      | (stuck) "\<not> (i < length pattern \<and> (pattern ! i = star \<or> pattern ! i = host ! j))" by blast
    then show ?thesis
    proof cases
      case new
      have "((walk_measure pattern host j (Some i) j), walk_measure pattern host j prev start) \<in> less_than <*lex*> less_than <*lex*> less_than"
        using new st by (auto simp: walk_measure_def walk_state_def split: option.splits)
      then show ?thesis
        using 1(1) [of j "Some i" j "i + 1"] goal_at_star [OF st new] new j by (simp add: glob_loop.simps [of pattern host i])
    next
      case char
      have "((walk_measure pattern host (j + 1) prev start), walk_measure pattern host j prev start) \<in> less_than <*lex*> less_than <*lex*> less_than"
        using j by (auto simp: walk_measure_def)
      then show ?thesis
        using 1(1) [of "j + 1" prev start "i + 1"] goal_at_char [OF st char(1) j char(2,3)] char j by (simp add: glob_loop.simps [of pattern host i])
    next
      case stuck
      show ?thesis
      proof (cases prev)
        case None
        have "\<not> glob (drop i pattern) (drop j host)"
          using stuck drop_nth [of i pattern] drop_nth [OF j] by (cases "i < length pattern") (auto simp: glob_char)
        then show ?thesis using None stuck j by (auto simp: glob_loop.simps [of pattern host i] walk_goal_def)
      next
        case (Some s)
        have "((walk_measure pattern host (start + 1) (Some s) (start + 1)), walk_measure pattern host j prev start) \<in> less_than <*lex*> less_than <*lex*> less_than"
          using j st Some by (auto simp: walk_measure_def walk_state_def)
        then show ?thesis
          using 1(1) [of "start + 1" "Some s" "start + 1" "s + 1"] goal_at_mismatch [OF st [unfolded Some] j stuck] stuck j Some
          by (auto simp: glob_loop.simps [of pattern host i])
      qed
    qed
  qed
qed

lemma glob_loop_start: "glob_loop pattern host 0 0 None 0 = Some (glob pattern host)"
proof -
  have "walk_state pattern host 0 0 None 0" by (simp add: walk_state_def)
  then show ?thesis by (simp add: glob_loop_decides walk_goal_def)
qed

text \<open>
  C24: The backtracking walk always ends, and it decides the mask: ignoring the case of letters, a host matches
  exactly when the mask's stars can be filled so that it becomes the host.
\<close>

theorem mask_walk_decides_the_mask:
  "matches_mask pattern host = Some (glob (ascii_lowercase pattern) (ascii_lowercase host))"
  unfolding matches_mask_def by (rule glob_loop_start)

lemma find_first: "find P xs = Some x \<longleftrightarrow> (\<exists>ys zs. xs = ys @ x # zs \<and> P x \<and> (\<forall>y \<in> set ys. \<not> P y))"
proof
  show "find P xs = Some x \<Longrightarrow> \<exists>ys zs. xs = ys @ x # zs \<and> P x \<and> (\<forall>y \<in> set ys. \<not> P y)"
  proof (induction xs)
    case (Cons a xs)
    show ?case
    proof (cases "P a")
      case True
      then show ?thesis using Cons.prems by (intro exI [of _ "[]"] exI [of _ xs]) simp
    next
      case False
      then obtain ys zs where "xs = ys @ x # zs \<and> P x \<and> (\<forall>y \<in> set ys. \<not> P y)" using Cons by auto
      then show ?thesis using False by (intro exI [of _ "a # ys"] exI [of _ zs]) simp
    qed
  qed simp
next
  have "\<forall>y \<in> set ys. \<not> P y \<Longrightarrow> P x \<Longrightarrow> find P (ys @ x # zs) = Some x" for ys zs by (induction ys) auto
  then show "\<exists>ys zs. xs = ys @ x # zs \<and> P x \<and> (\<forall>y \<in> set ys. \<not> P y) \<Longrightarrow> find P xs = Some x" by blast
qed

lemma find_override_iff:
  "find_override overrides host = Some entry \<longleftrightarrow>
   (\<exists>earlier later. overrides = earlier @ entry # later \<and> glob (ascii_lowercase (ov_pattern entry)) (ascii_lowercase host) \<and>
      (\<forall>e \<in> set earlier. \<not> glob (ascii_lowercase (ov_pattern e)) (ascii_lowercase host)))"
  unfolding find_override_def matches_mask_def glob_loop_start option.inject eq_True
  by (rule find_first)

section \<open>Where plain packets go\<close>

fun packet_target :: "plain_packet \<Rightarrow> socket_addr" where
  "packet_target (UdpPacket s _) = s"
| "packet_target (TcpPacket s _) = s"

definition same_server :: "socket_addr \<Rightarrow> socket_addr \<Rightarrow> bool" where
  "same_server a b \<longleftrightarrow> canonical_ip (sa_ip a) = canonical_ip (sa_ip b) \<and> sa_port a = sa_port b"

text \<open>A server the guard lets through, both before routing and for the local address routing chose.\<close>

definition not_ourselves :: "plain_net \<Rightarrow> socket_addr list \<Rightarrow> socket_addr \<Rightarrow> bool" where
  "not_ourselves net listeners s \<longleftrightarrow>
     \<not> self_reference s listeners (V4 0) \<and>
     (\<exists>local. pn_local net s = Inr local \<and> \<not> self_reference s listeners local)"

lemma self_reference_same: "same_server a b \<Longrightarrow> self_reference a listeners l = self_reference b listeners l"
  by (simp add: self_reference_def same_server_def)

lemma canonical_idem [simp]: "canonical_ip (canonical_ip ip) = canonical_ip ip"
  by (cases ip) (auto split: option.splits)

lemma probe_upstream_Inr:
  assumes "probe_upstream net server listeners = Inr s"
  shows "same_server s server \<and> not_ourselves net listeners s"
proof -
  define s' where "s' = (case canonical_ip (sa_ip server) of
      V4 ip \<Rightarrow> \<lparr>sa_ip = V4 ip, sa_port = sa_port server, sa_scope = 0\<rparr> | V6 _ \<Rightarrow> server)"
  have same: "same_server s' server"
    by (cases "canonical_ip (sa_ip server)") (auto simp: s'_def same_server_def)
  have "s = s'" "\<not> self_reference server listeners (V4 0)"
      "\<exists>local. pn_local net s' = Inr local \<and> \<not> self_reference s' listeners local"
    using assms unfolding probe_upstream_def Let_def s'_def [symmetric] by (auto split: if_splits sum.splits)
  then show ?thesis using same self_reference_same [OF same] by (simp add: not_ourselves_def)
qed

text \<open>
  What a packet holds: the encoded query, over TCP behind its length, or only that length when the write of the
  query fails.
\<close>

fun packet_holds :: "bytes \<Rightarrow> plain_packet \<Rightarrow> bool" where
  "packet_holds bs (UdpPacket _ sent) \<longleftrightarrow> sent = bs"
| "packet_holds bs (TcpPacket _ sent) \<longleftrightarrow> sent = to_be 2 (length bs) @ bs \<or> sent = to_be 2 (length bs)"

text \<open>A packet that asks a question and nothing else.\<close>

definition carries :: "'n packet_codec \<Rightarrow> u16 \<Rightarrow> 'n query \<Rightarrow> plain_packet \<Rightarrow> bool" where
  "carries pc ident question p =
     (case pc_to_vec pc (query_message ident question) of Inr bs \<Rightarrow> packet_holds bs p | Inl _ \<Rightarrow> False)"

lemma tcp_exchange_targets:
  "tcp_exchange net server query = (sent, r) \<Longrightarrow> p \<in> set sent \<Longrightarrow> packet_target p = server \<and> packet_holds (dq_bytes query) p"
  by (auto simp: tcp_exchange_def split: sum.splits if_splits)

lemma receive_loop_targets:
  "p \<in> set (fst (receive_loop nm pc net server query ds)) \<Longrightarrow> packet_target p = server \<and> packet_holds (dq_bytes query) p"
  by (induction nm pc net server query ds rule: receive_loop.induct)
     (auto split: sum.splits if_splits prod.splits dest: tcp_exchange_targets)

lemma receive_loop_pair:
  "receive_loop nm pc net server query ds = (sent, r) \<Longrightarrow> p \<in> set sent \<Longrightarrow> packet_target p = server \<and> packet_holds (dq_bytes query) p"
  using receive_loop_targets by (metis fst_conv)

lemma dns_server_targets:
  assumes "p \<in> set (fst (resolve_via_dns_server nm pc net question server listeners))"
  shows "same_server (packet_target p) server \<and> not_ourselves net listeners (packet_target p) \<and> carries pc (pn_id net) question p"
proof -
  obtain query where q: "build_query pc (pn_id net) question = Inr query"
    "probe_upstream net server listeners = Inr (packet_target p)" "packet_holds (dq_bytes query) p"
    using assms by (auto simp: resolve_via_dns_server_def split: sum.split_asm prod.split_asm dest: receive_loop_pair)
  from q(1,3) have "carries pc (pn_id net) question p" by (auto simp: build_query_def carries_def split: sum.splits)
  then show ?thesis using probe_upstream_Inr [OF q(2)] by simp
qed

lemma try_servers_targets:
  "p \<in> set (fst (try_servers nm pc net question listeners allowed servers err)) \<Longrightarrow>
   \<exists>server \<in> set servers. same_server (packet_target p) server \<and> not_ourselves net listeners (packet_target p) \<and>
     carries pc (pn_id net) question p"
proof (induction allowed arbitrary: servers err)
  case 0
  then show ?case using dns_server_targets by (cases servers) fastforce+
next
  case (Suc allowed)
  show ?case
  proof (cases servers)
    case Nil
    then show ?thesis using Suc.prems by simp
  next
    case (Cons server rest)
    obtain sent r where r: "resolve_via_dns_server nm pc net question server listeners = (sent, r)" by fastforce
    show ?thesis
    proof (cases "p \<in> set sent")
      case True
      then show ?thesis using dns_server_targets [of p nm pc net question server listeners] r Cons by auto
    next
      case False
      then obtain e where "p \<in> set (fst (try_servers nm pc net question listeners allowed rest (Some e)))"
        using Suc.prems r Cons by (auto simp: Let_def case_prod_unfold split: sum.split_asm if_split_asm)
      then show ?thesis using Suc.IH Cons by auto
    qed
  qed
qed

lemma scan_servers_Inr:
  "scan_servers net listeners servers usable err = Inr (usable', err') \<Longrightarrow>
   (\<forall>s \<in> set servers. \<not> self_reference s listeners (V4 0)) \<and> set usable' \<subseteq> set usable \<union> set servers"
proof (induction servers arbitrary: usable err)
  case (Cons server servers)
  have ok: "\<not> self_reference server listeners (V4 0)" using Cons.prems by (auto split: if_splits)
  obtain usable2 err2 where "scan_servers net listeners servers usable2 err2 = Inr (usable', err')" "set usable2 \<subseteq> set usable \<union> {server}"
    using Cons.prems ok by (auto split: sum.splits probe_error.splits)
  then show ?case using Cons.IH ok by fastforce
qed simp

lemma system_targets:
  assumes "p \<in> set (fst (resolve_via_system nm pc net question listeners config allowed))"
  obtains servers server where "config = Inr servers" "server \<in> set servers" "same_server (packet_target p) server"
    "not_ourselves net listeners (packet_target p)" "carries pc (pn_id net) question p"
    "\<forall>s \<in> set servers. \<not> self_reference s listeners (V4 0)"
proof -
  obtain servers usable err where c: "config = Inr servers" "scan_servers net listeners servers [] None = Inr (usable, err)"
      "p \<in> set (fst (try_servers nm pc net question listeners allowed usable err))"
    using assms by (auto simp: resolve_via_system_def split: sum.splits if_splits)
  then show thesis using that try_servers_targets [OF c(3)] scan_servers_Inr [OF c(2)] by auto
qed

end
