(* ===== verification/DnsLocal.thy ===== *)
theory DnsLocal
  imports DnsMessage IpText
begin

text \<open>
  Questions the DNS server answers by itself (packages/dns-server: \<open>server/server_local.rs\<close>): \<open>localhost\<close>
  names, the reverse names of loopback addresses, and reverse names of the server's own addresses.
\<close>

section \<open>Reverse names\<close>

fun canonical :: "ip_addr \<Rightarrow> ip_addr" where
  "canonical (V6 ip) = (case to_ipv4_mapped ip of Some v4 \<Rightarrow> V4 v4 | None \<Rightarrow> V6 ip)"
| "canonical (V4 ip) = V4 ip"

definition reverse_octet :: "str \<Rightarrow> nat option" where
  "reverse_octet label = parse_uint 10 256 label"

definition reverse_nibble :: "str \<Rightarrow> nat option" where
  "reverse_nibble label = (if length label \<noteq> 1 then None else to_digit 16 (hd label))"

text \<open>\<open>labels.next()?\<close> for each of the expected labels, then no further one.\<close>

fun read_labels :: "(str \<Rightarrow> nat option) \<Rightarrow> nat \<Rightarrow> str list \<Rightarrow> nat list option" where
  "read_labels f 0 labels = (if labels \<noteq> [] then None else Some [])"
| "read_labels f (Suc k) [] = None"
| "read_labels f (Suc k) (l # labels) =
     (case f l of None \<Rightarrow> None | Some v \<Rightarrow> map_option (Cons v) (read_labels f k labels))"

definition reverse_ip :: "str \<Rightarrow> ip_addr option" where
  "reverse_ip host =
     (case strip_suffix ''.in-addr.arpa'' host of
        Some body \<Rightarrow>
          map_option (\<lambda>octets. V4 (v4_of_octets octets)) (read_labels reverse_octet 4 (rev (split_on (CHR ''.'') body)))
      | None \<Rightarrow>
          (case strip_suffix ''.ip6.arpa'' host of
             None \<Rightarrow> None
           | Some body \<Rightarrow>
               map_option (\<lambda>digits. V6 (foldl (\<lambda>value digit. push_bit 4 value OR of_nat digit) 0 digits))
                 (read_labels reverse_nibble 32 (rev (split_on (CHR ''.'') body)))))"

section \<open>Local answers\<close>

text \<open>\<open>Message::new\<close> with the question added.\<close>

definition empty_answer :: "'n query \<Rightarrow> 'n message" where
  "empty_answer question = (error_msg 0 OpQuery NoError)\<lparr>m_queries := [question]\<rparr>"

definition nodata :: "int \<Rightarrow> 'n query \<Rightarrow> 'n resolved_answer" where
  "nodata now question = \<lparr>ra_message = empty_answer question, ra_ttl = from_secs 60, ra_resolved_at = now\<rparr>"

definition is_localhost :: "str \<Rightarrow> bool" where
  "is_localhost host \<longleftrightarrow> host = ''localhost'' \<or> ends_with ''.localhost'' host"

definition is_loopback_name :: "str \<Rightarrow> bool" where
  "is_loopback_name host \<longleftrightarrow> (case map_option canonical (reverse_ip host) of Some ip \<Rightarrow> is_loopback ip | None \<Rightarrow> False)"

definition is_own_name :: "record_type \<Rightarrow> str \<Rightarrow> socket_addr list \<Rightarrow> bool" where
  "is_own_name ty host endpoints \<longleftrightarrow>
     ty = TypePTR \<and>
     (case map_option canonical (reverse_ip host) of
        Some ip \<Rightarrow> \<not> is_unspecified ip \<and> list_ex (\<lambda>endpoint. canonical (sa_ip endpoint) = ip) endpoints
      | None \<Rightarrow> False)"

text \<open>\<open>localhost_name\<close> is what the library makes of the text \<open>localhost.\<close>.\<close>

definition local_data :: "'n option \<Rightarrow> record_type \<Rightarrow> bool \<Rightarrow> bool \<Rightarrow> 'n rdata option option" where
  "local_data localhost_name ty localhost loopback =
     (case ty of
        TypeA \<Rightarrow> Some (if localhost then Some (DataA 0x7f000001) else None)
      | TypeAAAA \<Rightarrow> Some (if localhost then Some (DataAAAA 1) else None)
      | TypePTR \<Rightarrow> (if loopback then map_option (\<lambda>n. Some (DataPTR n)) localhost_name else Some None)
      | _ \<Rightarrow> Some None)"

definition local_answer ::
  "'n option \<Rightarrow> int \<Rightarrow> 'n query \<Rightarrow> str \<Rightarrow> socket_addr list \<Rightarrow> bool \<Rightarrow> 'n resolved_answer option" where
  "local_answer localhost_name now question host endpoints explicit_override =
     (let localhost = is_localhost host;
          loopback = is_loopback_name host;
          own = is_own_name (q_type question) host endpoints
      in if \<not> localhost \<and> \<not> loopback \<and> (\<not> own \<or> explicit_override) then None
         else if q_class question = class_IN then
           (case local_data localhost_name (q_type question) localhost loopback of
              None \<Rightarrow> None
            | Some None \<Rightarrow> Some (nodata now question)
            | Some (Some d) \<Rightarrow>
                Some ((nodata now question)\<lparr>ra_message := (empty_answer question)
                  \<lparr>m_answers := [\<lparr>rr_name = q_name question, rr_class = class_IN, rr_ttl = 60, rr_data = d\<rparr>]\<rparr>\<rparr>))
         else Some (nodata now question))"

text \<open>\<open>probe ip\<close> is the source address the system would use towards \<open>ip\<close>, \<open>None\<close> when it cannot tell in time.\<close>

definition preflight_with_probe ::
  "'n option \<Rightarrow> int \<Rightarrow> (ip_addr \<Rightarrow> ip_addr option) \<Rightarrow> 'n query \<Rightarrow> str \<Rightarrow> socket_addr list \<Rightarrow> bool \<Rightarrow> 'n resolved_answer option" where
  "preflight_with_probe localhost_name now probe question host endpoints explicit_override =
     (case local_answer localhost_name now question host endpoints explicit_override of
        Some answer \<Rightarrow> Some answer
      | None \<Rightarrow>
          if explicit_override \<or> q_type question \<noteq> TypePTR then None
          else case reverse_ip host of
                 None \<Rightarrow> None
               | Some ip \<Rightarrow>
                   let ip = canonical ip in
                   if is_unspecified ip \<or> is_loopback ip \<or>
                      \<not> list_ex (\<lambda>endpoint. is_unspecified (sa_ip endpoint) \<and> is_ipv4 (sa_ip endpoint) = is_ipv4 ip) endpoints then None
                   else case probe ip of
                          None \<Rightarrow> None
                        | Some source \<Rightarrow> if canonical source \<noteq> ip then None else Some (nodata now question))"

section \<open>Reverse names are read back\<close>

text \<open>The reverse name of an address, as it is asked for: octets or nibbles from the last to the first.\<close>

definition reverse_name :: "ip_addr \<Rightarrow> str" where
  "reverse_name ip =
     (case ip of
        V4 a \<Rightarrow> join ''.'' (map (show_nat \<circ> unat) (rev (v4_octets a))) @ ''.in-addr.arpa''
      | V6 a \<Rightarrow> join ''.'' (map (\<lambda>i. [hex_lower (unat (take_bit 4 (drop_bit (4 * i) a)))]) [0..<32]) @ ''.ip6.arpa'')"

lemma read_labels_map:
  assumes "\<And>v. v \<in> set vs \<Longrightarrow> f (g v) = Some v"
  shows "read_labels f (length vs) (map g vs) = Some vs"
  using assms by (induction vs) auto

lemma nibble_step: "push_bit 4 (drop_bit (4 + n) a) OR take_bit 4 (drop_bit n a) = drop_bit n (a :: u128)"
proof (rule bit_word_eqI)
  fix j :: nat
  assume "j < LENGTH(128)"
  then show "bit (push_bit 4 (drop_bit (4 + n) a) OR take_bit 4 (drop_bit n a)) j = bit (drop_bit n a) j"
    by (cases "j < 4") (simp_all add: bit_or_iff bit_push_bit_iff bit_take_bit_iff bit_drop_bit_eq add.commute add.left_commute)
qed

lemma fold_nibbles:
  "k \<le> 32 \<Longrightarrow>
   foldl (\<lambda>value digit. push_bit 4 value OR of_nat digit) 0
     (map (\<lambda>i. unat (take_bit 4 (drop_bit (4 * i) a))) (rev [32 - k..<32])) = drop_bit (128 - 4 * k) (a :: u128)"
proof (induction k)
  case 0
  then show ?case by (simp add: drop_bit_word_beyond)
next
  case (Suc k)
  have range: "[32 - Suc k..<32] = (32 - Suc k) # [32 - k..<32]"
    using Suc.prems upt_conv_Cons [of "32 - Suc k" 32] Suc_diff_Suc [of k 32] by simp
  have n: "128 - 4 * k = 4 + 4 * (32 - Suc k)" "128 - 4 * Suc k = 4 * (32 - Suc k)" using Suc.prems by auto
  show ?case using Suc unfolding range n by (simp add: nibble_step)
qed

lemma read_back_labels:
  assumes "vs \<noteq> []" and "\<And>v. v \<in> set vs \<Longrightarrow> f (g v) = Some v \<and> CHR ''.'' \<notin> set (g v)"
  shows "read_labels f (length vs) (rev (split_on (CHR ''.'') (join ''.'' (map g (rev vs))))) = Some vs"
proof -
  have "split_on (CHR ''.'') (join ''.'' (map g (rev vs))) = map g (rev vs)"
    using assms by (intro split_on_join) auto
  then show ?thesis using read_labels_map [of vs f g] assms(2) by (simp add: rev_map)
qed

lemma strip_suffix_append [simp]: "strip_suffix s (xs @ s) = Some xs"
  by (simp add: strip_suffix_Some_iff)

lemma not_in_addr: "strip_suffix ''.in-addr.arpa'' (xs @ ''.ip6.arpa'') = None"
proof (rule ccontr)
  assume "strip_suffix ''.in-addr.arpa'' (xs @ ''.ip6.arpa'') \<noteq> None"
  then obtain r where "xs @ ''.ip6.arpa'' = r @ ''.in-addr.arpa''" by (auto simp: strip_suffix_Some_iff)
  then have "xs @ ''.ip6.arpa'' = (r @ ''.in-'') @ ''addr.arpa''" by simp
  then have "''.ip6.arpa'' = ''addr.arpa''" by (subst (asm) append_eq_append_conv) simp_all
  then show False by simp
qed

lemma nibble_label:
  assumes "d < 16"
  shows "reverse_nibble [hex_lower d] = Some d \<and> CHR ''.'' \<notin> set [hex_lower d]"
  using to_digit_hex_lower [OF assms] digit_16_not_dot [of "hex_lower d"] by (auto simp: reverse_nibble_def is_digit_def)

text \<open>
  Every address is recognised in its reverse name: for IPv4 and IPv6 alike, reading the reverse name of an
  address gives the address back.
\<close>

theorem reverse_names_read_back: "reverse_ip (reverse_name ip) = Some ip"
proof (cases ip)
  case (V4 a)
  let ?vs = "map unat (v4_octets a)"
  have len: "length ?vs = 4" by (simp add: v4_octets_def)
  have octet: "unat x < 256" for x :: u8 using unsigned_less [of x] by simp
  have "reverse_octet (show_nat v) = Some v \<and> CHR ''.'' \<notin> set (show_nat v)" if "v \<in> set ?vs" for v
    using that octet show_nat_free [of "CHR ''.''" v]
    by (auto simp: reverse_octet_def parse_uint_show_nat)
  then have "read_labels reverse_octet (length ?vs) (rev (split_on (CHR ''.'') (join ''.'' (map show_nat (rev ?vs))))) = Some ?vs"
    using len by (intro read_back_labels) auto
  moreover have "map (show_nat \<circ> unat) (rev (v4_octets a)) = map show_nat (rev ?vs)" by (simp add: rev_map)
  ultimately show ?thesis using V4 unfolding len by (simp add: reverse_name_def reverse_ip_def v4_of_octets_octets)
next
  case (V6 a)
  let ?nib = "\<lambda>i. unat (take_bit 4 (drop_bit (4 * i) a))"
  let ?vs = "map ?nib (rev [0..<32])"
  have len: "length ?vs = 32" by simp
  have "v < 16" if "v \<in> set ?vs" for v
    using that take_bit_nat_less_exp [of 4] by (auto simp: unsigned_take_bit_eq)
  then have "read_labels reverse_nibble (length ?vs) (rev (split_on (CHR ''.'') (join ''.'' (map (\<lambda>d. [hex_lower d]) (rev ?vs))))) = Some ?vs"
    using len nibble_label by (intro read_back_labels) auto
  moreover have "map (\<lambda>i. [hex_lower (?nib i)]) [0..<32] = map (\<lambda>d. [hex_lower d]) (rev ?vs)" by (simp add: rev_map comp_def)
  moreover have "foldl (\<lambda>value digit. push_bit 4 value OR of_nat digit) 0 ?vs = a" using fold_nibbles [of 32 a] by simp
  ultimately show ?thesis
    using V6 not_in_addr unfolding len reverse_name_def reverse_ip_def by (simp del: upt_rec_numeral)
qed

end
