(* ===== verification/DnsServer.thy ===== *)
theory DnsServer
  imports DnsDoh DnsCache DnsOverrides DnsLocal ClientAcl
begin

text \<open>
  The DNS server (packages/dns-server: \<open>server/server.rs\<close> and \<open>server/server_listener.rs\<close>): how a question is
  answered from local policy and cache or resolved by an override or through the tunnel, and the UDP and TCP
  loops with their shared admission.

  All work runs in one task and is interleaved only where it waits, so a step runs from one wait to the next.
  What surrounds a step (clocks, routes, network, tunnel, the order of the hash map) is its parameter.
\<close>

section \<open>Context and surroundings\<close>

definition MAX_DNS_CONCURRENT_QUERIES :: nat where "MAX_DNS_CONCURRENT_QUERIES = 64"
definition MAX_TCP_CONNECTIONS :: nat where "MAX_TCP_CONNECTIONS = 64"
definition RESOLUTION_TIMEOUT :: nat where "RESOLUTION_TIMEOUT = from_secs 30"

record 'n query_ctx =
  qc_cache :: "'n entries"
  qc_providers :: "doh_provider list"
  qc_overrides :: "dns_override list"
  qc_endpoints :: "socket_addr list"
  qc_statistics :: bool
  qc_client_access :: "rule list"

text \<open>
  \<open>wd_tunnel\<close> is how long acquiring the tunnel takes and whether one is there; \<open>wd_plain_took\<close> how long a plain
  exchange takes; \<open>wd_system\<close> the configured name servers and \<open>wd_allowed\<close> how many of them are tried in time;
  \<open>wd_cut\<close> how many packets a resolution has sent when it is cut off before its end.
\<close>

record ('n, 'c, 't) dns_world =
  wd_localhost :: "'n option"
  wd_wall :: int
  wd_instant :: nat
  wd_probe :: "ip_addr \<Rightarrow> ip_addr option"
  wd_order :: "'n entries \<Rightarrow> 'n entries"
  wd_tunnel :: "nat \<times> bool"
  wd_doh :: "('c, 't) doh_net"
  wd_plain :: plain_net
  wd_plain_took :: nat
  wd_system :: "(dns_server_error, socket_addr list) result"
  wd_allowed :: nat
  wd_cut :: nat

datatype 'n effect =
  SendUdp nat socket_addr bytes
| WriteTcp nat nat bytes
| PlainSent plain_packet
| ViaTunnel doh_provider str
| Recorded "'n query"

section \<open>Answering a question\<close>

definition explicit_override :: "'n name_ops \<Rightarrow> 'n query_ctx \<Rightarrow> 'n query \<Rightarrow> bool" where
  "explicit_override nm ctx question \<longleftrightarrow> find_override (qc_overrides ctx) (hostname_of nm question) \<noteq> None"

definition preflight :: "'n name_ops \<Rightarrow> ('n, 'c, 't) dns_world \<Rightarrow> 'n query_ctx \<Rightarrow> 'n query \<Rightarrow> 'n resolved_answer option" where
  "preflight nm w ctx question =
     preflight_with_probe (wd_localhost w) (wd_wall w) (wd_probe w) question (hostname_of nm question)
       (qc_endpoints ctx) (explicit_override nm ctx question)"

definition inline_answer ::
  "'n name_ops \<Rightarrow> 'n packet_codec \<Rightarrow> ('n, 'c, 't) dns_world \<Rightarrow> 'n query_ctx \<Rightarrow> 'n query
   \<Rightarrow> 'n resolved_answer option \<times> 'n query_ctx" where
  "inline_answer nm pc w ctx question =
     (case preflight nm w ctx question of
        Some answer \<Rightarrow> (Some answer, ctx)
      | None \<Rightarrow>
          (case get_at nm pc (qc_cache ctx) question (wd_wall w) (wd_instant w) of
             (answer, cache) \<Rightarrow> (answer, ctx\<lparr>qc_cache := cache\<rparr>)))"

definition acquire_then_resolve ::
  "'n name_ops \<Rightarrow> 'n packet_codec \<Rightarrow> ('n, 'c, 't) dns_world \<Rightarrow> 'n query_ctx \<Rightarrow> 'n query
   \<Rightarrow> nat \<times> 'n effect list \<times> (dns_server_error, 'n resolved_answer option) result" where
  "acquire_then_resolve nm pc w ctx question =
     (case wd_tunnel w of
        (took, False) \<Rightarrow> (wd_instant w + took, [], Inr None)
      | (took, True) \<Rightarrow>
          (case resolve_with_pool nm pc (wd_doh w) question (qc_providers ctx) (wd_instant w + took) of
             (fin, sent, r) \<Rightarrow> (fin, map (\<lambda>(provider, request). ViaTunnel provider request) sent, map_sum id Some r)))"

definition resolve_route ::
  "'n name_ops \<Rightarrow> 'n packet_codec \<Rightarrow> ('n, 'c, 't) dns_world \<Rightarrow> 'n query_ctx \<Rightarrow> socket_addr list \<Rightarrow> 'n query
   \<Rightarrow> nat \<times> 'n effect list \<times> (dns_server_error, 'n resolved_answer option) result" where
  "resolve_route nm pc w ctx endpoints question =
     (case find_override (qc_overrides ctx) (hostname_of nm question) of
        Some entry \<Rightarrow>
          (case (case ov_resolver entry of
                   DnsResolve server \<Rightarrow> resolve_via_dns_server nm pc (wd_plain w) question server endpoints
                 | SystemResolve \<Rightarrow>
                     resolve_via_system nm pc (wd_plain w) question endpoints (wd_system w) (wd_allowed w)) of
             (sent, r) \<Rightarrow> (wd_instant w + wd_plain_took w, map PlainSent sent, map_sum id Some r))
      | None \<Rightarrow> acquire_then_resolve nm pc w ctx question)"

text \<open>
  \<open>endpoints\<close> is the snapshot taken when the resolution was first polled.  At the deadline the whole resolution is
  dropped, with what it has sent by then.
\<close>

definition resolve_miss ::
  "'n name_ops \<Rightarrow> 'n packet_codec \<Rightarrow> ('n, 'c, 't) dns_world \<Rightarrow> 'n query_ctx \<Rightarrow> socket_addr list \<Rightarrow> 'n query \<Rightarrow> nat
   \<Rightarrow> 'n effect list \<times> 'n resolved_answer option \<times> 'n query_ctx" where
  "resolve_miss nm pc w ctx endpoints question deadline =
     (case resolve_route nm pc w ctx endpoints question of
        (fin, sent, r) \<Rightarrow>
          if deadline < fin then (take (wd_cut w) sent, None, ctx)
          else case r of
                 Inr (Some answer) \<Rightarrow>
                   (sent, Some answer,
                    ctx\<lparr>qc_cache := insert_at nm pc (wd_order w) (qc_cache ctx) question answer (wd_wall w) fin\<rparr>)
               | _ \<Rightarrow> (sent, None, ctx))"

definition record_question :: "'n query_ctx \<Rightarrow> 'n query \<Rightarrow> 'n effect list" where
  "record_question ctx question = (if qc_statistics ctx then [Recorded question] else [])"

section \<open>The loops\<close>

text \<open>
  A resolution in flight: whom to answer, what, until when, and the endpoints once it has been polled.
\<close>

record 'n job =
  jb_peer :: socket_addr
  jb_request :: "'n message"
  jb_question :: "'n query"
  jb_deadline :: nat
  jb_endpoints :: "socket_addr list option"

record 'n tcp_conn =
  tc_peer :: socket_addr
  tc_input :: conn_input
  tc_job :: "'n job option"

text \<open>
  The permits left of the two semaphores, the resolutions of every UDP socket, the connections of every TCP
  listener, and the refresh the prefetcher has in flight.
\<close>

record 'n dns_server =
  ds_ctx :: "'n query_ctx"
  ds_backend :: nat
  ds_connections :: nat
  ds_udp :: "'n job list list"
  ds_tcp :: "'n tcp_conn list list"
  ds_refresh :: "'n job option"

definition send_udp_response :: "'n packet_codec \<Rightarrow> nat \<Rightarrow> socket_addr \<Rightarrow> 'n message \<Rightarrow> 'n effect list" where
  "send_udp_response pc l peer message =
     (case encode_udp_response pc message of Some bs \<Rightarrow> [SendUdp l peer bs] | None \<Rightarrow> [])"

definition new_job :: "('n, 'c, 't) dns_world \<Rightarrow> socket_addr \<Rightarrow> 'n message \<Rightarrow> 'n query \<Rightarrow> 'n job" where
  "new_job w peer request question =
     \<lparr>jb_peer = peer, jb_request = request, jb_question = question, jb_deadline = wd_instant w + RESOLUTION_TIMEOUT,
      jb_endpoints = None\<rparr>"

definition udp_question ::
  "'n name_ops \<Rightarrow> 'n packet_codec \<Rightarrow> ('n, 'c, 't) dns_world \<Rightarrow> nat \<Rightarrow> socket_addr \<Rightarrow> 'n message \<Rightarrow> 'n query \<Rightarrow> 'n dns_server
   \<Rightarrow> 'n dns_server \<times> 'n effect list" where
  "udp_question nm pc w l peer request question s =
     (let recorded = record_question (ds_ctx s) question;
          (answer, ctx) = inline_answer nm pc w (ds_ctx s) question;
          s = s\<lparr>ds_ctx := ctx\<rparr>
      in if answer \<noteq> None \<or> MAX_DNS_CONCURRENT_QUERIES \<le> length (ds_udp s ! l) \<or> ds_backend s = 0
         then (s, recorded @ send_udp_response pc l peer (response request answer))
         else (s\<lparr>ds_backend := ds_backend s - 1,
                 ds_udp := (ds_udp s)[l := ds_udp s ! l @ [new_job w peer request question]]\<rparr>, recorded))"

definition udp_received ::
  "'n name_ops \<Rightarrow> 'n packet_codec \<Rightarrow> ('n, 'c, 't) dns_world \<Rightarrow> nat \<Rightarrow> socket_addr \<Rightarrow> bytes \<Rightarrow> 'n dns_server
   \<Rightarrow> 'n dns_server \<times> 'n effect list" where
  "udp_received nm pc w l peer bs s =
     (if \<not> allows (qc_client_access (ds_ctx s)) (sa_ip peer) then (s, [])
      else case parse_query pc bs of
             None \<Rightarrow> (s, [])
           | Some request \<Rightarrow>
               (case unsupported_response request of
                  Some reply \<Rightarrow> (s, send_udp_response pc l peer reply)
                | None \<Rightarrow>
                    (case m_queries request of
                       [] \<Rightarrow> (s, send_udp_response pc l peer (formerr request))
                     | question # _ \<Rightarrow> udp_question nm pc w l peer request question s)))"

text \<open>The \<open>k\<close>-th resolution of a socket is polled for the first time, and finishes.\<close>

definition remove_nth :: "nat \<Rightarrow> 'a list \<Rightarrow> 'a list" where
  "remove_nth k xs = take k xs @ drop (k + 1) xs"

definition udp_polled :: "nat \<Rightarrow> nat \<Rightarrow> 'n dns_server \<Rightarrow> 'n dns_server" where
  "udp_polled l k s =
     (let jobs = ds_udp s ! l; job = jobs ! k in
      case jb_endpoints job of
        Some _ \<Rightarrow> s
      | None \<Rightarrow> s\<lparr>ds_udp := (ds_udp s)[l := jobs[k := job\<lparr>jb_endpoints := Some (qc_endpoints (ds_ctx s))\<rparr>]]\<rparr>)"

definition udp_finished ::
  "'n name_ops \<Rightarrow> 'n packet_codec \<Rightarrow> ('n, 'c, 't) dns_world \<Rightarrow> nat \<Rightarrow> nat \<Rightarrow> 'n dns_server \<Rightarrow> 'n dns_server \<times> 'n effect list" where
  "udp_finished nm pc w l k s =
     (let jobs = ds_udp s ! l; job = jobs ! k in
      case jb_endpoints job of
        None \<Rightarrow> (s, [])
      | Some endpoints \<Rightarrow>
          (case resolve_miss nm pc w (ds_ctx s) endpoints (jb_question job) (jb_deadline job) of
             (sent, answer, ctx) \<Rightarrow>
               (s\<lparr>ds_ctx := ctx, ds_backend := ds_backend s + 1, ds_udp := (ds_udp s)[l := remove_nth k jobs]\<rparr>,
                sent @ send_udp_response pc l (jb_peer job) (response (jb_request job) answer))))"

definition tcp_accepted :: "nat \<Rightarrow> socket_addr \<Rightarrow> conn_input \<Rightarrow> 'n dns_server \<Rightarrow> 'n dns_server" where
  "tcp_accepted l peer input s =
     (if \<not> allows (qc_client_access (ds_ctx s)) (sa_ip peer) then s
      else if MAX_TCP_CONNECTIONS \<le> length (ds_tcp s ! l) then s
      else if ds_connections s = 0 then s
      else s\<lparr>ds_connections := ds_connections s - 1,
             ds_tcp := (ds_tcp s)[l := ds_tcp s ! l @ [\<lparr>tc_peer = peer, tc_input = input, tc_job = None\<rparr>]]\<rparr>)"

text \<open>
  The end of a connection, for whatever reason: its permit comes back, and the one of a resolution in flight.
  \<open>tcp_cut\<close> is the end of its lifetime: a resolution in flight is dropped with what it has sent by then.
\<close>

definition tcp_closed :: "nat \<Rightarrow> nat \<Rightarrow> 'n dns_server \<Rightarrow> 'n dns_server" where
  "tcp_closed l k s =
     (let conns = ds_tcp s ! l in
      s\<lparr>ds_connections := ds_connections s + 1,
        ds_backend := ds_backend s + (if tc_job (conns ! k) = None then 0 else 1),
        ds_tcp := (ds_tcp s)[l := remove_nth k conns]\<rparr>)"

definition tcp_cut ::
  "'n name_ops \<Rightarrow> 'n packet_codec \<Rightarrow> ('n, 'c, 't) dns_world \<Rightarrow> nat \<Rightarrow> nat \<Rightarrow> 'n dns_server \<Rightarrow> 'n dns_server \<times> 'n effect list" where
  "tcp_cut nm pc w l k s =
     (tcp_closed l k s,
      case tc_job (ds_tcp s ! l ! k) of
        None \<Rightarrow> []
      | Some job \<Rightarrow>
          take (wd_cut w) (fst (snd (resolve_route nm pc w (ds_ctx s) (case jb_endpoints job of Some es \<Rightarrow> es | None \<Rightarrow> []) (jb_question job)))))"

text \<open>\<open>writes\<close> tells whether the reply can be written in time.\<close>

definition tcp_reply ::
  "'n packet_codec \<Rightarrow> bool \<Rightarrow> nat \<Rightarrow> nat \<Rightarrow> 'n tcp_conn \<Rightarrow> 'n message \<Rightarrow> 'n dns_server \<Rightarrow> 'n dns_server \<times> 'n effect list" where
  "tcp_reply pc writes l k conn reply s =
     (let s = s\<lparr>ds_tcp := (ds_tcp s)[l := (ds_tcp s ! l)[k := conn]]\<rparr> in
      case pc_to_vec pc reply of
        Inl _ \<Rightarrow> (tcp_closed l k s, [])
      | Inr bs \<Rightarrow>
          (case write_framed_message bs of
             Inl _ \<Rightarrow> (tcp_closed l k s, [])
           | Inr framed \<Rightarrow> if writes then (s, [WriteTcp l k framed]) else (tcp_closed l k s, [])))"

definition tcp_question ::
  "'n name_ops \<Rightarrow> 'n packet_codec \<Rightarrow> ('n, 'c, 't) dns_world \<Rightarrow> bool \<Rightarrow> nat \<Rightarrow> nat \<Rightarrow> 'n tcp_conn \<Rightarrow> 'n message \<Rightarrow> 'n query
   \<Rightarrow> 'n dns_server \<Rightarrow> 'n dns_server \<times> 'n effect list" where
  "tcp_question nm pc w writes l k conn request question s =
     (let recorded = record_question (ds_ctx s) question;
          (answer, ctx) = inline_answer nm pc w (ds_ctx s) question;
          s = s\<lparr>ds_ctx := ctx\<rparr>
      in if answer \<noteq> None \<or> ds_backend s = 0
         then apsnd ((@) recorded) (tcp_reply pc writes l k conn (response request answer) s)
         else
           let job = (new_job w (tc_peer conn) request question)\<lparr>jb_endpoints := Some (qc_endpoints ctx)\<rparr> in
           (s\<lparr>ds_backend := ds_backend s - 1,
              ds_tcp := (ds_tcp s)[l := (ds_tcp s ! l)[k := conn\<lparr>tc_job := Some job\<rparr>]]\<rparr>, recorded))"

text \<open>An idle connection reads the next frame.\<close>

definition tcp_frame ::
  "'n name_ops \<Rightarrow> 'n packet_codec \<Rightarrow> ('n, 'c, 't) dns_world \<Rightarrow> bool \<Rightarrow> nat \<Rightarrow> nat \<Rightarrow> 'n dns_server \<Rightarrow> 'n dns_server \<times> 'n effect list" where
  "tcp_frame nm pc w writes l k s =
     (let conn = ds_tcp s ! l ! k in
      case tc_job conn of
        Some _ \<Rightarrow> (s, [])
      | None \<Rightarrow>
          (case read_framed_message (tc_input conn) of
             Inl _ \<Rightarrow> (tcp_closed l k s, [])
           | Inr None \<Rightarrow> (tcp_closed l k s, [])
           | Inr (Some (body, input)) \<Rightarrow>
               (case parse_query pc body of
                  None \<Rightarrow> (tcp_closed l k s, [])
                | Some request \<Rightarrow>
                    let conn = conn\<lparr>tc_input := input\<rparr> in
                    (case unsupported_response request of
                       Some reply \<Rightarrow> tcp_reply pc writes l k conn reply s
                     | None \<Rightarrow>
                         (case m_queries request of
                            [] \<Rightarrow> tcp_reply pc writes l k conn (formerr request) s
                          | question # _ \<Rightarrow> tcp_question nm pc w writes l k conn request question s)))))"

definition tcp_finished ::
  "'n name_ops \<Rightarrow> 'n packet_codec \<Rightarrow> ('n, 'c, 't) dns_world \<Rightarrow> bool \<Rightarrow> nat \<Rightarrow> nat \<Rightarrow> 'n dns_server \<Rightarrow> 'n dns_server \<times> 'n effect list" where
  "tcp_finished nm pc w writes l k s =
     (let conn = ds_tcp s ! l ! k in
      case tc_job conn of
        None \<Rightarrow> (s, [])
      | Some job \<Rightarrow>
          (case resolve_miss nm pc w (ds_ctx s) (case jb_endpoints job of Some es \<Rightarrow> es | None \<Rightarrow> []) (jb_question job) (jb_deadline job) of
             (sent, answer, ctx) \<Rightarrow>
               apsnd ((@) sent)
                 (tcp_reply pc writes l k (conn\<lparr>tc_job := None\<rparr>) (response (jb_request job) answer)
                   (s\<lparr>ds_ctx := ctx, ds_backend := ds_backend s + 1\<rparr>))))"

section \<open>Refreshing popular questions\<close>

text \<open>
  \<open>refresh_question_until\<close>: a question local policy answers needs no slot; otherwise two slots must be free, and one
  of them is given back at once.  While fewer are free it goes on waiting.
\<close>

definition refresh_started ::
  "'n name_ops \<Rightarrow> ('n, 'c, 't) dns_world \<Rightarrow> 'n query \<Rightarrow> nat \<Rightarrow> 'n dns_server \<Rightarrow> 'n dns_server" where
  "refresh_started nm w question deadline s =
     (if ds_refresh s \<noteq> None \<or> preflight nm w (ds_ctx s) question \<noteq> None \<or> deadline < wd_instant w then s
      else if 1 < ds_backend s then
        s\<lparr>ds_backend := ds_backend s - 2 + 1,
          ds_refresh := Some \<lparr>jb_peer = \<lparr>sa_ip = V4 0, sa_port = 0, sa_scope = 0\<rparr>, jb_request = error_msg 0 OpQuery NoError,
            jb_question = question, jb_deadline = deadline, jb_endpoints = Some (qc_endpoints (ds_ctx s))\<rparr>\<rparr>
      else s)"

definition refresh_finished ::
  "'n name_ops \<Rightarrow> 'n packet_codec \<Rightarrow> ('n, 'c, 't) dns_world \<Rightarrow> 'n dns_server \<Rightarrow> 'n dns_server \<times> 'n effect list" where
  "refresh_finished nm pc w s =
     (case ds_refresh s of
        None \<Rightarrow> (s, [])
      | Some job \<Rightarrow>
          (case resolve_miss nm pc w (ds_ctx s) (case jb_endpoints job of Some es \<Rightarrow> es | None \<Rightarrow> []) (jb_question job) (jb_deadline job) of
             (sent, _, ctx) \<Rightarrow> (s\<lparr>ds_ctx := ctx, ds_backend := ds_backend s + 1, ds_refresh := None\<rparr>, sent)))"

text \<open>A listener pair that could not be bound at start-up has come up: its endpoints are published and its loops added.\<close>

definition listener_recovered :: "socket_addr list \<Rightarrow> 'n dns_server \<Rightarrow> 'n dns_server" where
  "listener_recovered endpoints s =
     s\<lparr>ds_ctx := (ds_ctx s)\<lparr>qc_endpoints := qc_endpoints (ds_ctx s) @ endpoints\<rparr>,
       ds_udp := ds_udp s @ [[]], ds_tcp := ds_tcp s @ [[]]\<rparr>"

section \<open>Steps\<close>

datatype 'n dns_event =
  UdpReceived nat socket_addr bytes
| UdpPolled nat nat
| UdpFinished nat nat
| TcpAccepted nat socket_addr conn_input
| TcpFrame bool nat nat
| TcpFinished bool nat nat
| TcpClosed nat nat
| RefreshStarted "'n query" nat
| RefreshFinished
| ListenerRecovered "socket_addr list"

text \<open>The socket, and the resolution or connection, an event is about must be there.\<close>

fun event_possible :: "'n dns_event \<Rightarrow> 'n dns_server \<Rightarrow> bool" where
  "event_possible (UdpReceived l _ _) s = (l < length (ds_udp s))"
| "event_possible (UdpPolled l k) s = (l < length (ds_udp s) \<and> k < length (ds_udp s ! l))"
| "event_possible (UdpFinished l k) s = (l < length (ds_udp s) \<and> k < length (ds_udp s ! l))"
| "event_possible (TcpAccepted l _ _) s = (l < length (ds_tcp s))"
| "event_possible (TcpFrame _ l k) s = (l < length (ds_tcp s) \<and> k < length (ds_tcp s ! l))"
| "event_possible (TcpFinished _ l k) s = (l < length (ds_tcp s) \<and> k < length (ds_tcp s ! l))"
| "event_possible (TcpClosed l k) s = (l < length (ds_tcp s) \<and> k < length (ds_tcp s ! l))"
| "event_possible _ s = True"

fun dns_step ::
  "'n name_ops \<Rightarrow> 'n packet_codec \<Rightarrow> ('n, 'c, 't) dns_world \<Rightarrow> 'n dns_event \<Rightarrow> 'n dns_server \<Rightarrow> 'n dns_server \<times> 'n effect list" where
  "dns_step nm pc w (UdpReceived l peer bs) s = udp_received nm pc w l peer bs s"
| "dns_step nm pc w (UdpPolled l k) s = (udp_polled l k s, [])"
| "dns_step nm pc w (UdpFinished l k) s = udp_finished nm pc w l k s"
| "dns_step nm pc w (TcpAccepted l peer input) s = (tcp_accepted l peer input s, [])"
| "dns_step nm pc w (TcpFrame writes l k) s = tcp_frame nm pc w writes l k s"
| "dns_step nm pc w (TcpFinished writes l k) s = tcp_finished nm pc w writes l k s"
| "dns_step nm pc w (TcpClosed l k) s = tcp_cut nm pc w l k s"
| "dns_step nm pc w (RefreshStarted question deadline) s = (refresh_started nm w question deadline s, [])"
| "dns_step nm pc w RefreshFinished s = refresh_finished nm pc w s"
| "dns_step nm pc w (ListenerRecovered endpoints) s = (listener_recovered endpoints s, [])"

text \<open>\<open>serve_owned_lifecycle\<close>: the server before anything has arrived.\<close>

definition dns_start :: "'n query_ctx \<Rightarrow> nat \<Rightarrow> 'n dns_server" where
  "dns_start ctx pairs =
     \<lparr>ds_ctx = ctx, ds_backend = MAX_DNS_CONCURRENT_QUERIES, ds_connections = MAX_TCP_CONNECTIONS,
      ds_udp = replicate pairs [], ds_tcp = replicate pairs [], ds_refresh = None\<rparr>"

text \<open>
  A run with the events so far, what surrounded them, and the effects they had; the library can parse the name
  \<open>localhost.\<close>.
\<close>

inductive dns_run ::
  "'n name_ops \<Rightarrow> 'n packet_codec \<Rightarrow> 'n query_ctx \<Rightarrow> 'n dns_server \<Rightarrow> (('n, 'c, 't) dns_world \<times> 'n dns_event) list \<Rightarrow>
   'n effect list \<Rightarrow> bool"
  for nm pc ctx where
  begin_run: "dns_run nm pc ctx (dns_start ctx pairs) [] []"
| next_event: "dns_run nm pc ctx s trace effs \<Longrightarrow> event_possible ev s \<Longrightarrow> wd_localhost w \<noteq> None \<Longrightarrow>
    dns_step nm pc w ev s = (s', new) \<Longrightarrow> dns_run nm pc ctx s' (trace @ [(w, ev)]) (effs @ new)"

section \<open>What resolutions leave alone\<close>

definition same_policy :: "'n query_ctx \<Rightarrow> 'n query_ctx \<Rightarrow> bool" where
  "same_policy a b \<longleftrightarrow> qc_overrides a = qc_overrides b \<and> qc_providers a = qc_providers b \<and> qc_client_access a = qc_client_access b"

lemma inline_answer_ctx:
  "inline_answer nm pc w ctx question = (answer, ctx') \<Longrightarrow> same_policy ctx' ctx \<and> qc_endpoints ctx' = qc_endpoints ctx \<and>
     qc_statistics ctx' = qc_statistics ctx"
  by (auto simp: inline_answer_def same_policy_def split: option.splits prod.splits)

lemma resolve_miss_ctx:
  "resolve_miss nm pc w ctx endpoints question deadline = (sent, answer, ctx') \<Longrightarrow>
     same_policy ctx' ctx \<and> qc_endpoints ctx' = qc_endpoints ctx \<and> qc_statistics ctx' = qc_statistics ctx"
  by (auto simp: resolve_miss_def same_policy_def split: prod.splits sum.splits option.splits if_splits)

section \<open>What a question may cause\<close>

text \<open>A name that local policy leaves to the network.\<close>

definition routable :: "'n name_ops \<Rightarrow> 'n query \<Rightarrow> bool" where
  "routable nm question \<longleftrightarrow> \<not> is_localhost (hostname_of nm question) \<and> \<not> is_loopback_name (hostname_of nm question)"

lemma preflight_routable:
  assumes "preflight nm w ctx question = None" and "wd_localhost w \<noteq> None"
  shows "routable nm question"
proof -
  have "local_answer (wd_localhost w) (wd_wall w) question (hostname_of nm question) (qc_endpoints ctx)
      (explicit_override nm ctx question) = None"
    using assms(1) by (simp add: preflight_def preflight_with_probe_def split: option.splits)
  then show ?thesis using assms(2)
    by (auto simp: local_answer_def local_data_def Let_def routable_def split: if_splits option.splits record_type.splits)
qed

text \<open>
  A plain packet a question may cause: it carries that question, an override matches the question's name, the packet
  goes to the server of that override or to a configured one, and not to one of the endpoints.
\<close>

definition plain_allowed ::
  "'n name_ops \<Rightarrow> 'n packet_codec \<Rightarrow> ('n, 'c, 't) dns_world \<Rightarrow> 'n query_ctx \<Rightarrow> socket_addr list \<Rightarrow> 'n query \<Rightarrow> plain_packet \<Rightarrow> bool" where
  "plain_allowed nm pc w ctx endpoints question p \<longleftrightarrow>
     carries pc (pn_id (wd_plain w)) question p \<and> not_ourselves (wd_plain w) endpoints (packet_target p) \<and>
     (case find_override (qc_overrides ctx) (hostname_of nm question) of
        None \<Rightarrow> False
      | Some entry \<Rightarrow>
          (case ov_resolver entry of
             DnsResolve server \<Rightarrow> same_server (packet_target p) server
           | SystemResolve \<Rightarrow> (case wd_system w of Inr servers \<Rightarrow> list_ex (same_server (packet_target p)) servers | Inl _ \<Rightarrow> False)))"

text \<open>An effect of resolving a question.\<close>

definition miss_effect ::
  "'n name_ops \<Rightarrow> 'n packet_codec \<Rightarrow> ('n, 'c, 't) dns_world \<Rightarrow> 'n query_ctx \<Rightarrow> socket_addr list \<Rightarrow> 'n query \<Rightarrow> 'n effect \<Rightarrow> bool" where
  "miss_effect nm pc w ctx endpoints question e =
     (case e of
        PlainSent p \<Rightarrow> plain_allowed nm pc w ctx endpoints question p
      | ViaTunnel provider request \<Rightarrow>
          provider \<in> set (qc_providers ctx) \<and> asks pc question (provider, request) \<and>
          find_override (qc_overrides ctx) (hostname_of nm question) = None
      | _ \<Rightarrow> False)"

lemma resolve_route_effects:
  assumes "resolve_route nm pc w ctx endpoints question = (fin, sent, r)"
  shows "list_all (miss_effect nm pc w ctx endpoints question) sent"
proof (cases "find_override (qc_overrides ctx) (hostname_of nm question)")
  case None
  obtain took there where t: "wd_tunnel w = (took, there)" by fastforce
  obtain fin' writes r' where p: "resolve_with_pool nm pc (wd_doh w) question (qc_providers ctx) (wd_instant w + took) = (fin', writes, r')"
    by (metis prod_cases3)
  have "sent = (if there then map (\<lambda>(provider, request). ViaTunnel provider request) writes else [])"
    using assms None t p by (auto simp: resolve_route_def acquire_then_resolve_def split: bool.splits)
  then show ?thesis using pool_asks [OF p] None by (fastforce simp: list_all_iff miss_effect_def)
next
  case (Some entry)
  show ?thesis
  proof (cases "ov_resolver entry")
    case SystemResolve
    obtain pk r' where v: "resolve_via_system nm pc (wd_plain w) question endpoints (wd_system w) (wd_allowed w) = (pk, r')" by fastforce
    have "plain_allowed nm pc w ctx endpoints question p" if "p \<in> set pk" for p
    proof -
      have "p \<in> set (fst (resolve_via_system nm pc (wd_plain w) question endpoints (wd_system w) (wd_allowed w)))" using that v by simp
      then obtain servers server where "wd_system w = Inr servers" "server \<in> set servers" "same_server (packet_target p) server"
        "not_ourselves (wd_plain w) endpoints (packet_target p)" "carries pc (pn_id (wd_plain w)) question p" by (rule system_targets)
      then show ?thesis using Some SystemResolve by (auto simp: plain_allowed_def list_ex_iff)
    qed
    moreover have "sent = map PlainSent pk" using assms Some SystemResolve v by (auto simp: resolve_route_def)
    ultimately show ?thesis by (simp add: list_all_iff miss_effect_def)
  next
    case (DnsResolve server)
    obtain pk r' where v: "resolve_via_dns_server nm pc (wd_plain w) question server endpoints = (pk, r')" by fastforce
    have "plain_allowed nm pc w ctx endpoints question p" if "p \<in> set pk" for p
      using that v dns_server_targets [of p nm pc "wd_plain w" question server endpoints] Some DnsResolve
      by (simp add: plain_allowed_def)
    moreover have "sent = map PlainSent pk" using assms Some DnsResolve v by (auto simp: resolve_route_def)
    ultimately show ?thesis by (simp add: list_all_iff miss_effect_def)
  qed
qed

lemma list_all_take: "list_all P xs \<Longrightarrow> list_all P (take n xs)"
  by (auto simp: list_all_iff dest: in_set_takeD)

lemma resolve_miss_effects:
  assumes "resolve_miss nm pc w ctx endpoints question deadline = (sent, answer, ctx')"
  shows "list_all (miss_effect nm pc w ctx endpoints question) sent"
  using assms resolve_route_effects [of nm pc w ctx endpoints question]
  by (auto simp: resolve_miss_def list_all_take split: prod.splits sum.splits option.splits if_splits)

end
