(* ===== verification/DnsServerSteps.thy ===== *)
theory DnsServerSteps
  imports DnsServer
begin

text \<open>
  The DNS server over all interleavings of its loops: the permits of its two semaphores are conserved and a
  background refresh never takes the last slot; questions leave the machine only the way their override or the
  tunnel says; and replies go to admitted peers, one per datagram at most and never larger than 512 bytes.
\<close>

section \<open>Weights of nested lists\<close>

definition weight :: "('a \<Rightarrow> nat) \<Rightarrow> 'a list list \<Rightarrow> nat" where
  "weight f xss = sum_list (map (\<lambda>xs. sum_list (map f xs)) xss)"

lemma sum_list_update_nat:
  "l < length (xs :: nat list) \<Longrightarrow> sum_list (xs[l := y]) + xs ! l = sum_list xs + y"
  by (simp add: sum_list_update)
     (metis add.commute add_diff_cancel_right' add_le_cancel_left elem_le_sum_list le_add_diff_inverse2 trans_le_add1)

lemma weight_update: "l < length xss \<Longrightarrow> weight f (xss[l := ys]) + sum_list (map f (xss ! l)) = weight f xss + sum_list (map f ys)"
  using sum_list_update_nat [of l "map (\<lambda>xs. sum_list (map f xs)) xss" "sum_list (map f ys)"]
  by (simp add: weight_def map_update)

lemma weight_inner:
  assumes "l < length xss" and "k < length (xss ! l)"
  shows "weight f (xss[l := (xss ! l)[k := c]]) + f (xss ! l ! k) = weight f xss + f c"
proof -
  have "sum_list (map f ((xss ! l)[k := c])) + f (xss ! l ! k) = sum_list (map f (xss ! l)) + f c"
    using sum_list_update_nat [of k "map f (xss ! l)" "f c"] assms(2) by (simp add: map_update)
  then show ?thesis using weight_update [OF assms(1), of f "(xss ! l)[k := c]"] by simp
qed

lemma weight_append [simp]: "weight f (xss @ [[]]) = weight f xss"
  by (simp add: weight_def)

lemma weight_replicate [simp]: "weight f (replicate n []) = 0"
  by (simp add: weight_def sum_list_replicate)

lemma sum_remove_nth: "k < length xs \<Longrightarrow> sum_list (map f (remove_nth k xs)) + f (xs ! k) = (sum_list (map f xs) :: nat)"
  using arg_cong [OF id_take_nth_drop, of k xs "\<lambda>ys. sum_list (map f ys)"] by (simp add: remove_nth_def)

lemma weight_remove:
  assumes "l < length xss" and "k < length (xss ! l)"
  shows "weight f (xss[l := remove_nth k (xss ! l)]) + f (xss ! l ! k) = weight f xss"
  using weight_update [OF assms(1), of f "remove_nth k (xss ! l)"] sum_remove_nth [OF assms(2), of f] by simp

lemma set_remove_nth: "set (remove_nth k xs) \<subseteq> set xs"
  by (auto simp: remove_nth_def dest: in_set_takeD in_set_dropD)

section \<open>Permits\<close>

definition busy :: "'n tcp_conn \<Rightarrow> nat" where
  "busy c = (if tc_job c = None then 0 else 1)"

definition in_flight :: "'n dns_server \<Rightarrow> nat" where
  "in_flight s = weight (\<lambda>_. 1) (ds_udp s) + weight busy (ds_tcp s) + (if ds_refresh s = None then 0 else 1)"

definition permits_ok :: "'n dns_server \<Rightarrow> bool" where
  "permits_ok s \<longleftrightarrow>
     ds_backend s + in_flight s = MAX_DNS_CONCURRENT_QUERIES \<and>
     ds_connections s + weight (\<lambda>_. 1) (ds_tcp s) = MAX_TCP_CONNECTIONS"

lemma permits_ctx [simp]: "permits_ok (s\<lparr>ds_ctx := ctx\<rparr>) = permits_ok s"
  by (simp add: permits_ok_def in_flight_def)

lemma permits_udp_question:
  assumes "permits_ok s" and "l < length (ds_udp s)"
  shows "permits_ok (fst (udp_question nm pc w l peer request question s))"
proof -
  have "permits_ok (s\<lparr>ds_ctx := ctx, ds_backend := ds_backend s - 1, ds_udp := (ds_udp s)[l := ds_udp s ! l @ [j]]\<rparr>)"
    if "ds_backend s \<noteq> 0" for ctx j
    using assms that weight_update [OF assms(2), of "\<lambda>_. 1" "ds_udp s ! l @ [j]"] by (simp add: permits_ok_def in_flight_def)
  then show ?thesis using assms(1) by (auto simp: udp_question_def Let_def split: prod.splits)
qed

lemma permits_udp_received: "permits_ok s \<Longrightarrow> l < length (ds_udp s) \<Longrightarrow> permits_ok (fst (udp_received nm pc w l peer bs s))"
  using permits_udp_question by (auto simp: udp_received_def split: option.splits list.splits)

lemma permits_udp_polled:
  assumes "permits_ok s" and "l < length (ds_udp s)" and "k < length (ds_udp s ! l)"
  shows "permits_ok (udp_polled l k s)"
  using assms(1) weight_inner [OF assms(2,3), of "\<lambda>_. 1"]
  by (auto simp: udp_polled_def Let_def permits_ok_def in_flight_def split: option.splits)

lemma permits_udp_finished:
  assumes "permits_ok s" and "l < length (ds_udp s)" and "k < length (ds_udp s ! l)"
  shows "permits_ok (fst (udp_finished nm pc w l k s))"
proof -
  have "permits_ok (s\<lparr>ds_ctx := ctx, ds_backend := ds_backend s + 1, ds_udp := (ds_udp s)[l := remove_nth k (ds_udp s ! l)]\<rparr>)" for ctx
    using assms(1) weight_remove [OF assms(2,3), of "\<lambda>_. 1"] by (simp add: permits_ok_def in_flight_def)
  then show ?thesis using assms(1) by (auto simp: udp_finished_def Let_def split: option.splits prod.splits)
qed

lemma permits_tcp_accepted:
  assumes "permits_ok s" and "l < length (ds_tcp s)"
  shows "permits_ok (tcp_accepted l peer input s)"
  using assms(1) weight_update [OF assms(2), of f "ds_tcp s ! l @ [\<lparr>tc_peer = peer, tc_input = input, tc_job = None\<rparr>]" for f]
  by (auto simp: tcp_accepted_def permits_ok_def in_flight_def busy_def)

lemma permits_tcp_closed:
  assumes "permits_ok s" and "l < length (ds_tcp s)" and "k < length (ds_tcp s ! l)"
  shows "permits_ok (tcp_closed l k s)"
  using assms(1) weight_remove [OF assms(2,3), of busy] weight_remove [OF assms(2,3), of "\<lambda>_. 1"]
  by (auto simp: tcp_closed_def Let_def permits_ok_def in_flight_def busy_def)

lemma permits_tcp_reply:
  assumes "permits_ok s" and "l < length (ds_tcp s)" and "k < length (ds_tcp s ! l)" and "busy conn = busy (ds_tcp s ! l ! k)"
  shows "permits_ok (fst (tcp_reply pc writes l k conn reply s))"
proof -
  let ?s = "s\<lparr>ds_tcp := (ds_tcp s)[l := (ds_tcp s ! l)[k := conn]]\<rparr>"
  have "permits_ok ?s" using assms(1,4) weight_inner [OF assms(2,3), of busy conn] weight_inner [OF assms(2,3), of "\<lambda>_. 1" conn]
    by (simp add: permits_ok_def in_flight_def)
  moreover from this have "permits_ok (tcp_closed l k ?s)" using assms(2,3) by (intro permits_tcp_closed) auto
  ultimately show ?thesis by (auto simp: tcp_reply_def Let_def split: sum.splits)
qed

lemma permits_tcp_question:
  assumes "permits_ok s" and "l < length (ds_tcp s)" and "k < length (ds_tcp s ! l)"
    and "tc_job (ds_tcp s ! l ! k) = None" and "tc_job conn = None"
  shows "permits_ok (fst (tcp_question nm pc w writes l k conn request question s))"
proof -
  have "permits_ok (fst (tcp_reply pc writes l k conn reply (s\<lparr>ds_ctx := ctx\<rparr>)))" for reply ctx
    using assms by (intro permits_tcp_reply) (auto simp: busy_def)
  moreover have "permits_ok (s\<lparr>ds_ctx := ctx, ds_backend := ds_backend s - 1,
      ds_tcp := (ds_tcp s)[l := (ds_tcp s ! l)[k := conn\<lparr>tc_job := Some job\<rparr>]]\<rparr>)" if "ds_backend s \<noteq> 0" for ctx job
    using assms that weight_inner [OF assms(2,3), of busy "conn\<lparr>tc_job := Some job\<rparr>"]
      weight_inner [OF assms(2,3), of "\<lambda>_. 1" "conn\<lparr>tc_job := Some job\<rparr>"]
    by (simp add: permits_ok_def in_flight_def busy_def)
  ultimately show ?thesis by (auto simp: tcp_question_def Let_def split: prod.splits)
qed

lemma permits_tcp_frame:
  assumes "permits_ok s" and "l < length (ds_tcp s)" and "k < length (ds_tcp s ! l)"
  shows "permits_ok (fst (tcp_frame nm pc w writes l k s))"
proof (cases "tc_job (ds_tcp s ! l ! k)")
  case None
  then have "permits_ok (fst (tcp_reply pc writes l k ((ds_tcp s ! l ! k)\<lparr>tc_input := input\<rparr>) reply s))" for input reply
    using assms by (intro permits_tcp_reply) (auto simp: busy_def)
  then show ?thesis
    using None assms permits_tcp_closed [OF assms] permits_tcp_question [OF assms None, of "(ds_tcp s ! l ! k)\<lparr>tc_input := input\<rparr>" for input]
    by (auto simp: tcp_frame_def Let_def split: sum.splits option.splits list.splits)
qed (use assms in \<open>simp add: tcp_frame_def\<close>)

lemma permits_tcp_finished:
  assumes "permits_ok s" and "l < length (ds_tcp s)" and "k < length (ds_tcp s ! l)"
  shows "permits_ok (fst (tcp_finished nm pc w writes l k s))"
proof (cases "tc_job (ds_tcp s ! l ! k)")
  case (Some job)
  let ?conn = "(ds_tcp s ! l ! k)\<lparr>tc_job := None\<rparr>"
  have "permits_ok (fst (tcp_reply pc writes l k ?conn reply (s\<lparr>ds_ctx := ctx, ds_backend := ds_backend s + 1\<rparr>)))" for reply ctx
  proof -
    let ?s = "s\<lparr>ds_ctx := ctx, ds_backend := ds_backend s + 1, ds_tcp := (ds_tcp s)[l := (ds_tcp s ! l)[k := ?conn]]\<rparr>"
    have p: "permits_ok ?s" using assms(1) Some weight_inner [OF assms(2,3), of busy ?conn] weight_inner [OF assms(2,3), of "\<lambda>_. 1" ?conn]
      by (simp add: permits_ok_def in_flight_def busy_def)
    have "permits_ok (fst (tcp_reply pc writes l k ?conn reply ?s))"
      using p assms by (intro permits_tcp_reply) (auto simp: busy_def)
    then show ?thesis using assms by (simp add: tcp_reply_def Let_def)
  qed
  then show ?thesis using Some by (auto simp: tcp_finished_def Let_def split: prod.splits)
qed (use assms in \<open>simp add: tcp_finished_def\<close>)

lemma dns_permits_step:
  assumes "permits_ok s" and "event_possible ev s"
  shows "permits_ok (fst (dns_step nm pc w ev s))"
proof (cases ev)
  case (RefreshStarted q d)
  then show ?thesis using assms(1) by (auto simp: refresh_started_def permits_ok_def in_flight_def)
next
  case RefreshFinished
  then show ?thesis using assms(1) by (auto simp: refresh_finished_def permits_ok_def in_flight_def split: option.splits prod.splits)
next
  case (ListenerRecovered es)
  then show ?thesis using assms(1) by (simp add: listener_recovered_def permits_ok_def in_flight_def)
qed (use assms permits_udp_received permits_udp_polled permits_udp_finished permits_tcp_accepted permits_tcp_closed
    permits_tcp_frame permits_tcp_finished in \<open>auto simp: tcp_cut_def\<close>)

section \<open>Policy\<close>

text \<open>
  A resolution that may run: its name is not local, and once polled its endpoints are those the server had then,
  the ones it was started with included.
\<close>

definition job_ok :: "'n name_ops \<Rightarrow> socket_addr list \<Rightarrow> 'n job \<Rightarrow> bool" where
  "job_ok nm base job \<longleftrightarrow>
     routable nm (jb_question job) \<and> (case jb_endpoints job of Some endpoints \<Rightarrow> prefix base endpoints | None \<Rightarrow> True)"

definition udp_job_ok :: "'n name_ops \<Rightarrow> 'n query_ctx \<Rightarrow> 'n job \<Rightarrow> bool" where
  "udp_job_ok nm ctx job \<longleftrightarrow> job_ok nm (qc_endpoints ctx) job \<and> allows (qc_client_access ctx) (sa_ip (jb_peer job))"

definition conn_ok :: "'n name_ops \<Rightarrow> 'n query_ctx \<Rightarrow> 'n tcp_conn \<Rightarrow> bool" where
  "conn_ok nm ctx conn \<longleftrightarrow> allows (qc_client_access ctx) (sa_ip (tc_peer conn)) \<and>
     (case tc_job conn of Some job \<Rightarrow> job_ok nm (qc_endpoints ctx) job \<and> jb_endpoints job \<noteq> None | None \<Rightarrow> True)"

text \<open>\<open>ctx\<close> is the context the server was started with.\<close>

definition policy_ok :: "'n name_ops \<Rightarrow> 'n query_ctx \<Rightarrow> 'n dns_server \<Rightarrow> bool" where
  "policy_ok nm ctx s \<longleftrightarrow>
     same_policy (ds_ctx s) ctx \<and> prefix (qc_endpoints ctx) (qc_endpoints (ds_ctx s)) \<and>
     list_all (list_all (udp_job_ok nm ctx)) (ds_udp s) \<and> list_all (list_all (conn_ok nm ctx)) (ds_tcp s) \<and>
     (case ds_refresh s of Some job \<Rightarrow> job_ok nm (qc_endpoints ctx) job \<and> jb_endpoints job \<noteq> None | None \<Rightarrow> True)"

text \<open>The question of the resolution an event ends, if it ends one.\<close>

fun resolving :: "'n dns_event \<Rightarrow> 'n dns_server \<Rightarrow> 'n query option" where
  "resolving (UdpFinished l k) s = Some (jb_question (ds_udp s ! l ! k))"
| "resolving (TcpFinished _ l k) s = map_option jb_question (tc_job (ds_tcp s ! l ! k))"
| "resolving (TcpClosed l k) s = map_option jb_question (tc_job (ds_tcp s ! l ! k))"
| "resolving RefreshFinished s = map_option jb_question (ds_refresh s)"
| "resolving _ _ = None"

text \<open>
  What a step may do to the outside world, under the context the server was started with: \<open>asked\<close> is the question
  being resolved, and whatever leaves must carry that question.
\<close>

definition effect_ok ::
  "'n name_ops \<Rightarrow> 'n packet_codec \<Rightarrow> ('n, 'c, 't) dns_world \<Rightarrow> 'n query_ctx \<Rightarrow> 'n query option \<Rightarrow> 'n effect \<Rightarrow> bool" where
  "effect_ok nm pc w ctx asked e =
     (case e of
        SendUdp _ peer bs \<Rightarrow> allows (qc_client_access ctx) (sa_ip peer) \<and> length bs \<le> 512
      | PlainSent p \<Rightarrow>
          (case asked of
             None \<Rightarrow> False
           | Some question \<Rightarrow> routable nm question \<and>
               (\<exists>endpoints. prefix (qc_endpoints ctx) endpoints \<and> plain_allowed nm pc w ctx endpoints question p))
      | ViaTunnel provider request \<Rightarrow>
          (case asked of
             None \<Rightarrow> False
           | Some question \<Rightarrow> routable nm question \<and> find_override (qc_overrides ctx) (hostname_of nm question) = None \<and>
               provider \<in> set (qc_providers ctx) \<and> asks pc question (provider, request))
      | _ \<Rightarrow> True)"

lemma list_all_update: "list_all P xs \<Longrightarrow> P y \<Longrightarrow> list_all P (xs[l := y])"
  using set_update_subset_insert [of xs l y] by (auto simp: list_all_iff)

lemma list_all_nthD: "list_all P xs \<Longrightarrow> l < length xs \<Longrightarrow> P (xs ! l)"
  by (simp add: list_all_length)

lemma list_all_remove: "list_all P xs \<Longrightarrow> list_all P (remove_nth k xs)"
  using set_remove_nth by (fastforce simp: list_all_iff)

lemma send_effects:
  assumes "allows (qc_client_access ctx) (sa_ip peer)"
  shows "list_all (effect_ok nm pc w ctx asked) (send_udp_response pc' l peer message)"
  using assms encode_udp_response_fits [of pc' message] by (auto simp: send_udp_response_def effect_ok_def split: option.splits)

lemma recorded_effects [simp]: "list_all (effect_ok nm pc w ctx asked) (record_question ctx' question)"
  by (simp add: record_question_def effect_ok_def)

lemma miss_effect_ok:
  assumes "list_all (miss_effect nm pc w ctx' endpoints question) sent" and "same_policy ctx' ctx"
    and "routable nm question" and "prefix (qc_endpoints ctx) endpoints"
  shows "list_all (effect_ok nm pc w ctx (Some question)) sent"
proof -
  have "miss_effect nm pc w ctx' endpoints question e = miss_effect nm pc w ctx endpoints question e" for e
    using assms(2) by (cases e) (simp_all add: miss_effect_def plain_allowed_def same_policy_def)
  moreover have "effect_ok nm pc w ctx (Some question) e" if "miss_effect nm pc w ctx endpoints question e" for e
    using that assms(3,4) by (cases e) (auto simp: miss_effect_def effect_ok_def)
  ultimately show ?thesis using assms(1) by (simp add: list_all_iff)
qed

lemmas miss_effects = miss_effect_ok [OF resolve_miss_effects]

lemma same_policy_trans: "same_policy a b \<Longrightarrow> same_policy b c \<Longrightarrow> same_policy a c"
  by (simp add: same_policy_def)

text \<open>A change of the cache alone.\<close>

lemma policy_ctx:
  "policy_ok nm ctx s \<Longrightarrow> same_policy ctx' (ds_ctx s) \<Longrightarrow> qc_endpoints ctx' = qc_endpoints (ds_ctx s) \<Longrightarrow>
     policy_ok nm ctx (s\<lparr>ds_ctx := ctx'\<rparr>)"
  by (auto simp: policy_ok_def intro: same_policy_trans)

lemma policy_backend [simp]: "policy_ok nm ctx (s\<lparr>ds_backend := n\<rparr>) = policy_ok nm ctx s"
  "policy_ok nm ctx (s\<lparr>ds_connections := n\<rparr>) = policy_ok nm ctx s"
  by (simp_all add: policy_ok_def)

lemma policy_udp:
  "policy_ok nm ctx s \<Longrightarrow> list_all (udp_job_ok nm ctx) js \<Longrightarrow> policy_ok nm ctx (s\<lparr>ds_udp := (ds_udp s)[l := js]\<rparr>)"
  by (simp add: policy_ok_def list_all_update)

lemma policy_tcp:
  "policy_ok nm ctx s \<Longrightarrow> list_all (conn_ok nm ctx) cs \<Longrightarrow> policy_ok nm ctx (s\<lparr>ds_tcp := (ds_tcp s)[l := cs]\<rparr>)"
  by (simp add: policy_ok_def list_all_update)

lemma inline_miss:
  assumes "inline_answer nm pc w ctx question = (None, ctx')" and "wd_localhost w \<noteq> None"
  shows "routable nm question"
  using assms preflight_routable [of nm w ctx question] by (auto simp: inline_answer_def split: option.splits prod.splits)

lemma policy_udp_question:
  assumes "policy_ok nm ctx s" and "l < length (ds_udp s)" and "wd_localhost w \<noteq> None"
    and "allows (qc_client_access ctx) (sa_ip peer)" and "udp_question nm pc w l peer request question s = (s', effs)"
  shows "policy_ok nm ctx s' \<and> list_all (effect_ok nm pc w ctx asked) effs"
proof -
  obtain answer ctx' where i: "inline_answer nm pc w (ds_ctx s) question = (answer, ctx')" by fastforce
  have p: "policy_ok nm ctx (s\<lparr>ds_ctx := ctx'\<rparr>)" using inline_answer_ctx [OF i] policy_ctx [OF assms(1)] by blast
  show ?thesis
  proof (cases "answer \<noteq> None \<or> MAX_DNS_CONCURRENT_QUERIES \<le> length (ds_udp s ! l) \<or> ds_backend s = 0")
    case True
    then have "s' = s\<lparr>ds_ctx := ctx'\<rparr>"
      "effs = record_question (ds_ctx s) question @ send_udp_response pc l peer (response request answer)"
      using assms(5) i by (auto simp: udp_question_def Let_def)
    then show ?thesis using p send_effects [OF assms(4)] by simp
  next
    case False
    then have r: "routable nm question" using inline_miss [OF _ assms(3)] i by auto
    have eq: "s' = s\<lparr>ds_ctx := ctx', ds_backend := ds_backend s - 1,
        ds_udp := (ds_udp s)[l := ds_udp s ! l @ [new_job w peer request question]]\<rparr>" "effs = record_question (ds_ctx s) question"
      using assms(5) i False by (auto simp: udp_question_def Let_def)
    have "list_all (udp_job_ok nm ctx) (ds_udp s ! l @ [new_job w peer request question])"
      using assms(1,2,4) r by (auto simp: policy_ok_def udp_job_ok_def job_ok_def new_job_def dest: list_all_nthD)
    then show ?thesis using policy_udp [of nm ctx "s\<lparr>ds_ctx := ctx', ds_backend := ds_backend s - 1\<rparr>"] p eq
      by (simp add: policy_ok_def)
  qed
qed

lemma policy_udp_received:
  assumes "policy_ok nm ctx s" and "l < length (ds_udp s)" and "wd_localhost w \<noteq> None"
    and "udp_received nm pc w l peer bs s = (s', effs)"
  shows "policy_ok nm ctx s' \<and> list_all (effect_ok nm pc w ctx asked) effs"
proof (cases "allows (qc_client_access (ds_ctx s)) (sa_ip peer)")
  case True
  then have a: "allows (qc_client_access ctx) (sa_ip peer)" using assms(1) by (simp add: policy_ok_def same_policy_def)
  show ?thesis using assms True send_effects [OF a] policy_udp_question [OF assms(1-3) a]
    by (auto simp: udp_received_def split: option.splits list.splits)
qed (use assms in \<open>simp add: udp_received_def\<close>)

lemma policy_udp_polled:
  assumes "policy_ok nm ctx s" and "l < length (ds_udp s)" and "k < length (ds_udp s ! l)"
  shows "policy_ok nm ctx (udp_polled l k s)"
proof -
  have js: "list_all (udp_job_ok nm ctx) (ds_udp s ! l)" using assms(1,2) by (auto simp: policy_ok_def dest: list_all_nthD)
  then have "udp_job_ok nm ctx ((ds_udp s ! l ! k)\<lparr>jb_endpoints := Some (qc_endpoints (ds_ctx s))\<rparr>)"
    using assms(1) list_all_nthD [OF js assms(3)] by (simp add: udp_job_ok_def job_ok_def policy_ok_def)
  then show ?thesis using assms(1) policy_udp [OF assms(1) list_all_update [OF js]]
    by (auto simp: udp_polled_def Let_def split: option.splits)
qed

lemma policy_udp_finished:
  assumes "policy_ok nm ctx s" and "l < length (ds_udp s)" and "k < length (ds_udp s ! l)"
    and "udp_finished nm pc w l k s = (s', effs)"
  shows "policy_ok nm ctx s' \<and> list_all (effect_ok nm pc w ctx (Some (jb_question (ds_udp s ! l ! k)))) effs"
proof (cases "jb_endpoints (ds_udp s ! l ! k)")
  case (Some endpoints)
  let ?job = "ds_udp s ! l ! k"
  have js: "list_all (udp_job_ok nm ctx) (ds_udp s ! l)" using assms(1,2) by (auto simp: policy_ok_def dest: list_all_nthD)
  have job: "routable nm (jb_question ?job)" "prefix (qc_endpoints ctx) endpoints" "allows (qc_client_access ctx) (sa_ip (jb_peer ?job))"
    using list_all_nthD [OF js assms(3)] Some by (auto simp: udp_job_ok_def job_ok_def)
  obtain sent answer ctx' where m: "resolve_miss nm pc w (ds_ctx s) endpoints (jb_question ?job) (jb_deadline ?job) = (sent, answer, ctx')"
    by (metis prod_cases3)
  have same: "same_policy (ds_ctx s) ctx" using assms(1) by (simp add: policy_ok_def)
  have "policy_ok nm ctx (s\<lparr>ds_ctx := ctx'\<rparr>)" using resolve_miss_ctx [OF m] policy_ctx [OF assms(1)] by blast
  from policy_udp [OF this list_all_remove [OF js], of l k]
  have "policy_ok nm ctx (s\<lparr>ds_ctx := ctx', ds_backend := ds_backend s + 1, ds_udp := (ds_udp s)[l := remove_nth k (ds_udp s ! l)]\<rparr>)"
    by (simp add: policy_ok_def)
  then show ?thesis
    using assms(4) Some m miss_effects [OF m same job(1,2)] by (auto simp: udp_finished_def Let_def send_effects [OF job(3)])
qed (use assms in \<open>simp add: udp_finished_def\<close>)

lemma policy_tcp_closed:
  assumes "policy_ok nm ctx s" and "l < length (ds_tcp s)"
  shows "policy_ok nm ctx (tcp_closed l k s)"
proof -
  have "list_all (conn_ok nm ctx) (ds_tcp s ! l)" using assms by (auto simp: policy_ok_def dest: list_all_nthD)
  from policy_tcp [OF assms(1) list_all_remove [OF this, of k], of l] show ?thesis by (simp add: tcp_closed_def Let_def policy_ok_def)
qed

lemma policy_conn:
  assumes "policy_ok nm ctx s" and "l < length (ds_tcp s)" and "conn_ok nm ctx conn"
  shows "policy_ok nm ctx (s\<lparr>ds_tcp := (ds_tcp s)[l := (ds_tcp s ! l)[k := conn]]\<rparr>)"
proof -
  have "list_all (conn_ok nm ctx) (ds_tcp s ! l)" using assms(1,2) by (auto simp: policy_ok_def dest: list_all_nthD)
  then show ?thesis by (intro policy_tcp [OF assms(1)] list_all_update assms(3))
qed

lemma policy_tcp_accepted:
  assumes "policy_ok nm ctx s" and "l < length (ds_tcp s)"
  shows "policy_ok nm ctx (tcp_accepted l peer input s)"
proof -
  let ?conn = "\<lparr>tc_peer = peer, tc_input = input, tc_job = None\<rparr>"
  have "list_all (conn_ok nm ctx) (ds_tcp s ! l @ [?conn])" if "allows (qc_client_access (ds_ctx s)) (sa_ip peer)"
    using assms that by (auto simp: policy_ok_def conn_ok_def same_policy_def dest: list_all_nthD)
  from policy_tcp [OF assms(1) this, of l] show ?thesis using assms(1) by (auto simp: tcp_accepted_def policy_ok_def)
qed

lemma policy_tcp_reply:
  assumes "policy_ok nm ctx s" and "l < length (ds_tcp s)" and "conn_ok nm ctx conn"
    and "tcp_reply pc writes l k conn reply s = (s', effs)"
  shows "policy_ok nm ctx s' \<and> list_all (effect_ok nm pc w ctx asked) effs"
proof -
  let ?s = "s\<lparr>ds_tcp := (ds_tcp s)[l := (ds_tcp s ! l)[k := conn]]\<rparr>"
  have "policy_ok nm ctx ?s" by (rule policy_conn [OF assms(1-3)])
  moreover from policy_tcp_closed [OF this] have "policy_ok nm ctx (tcp_closed l k ?s)" using assms(2) by simp
  ultimately show ?thesis using assms(4) by (auto simp: tcp_reply_def Let_def effect_ok_def split: sum.splits if_splits)
qed

lemma policy_tcp_question:
  assumes "policy_ok nm ctx s" and "l < length (ds_tcp s)" and "conn_ok nm ctx conn" and "wd_localhost w \<noteq> None"
    and "tcp_question nm pc w writes l k conn request question s = (s', effs)"
  shows "policy_ok nm ctx s' \<and> list_all (effect_ok nm pc w ctx asked) effs"
proof -
  obtain answer ctx' where i: "inline_answer nm pc w (ds_ctx s) question = (answer, ctx')" by fastforce
  have p: "policy_ok nm ctx (s\<lparr>ds_ctx := ctx'\<rparr>)" using inline_answer_ctx [OF i] policy_ctx [OF assms(1)] by blast
  show ?thesis
  proof (cases "answer \<noteq> None \<or> ds_backend s = 0")
    case True
    obtain s1 sent where r: "tcp_reply pc writes l k conn (response request answer) (s\<lparr>ds_ctx := ctx'\<rparr>) = (s1, sent)" by fastforce
    have "s' = s1" "effs = record_question (ds_ctx s) question @ sent"
      using assms(5) i True r by (auto simp: tcp_question_def Let_def)
    then show ?thesis using policy_tcp_reply [OF p _ assms(3) r, of w] assms(2) by simp
  next
    case False
    let ?job = "(new_job w (tc_peer conn) request question)\<lparr>jb_endpoints := Some (qc_endpoints ctx')\<rparr>"
    have r: "routable nm question" using inline_miss [OF _ assms(4)] i False by auto
    have eq: "s' = s\<lparr>ds_ctx := ctx', ds_backend := ds_backend s - 1,
        ds_tcp := (ds_tcp s)[l := (ds_tcp s ! l)[k := conn\<lparr>tc_job := Some ?job\<rparr>]]\<rparr>" "effs = record_question (ds_ctx s) question"
      using assms(5) i False by (auto simp: tcp_question_def Let_def)
    have "conn_ok nm ctx (conn\<lparr>tc_job := Some ?job\<rparr>)"
      using assms(3) r p by (simp add: conn_ok_def job_ok_def new_job_def policy_ok_def)
    from policy_conn [OF p _ this, of l k] show ?thesis using assms(2) eq by (simp add: policy_ok_def)
  qed
qed

lemma policy_tcp_frame:
  assumes "policy_ok nm ctx s" and "l < length (ds_tcp s)" and "k < length (ds_tcp s ! l)" and "wd_localhost w \<noteq> None"
    and "tcp_frame nm pc w writes l k s = (s', effs)"
  shows "policy_ok nm ctx s' \<and> list_all (effect_ok nm pc w ctx asked) effs"
proof -
  have "list_all (conn_ok nm ctx) (ds_tcp s ! l)" using assms(1,2) by (auto simp: policy_ok_def dest: list_all_nthD)
  then have "conn_ok nm ctx ((ds_tcp s ! l ! k)\<lparr>tc_input := input\<rparr>)" for input
    using list_all_nthD [OF _ assms(3), of "conn_ok nm ctx"] by (simp add: conn_ok_def)
  note c = policy_tcp_reply [OF assms(1,2) this, where w = w] policy_tcp_question [OF assms(1,2) this assms(4)]
  show ?thesis using assms(1,5) policy_tcp_closed [OF assms(1,2)]
    by (auto simp: tcp_frame_def Let_def dest: c split: sum.splits option.splits list.splits)
qed

lemma policy_tcp_finished:
  assumes "policy_ok nm ctx s" and "l < length (ds_tcp s)" and "k < length (ds_tcp s ! l)"
    and "tcp_finished nm pc w writes l k s = (s', effs)"
  shows "policy_ok nm ctx s' \<and> list_all (effect_ok nm pc w ctx (map_option jb_question (tc_job (ds_tcp s ! l ! k)))) effs"
proof (cases "tc_job (ds_tcp s ! l ! k)")
  case (Some job)
  let ?conn = "(ds_tcp s ! l ! k)\<lparr>tc_job := None\<rparr>"
  have "list_all (conn_ok nm ctx) (ds_tcp s ! l)" using assms(1,2) by (auto simp: policy_ok_def dest: list_all_nthD)
  then have c: "conn_ok nm ctx (ds_tcp s ! l ! k)" by (rule list_all_nthD) (rule assms(3))
  then obtain endpoints where j: "jb_endpoints job = Some endpoints" "routable nm (jb_question job)" "prefix (qc_endpoints ctx) endpoints"
    using Some by (auto simp: conn_ok_def job_ok_def)
  obtain sent answer ctx' where m: "resolve_miss nm pc w (ds_ctx s) endpoints (jb_question job) (jb_deadline job) = (sent, answer, ctx')"
    by (metis prod_cases3)
  have same: "same_policy (ds_ctx s) ctx" using assms(1) by (simp add: policy_ok_def)
  let ?s = "s\<lparr>ds_ctx := ctx', ds_backend := ds_backend s + 1\<rparr>"
  have "policy_ok nm ctx (s\<lparr>ds_ctx := ctx'\<rparr>)" using resolve_miss_ctx [OF m] policy_ctx [OF assms(1)] by blast
  then have p: "policy_ok nm ctx ?s" by (simp add: policy_ok_def)
  obtain s1 e1 where r: "tcp_reply pc writes l k ?conn (response (jb_request job) answer) ?s = (s1, e1)" by fastforce
  have "s' = s1" "effs = sent @ e1" using assms(4) Some j(1) m r by (auto simp: tcp_finished_def Let_def)
  then show ?thesis using policy_tcp_reply [OF p _ _ r, of w] assms(2) c miss_effects [OF m same j(2,3)] Some by (simp add: conn_ok_def)
qed (use assms in \<open>simp add: tcp_finished_def\<close>)

lemma policy_tcp_cut:
  assumes "policy_ok nm ctx s" and "l < length (ds_tcp s)" and "k < length (ds_tcp s ! l)"
    and "tcp_cut nm pc w l k s = (s', effs)"
  shows "policy_ok nm ctx s' \<and> list_all (effect_ok nm pc w ctx (map_option jb_question (tc_job (ds_tcp s ! l ! k)))) effs"
proof (cases "tc_job (ds_tcp s ! l ! k)")
  case (Some job)
  have "list_all (conn_ok nm ctx) (ds_tcp s ! l)" using assms(1,2) by (auto simp: policy_ok_def dest: list_all_nthD)
  then have "conn_ok nm ctx (ds_tcp s ! l ! k)" by (rule list_all_nthD) (rule assms(3))
  then obtain endpoints where j: "jb_endpoints job = Some endpoints" "routable nm (jb_question job)" "prefix (qc_endpoints ctx) endpoints"
    using Some by (auto simp: conn_ok_def job_ok_def)
  obtain fin sent r where m: "resolve_route nm pc w (ds_ctx s) endpoints (jb_question job) = (fin, sent, r)" by (metis prod_cases3)
  have same: "same_policy (ds_ctx s) ctx" using assms(1) by (simp add: policy_ok_def)
  have "list_all (effect_ok nm pc w ctx (Some (jb_question job))) (take (wd_cut w) sent)"
    by (rule list_all_take [OF miss_effect_ok [OF resolve_route_effects [OF m] same j(2,3)]])
  then show ?thesis using assms(4) policy_tcp_closed [OF assms(1,2)] Some j(1) m by (auto simp: tcp_cut_def)
qed (use assms policy_tcp_closed in \<open>auto simp: tcp_cut_def\<close>)

lemma policy_refresh_started:
  assumes "policy_ok nm ctx s" and "wd_localhost w \<noteq> None"
  shows "policy_ok nm ctx (refresh_started nm w question deadline s)"
  using assms preflight_routable [OF _ assms(2), of nm "ds_ctx s" question]
  by (auto simp: refresh_started_def policy_ok_def job_ok_def)

lemma policy_refresh_finished:
  assumes "policy_ok nm ctx s" and "refresh_finished nm pc w s = (s', effs)"
  shows "policy_ok nm ctx s' \<and> list_all (effect_ok nm pc w ctx (map_option jb_question (ds_refresh s))) effs"
proof (cases "ds_refresh s")
  case (Some job)
  then obtain endpoints where j: "jb_endpoints job = Some endpoints" "routable nm (jb_question job)" "prefix (qc_endpoints ctx) endpoints"
    using assms(1) by (auto simp: policy_ok_def job_ok_def)
  obtain sent answer ctx' where m: "resolve_miss nm pc w (ds_ctx s) endpoints (jb_question job) (jb_deadline job) = (sent, answer, ctx')"
    by (metis prod_cases3)
  have same: "same_policy (ds_ctx s) ctx" using assms(1) by (simp add: policy_ok_def)
  have "policy_ok nm ctx (s\<lparr>ds_ctx := ctx'\<rparr>)" using resolve_miss_ctx [OF m] policy_ctx [OF assms(1)] by blast
  then show ?thesis using assms(2) Some j(1) m miss_effects [OF m same j(2,3)]
    by (auto simp: refresh_finished_def policy_ok_def)
qed (use assms in \<open>simp add: refresh_finished_def\<close>)

lemma policy_step:
  assumes "policy_ok nm ctx s" and "event_possible ev s" and "wd_localhost w \<noteq> None" and "dns_step nm pc w ev s = (s', effs)"
  shows "policy_ok nm ctx s' \<and> list_all (effect_ok nm pc w ctx (resolving ev s)) effs"
proof (cases ev)
  case (UdpReceived l peer bs)
  then show ?thesis using assms policy_udp_received [OF assms(1) _ assms(3), of l pc peer bs s' effs] by simp
next
  case (UdpPolled l k)
  then show ?thesis using assms policy_udp_polled [OF assms(1), of l k] by auto
next
  case (UdpFinished l k)
  then show ?thesis using assms policy_udp_finished [OF assms(1), of l k pc w s' effs] by simp
next
  case (TcpAccepted l peer input)
  then show ?thesis using assms policy_tcp_accepted [OF assms(1)] by auto
next
  case (TcpFrame writes l k)
  then show ?thesis using assms policy_tcp_frame [OF assms(1) _ _ assms(3), of l k pc writes s' effs] by simp
next
  case (TcpFinished writes l k)
  then show ?thesis using assms policy_tcp_finished [OF assms(1), of l k pc w writes s' effs] by simp
next
  case (TcpClosed l k)
  then show ?thesis using assms policy_tcp_cut [OF assms(1), of l k pc w s' effs] by simp
next
  case (RefreshStarted question deadline)
  then show ?thesis using assms policy_refresh_started [OF assms(1,3)] by auto
next
  case RefreshFinished
  then show ?thesis using assms policy_refresh_finished [OF assms(1), of pc w s' effs] by simp
next
  case (ListenerRecovered es)
  then show ?thesis using assms by (auto simp: listener_recovered_def policy_ok_def same_policy_def prefix_def)
qed

section \<open>Replies\<close>

definition replies :: "nat \<Rightarrow> socket_addr \<Rightarrow> 'n effect list \<Rightarrow> nat" where
  "replies l peer effs = length (filter (\<lambda>e. case e of SendUdp l' p _ \<Rightarrow> l' = l \<and> p = peer | _ \<Rightarrow> False) effs)"

definition datagrams :: "nat \<Rightarrow> socket_addr \<Rightarrow> 'n dns_event list \<Rightarrow> nat" where
  "datagrams l peer evs = length (filter (\<lambda>e. case e of UdpReceived l' p _ \<Rightarrow> l' = l \<and> p = peer | _ \<Rightarrow> False) evs)"

definition unanswered :: "nat \<Rightarrow> socket_addr \<Rightarrow> 'n dns_server \<Rightarrow> nat" where
  "unanswered l peer s = (if l < length (ds_udp s) then length (filter (\<lambda>j. jb_peer j = peer) (ds_udp s ! l)) else 0)"

lemma replies_simps [simp]: "replies l peer [] = 0" "replies l peer (as @ bs) = replies l peer as + replies l peer bs"
  "replies l peer (record_question ctx q) = 0"
  by (simp_all add: replies_def record_question_def)

lemma replies_send: "replies l peer (send_udp_response pc l' peer' message) \<le> (if l' = l \<and> peer' = peer then 1 else 0)"
  by (auto simp: replies_def send_udp_response_def split: option.splits)

lemma replies_miss: "list_all (miss_effect nm pc w ctx endpoints question) sent \<Longrightarrow> replies l peer sent = 0"
  by (auto simp: replies_def list_all_iff miss_effect_def filter_empty_conv split: effect.splits)

lemma unanswered_other: "ds_udp s' = ds_udp s \<Longrightarrow> unanswered l peer s' = unanswered l peer s"
  by (simp add: unanswered_def)

lemma unanswered_ctx [simp]: "unanswered l peer (s\<lparr>ds_ctx := ctx\<rparr>) = unanswered l peer s"
  by (simp add: unanswered_def)

lemma unanswered_update:
  assumes "l' < length (ds_udp s)" and "ds_udp s' = (ds_udp s)[l' := js]"
  shows "unanswered l peer s' = (if l = l' then length (filter (\<lambda>j. jb_peer j = peer) js) else unanswered l peer s)"
  using assms by (auto simp: unanswered_def)

lemma replies_udp_received:
  assumes "l' < length (ds_udp s)" and "udp_received nm pc w l' peer' bs s = (s', effs)"
  shows "replies l peer effs + unanswered l peer s' \<le> unanswered l peer s + (if l' = l \<and> peer' = peer then 1 else 0)"
proof -
  let ?one = "if l' = l \<and> peer' = peer then 1 else (0 :: nat)"
  have "replies l peer effs + unanswered l peer s' \<le> unanswered l peer s + ?one"
    if q: "udp_question nm pc w l' peer' request question s = (s', effs)" for request question
  proof -
    obtain answer ctx' where i: "inline_answer nm pc w (ds_ctx s) question = (answer, ctx')" by fastforce
    show ?thesis
    proof (cases "answer \<noteq> None \<or> MAX_DNS_CONCURRENT_QUERIES \<le> length (ds_udp s ! l') \<or> ds_backend s = 0")
      case True
      then have "s' = s\<lparr>ds_ctx := ctx'\<rparr>" "effs = record_question (ds_ctx s) question @ send_udp_response pc l' peer' (response request answer)"
        using q i by (auto simp: udp_question_def Let_def)
      then show ?thesis using replies_send [of l peer pc l' peer'] by simp
    next
      case False
      then have "ds_udp s' = (ds_udp s)[l' := ds_udp s ! l' @ [new_job w peer' request question]]" "effs = record_question (ds_ctx s) question"
        using q i by (auto simp: udp_question_def Let_def)
      then show ?thesis using unanswered_update [OF assms(1)] assms(1) by (auto simp: new_job_def unanswered_def)
    qed
  qed
  then show ?thesis using assms(2) replies_send [of l peer pc l' peer']
    by (auto simp: udp_received_def split: if_splits option.splits list.splits)
qed

lemma replies_udp_finished:
  assumes "l' < length (ds_udp s)" and "k < length (ds_udp s ! l')" and "udp_finished nm pc w l' k s = (s', effs)"
  shows "replies l peer effs + unanswered l peer s' \<le> unanswered l peer s"
proof (cases "jb_endpoints (ds_udp s ! l' ! k)")
  case (Some endpoints)
  let ?job = "ds_udp s ! l' ! k"
  obtain sent answer ctx' where m: "resolve_miss nm pc w (ds_ctx s) endpoints (jb_question ?job) (jb_deadline ?job) = (sent, answer, ctx')"
    by (metis prod_cases3)
  have eq: "ds_udp s' = (ds_udp s)[l' := remove_nth k (ds_udp s ! l')]"
    "effs = sent @ send_udp_response pc l' (jb_peer ?job) (response (jb_request ?job) answer)"
    using assms(3) Some m by (auto simp: udp_finished_def Let_def)
  have "length (filter (\<lambda>j. jb_peer j = peer) (remove_nth k (ds_udp s ! l'))) + (if jb_peer ?job = peer then 1 else 0)
      = length (filter (\<lambda>j. jb_peer j = peer) (ds_udp s ! l'))"
    using arg_cong [OF id_take_nth_drop [OF assms(2)], of "\<lambda>ys. length (filter (\<lambda>j. jb_peer j = peer) ys)"] by (simp add: remove_nth_def)
  then show ?thesis using eq unanswered_update [OF assms(1) eq(1), of l peer] replies_miss [OF resolve_miss_effects [OF m], of l peer]
      replies_send [of l peer pc l' "jb_peer ?job" "response (jb_request ?job) answer"] assms(1)
    by (auto simp: unanswered_def split: if_splits)
qed (use assms in \<open>simp add: udp_finished_def\<close>)

lemma udp_frames [simp]:
  "ds_udp (tcp_accepted l k input s) = ds_udp s" "ds_udp (tcp_closed l i s) = ds_udp s"
  "ds_udp (refresh_started nm w question deadline s) = ds_udp s"
  by (auto simp: tcp_accepted_def tcp_closed_def refresh_started_def Let_def)

lemma tcp_reply_udp [simp]:
  "ds_udp (fst (tcp_reply pc writes l k conn reply s)) = ds_udp s" "replies l' peer (snd (tcp_reply pc writes l k conn reply s)) = 0"
  by (auto simp: tcp_reply_def tcp_closed_def Let_def replies_def split: sum.splits)

lemma tcp_question_udp [simp]:
  "ds_udp (fst (tcp_question nm pc w writes l k conn request question s)) = ds_udp s"
  "replies l' peer (snd (tcp_question nm pc w writes l k conn request question s)) = 0"
  by (simp_all add: tcp_question_def Let_def case_prod_unfold)

lemma tcp_frame_udp [simp]:
  "ds_udp (fst (tcp_frame nm pc w writes l k s)) = ds_udp s" "replies l' peer (snd (tcp_frame nm pc w writes l k s)) = 0"
  by (auto simp: tcp_frame_def tcp_closed_def Let_def split: option.splits sum.splits list.splits)

lemma tcp_finished_udp [simp]:
  "ds_udp (fst (tcp_finished nm pc w writes l k s)) = ds_udp s" "replies l' peer (snd (tcp_finished nm pc w writes l k s)) = 0"
  by (auto simp: tcp_finished_def Let_def split: option.splits prod.splits dest!: resolve_miss_effects replies_miss [of _ _ _ _ _ _ _ l' peer])

lemma tcp_cut_udp [simp]:
  "ds_udp (fst (tcp_cut nm pc w l k s)) = ds_udp s" "replies l' peer (snd (tcp_cut nm pc w l k s)) = 0"
proof -
  show "ds_udp (fst (tcp_cut nm pc w l k s)) = ds_udp s" by (simp add: tcp_cut_def)
  have "replies l' peer (take n (fst (snd (resolve_route nm pc w ctx endpoints question)))) = 0" for n ctx endpoints question
  proof -
    obtain fin sent r where m: "resolve_route nm pc w ctx endpoints question = (fin, sent, r)" by (metis prod_cases3)
    show ?thesis unfolding m using replies_miss [OF list_all_take [OF resolve_route_effects [OF m]]] by simp
  qed
  then show "replies l' peer (snd (tcp_cut nm pc w l k s)) = 0" by (simp add: tcp_cut_def split: option.split)
qed

lemma replies_step:
  assumes "event_possible ev s" and "dns_step nm pc w ev s = (s', effs)"
  shows "replies l peer effs + unanswered l peer s' \<le> unanswered l peer s + datagrams l peer [ev]"
proof (cases ev)
  case (UdpReceived l' peer' bs)
  then show ?thesis using assms replies_udp_received [of l' s nm pc w peer' bs s' effs l peer] by (auto simp: datagrams_def split: if_splits)
next
  case (UdpPolled l' k)
  have same: "length (filter (\<lambda>j. jb_peer j = peer) (js[k := (js ! k)\<lparr>jb_endpoints := x\<rparr>])) = length (filter (\<lambda>j. jb_peer j = peer) js)"
    for js :: "'a job list" and x
  proof (induction js arbitrary: k)
    case (Cons j js)
    then show ?case by (cases k) auto
  qed simp
  have "unanswered l peer (udp_polled l' k s) = unanswered l peer s"
  proof (cases "jb_endpoints (ds_udp s ! l' ! k)")
    case None
    then have "ds_udp (udp_polled l' k s) = (ds_udp s)[l' := (ds_udp s ! l')[k := (ds_udp s ! l' ! k)\<lparr>jb_endpoints := Some (qc_endpoints (ds_ctx s))\<rparr>]]"
      by (simp add: udp_polled_def Let_def)
    then show ?thesis using UdpPolled assms(1) unanswered_update [of l' s "udp_polled l' k s" _ l peer] same by (simp add: unanswered_def)
  qed (simp add: udp_polled_def)
  then show ?thesis using UdpPolled assms(2) by auto
next
  case (UdpFinished l' k)
  then show ?thesis using assms replies_udp_finished [of l' s k nm pc w s' effs l peer] by simp
next
  case (ListenerRecovered es)
  then show ?thesis using assms(2) by (auto simp: listener_recovered_def unanswered_def nth_append)
next
  case (TcpFrame writes l' k)
  then have "s' = fst (tcp_frame nm pc w writes l' k s)" "effs = snd (tcp_frame nm pc w writes l' k s)" using assms(2) by simp_all
  then show ?thesis by (simp add: unanswered_def)
next
  case (TcpFinished writes l' k)
  then have "s' = fst (tcp_finished nm pc w writes l' k s)" "effs = snd (tcp_finished nm pc w writes l' k s)" using assms(2) by simp_all
  then show ?thesis by (simp add: unanswered_def)
next
  case (TcpClosed l' k)
  then have "s' = fst (tcp_cut nm pc w l' k s)" "effs = snd (tcp_cut nm pc w l' k s)" using assms(2) by simp_all
  then show ?thesis by (simp add: unanswered_def)
next
  case RefreshFinished
  then show ?thesis using assms(2)
    by (auto simp: refresh_finished_def unanswered_def split: option.splits prod.splits
        dest!: resolve_miss_effects replies_miss [of _ _ _ _ _ _ _ l peer])
qed (use assms in \<open>auto simp: unanswered_def\<close>)

section \<open>Over all runs\<close>

lemma run_ok:
  assumes "dns_run nm pc ctx s trace effs"
  shows "permits_ok s \<and> policy_ok nm ctx s \<and> (\<forall>l peer. replies l peer effs + unanswered l peer s \<le> datagrams l peer (map snd trace))"
  using assms
proof (induction rule: dns_run.induct)
  case (begin_run pairs)
  have "list_all (list_all P) (replicate pairs [])" for P :: "'b \<Rightarrow> bool" by (simp add: list_all_iff)
  then show ?case
    by (auto simp: permits_ok_def policy_ok_def in_flight_def dns_start_def same_policy_def unanswered_def list_all_iff)
next
  case (next_event s trace effs ev w s' new)
  have "permits_ok s'" using dns_permits_step [of s ev nm pc w] next_event by simp
  moreover have "policy_ok nm ctx s'" using policy_step [of nm ctx s ev w pc s' new] next_event by simp
  moreover have "replies l peer (effs @ new) + unanswered l peer s' \<le> datagrams l peer (map snd (trace @ [(w, ev)]))" for l peer
  proof -
    have "datagrams l peer (map snd (trace @ [(w, ev)])) = datagrams l peer (map snd trace) + datagrams l peer [ev]"
      by (simp add: datagrams_def)
    moreover have "replies l peer effs + unanswered l peer s \<le> datagrams l peer (map snd trace)" using next_event.IH by blast
    ultimately show ?thesis using replies_step [OF next_event.hyps(2,4), of l peer] by simp
  qed
  ultimately show ?case by blast
qed

text \<open>
  C3: What leaves the machine.  At every moment of every run, whatever arrives in whatever order, what leaves carries the
  question of the resolution it is sent for, and nothing else: a plain DNS packet is sent only when an override matches
  the name of that question, holds the encoded query for it, and goes to the server of that override or, for the system
  resolver, to a configured one, never to one of the server's own endpoints; a request goes through the tunnel only when
  no override matches that name, holds the encoded query for it, and goes to a configured provider.  A question for a name
  of the local host leaves in neither way, not even when the resolution is cut off; and a UDP reply goes only to a peer
  the access list admits and has at most 512 bytes.
\<close>

theorem questions_leave_only_by_policy:
  assumes "dns_run nm pc ctx s trace effs" and "event_possible ev s" and "wd_localhost w \<noteq> None"
  shows "list_all (effect_ok nm pc w ctx (resolving ev s)) (snd (dns_step nm pc w ev s))"
  using run_ok [OF assms(1)] policy_step [OF _ assms(2,3), of nm ctx pc "fst (dns_step nm pc w ev s)" "snd (dns_step nm pc w ev s)"]
  by simp

text \<open>
  C8: Admission.  In every reachable state the free slots and the resolutions in flight, those of the prefetcher included,
  make up the 64 backend slots, and free and open connections the 64 of TCP; when a background refresh starts, at least one
  slot stays free for clients.
\<close>

theorem slots_are_conserved:
  assumes "dns_run nm pc ctx s trace effs"
  shows "ds_backend s + in_flight s = MAX_DNS_CONCURRENT_QUERIES \<and>
    ds_connections s + weight (\<lambda>_. 1) (ds_tcp s) = MAX_TCP_CONNECTIONS \<and>
    (refresh_started nm w question deadline s = s \<or> 1 \<le> ds_backend (refresh_started nm w question deadline s))"
  using run_ok [OF assms] by (auto simp: permits_ok_def refresh_started_def)

text \<open>
  C32: The server never answers more than it is asked: on every socket the replies sent to a peer, together with the
  resolutions still running for it, are at most the datagrams received from that peer.
\<close>

theorem replies_never_outnumber_datagrams:
  assumes "dns_run nm pc ctx s trace effs"
  shows "replies l peer effs + unanswered l peer s \<le> datagrams l peer (map snd trace)"
  using run_ok [OF assms] by blast

section \<open>A concrete run\<close>

text \<open>One question from a peer, resolved by the server of an override; the codec knows the two packets involved.\<close>

definition lan_codec :: "str packet_codec" where
  "lan_codec =
     \<lparr>pc_from_vec = (\<lambda>bs. if bs = [1] then Inr (query_message 7 sample_query) else if bs = [2] then Inr sample_nodata else Inl ''unknown packet''),
      pc_to_vec = (\<lambda>m. if md_message_type (m_metadata m) = MessageQuery then Inr [1] else Inr [2]),
      pc_truncate = (\<lambda>m. m), pc_eq = (=), pc_decrement_ttl = (\<lambda>ttl s. ttl - min ttl s)\<rparr>"

definition lan_server :: socket_addr where "lan_server = \<lparr>sa_ip = V4 0x0A000001, sa_port = 53, sa_scope = 0\<rparr>"
definition lan_peer :: socket_addr where "lan_peer = \<lparr>sa_ip = V4 0x0A000002, sa_port = 4000, sa_scope = 0\<rparr>"

definition lan_net :: plain_net where
  "lan_net = \<lparr>pn_bind = (\<lambda>_. Inr ()), pn_connect = (\<lambda>_. Inr ()), pn_local = (\<lambda>_. Inr (V4 0x0A000003)), pn_send = (\<lambda>_. Inr ()),
     pn_datagrams = (\<lambda>_. [Inr [2]]), pn_tcp_connect = (\<lambda>_. Inr ()), pn_tcp_write_length = (\<lambda>_. Inr ()),
     pn_tcp_write_body = (\<lambda>_. Inr ()), pn_tcp_input = (\<lambda>_. \<lparr>ci_bytes = [], ci_end = ConnClosed\<rparr>), pn_id = 7, pn_now = 0\<rparr>"

definition lan_world :: "(str, unit, unit) dns_world" where
  "lan_world = \<lparr>wd_localhost = Some ''localhost.'', wd_wall = 0, wd_instant = 5, wd_probe = (\<lambda>_. None), wd_order = (\<lambda>es. es),
     wd_tunnel = (0, False),
     wd_doh = \<lparr>dn_tor = (\<lambda>_ _. Inl []), dn_server_name = (\<lambda>_. Inl []), dn_tls = (\<lambda>_ _. Inl []), dn_write = (\<lambda>_ _. Inl []),
       dn_flush = (\<lambda>_. Inl []), dn_head = (\<lambda>_. HeadPartial), dn_id = (\<lambda>_. 0), dn_took = (\<lambda>_. 0), dn_now = 0\<rparr>,
     wd_plain = lan_net, wd_plain_took = 10, wd_system = Inr [], wd_allowed = 0, wd_cut = 0\<rparr>"

definition lan_ctx :: "str query_ctx" where
  "lan_ctx = \<lparr>qc_cache = [], qc_providers = [], qc_overrides = [\<lparr>ov_pattern = ''*.example.com'', ov_resolver = DnsResolve lan_server\<rparr>],
     qc_endpoints = [\<lparr>sa_ip = V4 0x0A000003, sa_port = 53, sa_scope = 0\<rparr>], qc_statistics = False, qc_client_access = [Any]\<rparr>"

definition lan_events :: "str dns_event list" where
  "lan_events = [UdpReceived 0 lan_peer [1], UdpPolled 0 0]"

definition lan_state :: "str dns_server" where
  "lan_state = fold (\<lambda>ev s. fst (dns_step text_names lan_codec lan_world ev s)) lan_events (dns_start lan_ctx 1)"

fun all_possible :: "('n, 'c, 't) dns_world \<Rightarrow> 'n name_ops \<Rightarrow> 'n packet_codec \<Rightarrow> 'n dns_event list \<Rightarrow> 'n dns_server \<Rightarrow> bool" where
  "all_possible w nm pc [] s = True"
| "all_possible w nm pc (ev # evs) s = (event_possible ev s \<and> all_possible w nm pc evs (fst (dns_step nm pc w ev s)))"

lemma run_events:
  "dns_run nm pc ctx s trace effs \<Longrightarrow> wd_localhost w \<noteq> None \<Longrightarrow> all_possible w nm pc evs s \<Longrightarrow>
   \<exists>new. dns_run nm pc ctx (fold (\<lambda>ev s. fst (dns_step nm pc w ev s)) evs s) (trace @ map (Pair w) evs) (effs @ new)"
proof (induction evs arbitrary: s trace effs)
  case (Cons ev evs)
  have "dns_run nm pc ctx (fst (dns_step nm pc w ev s)) (trace @ [(w, ev)]) (effs @ snd (dns_step nm pc w ev s))"
    using Cons.prems by (intro dns_run.next_event) auto
  from Cons.IH [OF this Cons.prems(2)] Cons.prems(3) show ?case by auto
qed (auto intro: exI [of _ "[]"])

lemma read_labels_code [code]:
  "read_labels f k labels =
     (if k = 0 then if labels \<noteq> [] then None else Some []
      else case labels of
             [] \<Rightarrow> None
           | l # rest \<Rightarrow> (case f l of None \<Rightarrow> None | Some v \<Rightarrow> map_option (Cons v) (read_labels f (k - 1) rest)))"
  by (cases k; cases labels) (auto split: option.splits)

lemma try_servers_code [code]:
  "try_servers nm pc net question listeners allowed servers last_error =
     (case servers of
        [] \<Rightarrow> ([], Inl (case last_error of Some e \<Rightarrow> e | None \<Rightarrow> SystemResolver ''no usable nameservers''))
      | server # rest \<Rightarrow>
          if allowed = 0 then (fst (resolve_via_dns_server nm pc net question server listeners), Inl (dns_server_error.Timeout SYSTEM_RESOLVER_TIMEOUT))
          else (case resolve_via_dns_server nm pc net question server listeners of
            (sent, r) \<Rightarrow>
              let next = (\<lambda>e. case try_servers nm pc net question listeners (allowed - 1) rest (Some e) of
                                (later, r) \<Rightarrow> (sent @ later, r))
              in case r of
                   Inr answer \<Rightarrow>
                     if \<not> temporary_response (ra_message answer) then (sent, Inr answer)
                     else next (SystemResolver ''temporary DNS failure'')
                 | Inl error \<Rightarrow> next error))"
  by (cases servers; cases allowed) (auto split: prod.splits)

lemma matches_mask_code [code]: "matches_mask pattern host = Some (glob (ascii_lowercase pattern) (ascii_lowercase host))"
  by (simp add: matches_mask_def glob_loop_start)

lemma lan_run: "\<exists>effs. dns_run text_names lan_codec lan_ctx lan_state (map (Pair lan_world) lan_events) effs"
proof -
  have "all_possible lan_world text_names lan_codec lan_events (dns_start lan_ctx 1)" by code_simp
  from run_events [OF dns_run.begin_run [of _ _ _ 1] _ this] show ?thesis by (auto simp: lan_state_def lan_world_def)
qed

lemma lan_finish:
  "snd (dns_step text_names lan_codec lan_world (UdpFinished 0 0) lan_state) = [PlainSent (UdpPacket lan_server [1]), SendUdp 0 lan_peer [2]]"
  by code_simp

lemma lan_possible: "event_possible (UdpFinished 0 0) lan_state" "ds_backend lan_state = 63"
  "wd_localhost lan_world \<noteq> None" "jb_question (ds_udp lan_state ! 0 ! 0) = sample_query"
  by code_simp+

theorem questions_leave_only_by_policy_witness:
  "event_possible (UdpFinished 0 0) lan_state \<and>
   snd (dns_step text_names lan_codec lan_world (UdpFinished 0 0) lan_state) = [PlainSent (UdpPacket lan_server [1]), SendUdp 0 lan_peer [2]] \<and>
   resolving (UdpFinished 0 0) lan_state = Some sample_query \<and>
   effect_ok text_names lan_codec lan_world lan_ctx (Some sample_query) (PlainSent (UdpPacket lan_server [1])) \<and>
   effect_ok text_names lan_codec lan_world lan_ctx (Some sample_query) (SendUdp 0 lan_peer [2])"
proof -
  obtain effs where "dns_run text_names lan_codec lan_ctx lan_state (map (Pair lan_world) lan_events) effs" using lan_run by blast
  from questions_leave_only_by_policy [OF this lan_possible(1,3)] show ?thesis using lan_possible(1,4)
    unfolding lan_finish by (simp del: dns_step.simps event_possible.simps)
qed

theorem slots_are_conserved_witness:
  "ds_backend lan_state = 63 \<and> in_flight lan_state = 1"
proof -
  obtain effs where "dns_run text_names lan_codec lan_ctx lan_state (map (Pair lan_world) lan_events) effs" using lan_run by blast
  from slots_are_conserved [OF this, of lan_world sample_query 0] show ?thesis using lan_possible(2) by (simp add: MAX_DNS_CONCURRENT_QUERIES_def)
qed

theorem replies_never_outnumber_datagrams_witness:
  "\<exists>effs. dns_run text_names lan_codec lan_ctx lan_state (map (Pair lan_world) lan_events) effs \<and>
     replies 0 lan_peer effs + unanswered 0 lan_peer lan_state \<le> 1"
proof -
  obtain effs where r: "dns_run text_names lan_codec lan_ctx lan_state (map (Pair lan_world) lan_events) effs" using lan_run by blast
  have "datagrams 0 lan_peer (map snd (map (Pair lan_world) lan_events)) = 1" by (simp add: datagrams_def lan_events_def)
  with replies_never_outnumber_datagrams [OF r, of 0 lan_peer] r show ?thesis by metis
qed

end
