(* ===== verification/DnsLifecycle.thy ===== *)
theory DnsLifecycle
  imports DnsOverrides
begin

text \<open>
  The life of the DNS server (packages/dns-server: \<open>server/server.rs\<close>): binding the listener pairs, retrying the ones
  that were skipped, and the order of its shutdown, which stops networking, joins the prefetcher, drains the
  statistics and saves the cache last.

  The operating system's answers to binding are parameters, indexed by the attempt.
\<close>

section \<open>Binding a pair\<close>

datatype io_kind = AddrInUse | PermissionDenied | AddrNotAvailable | OtherIo

record io_error =
  ie_kind :: io_kind
  ie_text :: str

datatype bind_error =
  UdpBindFailed io_error str
| TcpBindFailed io_error socket_addr
| SocketQueryFailed io_error

definition EPHEMERAL_BIND_ATTEMPTS :: nat where "EPHEMERAL_BIND_ATTEMPTS = 32"
definition DYNAMIC_PORT_START :: u16 where "DYNAMIC_PORT_START = 49152"
definition DYNAMIC_PORT_COUNT :: nat where "DYNAMIC_PORT_COUNT = 16384"

definition port_collision :: "io_error \<Rightarrow> bool" where
  "port_collision e \<longleftrightarrow> ie_kind e \<in> {AddrInUse, PermissionDenied}"

definition dynamic_port :: "u64 \<Rightarrow> u16" where
  "dynamic_port random = DYNAMIC_PORT_START + of_nat (unat random mod DYNAMIC_PORT_COUNT)"

text \<open>
  What happens in an attempt: the UDP bind of a text, the address a bound socket reports, the TCP bind of an
  address, and the random number drawn before the next attempt.
\<close>

record bind_env =
  be_udp :: "nat \<Rightarrow> str \<Rightarrow> (io_error, unit) result"
  be_local :: "nat \<Rightarrow> str \<Rightarrow> (io_error, socket_addr) result"
  be_tcp :: "nat \<Rightarrow> socket_addr \<Rightarrow> (io_error, socket_addr) result"
  be_random :: "nat \<Rightarrow> u64"

definition random_target :: "bind_env \<Rightarrow> socket_addr option \<Rightarrow> nat \<Rightarrow> str \<Rightarrow> str" where
  "random_target env requested attempt target =
     (case requested of
        Some r \<Rightarrow> show_socket \<lparr>sa_ip = sa_ip r, sa_port = dynamic_port (be_random env attempt), sa_scope = 0\<rparr>
      | None \<Rightarrow> target)"

text \<open>
  The loop over the attempts, \<open>left\<close> of which follow the current one; \<open>None\<close> is the statement after the loop that is
  declared unreachable.  A pair is the address of the UDP socket and the one of the TCP listener.
\<close>

fun bind_loop ::
  "bind_env \<Rightarrow> socket_addr option \<Rightarrow> bool \<Rightarrow> nat \<Rightarrow> str \<Rightarrow> (bind_error, socket_addr \<times> socket_addr) result option" where
  "bind_loop env requested ephemeral 0 target = None"
| "bind_loop env requested ephemeral (Suc left) target =
     (let attempt = EPHEMERAL_BIND_ATTEMPTS - left;
          retry = (ephemeral \<and> attempt < EPHEMERAL_BIND_ATTEMPTS)
      in case be_udp env attempt target of
           Inl e \<Rightarrow>
             if retry \<and> port_collision e
             then bind_loop env requested ephemeral left (random_target env requested attempt target)
             else Some (Inl (UdpBindFailed e target))
         | Inr _ \<Rightarrow>
             (case be_local env attempt target of
                Inl e \<Rightarrow> Some (Inl (SocketQueryFailed e))
              | Inr bound \<Rightarrow>
                  (case be_tcp env attempt bound of
                     Inr tcp \<Rightarrow> Some (Inr (bound, tcp))
                   | Inl e \<Rightarrow>
                       if retry \<and> port_collision e
                       then bind_loop env requested ephemeral left (random_target env requested attempt target)
                       else Some (Inl (TcpBindFailed e bound)))))"

definition is_ephemeral :: "str \<Rightarrow> bool" where
  "is_ephemeral addr \<longleftrightarrow> (case socket_from_str addr of Some a \<Rightarrow> sa_port a = 0 | None \<Rightarrow> False)"

definition bind_pair_with :: "bind_env \<Rightarrow> str \<Rightarrow> (bind_error, socket_addr \<times> socket_addr) result option" where
  "bind_pair_with env addr = bind_loop env (socket_from_str addr) (is_ephemeral addr) EPHEMERAL_BIND_ATTEMPTS addr"

section \<open>Binding all listeners\<close>

text \<open>Only an unavailable address is skipped, and only one that is not there yet is tried again later.\<close>

fun skipped_bind_reason :: "bind_error \<Rightarrow> (str \<times> io_error) option" where
  "skipped_bind_reason (UdpBindFailed e _) =
     (if ie_kind e \<in> {AddrInUse, PermissionDenied, AddrNotAvailable} then Some (''UDP'', e) else None)"
| "skipped_bind_reason (TcpBindFailed e _) =
     (if ie_kind e \<in> {AddrInUse, PermissionDenied, AddrNotAvailable} then Some (''TCP'', e) else None)"
| "skipped_bind_reason (SocketQueryFailed e) = None"

text \<open>
  The addresses a pair listens on: an unspecified IPv6 socket that is not restricted to IPv6 also covers IPv4.
  \<open>only_v6\<close> is the socket option.
\<close>

definition listener_endpoint :: "(socket_addr \<Rightarrow> (io_error, bool) result) \<Rightarrow> socket_addr \<Rightarrow> (bind_error, socket_addr list) result" where
  "listener_endpoint only_v6 bound =
     (if is_ipv4 (sa_ip bound) then Inr [bound]
      else case only_v6 bound of
             Inl e \<Rightarrow> Inl (SocketQueryFailed e)
           | Inr only \<Rightarrow>
               Inr (if is_unspecified (sa_ip bound) \<and> \<not> only
                    then [bound, \<lparr>sa_ip = V4 0, sa_port = sa_port bound, sa_scope = 0\<rparr>] else [bound]))"

definition listener_endpoints ::
  "(socket_addr \<Rightarrow> (io_error, bool) result) \<Rightarrow> socket_addr \<times> socket_addr \<Rightarrow> (bind_error, socket_addr list) result" where
  "listener_endpoints only_v6 pair =
     and_then (listener_endpoint only_v6 (fst pair)) (\<lambda>udp.
     and_then (listener_endpoint only_v6 (snd pair)) (\<lambda>tcp. Inr (udp @ tcp)))"

record bound_listeners =
  bl_pairs :: "(socket_addr \<times> socket_addr) list"
  bl_endpoints :: "socket_addr list"
  bl_retry :: "str list"
  bl_skipped :: nat

datatype listen_error = NoListenAddresses | BindFailed bind_error | NoPairBound nat | Unreachable

fun bind_each ::
  "(str \<Rightarrow> (bind_error, socket_addr \<times> socket_addr) result option) \<Rightarrow> (socket_addr \<Rightarrow> (io_error, bool) result) \<Rightarrow> str list
   \<Rightarrow> bound_listeners \<Rightarrow> (listen_error, bound_listeners) result" where
  "bind_each bind_addr only_v6 [] acc = Inr acc"
| "bind_each bind_addr only_v6 (addr # listen) acc =
     (case bind_addr addr of
        None \<Rightarrow> Inl Unreachable
      | Some (Inr pair) \<Rightarrow>
          (case listener_endpoints only_v6 pair of
             Inl e \<Rightarrow> Inl (BindFailed e)
           | Inr endpoints \<Rightarrow>
               bind_each bind_addr only_v6 listen
                 (acc\<lparr>bl_pairs := bl_pairs acc @ [pair], bl_endpoints := bl_endpoints acc @ endpoints\<rparr>))
      | Some (Inl error) \<Rightarrow>
          (case skipped_bind_reason error of
             None \<Rightarrow> Inl (BindFailed error)
           | Some (_, reason) \<Rightarrow>
               bind_each bind_addr only_v6 listen
                 (acc\<lparr>bl_skipped := bl_skipped acc + 1,
                      bl_retry := (if ie_kind reason = AddrNotAvailable then bl_retry acc @ [addr] else bl_retry acc)\<rparr>)))"

definition bind_listeners ::
  "(str \<Rightarrow> (bind_error, socket_addr \<times> socket_addr) result option) \<Rightarrow> (socket_addr \<Rightarrow> (io_error, bool) result) \<Rightarrow> str list
   \<Rightarrow> (listen_error, bound_listeners) result" where
  "bind_listeners bind_addr only_v6 listen =
     (if listen = [] then Inl NoListenAddresses
      else and_then (bind_each bind_addr only_v6 listen \<lparr>bl_pairs = [], bl_endpoints = [], bl_retry = [], bl_skipped = 0\<rparr>) (\<lambda>b.
        if bl_pairs b = [] then Inl (NoPairBound (bl_skipped b)) else Inr b))"

text \<open>
  \<open>retry_listener_pair_with\<close>: a delay before every attempt, until one succeeds; \<open>outcomes\<close> are those of the attempts,
  and the result tells how many delays went by.
\<close>

fun retry_listener_pair :: "('e, 'a) result list \<Rightarrow> (nat \<times> 'a) option" where
  "retry_listener_pair [] = None"
| "retry_listener_pair (Inr v # outcomes) = Some (1, v)"
| "retry_listener_pair (Inl e # outcomes) = map_option (\<lambda>(n, v). (n + 1, v)) (retry_listener_pair outcomes)"

section \<open>Binding, proved\<close>

lemma bind_loop_reaches: "bind_loop env requested ephemeral (Suc left) target \<noteq> None"
proof (induction left arbitrary: target)
  case 0
  then show ?case by (auto simp: EPHEMERAL_BIND_ATTEMPTS_def split: sum.splits)
next
  case (Suc left)
  show ?case using Suc [of "random_target env requested (EPHEMERAL_BIND_ATTEMPTS - Suc left) target"]
    by (subst bind_loop.simps(2)) (auto simp del: bind_loop.simps split: sum.splits simp: Let_def)
qed

text \<open>A target of some attempt: the configured text first, afterwards a port of the dynamic range at the same address.\<close>

definition attempted :: "bind_env \<Rightarrow> socket_addr option \<Rightarrow> bool \<Rightarrow> str \<Rightarrow> nat \<Rightarrow> str \<Rightarrow> bool" where
  "attempted env requested ephemeral target a t \<longleftrightarrow>
     t = target \<or> (ephemeral \<and> (\<exists>b < a. \<exists>u. t = random_target env requested b u))"

lemma bind_loop_Inr:
  assumes "bind_loop env requested ephemeral left target = Some (Inr (udp, tcp))" and "left \<le> EPHEMERAL_BIND_ATTEMPTS"
  shows "\<exists>a t. EPHEMERAL_BIND_ATTEMPTS < a + left \<and> a \<le> EPHEMERAL_BIND_ATTEMPTS \<and> be_udp env a t = Inr () \<and>
    be_local env a t = Inr udp \<and> be_tcp env a udp = Inr tcp \<and> attempted env requested ephemeral target a t"
  using assms
proof (induction left arbitrary: target)
  case (Suc left)
  let ?a = "EPHEMERAL_BIND_ATTEMPTS - left"
  let ?t = "random_target env requested ?a target"
  consider (now) "be_udp env ?a target = Inr ()" "be_local env ?a target = Inr udp" "be_tcp env ?a udp = Inr tcp"
    | (later) "ephemeral" "bind_loop env requested ephemeral left ?t = Some (Inr (udp, tcp))"
    using Suc.prems(1) by (auto simp: Let_def split: sum.splits if_splits)
  then show ?case
  proof cases
    case now
    then show ?thesis using Suc.prems(2) by (intro exI [of _ ?a] exI [of _ target]) (auto simp: attempted_def)
  next
    case later
    from Suc.IH [OF later(2)] Suc.prems(2) obtain a t where at: "EPHEMERAL_BIND_ATTEMPTS < a + left" "a \<le> EPHEMERAL_BIND_ATTEMPTS"
      "be_udp env a t = Inr ()" "be_local env a t = Inr udp" "be_tcp env a udp = Inr tcp" "attempted env requested ephemeral ?t a t" by auto
    have "?a < a" using at(1) Suc.prems(2) by linarith
    then have "attempted env requested ephemeral target a t" using at(6) later(1) by (auto simp: attempted_def)
    then show ?thesis using at by (intro exI [of _ a] exI [of _ t]) auto
  qed
qed simp

lemma dynamic_port_range: "49152 \<le> dynamic_port r"
proof -
  have "unat (of_nat (unat r mod 16384) :: u16) < 16384"
    by (simp add: unat_of_nat)
  then show ?thesis unfolding dynamic_port_def DYNAMIC_PORT_START_def DYNAMIC_PORT_COUNT_def
    by (simp add: word_le_nat_alt unat_word_ariths)
qed

text \<open>
  Binding a pair always comes to an end with a result, after at most 32 attempts, and never reaches the statement
  after the loop.  When it succeeds, the TCP listener was bound to the very address the UDP socket reported in the
  same attempt; a fixed port is tried as it is configured and no other, and only for port zero another port, of the
  dynamic range at the same address, is taken.
\<close>

theorem bind_pair_binds_both_halves:
  "case bind_pair_with env addr of
     None \<Rightarrow> False
   | Some (Inl e) \<Rightarrow> True
   | Some (Inr (udp, tcp)) \<Rightarrow>
       \<exists>attempt target. 0 < attempt \<and> attempt \<le> EPHEMERAL_BIND_ATTEMPTS \<and> be_udp env attempt target = Inr () \<and>
         be_local env attempt target = Inr udp \<and> be_tcp env attempt udp = Inr tcp \<and>
         (target = addr \<or>
          (\<exists>requested port. socket_from_str addr = Some requested \<and> sa_port requested = 0 \<and> 49152 \<le> port \<and>
             target = show_socket \<lparr>sa_ip = sa_ip requested, sa_port = port, sa_scope = 0\<rparr>))"
proof -
  obtain r where r: "bind_pair_with env addr = Some r"
    using bind_loop_reaches [of env "socket_from_str addr" "is_ephemeral addr" 31 addr]
    by (auto simp: bind_pair_with_def EPHEMERAL_BIND_ATTEMPTS_def numeral_eq_Suc simp del: bind_loop.simps)
  show ?thesis
  proof (cases r)
    case (Inl e)
    then show ?thesis using r by simp
  next
    case (Inr pair)
    obtain udp tcp where pair: "pair = (udp, tcp)" by (cases pair)
    from bind_loop_Inr [of env "socket_from_str addr" "is_ephemeral addr" EPHEMERAL_BIND_ATTEMPTS addr udp tcp] r Inr pair
    obtain a t where at: "0 < a" "a \<le> EPHEMERAL_BIND_ATTEMPTS" "be_udp env a t = Inr ()" "be_local env a t = Inr udp"
      "be_tcp env a udp = Inr tcp" "attempted env (socket_from_str addr) (is_ephemeral addr) addr a t"
      by (auto simp: bind_pair_with_def)
    have "\<exists>requested port. socket_from_str addr = Some requested \<and> sa_port requested = 0 \<and> 49152 \<le> port \<and>
        t = show_socket \<lparr>sa_ip = sa_ip requested, sa_port = port, sa_scope = 0\<rparr>" if "t \<noteq> addr"
    proof -
      from at(6) that obtain b u where e: "is_ephemeral addr" "t = random_target env (socket_from_str addr) b u"
        by (auto simp: attempted_def)
      then obtain requested where "socket_from_str addr = Some requested" "sa_port requested = 0"
        by (auto simp: is_ephemeral_def split: option.splits)
      then show ?thesis using e(2) dynamic_port_range [of "be_random env b"] by (auto simp: random_target_def)
    qed
    then show ?thesis unfolding r Inr pair option.case sum.case prod.case using at by blast
  qed
qed

definition published :: "bound_listeners \<Rightarrow> bool" where
  "published b \<longleftrightarrow> list_all (\<lambda>(u, t). u \<in> set (bl_endpoints b) \<and> t \<in> set (bl_endpoints b)) (bl_pairs b)"

lemma bind_each_Inr:
  assumes "bind_each bind_addr only_v6 listen acc = Inr b" and "published acc"
  shows "length (bl_pairs b) + bl_skipped b = length (bl_pairs acc) + bl_skipped acc + length listen \<and>
    set (bl_retry b) \<subseteq> set (bl_retry acc) \<union> set listen \<and> published b"
  using assms
proof (induction listen arbitrary: acc)
  case (Cons addr listen)
  then obtain r where r: "bind_addr addr = Some r" by (cases "bind_addr addr") auto
  show ?case
  proof (cases r)
    case (Inl e)
    then obtain p reason where sk: "skipped_bind_reason e = Some (p, reason)" using Cons.prems r by (auto split: option.splits)
    let ?acc = "acc\<lparr>bl_skipped := bl_skipped acc + 1,
        bl_retry := (if ie_kind reason = AddrNotAvailable then bl_retry acc @ [addr] else bl_retry acc)\<rparr>"
    have "bind_each bind_addr only_v6 listen ?acc = Inr b" "published ?acc"
      using Cons.prems r Inl sk by (simp_all add: published_def)
    from Cons.IH [OF this] show ?thesis by (auto split: if_splits)
  next
    case (Inr pair)
    then obtain es where es: "listener_endpoints only_v6 pair = Inr es" using Cons.prems r by (auto split: sum.splits)
    have sub: "fst pair \<in> set es" "snd pair \<in> set es"
      using es by (auto simp: listener_endpoints_def listener_endpoint_def split: if_splits sum.splits)
    let ?acc = "acc\<lparr>bl_pairs := bl_pairs acc @ [pair], bl_endpoints := bl_endpoints acc @ es\<rparr>"
    have "bind_each bind_addr only_v6 listen ?acc = Inr b" "published ?acc"
      using Cons.prems r Inr es sub by (auto simp: published_def list_all_iff)
    from Cons.IH [OF this] show ?thesis by auto
  qed
qed simp

text \<open>Every configured address is bound, skipped or the reason the start fails; a pair's addresses are published.\<close>

lemma listeners_are_accounted_for:
  assumes "bind_listeners bind_addr only_v6 listen = Inr b"
  shows "bl_pairs b \<noteq> [] \<and> length (bl_pairs b) + bl_skipped b = length listen \<and> set (bl_retry b) \<subseteq> set listen \<and> published b"
  using assms bind_each_Inr [of bind_addr only_v6 listen "\<lparr>bl_pairs = [], bl_endpoints = [], bl_retry = [], bl_skipped = 0\<rparr>" b]
  by (auto simp: bind_listeners_def published_def split: if_splits)

section \<open>Serving and shutting down\<close>

text \<open>
  \<open>serve_owned_lifecycle\<close> inside \<open>serve_with_saves\<close>.  The inner future ends by stopping networking, cancelling and
  joining the prefetcher and draining the statistics; as long as it has not ended, the outer loop goes on saving
  the cache every five minutes, one save at a time.  Afterwards the running save is awaited and a last one made.
\<close>

datatype phase = Serving | JoiningScheduler | DrainingStatistics | AwaitingSave | FinalSaving | Finished

record lifecycle =
  lf_phase :: phase
  lf_scheduler_done :: bool
  lf_saving :: bool

datatype life_event = ShutdownRequested | NetworkingEnded | SchedulerEnded | DrainEnded | SaveTick | SaveEnded

datatype life_effect = NetworkingDropped | PrefetchCancelled | DrainStarted | SaveStarted | Returned

text \<open>The periodic saves of the outer loop.\<close>

definition save_event :: "life_event \<Rightarrow> lifecycle \<Rightarrow> (lifecycle \<times> life_effect list) option" where
  "save_event ev s =
     (case ev of
        SaveTick \<Rightarrow> Some (if lf_saving s then (s, []) else (s\<lparr>lf_saving := True\<rparr>, [SaveStarted]))
      | SaveEnded \<Rightarrow> if lf_saving s then Some (s\<lparr>lf_saving := False\<rparr>, []) else None
      | _ \<Rightarrow> None)"

definition life_step :: "life_event \<Rightarrow> lifecycle \<Rightarrow> (lifecycle \<times> life_effect list) option" where
  "life_step ev s =
     (case lf_phase s of
        Serving \<Rightarrow>
          if ev = ShutdownRequested \<or> ev = NetworkingEnded then
            (if lf_scheduler_done s
             then Some (s\<lparr>lf_phase := DrainingStatistics\<rparr>, [NetworkingDropped, PrefetchCancelled, DrainStarted])
             else Some (s\<lparr>lf_phase := JoiningScheduler\<rparr>, [NetworkingDropped, PrefetchCancelled]))
          else if ev = SchedulerEnded then (if lf_scheduler_done s then None else Some (s\<lparr>lf_scheduler_done := True\<rparr>, []))
          else save_event ev s
      | JoiningScheduler \<Rightarrow>
          if ev = SchedulerEnded then Some (s\<lparr>lf_phase := DrainingStatistics, lf_scheduler_done := True\<rparr>, [DrainStarted])
          else save_event ev s
      | DrainingStatistics \<Rightarrow>
          if ev = DrainEnded then
            (if lf_saving s then Some (s\<lparr>lf_phase := AwaitingSave\<rparr>, [])
             else Some (s\<lparr>lf_phase := FinalSaving, lf_saving := True\<rparr>, [SaveStarted]))
          else save_event ev s
      | AwaitingSave \<Rightarrow>
          if ev = SaveEnded then Some (s\<lparr>lf_phase := FinalSaving\<rparr>, [SaveStarted]) else None
      | FinalSaving \<Rightarrow>
          if ev = SaveEnded then Some (s\<lparr>lf_phase := Finished, lf_saving := False\<rparr>, [Returned]) else None
      | Finished \<Rightarrow> None)"

text \<open>\<open>worker\<close> tells whether the statistics could be opened; without them there is no scheduler to join.\<close>

definition life_start :: "bool \<Rightarrow> lifecycle" where
  "life_start worker = \<lparr>lf_phase = Serving, lf_scheduler_done = (\<not> worker), lf_saving = False\<rparr>"

text \<open>
  The log of a life holds what happened around the server, such as the end of the scheduler, of the drain and of a
  save, and what the server did in response.
\<close>

datatype mark = Happened life_event | Did life_effect

definition marks :: "life_event \<Rightarrow> life_effect list \<Rightarrow> mark list" where
  "marks ev new = Happened ev # map Did new"

inductive lives :: "bool \<Rightarrow> lifecycle \<Rightarrow> mark list \<Rightarrow> bool" for worker where
  begin_life: "lives worker (life_start worker) []"
| next_life: "lives worker s log \<Longrightarrow> life_step ev s = Some (s', new) \<Longrightarrow> lives worker s' (log @ marks ev new)"

text \<open>
  Saves in a log, read as an automaton: whether one is running afterwards, or \<open>None\<close> if two overlap, one ends that
  was not started, or the server does something else than saving.
\<close>

fun saves :: "bool \<Rightarrow> mark list \<Rightarrow> bool option" where
  "saves running [] = Some running"
| "saves running (Did e # log) = (if e = SaveStarted \<and> \<not> running then saves True log else None)"
| "saves running (Happened ev # log) =
     (if ev = SaveEnded then (if running then saves False log else None) else saves running log)"

lemma saves_append: "saves r (a @ b) = (case saves r a of None \<Rightarrow> None | Some r' \<Rightarrow> saves r' b)"
  by (induction r a rule: saves.induct) auto

text \<open>
  The shape of the log in each phase: \<open>stopping\<close> up to the end of networking, \<open>draining\<close> up to the start of the drain,
  \<open>drained\<close> up to its end.
\<close>

definition stopping :: "mark list \<Rightarrow> mark list \<Rightarrow> mark list \<Rightarrow> bool" where
  "stopping log a b \<longleftrightarrow> log = a @ [Did NetworkingDropped, Did PrefetchCancelled] @ b \<and>
     a \<noteq> [] \<and> last a \<in> {Happened ShutdownRequested, Happened NetworkingEnded}"

definition draining :: "bool \<Rightarrow> mark list \<Rightarrow> mark list \<Rightarrow> mark list \<Rightarrow> mark list \<Rightarrow> bool" where
  "draining worker log a b c \<longleftrightarrow>
     stopping log a (b @ [Did DrainStarted] @ c) \<and> (worker \<longrightarrow> Happened SchedulerEnded \<in> set (a @ b))"

definition drained :: "bool \<Rightarrow> mark list \<Rightarrow> mark list \<Rightarrow> mark list \<Rightarrow> mark list \<Rightarrow> mark list \<Rightarrow> bool" where
  "drained worker log a b c d \<longleftrightarrow> draining worker log a b (c @ [Happened DrainEnded] @ d)"

definition log_ok :: "bool \<Rightarrow> lifecycle \<Rightarrow> mark list \<Rightarrow> bool" where
  "log_ok worker s log \<longleftrightarrow>
     (case lf_phase s of
        Serving \<Rightarrow> saves False log = Some (lf_saving s) \<and>
          (worker \<and> lf_scheduler_done s \<longrightarrow> Happened SchedulerEnded \<in> set log)
      | JoiningScheduler \<Rightarrow> \<exists>a b. stopping log a b \<and> saves False (a @ b) = Some (lf_saving s)
      | DrainingStatistics \<Rightarrow> \<exists>a b c. draining worker log a b c \<and> saves False (a @ b @ c) = Some (lf_saving s)
      | AwaitingSave \<Rightarrow> \<exists>a b c d. drained worker log a b c d \<and> saves False (a @ b @ c @ d) = Some True \<and> lf_saving s
      | FinalSaving \<Rightarrow> \<exists>a b c d. drained worker log a b c (d @ [Did SaveStarted]) \<and> saves False (a @ b @ c @ d) = Some False
      | Finished \<Rightarrow> \<exists>a b c d. drained worker log a b c (d @ [Did SaveStarted, Happened SaveEnded, Did Returned]) \<and>
          saves False (a @ b @ c @ d) = Some False)"

lemma log_okI:
  "lf_phase s = JoiningScheduler \<Longrightarrow> stopping log a b \<and> saves False (a @ b) = Some (lf_saving s) \<Longrightarrow> log_ok worker s log"
  "lf_phase s = DrainingStatistics \<Longrightarrow> draining worker log a b c \<and> saves False (a @ b @ c) = Some (lf_saving s) \<Longrightarrow> log_ok worker s log"
  "lf_phase s = AwaitingSave \<Longrightarrow> drained worker log a b c d \<and> saves False (a @ b @ c @ d) = Some True \<and> lf_saving s \<Longrightarrow> log_ok worker s log"
  "lf_phase s = FinalSaving \<Longrightarrow> drained worker log a b c (d @ [Did SaveStarted]) \<and> saves False (a @ b @ c @ d) = Some False \<Longrightarrow> log_ok worker s log"
  "lf_phase s = Finished \<Longrightarrow> drained worker log a b c (d @ [Did SaveStarted, Happened SaveEnded, Did Returned]) \<and>
     saves False (a @ b @ c @ d) = Some False \<Longrightarrow> log_ok worker s log"
  unfolding log_ok_def by (simp; blast)+

text \<open>More marks at the end of the log.\<close>

lemma log_extend:
  "stopping log a b \<Longrightarrow> stopping (log @ new) a (b @ new)"
  "draining worker log a b c \<Longrightarrow> draining worker (log @ new) a b (c @ new)"
  "drained worker log a b c d \<Longrightarrow> drained worker (log @ new) a b c (d @ new)"
  by (auto simp: drained_def draining_def stopping_def)

lemma save_event_saves:
  assumes "save_event ev s = Some (s', new)"
  shows "lf_phase s' = lf_phase s \<and> lf_scheduler_done s' = lf_scheduler_done s \<and>
    saves (lf_saving s) (marks ev new) = Some (lf_saving s')"
  using assms by (cases ev) (auto simp: save_event_def marks_def split: if_splits)

lemma log_save:
  assumes "log_ok worker s log" and "save_event ev s = Some (s', new)" and "lf_phase s \<in> {Serving, JoiningScheduler, DrainingStatistics}"
  shows "log_ok worker s' (log @ marks ev new)"
proof -
  note e = save_event_saves [OF assms(2)]
  have ext: "saves False (x @ marks ev new) = Some (lf_saving s')" if "saves False x = Some (lf_saving s)" for x
    using that e by (simp add: saves_append)
  from assms(3) consider (a) "lf_phase s = Serving" | (b) "lf_phase s = JoiningScheduler" | (c) "lf_phase s = DrainingStatistics" by blast
  then show ?thesis
  proof cases
    case a
    then show ?thesis using assms(1) e ext by (auto simp: log_ok_def)
  next
    case b
    then obtain x y where "stopping log x y" "saves False (x @ y) = Some (lf_saving s)" using assms(1) by (auto simp: log_ok_def)
    then have "stopping (log @ marks ev new) x (y @ marks ev new) \<and> saves False (x @ (y @ marks ev new)) = Some (lf_saving s')"
      using log_extend(1) ext [of "x @ y"] by simp
    then show ?thesis using b e by (intro log_okI(1) [where a = x and b = "y @ marks ev new"]) auto
  next
    case c
    then obtain x y z where "draining worker log x y z" "saves False (x @ y @ z) = Some (lf_saving s)"
      using assms(1) by (auto simp: log_ok_def)
    then have "draining worker (log @ marks ev new) x y (z @ marks ev new) \<and> saves False (x @ y @ (z @ marks ev new)) = Some (lf_saving s')"
      using log_extend(2) ext [of "x @ y @ z"] by simp
    then show ?thesis using c e by (intro log_okI(2) [where a = x and b = y and c = "z @ marks ev new"]) auto
  qed
qed

lemma log_serving:
  assumes "log_ok worker s log" and "lf_phase s = Serving" and "life_step ev s = Some (s', new)" and "save_event ev s \<noteq> Some (s', new)"
  shows "log_ok worker s' (log @ marks ev new)"
proof -
  have l: "saves False log = Some (lf_saving s)" "worker \<and> lf_scheduler_done s \<Longrightarrow> Happened SchedulerEnded \<in> set log"
    using assms(1,2) by (auto simp: log_ok_def)
  have quiet: "saves False (log @ [Happened ev]) = Some (lf_saving s)" if "ev \<noteq> SaveEnded"
    using l(1) that by (simp add: saves_append)
  consider (join) "ev = ShutdownRequested \<or> ev = NetworkingEnded" "s' = s\<lparr>lf_phase := JoiningScheduler\<rparr>" "new = [NetworkingDropped, PrefetchCancelled]"
    | (drain) "ev = ShutdownRequested \<or> ev = NetworkingEnded" "lf_scheduler_done s" "s' = s\<lparr>lf_phase := DrainingStatistics\<rparr>"
        "new = [NetworkingDropped, PrefetchCancelled, DrainStarted]"
    | (sched) "ev = SchedulerEnded" "s' = s\<lparr>lf_scheduler_done := True\<rparr>" "new = []"
    using assms(2-4) by (auto simp: life_step_def split: if_splits)
  then show ?thesis
  proof cases
    case join
    then have "stopping (log @ marks ev new) (log @ [Happened ev]) [] \<and> saves False ((log @ [Happened ev]) @ []) = Some (lf_saving s)"
      using quiet by (auto simp: stopping_def marks_def)
    then show ?thesis using join(2) by (intro log_okI(1) [where a = "log @ [Happened ev]" and b = "[]"]) simp_all
  next
    case drain
    then have "draining worker (log @ marks ev new) (log @ [Happened ev]) [] [] \<and> saves False ((log @ [Happened ev]) @ [] @ []) = Some (lf_saving s)"
      using quiet l(2) by (auto simp: draining_def stopping_def marks_def)
    then show ?thesis using drain(3) by (intro log_okI(2) [where a = "log @ [Happened ev]" and b = "[]" and c = "[]"]) simp_all
  next
    case sched
    then show ?thesis using quiet assms(2) by (auto simp: log_ok_def marks_def)
  qed
qed

lemma log_stopped:
  assumes "log_ok worker s log" and "lf_phase s = JoiningScheduler" and "life_step ev s = Some (s', new)" and "save_event ev s \<noteq> Some (s', new)"
  shows "log_ok worker s' (log @ marks ev new)"
proof -
  obtain a b where l: "stopping log a b" "saves False (a @ b) = Some (lf_saving s)" using assms(1,2) by (auto simp: log_ok_def)
  have e: "ev = SchedulerEnded" "s' = s\<lparr>lf_phase := DrainingStatistics, lf_scheduler_done := True\<rparr>" "new = [DrainStarted]"
    using assms(2-4) by (auto simp: life_step_def split: if_splits)
  have "draining worker (log @ marks ev new) a (b @ [Happened SchedulerEnded]) [] \<and>
      saves False (a @ (b @ [Happened SchedulerEnded]) @ []) = Some (lf_saving s)"
    using l saves_append [of False "a @ b" "[Happened SchedulerEnded]"] e by (auto simp: draining_def stopping_def marks_def)
  then show ?thesis using e(2) by (intro log_okI(2) [where a = a and b = "b @ [Happened SchedulerEnded]" and c = "[]"]) simp_all
qed

lemma log_drained:
  assumes "log_ok worker s log" and "lf_phase s = DrainingStatistics" and "life_step ev s = Some (s', new)" and "save_event ev s \<noteq> Some (s', new)"
  shows "log_ok worker s' (log @ marks ev new)"
proof -
  obtain a b c where l: "draining worker log a b c" "saves False (a @ b @ c) = Some (lf_saving s)" using assms(1,2) by (auto simp: log_ok_def)
  have ev: "ev = DrainEnded" using assms(2-4) by (auto simp: life_step_def split: if_splits)
  have d: "drained worker (log @ marks ev new) a b c (map Did new)"
    using log_extend(2) [OF l(1), of "marks ev new"] ev by (simp add: drained_def marks_def)
  show ?thesis
  proof (cases "lf_saving s")
    case True
    then have s': "s' = s\<lparr>lf_phase := AwaitingSave\<rparr>" "new = []" using assms(2-4) ev by (simp_all add: life_step_def)
    have "drained worker (log @ marks ev new) a b c [] \<and> saves False (a @ b @ c @ []) = Some True \<and> lf_saving s" using d l(2) True s' by simp
    then show ?thesis unfolding s'(1) by (intro log_okI(3) [where a = a and b = b and c = c and d = "[]"]) simp_all
  next
    case False
    then have s': "s' = s\<lparr>lf_phase := FinalSaving, lf_saving := True\<rparr>" "new = [SaveStarted]" using assms(2-4) ev by (simp_all add: life_step_def)
    have "drained worker (log @ marks ev new) a b c ([] @ [Did SaveStarted]) \<and> saves False (a @ b @ c @ []) = Some False" using d l(2) False s' by simp
    then show ?thesis unfolding s'(1) by (intro log_okI(4) [where a = a and b = b and c = c and d = "[]"]) simp_all
  qed
qed

lemma log_last_saves:
  assumes "log_ok worker s log" and "lf_phase s = AwaitingSave \<or> lf_phase s = FinalSaving" and "life_step ev s = Some (s', new)"
  shows "log_ok worker s' (log @ marks ev new)"
proof (cases "lf_phase s = AwaitingSave")
  case True
  then obtain a b c d where l: "drained worker log a b c d" "saves False (a @ b @ c @ d) = Some True" using assms(1) by (auto simp: log_ok_def)
  have e: "ev = SaveEnded" "s' = s\<lparr>lf_phase := FinalSaving\<rparr>" "new = [SaveStarted]"
    using assms(3) True by (auto simp: life_step_def split: if_splits)
  have "drained worker (log @ marks ev new) a b c ((d @ [Happened SaveEnded]) @ [Did SaveStarted]) \<and>
      saves False (a @ b @ c @ (d @ [Happened SaveEnded])) = Some False"
    using log_extend(3) [OF l(1), of "marks ev new"] l(2) saves_append [of False "a @ b @ c @ d" "[Happened SaveEnded]"] e
    by (simp add: marks_def)
  then show ?thesis using e(2) by (intro log_okI(4) [where a = a and b = b and c = c and d = "d @ [Happened SaveEnded]"]) simp_all
next
  case False
  then have f: "lf_phase s = FinalSaving" using assms(2) by simp
  then obtain a b c d where l: "drained worker log a b c (d @ [Did SaveStarted])" "saves False (a @ b @ c @ d) = Some False"
    using assms(1) by (auto simp: log_ok_def)
  have e: "ev = SaveEnded" "s' = s\<lparr>lf_phase := Finished, lf_saving := False\<rparr>" "new = [Returned]"
    using assms(3) f by (auto simp: life_step_def split: if_splits)
  have "drained worker (log @ marks ev new) a b c (d @ [Did SaveStarted, Happened SaveEnded, Did Returned]) \<and>
      saves False (a @ b @ c @ d) = Some False"
    using log_extend(3) [OF l(1), of "marks ev new"] l(2) e by (simp add: marks_def)
  then show ?thesis using e(2) by (intro log_okI(5) [where a = a and b = b and c = c and d = d]) simp_all
qed

lemma log_step:
  assumes "log_ok worker s log" and "life_step ev s = Some (s', new)"
  shows "log_ok worker s' (log @ marks ev new)"
proof (cases "lf_phase s \<in> {Serving, JoiningScheduler, DrainingStatistics} \<and> save_event ev s = Some (s', new)")
  case True
  then show ?thesis using log_save [OF assms(1)] by blast
next
  case False
  show ?thesis
  proof (cases "lf_phase s")
    case Serving
    then show ?thesis using log_serving [OF assms(1) _ assms(2)] False by simp
  next
    case JoiningScheduler
    then show ?thesis using log_stopped [OF assms(1) _ assms(2)] False by simp
  next
    case DrainingStatistics
    then show ?thesis using log_drained [OF assms(1) _ assms(2)] False by simp
  next
    case Finished
    then show ?thesis using assms(2) by (simp add: life_step_def)
  qed (use log_last_saves [OF assms(1) _ assms(2)] in simp_all)
qed

text \<open>
  C33: The order of a shutdown.  Every completed life of the server reads as follows: a request to stop or the end of
  networking; then networking is dropped and the prefetcher cancelled; the drain of the statistics starts only after the
  scheduler, if there is one, has ended; the drain ends; only then, and after every periodic save has ended, the last save
  starts; and after the end of that save nothing is done but to return.  Saves never overlap, and before the last one the
  server does nothing else.
\<close>

theorem shutdown_saves_last:
  assumes "lives worker s log" and "lf_phase s = Finished"
  shows "\<exists>before joining draining waiting.
    log = before @ [Did NetworkingDropped, Did PrefetchCancelled] @ joining @ [Did DrainStarted] @ draining @ [Happened DrainEnded] @
      waiting @ [Did SaveStarted, Happened SaveEnded, Did Returned] \<and>
    before \<noteq> [] \<and> last before \<in> {Happened ShutdownRequested, Happened NetworkingEnded} \<and>
    (worker \<longrightarrow> Happened SchedulerEnded \<in> set (before @ joining)) \<and>
    saves False (before @ joining @ draining @ waiting) = Some False"
proof -
  have "log_ok worker s log" using assms(1)
  proof (induction rule: lives.induct)
    case begin_life
    then show ?case by (simp add: log_ok_def life_start_def)
  next
    case (next_life s log ev s' new)
    then show ?case using log_step by blast
  qed
  then obtain a b c d where "drained worker log a b c (d @ [Did SaveStarted, Happened SaveEnded, Did Returned])"
      "saves False (a @ b @ c @ d) = Some False"
    using assms(2) by (auto simp: log_ok_def)
  then show ?thesis
    by (intro exI [of _ d] exI [of _ c] exI [of _ b] exI [of _ a]) (simp add: drained_def draining_def stopping_def)
qed

definition sample_life :: "mark list" where
  "sample_life =
     [Happened SaveTick, Did SaveStarted, Happened ShutdownRequested, Did NetworkingDropped, Did PrefetchCancelled,
      Happened SchedulerEnded, Did DrainStarted, Happened DrainEnded, Happened SaveEnded, Did SaveStarted, Happened SaveEnded, Did Returned]"

theorem shutdown_saves_last_witness:
  "\<exists>s before joining draining waiting.
     lives True s sample_life \<and>
     sample_life = before @ [Did NetworkingDropped, Did PrefetchCancelled] @ joining @ [Did DrainStarted] @ draining @ [Happened DrainEnded] @
       waiting @ [Did SaveStarted, Happened SaveEnded, Did Returned] \<and>
     Happened SchedulerEnded \<in> set (before @ joining) \<and>
     saves False (before @ joining @ draining @ waiting) = Some False"
proof -
  let ?s = "\<lambda>p d v. \<lparr>lf_phase = p, lf_scheduler_done = d, lf_saving = v\<rparr>"
  note go = lives.next_life [of True]
  have 0: "lives True (?s Serving False False) []" using lives.begin_life [of True] by (simp add: life_start_def)
  have 1: "lives True (?s Serving False True) ([] @ marks SaveTick [SaveStarted])"
    by (rule go [OF 0]) (simp add: life_step_def save_event_def)
  have 2: "lives True (?s JoiningScheduler False True) (([] @ marks SaveTick [SaveStarted]) @ marks ShutdownRequested [NetworkingDropped, PrefetchCancelled])"
    by (rule go [OF 1]) (simp add: life_step_def)
  note 3 = go [OF 2, of SchedulerEnded "?s DrainingStatistics True True" "[DrainStarted]"]
  note 4 = go [OF 3, of DrainEnded "?s AwaitingSave True True" "[]"]
  note 5 = go [OF 4, of SaveEnded "?s FinalSaving True True" "[SaveStarted]"]
  note 6 = go [OF 5, of SaveEnded "?s Finished True False" "[Returned]"]
  have f: "lives True (?s Finished True False) sample_life"
    using 6 by (simp add: life_step_def marks_def sample_life_def)
  from shutdown_saves_last [OF f] obtain before joining draining waiting where
    "sample_life = before @ [Did NetworkingDropped, Did PrefetchCancelled] @ joining @ [Did DrainStarted] @ draining @ [Happened DrainEnded] @
       waiting @ [Did SaveStarted, Happened SaveEnded, Did Returned]"
    "Happened SchedulerEnded \<in> set (before @ joining)" "saves False (before @ joining @ draining @ waiting) = Some False"
    by (simp only: lifecycle.simps simp_thms True_implies_equals) blast
  with f show ?thesis by blast
qed

end
