(* ===== verification/Spec2Isabelle.thy ===== *)
theory Spec2Isabelle
  imports ClientAcl Socks5Endpoint AuthSteps TempFiles Socks5Client Socks5Adapter BridgeRank ProbeDnsSteps ProbeVerdict
    AcceptLoop StoreWriter HttpFetch DnsCacheFile DnsPrefetch DnsCollector DnsServerSteps DnsLifecycle
begin

text \<open>
  A verification development for \<open>tor-socks5\<close>, a local SOCKS5 and DNS front end to the Tor network.
\<close>

end
